(* ===== verification/Prelude.thy ===== *)
theory Prelude
  imports Main "HOL-Library.Word"
begin

text \<open>
  Shared vocabulary of the development.

  Every program of the repository is compiled for two LP64 targets (the host \<^verbatim>\<open>gcc\<close> and
  \<^verbatim>\<open>alpha-unknown-linux-gnu-gcc\<close>): \<open>char\<close> 8, \<open>short\<close> 16, \<open>int\<close> 32, \<open>long\<close> 64 bits,
  two's complement, little endian, arithmetic right shift of signed values.  This theory fixes
  the names of those types and collects the lemmas on lists, bits and words that the components
  share.
\<close>

unbundle bit_operations_syntax

section \<open>C types\<close>

type_synonym u8 = "8 word"
type_synonym u16 = "16 word"
type_synonym u32 = "32 word"
type_synonym u64 = "64 word"

text \<open>\<open>long\<close> of the LP64 targets; read signed with \<open>sint\<close>, unsigned with \<open>uint\<close>/\<open>unat\<close>.\<close>

type_synonym c_long = "64 word"

named_theorems nat_bits \<open>bit operations on natural numbers in terms of div and mod\<close>

section \<open>Hexadecimal digits\<close>

text \<open>How the drivers of the ciphers read a digit of the key.\<close>

definition toupper :: "nat \<Rightarrow> nat" where
  "toupper c = (if 97 \<le> c \<and> c \<le> 122 then c - 32 else c)"

definition hex_digit :: "char \<Rightarrow> 32 word option" where
  "hex_digit c =
    (let ch = toupper (of_char c) in
     if 48 \<le> ch \<and> ch \<le> 57 then Some (of_nat ch - 48)
     else if 65 \<le> ch \<and> ch \<le> 70 then Some (of_nat ch - 65 + 10)
     else None)"

section \<open>Splitting natural numbers at a bit position\<close>

lemma nat_split_bits:
  fixes n :: nat
  shows "n = take_bit m n + 2 ^ m * drop_bit m n"
  using bits_ident[of m n] by (simp add: push_bit_eq_mult mult.commute)

lemma drop_bit_add_push_nat [nat_bits]:
  fixes a b :: nat
  assumes "a < 2 ^ m"
  shows "drop_bit m (a + 2 ^ m * b) = b"
  using assms by (simp add: drop_bit_eq_div)

lemma take_bit_add_push_nat [nat_bits]:
  fixes a b :: nat
  assumes "a < 2 ^ m"
  shows "take_bit m (a + 2 ^ m * b) = a"
  using assms by (simp add: take_bit_eq_mod)

text \<open>A mask whose low part is below \<open>2^m\<close> acts on the two parts of a number separately.\<close>

lemma nat_and_split [nat_bits]:
  fixes n a b :: nat
  assumes "a < 2 ^ m"
  shows "n AND (a + 2 ^ m * b) = (take_bit m n AND a) + 2 ^ m * (drop_bit m n AND b)"
proof -
  let ?k = "a + 2 ^ m * b"
  have "n AND ?k = take_bit m (n AND ?k) + 2 ^ m * drop_bit m (n AND ?k)"
    by (rule nat_split_bits)
  also have "take_bit m (n AND ?k) = take_bit m n AND a"
    by (simp only: take_bit_and take_bit_add_push_nat[OF assms])
  also have "drop_bit m (n AND ?k) = drop_bit m n AND b"
    by (simp only: drop_bit_and drop_bit_add_push_nat[OF assms])
  finally show ?thesis .
qed

lemma nat_and_mask [nat_bits]:
  fixes n :: nat
  shows "n AND (2 ^ w - 1) = n mod 2 ^ w"
  by (metis mask_eq_exp_minus_1 take_bit_eq_mask take_bit_eq_mod)

lemma drop_bit_nat [nat_bits]: "drop_bit m (n::nat) = n div 2 ^ m"
  by (rule drop_bit_eq_div)

lemma take_bit_nat [nat_bits]: "take_bit m (n::nat) = n mod 2 ^ m"
  by (rule take_bit_eq_mod)

section \<open>Population count\<close>

text \<open>The reference every bit counter is compared with: the number of one bits.\<close>

fun pc :: "nat \<Rightarrow> nat" where
  "pc n = (if n = 0 then 0 else n mod 2 + pc (n div 2))"

declare pc.simps [simp del]

lemma pc_0 [simp]: "pc 0 = 0"
  by (simp add: pc.simps)

lemma pc_1 [simp]: "pc 1 = 1" "pc (Suc 0) = 1"
  by (simp_all add: pc.simps[of 1] flip: One_nat_def)

lemma pc_rec: "pc n = n mod 2 + pc (n div 2)"
  by (cases "n = 0") (simp_all add: pc.simps[of n])

lemma pc_double [simp]: "pc (2 * n) = pc n"
  by (subst pc_rec) simp

lemma pc_double_Suc [simp]: "pc (Suc (2 * n)) = Suc (pc n)"
  by (subst pc_rec) simp

lemma pc_split: "pc n = pc (n mod 2 ^ k) + pc (n div 2 ^ k)"
proof (induction k arbitrary: n)
  case 0
  then show ?case by simp
next
  case (Suc k)
  have m: "n mod 2 ^ Suc k = 2 * (n div 2 mod 2 ^ k) + n mod 2"
    by (metis add.commute mod_mult2_eq power_Suc)
  have d: "n div 2 ^ Suc k = n div 2 div 2 ^ k"
    by (simp add: div_mult2_eq)
  have low: "pc (n mod 2 ^ Suc k) = n mod 2 + pc (n div 2 mod 2 ^ k)"
    unfolding m by (cases "even n") (auto simp: mod_2_eq_odd)
  show ?case
    using Suc.IH[of "n div 2"] pc_rec[of n] low d by simp
qed

lemma pc_le: "n < 2 ^ k \<Longrightarrow> pc n \<le> k"
proof (induction k arbitrary: n)
  case 0
  then show ?case by simp
next
  case (Suc k)
  then have "n div 2 < 2 ^ k" by (simp add: less_mult_imp_div_less mult.commute)
  from Suc.IH[OF this] have "pc (n div 2) \<le> k" .
  then show ?case by (subst pc_rec) (auto simp: mod_2_eq_odd)
qed

text \<open>\<open>pc\<close> is the cardinality of the set of one bits.\<close>

lemma bits_nat_double: "{i. bit (n::nat) i} = (if odd n then {0} else {}) \<union> Suc ` {i. bit (n div 2) i}"
proof (rule set_eqI)
  fix i
  show "i \<in> {i. bit n i} \<longleftrightarrow> i \<in> (if odd n then {0} else {}) \<union> Suc ` {i. bit (n div 2) i}"
    by (cases i) (auto simp: bit_0 bit_Suc)
qed

lemma finite_bits_nat: "finite {i. bit (n::nat) i}"
proof -
  have "i < n" if "bit n i" for i
  proof (rule ccontr)
    assume "\<not> i < n"
    then have "n < 2 ^ i" using less_exp[of n] by (meson less_exp not_le order_le_less_trans)
    then show False using that by (simp add: bit_iff_odd)
  qed
  then have "{i. bit n i} \<subseteq> {..<n}" by auto
  then show ?thesis by (rule finite_subset) simp
qed

lemma pc_card: "pc n = card {i. bit n i}"
proof (induction n rule: pc.induct)
  case (1 n)
  show ?case
  proof (cases "n = 0")
    case False
    have "card {i. bit n i} = card (if odd n then {0::nat} else {}) + card (Suc ` {i. bit (n div 2) i})"
      by (subst bits_nat_double, rule card_Un_disjoint) (auto simp: finite_bits_nat)
    also have "\<dots> = n mod 2 + card {i. bit (n div 2) i}"
      by (simp add: card_image mod_2_eq_odd)
    finally show ?thesis using 1[OF False] pc_rec[of n] by simp
  qed simp
qed

text \<open>Clearing the lowest set bit removes exactly one.\<close>

lemma pc_clear_lowest:
  "0 < (n::nat) \<Longrightarrow> pc (n AND (n - 1)) = pc n - 1 \<and> 0 < pc n"
proof (induction n rule: pc.induct)
  case (1 n)
  show ?case
  proof (cases "even n")
    case True
    with 1(2) obtain y where y: "n = 2 * y" "0 < y" by (auto elim: evenE)
    have "n - 1 = 1 + 2 * (y - 1)" using y by simp
    then have "n AND (n - 1) = 2 * (y AND (y - 1))"
      using nat_and_split[of 1 1 n "y - 1"] y by (simp add: drop_bit_eq_div take_bit_eq_mod)
    with 1 y show ?thesis by simp
  next
    case False
    then obtain y where y: "n = Suc (2 * y)" by (metis oddE Suc_eq_plus1)
    have "n AND (n - 1) = 2 * y"
      using nat_and_split[of 0 1 n y] y by (simp add: drop_bit_eq_div take_bit_eq_mod)
    with y show ?thesis by simp
  qed
qed

section \<open>Writing a block into an array\<close>

text \<open>\<open>write_at p ys xs\<close>: the array \<open>xs\<close> with the block \<open>ys\<close> written from index \<open>p\<close> on.\<close>

definition write_at :: "nat \<Rightarrow> 'a list \<Rightarrow> 'a list \<Rightarrow> 'a list" where
  "write_at p ys xs = take p xs @ ys @ drop (p + length ys) xs"

lemma write_at_Nil [simp]: "write_at p [] xs = xs"
  by (simp add: write_at_def)

lemma length_write_at [simp]: "p + length ys \<le> length xs \<Longrightarrow> length (write_at p ys xs) = length xs"
  by (simp add: write_at_def)

lemma write_at_snoc:
  assumes "p + length ys < length xs"
  shows "write_at p (ys @ [v]) xs = (write_at p ys xs)[p + length ys := v]"
  using assms by (simp add: write_at_def list_update_append Cons_nth_drop_Suc[symmetric])

lemma nth_write_at:
  assumes "p + length ys \<le> length xs" "i < length xs"
  shows "write_at p ys xs ! i = (if p \<le> i \<and> i < p + length ys then ys ! (i - p) else xs ! i)"
  using assms by (auto simp: write_at_def nth_append)

lemma take_write_at: "p \<le> length xs \<Longrightarrow> take (length ys) (drop p (write_at p ys xs)) = ys"
  by (simp add: write_at_def)

lemma list_all_update: "list_all P xs \<Longrightarrow> P x \<Longrightarrow> list_all P (xs[i := x])"
  using set_update_subset_insert[of xs i x] by (auto simp: list_all_iff)

lemma list_all_write_at:
  assumes "list_all P ys" "list_all P xs"
  shows "list_all P (write_at p ys xs)"
  using assms by (auto simp: write_at_def list_all_iff dest: in_set_takeD in_set_dropD)

section \<open>Words read as natural numbers\<close>

lemma unat_drop_bit: "unat (drop_bit m (x::'a::len word)) = unat x div 2 ^ m"
  by (simp add: unat_drop_bit_eq drop_bit_eq_div[of m "unat x"])

lemma bit_unat: "bit (unat (x::'a::len word)) n \<longleftrightarrow> bit x n"
  by (simp add: bit_simps)

lemma not_bit_unat_lt:
  fixes x :: "'a::len word"
  assumes "unat x < 2 ^ n"
  shows "\<not> bit x n"
  using assms by (simp add: bit_iff_odd[of "unat x"] flip: bit_unat)

lemma signed_drop_bit_nonneg:
  fixes x :: "'a::len word"
  assumes "unat x < 2 ^ (LENGTH('a) - 1)"
  shows "signed_drop_bit m x = drop_bit m x"
proof (rule bit_word_eqI)
  fix n assume "n < LENGTH('a)"
  moreover have "\<not> bit x (LENGTH('a) - Suc 0)"
    using not_bit_unat_lt[OF assms] by simp
  ultimately show "bit (signed_drop_bit m x) n = bit (drop_bit m x) n"
    by (auto simp: bit_simps dest: bit_imp_le_length)
qed

lemma unat_and_mask: "unat ((x::'a::len word) AND mask k) = unat x mod 2 ^ k"
  by (simp add: unsigned_take_bit_eq take_bit_eq_mod[of k "unat x"] flip: take_bit_eq_mask)

lemma unat_field:
  fixes x :: "'a::len word"
  assumes "M = push_bit m (mask k)" "m + k \<le> LENGTH('a)"
  shows "unat (drop_bit m (x AND M)) = unat x div 2 ^ m mod 2 ^ k"
proof -
  have "drop_bit m (x AND M) = drop_bit m x AND mask k"
    unfolding assms(1) using assms(2)
    by (intro bit_word_eqI) (auto simp: bit_simps)
  then show ?thesis
    by (simp add: unat_and_mask unat_drop_bit)
qed

lemma word_xor_cancel [simp]: "((a::'a::len word) XOR b) XOR b = a"
  by (simp add: xor.assoc)

lemma word_xor_right_inject: "(a::'a::len word) XOR c = b XOR c \<longleftrightarrow> a = b"
proof
  assume "a XOR c = b XOR c"
  then have "(a XOR c) XOR c = (b XOR c) XOR c" by (simp only:)
  then show "a = b" by (simp only: word_xor_cancel)
qed simp

section \<open>Integer division and inequalities\<close>

lemma int_le_div_iff:
  fixes a d q :: int
  assumes "0 < d"
  shows "q \<le> a div d \<longleftrightarrow> q * d \<le> a"
proof
  assume "q \<le> a div d"
  then have "q * d \<le> (a div d) * d" using assms by simp
  also have "\<dots> \<le> a" using pos_mod_sign[OF assms, of a] div_mult_mod_eq[of a d] by linarith
  finally show "q * d \<le> a" .
next
  assume "q * d \<le> a"
  from zdiv_mono1[OF this assms] show "q \<le> a div d" using assms by simp
qed

lemma int_div_less_iff:
  fixes a d q :: int
  assumes "0 < d"
  shows "a div d < q \<longleftrightarrow> a < q * d"
  using int_le_div_iff[OF assms, of q a] by linarith

section \<open>Signed C integers as \<open>int\<close>\<close>

text \<open>
  Where a component computes with signed values that provably stay in range, they are \<open>int\<close>;
  storing one in a narrower object truncates it.
\<close>

abbreviation s8 :: "int \<Rightarrow> int" where
  "s8 \<equiv> signed_take_bit 7"

abbreviation s16 :: "int \<Rightarrow> int" where
  "s16 \<equiv> signed_take_bit 15"

abbreviation s32 :: "int \<Rightarrow> int" where
  "s32 \<equiv> signed_take_bit 31"

lemma s8_id: "-128 \<le> x \<Longrightarrow> x < 128 \<Longrightarrow> s8 x = x"
  by (simp add: signed_take_bit_int_eq_self_iff)

lemma s16_id: "-32768 \<le> x \<Longrightarrow> x < 32768 \<Longrightarrow> s16 x = x"
  by (simp add: signed_take_bit_int_eq_self_iff)

lemma s32_id: "-2147483648 \<le> x \<Longrightarrow> x < 2147483648 \<Longrightarrow> s32 x = x"
  by (simp add: signed_take_bit_int_eq_self_iff)

lemma s16_range: "-32768 \<le> s16 x" "s16 x < 32768"
  using signed_take_bit_int_greater_eq_minus_exp[of 15 x] signed_take_bit_int_less_exp[of 15 x]
  by simp_all

text \<open>Arithmetic right shift of a signed value: \<open>x >> k\<close> in C.\<close>

abbreviation sar :: "nat \<Rightarrow> int \<Rightarrow> int" where
  "sar \<equiv> drop_bit"

lemma sar_div: "sar k x = x div 2 ^ k"
  by (rule drop_bit_eq_div)

end
