(* ===== verification/Bitcount.thy ===== *)
theory Bitcount
  imports Prelude
begin

text \<open>
  MiBench \<^verbatim>\<open>automotive/bitcount\<close>: the eight bit counters of \<^verbatim>\<open>bitcnt_1.c\<close> to
  \<^verbatim>\<open>bitcnt_4.c\<close> and \<^verbatim>\<open>bitcnts.c\<close>, the benchmark loop of \<^verbatim>\<open>bitcnts.c\<close>, the bit arrays of
  \<^verbatim>\<open>bitarray.c\<close> and the bit files of \<^verbatim>\<open>bitfiles.c\<close>.  \<open>long\<close> is 64 bits wide on both targets,
  so a counter whose masks or byte loads stop at 32 bits counts the low half only; the two
  recursive counters shift a signed value and do not return on negative input.
\<close>

unbundle bit_operations_syntax

section \<open>The counters\<close>

text \<open>\<^verbatim>\<open>bitcnt_1.c\<close>: a do-while loop that clears the lowest set bit.\<close>

lemma word_clear_lowest_less:
  fixes x :: "'a::len word"
  assumes "x \<noteq> 0"
  shows "unat (x AND (x - 1)) < unat x"
proof -
  have "unat (x AND (x - 1)) \<le> unat (x - 1)"
    using word_and_le1[of x "x - 1"] by (simp add: word_le_nat_alt)
  also have "\<dots> < unat x"
    using assms by (simp add: unat_gt_0 unat_minus_one)
  finally show ?thesis .
qed

text \<open>\<open>None\<close> is the overflow of \<open>x - 1\<close> at the least \<open>long\<close>, which every negative argument is cleared down to.\<close>

function bit_count_loop :: "c_long \<Rightarrow> int \<Rightarrow> int option" where
  "bit_count_loop x n =
     (if x = push_bit 63 1 then None
      else let n = n + 1; x = x AND (x - 1) in if x \<noteq> 0 then bit_count_loop x n else Some n)"
  by pat_completeness auto
termination
  by (relation "measure (\<lambda>(x, n). unat x)") (auto intro!: word_clear_lowest_less)

declare bit_count_loop.simps [simp del]

definition bit_count :: "c_long \<Rightarrow> int option" where
  "bit_count x = (let n = 0 in if x \<noteq> 0 then bit_count_loop x n else Some n)"

text \<open>\<^verbatim>\<open>bitcnt_2.c\<close>: five rounds of adding neighbouring fields.\<close>

definition bitcount :: "c_long \<Rightarrow> int" where
  "bitcount i =
    (let i = signed_drop_bit 1 (i AND 0xAAAAAAAA) + (i AND 0x55555555);
         i = signed_drop_bit 2 (i AND 0xCCCCCCCC) + (i AND 0x33333333);
         i = signed_drop_bit 4 (i AND 0xF0F0F0F0) + (i AND 0x0F0F0F0F);
         i = signed_drop_bit 8 (i AND 0xFF00FF00) + (i AND 0x00FF00FF);
         i = signed_drop_bit 16 (i AND 0xFFFF0000) + (i AND 0x0000FFFF)
     in sint (ucast i :: u32))"

text \<open>The table of \<^verbatim>\<open>bitcnt_3.c\<close>; \<^verbatim>\<open>bitcnt_4.c\<close> carries an identical copy.\<close>

definition bits :: "int list" where
  "bits =
    [
     0, 1, 1, 2, 1, 2, 2, 3, 1, 2, 2, 3, 2, 3, 3, 4,
     1, 2, 2, 3, 2, 3, 3, 4, 2, 3, 3, 4, 3, 4, 4, 5,
     1, 2, 2, 3, 2, 3, 3, 4, 2, 3, 3, 4, 3, 4, 4, 5,
     2, 3, 3, 4, 3, 4, 4, 5, 3, 4, 4, 5, 4, 5, 5, 6,
     1, 2, 2, 3, 2, 3, 3, 4, 2, 3, 3, 4, 3, 4, 4, 5,
     2, 3, 3, 4, 3, 4, 4, 5, 3, 4, 4, 5, 4, 5, 5, 6,
     2, 3, 3, 4, 3, 4, 4, 5, 3, 4, 4, 5, 4, 5, 5, 6,
     3, 4, 4, 5, 4, 5, 5, 6, 4, 5, 5, 6, 5, 6, 6, 7,
     1, 2, 2, 3, 2, 3, 3, 4, 2, 3, 3, 4, 3, 4, 4, 5,
     2, 3, 3, 4, 3, 4, 4, 5, 3, 4, 4, 5, 4, 5, 5, 6,
     2, 3, 3, 4, 3, 4, 4, 5, 3, 4, 4, 5, 4, 5, 5, 6,
     3, 4, 4, 5, 4, 5, 5, 6, 4, 5, 5, 6, 5, 6, 6, 7,
     2, 3, 3, 4, 3, 4, 4, 5, 3, 4, 4, 5, 4, 5, 5, 6,
     3, 4, 4, 5, 4, 5, 5, 6, 4, 5, 5, 6, 5, 6, 6, 7,
     3, 4, 4, 5, 4, 5, 5, 6, 4, 5, 5, 6, 5, 6, 6, 7,
     4, 5, 5, 6, 5, 6, 6, 7, 5, 6, 6, 7, 6, 7, 7, 8]"

text \<open>\<^verbatim>\<open>bitcnt_3.c\<close>\<close>

definition ntbl_bitcount :: "c_long \<Rightarrow> int" where
  "ntbl_bitcount x =
     bits ! unat (x AND 0x0000000F) +
     bits ! unat (drop_bit 4 (x AND 0x000000F0)) +
     bits ! unat (drop_bit 8 (x AND 0x00000F00)) +
     bits ! unat (drop_bit 12 (x AND 0x0000F000)) +
     bits ! unat (drop_bit 16 (x AND 0x000F0000)) +
     bits ! unat (drop_bit 20 (x AND 0x00F00000)) +
     bits ! unat (drop_bit 24 (x AND 0x0F000000)) +
     bits ! unat (drop_bit 28 (x AND 0xF0000000))"

text \<open>Byte \<open>k\<close> of the little-endian object representation of a \<open>long\<close>.\<close>

definition le_byte :: "c_long \<Rightarrow> nat \<Rightarrow> u8" where
  "le_byte x k = ucast (drop_bit (8 * k) x)"

definition BW_btbl_bitcount :: "c_long \<Rightarrow> int" where
  "BW_btbl_bitcount x =
     bits ! unat (le_byte x 0) + bits ! unat (le_byte x 1) +
     bits ! unat (le_byte x 3) + bits ! unat (le_byte x 2)"

definition AR_btbl_bitcount :: "c_long \<Rightarrow> int" where
  "AR_btbl_bitcount x =
    (let accu = bits ! unat (le_byte x 0);
         accu = accu + bits ! unat (le_byte x 1);
         accu = accu + bits ! unat (le_byte x 2);
         accu = accu + bits ! unat (le_byte x 3)
     in accu)"

text \<open>
  \<^verbatim>\<open>bitcnt_4.c\<close>: recursion on an arithmetic right shift.  \<open>None\<close> is a call that never
  returns.
\<close>

partial_function (option) ntbl_bitcnt :: "c_long \<Rightarrow> int option" where
  "ntbl_bitcnt x =
    (let cnt = bits ! unat (x AND 0xF); x = signed_drop_bit 4 x
     in if x \<noteq> 0 then Option.bind (ntbl_bitcnt x) (\<lambda>c. Some (cnt + c)) else Some cnt)"

partial_function (option) btbl_bitcnt :: "c_long \<Rightarrow> int option" where
  "btbl_bitcnt x =
    (let cnt = bits ! unat (le_byte x 0 AND 0xFF); x = signed_drop_bit 8 x
     in if x \<noteq> 0 then Option.bind (btbl_bitcnt x) (\<lambda>c. Some (cnt + c)) else Some cnt)"

text \<open>\<^verbatim>\<open>bitcnts.c\<close>: shift and count.\<close>

function bit_shifter_loop :: "c_long \<Rightarrow> nat \<Rightarrow> int \<Rightarrow> int" where
  "bit_shifter_loop x i n =
    (if x \<noteq> 0 \<and> i < 64
     then bit_shifter_loop (signed_drop_bit 1 x) (i + 1) (n + sint (x AND 1))
     else n)"
  by pat_completeness auto
termination
  by (relation "measure (\<lambda>(x, i, n). 64 - i)") auto

declare bit_shifter_loop.simps [simp del]

definition bit_shifter :: "c_long \<Rightarrow> int" where
  "bit_shifter x = bit_shifter_loop x 0 0"

section \<open>The field-adding rounds\<close>

text \<open>
  \<open>fsum w k n\<close> adds the \<open>k\<close> lowest \<open>w\<close>-bit fields of \<open>n\<close>; \<open>swar w k n\<close> replaces each pair
  of neighbouring \<open>w\<close>-bit fields by one field of twice the width holding their sum.
\<close>

fun fsum :: "nat \<Rightarrow> nat \<Rightarrow> nat \<Rightarrow> nat" where
  "fsum w 0 n = 0"
| "fsum w (Suc k) n = n mod 2 ^ w + fsum w k (n div 2 ^ w)"

fun swar :: "nat \<Rightarrow> nat \<Rightarrow> nat \<Rightarrow> nat" where
  "swar w 0 n = 0"
| "swar w (Suc k) n =
     (n mod 2 ^ w + n div 2 ^ w mod 2 ^ w) + 2 ^ (2 * w) * swar w k (n div 2 ^ (2 * w))"

fun lomask :: "nat \<Rightarrow> nat \<Rightarrow> nat" where
  "lomask w 0 = 0"
| "lomask w (Suc k) = (2 ^ w - 1) + 2 ^ (2 * w) * lomask w k"

lemma pair_sum_fits:
  fixes n :: nat
  assumes "0 < w"
  shows "n mod 2 ^ w + m mod 2 ^ w < 2 ^ (2 * w)"
proof -
  have "n mod 2 ^ w + m mod 2 ^ w < 2 ^ w + 2 ^ w"
    by (intro add_strict_mono) simp_all
  also have "\<dots> \<le> 2 ^ (2 * w)"
    using assms power_increasing[of "Suc w" "2 * w" "2::nat"] by simp
  finally show ?thesis .
qed

lemma fsum_swar: "0 < w \<Longrightarrow> fsum (2 * w) k (swar w k n) = fsum w (2 * k) n"
proof (induction k arbitrary: n)
  case 0
  then show ?case by simp
next
  case (Suc k)
  let ?s = "n mod 2 ^ w + n div 2 ^ w mod 2 ^ w"
  have s: "?s < 2 ^ (2 * w)" using Suc.prems by (rule pair_sum_fits)
  have d: "n div 2 ^ w div 2 ^ w = n div 2 ^ (2 * w)"
    by (simp add: div_mult2_eq mult_2 power_add)
  show ?case
    using Suc s d by (simp add: mult_2[of k])
qed

lemma fsum_1: "fsum 1 k n = pc (n mod 2 ^ k)"
proof (induction k arbitrary: n)
  case 0
  then show ?case by simp
next
  case (Suc k)
  have "n mod 2 ^ Suc k mod 2 = n mod 2" by (simp add: mod_mod_cancel)
  moreover have "n mod 2 ^ Suc k div 2 = n div 2 mod 2 ^ k"
    by (simp add: mod_mult2_eq)
  ultimately show ?case
    unfolding pc_rec[of "n mod 2 ^ Suc k"] using Suc by simp
qed

lemma and_lomask:
  "(n AND lomask w k) + (n div 2 ^ w AND lomask w k) = swar w k n"
proof (induction k arbitrary: n)
  case 0
  then show ?case by simp
next
  case (Suc k)
  let ?q = "n div 2 ^ (2 * w)"
  have lt: "(2 ^ w - 1 :: nat) < 2 ^ (2 * w)"
    by (rule less_le_trans[of _ "2 ^ w"]) simp_all
  have t: "take_bit (2 * w) m AND (2 ^ w - 1) = m mod 2 ^ w" for m :: nat
    unfolding nat_and_mask by (simp add: take_bit_nat mod_mod_cancel le_imp_power_dvd)
  have d: "n div 2 ^ w div 2 ^ (2 * w) = ?q div 2 ^ w"
    by (simp add: mult.commute flip: div_mult2_eq)
  have 1: "n AND lomask w (Suc k) = n mod 2 ^ w + 2 ^ (2 * w) * (?q AND lomask w k)"
    unfolding lomask.simps nat_and_split[OF lt] t drop_bit_nat ..
  have 2: "n div 2 ^ w AND lomask w (Suc k)
      = n div 2 ^ w mod 2 ^ w + 2 ^ (2 * w) * (?q div 2 ^ w AND lomask w k)"
    unfolding lomask.simps nat_and_split[OF lt] t drop_bit_nat d ..
  show ?case
    unfolding 1 2 swar.simps Suc.IH[of ?q, symmetric] distrib_left by simp
qed

lemma swar_word:
  fixes i :: c_long
  assumes H: "unat H = 2 ^ w * lomask w k" and L: "unat L = lomask w k"
    and "unat H < 2 ^ 62"
  shows "unat (signed_drop_bit w (i AND H) + (i AND L)) = swar w k (unat i)"
proof -
  have hi: "unat (i AND H) \<le> unat H" and lo: "unat (i AND L) \<le> unat L"
    using word_and_le1[of i H] word_and_le1[of i L] by (simp_all add: word_le_nat_alt)
  have LH: "unat L \<le> unat H" by (simp add: H L)
  have "signed_drop_bit w (i AND H) = drop_bit w (i AND H)"
    using hi assms(3) by (intro signed_drop_bit_nonneg) simp
  moreover have "unat (drop_bit w (i AND H)) = unat i div 2 ^ w AND lomask w k"
    using nat_and_split[of 0 w "unat i" "lomask w k"]
    by (simp add: unat_drop_bit unsigned_and_eq H drop_bit_nat)
  moreover have "unat (drop_bit w (i AND H)) \<le> unat H"
    unfolding unat_drop_bit using hi by (meson div_le_dividend le_trans)
  moreover have "unat (i AND L) = unat i AND lomask w k"
    by (simp add: unsigned_and_eq L)
  ultimately show ?thesis
    using lo LH assms(3) and_lomask[of "unat i" w k] by (simp add: unat_word_ariths)
qed

lemma swar_last: "swar w (Suc 0) n = n mod 2 ^ w + n div 2 ^ w mod 2 ^ w"
  by simp

lemma swar_rounds:
  "swar 16 (Suc 0) (swar 8 2 (swar 4 4 (swar 2 8 (swar (Suc 0) 16 n)))) = pc (n mod 2 ^ 32)"
proof -
  let ?m = "swar 8 2 (swar 4 4 (swar 2 8 (swar (Suc 0) 16 n)))"
  have "fsum 32 (Suc 0) (swar 16 (Suc 0) ?m) = fsum (Suc 0) 32 n"
    using fsum_swar[of 16 "Suc 0" ?m] fsum_swar[of 8 2] fsum_swar[of 4 4]
      fsum_swar[of 2 8] fsum_swar[of "Suc 0" 16 n] by simp
  moreover have "swar 16 (Suc 0) ?m < 2 ^ 32"
    using pair_sum_fits[of 16 ?m "?m div 2 ^ 16"] unfolding swar_last by simp
  ultimately show ?thesis using fsum_1[of 32 n] by (simp del: swar.simps)
qed

lemma lomask_numeral:
  "lomask w (numeral k) = (2 ^ w - 1) + 2 ^ (2 * w) * lomask w (pred_numeral k)"
  by (simp add: numeral_eq_Suc)

lemma lomask_values:
  "lomask (Suc 0) 16 = 0x55555555" "lomask 2 8 = 0x33333333" "lomask 4 4 = 0x0F0F0F0F"
  "lomask 8 2 = 0x00FF00FF" "lomask 16 (Suc 0) = 0x0000FFFF"
  by (simp_all add: lomask_numeral)

text \<open>One round of \<open>bitcount\<close>, for each of its five pairs of masks.\<close>

lemma swar_masks:
  fixes i :: c_long
  shows "unat (signed_drop_bit 1 (i AND 0xAAAAAAAA) + (i AND 0x55555555)) = swar (Suc 0) 16 (unat i)"
    and "unat (signed_drop_bit 2 (i AND 0xCCCCCCCC) + (i AND 0x33333333)) = swar 2 8 (unat i)"
    and "unat (signed_drop_bit 4 (i AND 0xF0F0F0F0) + (i AND 0x0F0F0F0F)) = swar 4 4 (unat i)"
    and "unat (signed_drop_bit 8 (i AND 0xFF00FF00) + (i AND 0x00FF00FF)) = swar 8 2 (unat i)"
    and "unat (signed_drop_bit 16 (i AND 0xFFFF0000) + (i AND 0x0000FFFF)) = swar 16 (Suc 0) (unat i)"
      apply (simp only: One_nat_def, rule swar_word; simp add: lomask_values)
     apply (rule swar_word; simp add: lomask_values)
    apply (rule swar_word; simp add: lomask_values)
   apply (rule swar_word; simp add: lomask_values)
  apply (rule swar_word; simp add: lomask_values)
  done

lemma sint_ucast_small:
  fixes i :: c_long
  assumes "unat i < 2 ^ 31"
  shows "sint (ucast i :: u32) = int (unat i)"
proof -
  have u: "int (unat i) < 2 ^ 31"
    using assms[THEN of_nat_less_iff[where ?'a = int, THEN iffD2]] by (simp only: of_nat_power of_nat_numeral)
  then have "uint (ucast i :: u32) = int (unat i)"
    by (simp add: unsigned_ucast_eq take_bit_int_eq_self)
  then show ?thesis using u
    by (simp add: sint_uint signed_take_bit_int_eq_self_iff order_trans[of "- 2147483648" 0])
qed

lemma bitcount_correct: "bitcount x = int (pc (unat x mod 2 ^ 32))"
proof -
  have le: "pc (unat x mod 2 ^ 32) \<le> 32" by (rule pc_le) simp
  show ?thesis
    unfolding bitcount_def Let_def
    by (subst sint_ucast_small; unfold swar_masks swar_rounds) (use le in simp_all)
qed

section \<open>The table-driven counters\<close>

lemma bits_eq: "bits = map (\<lambda>k. int (pc k)) [0..<256]"
  unfolding bits_def by code_simp

lemma bits_nth: "k < 256 \<Longrightarrow> bits ! k = int (pc k)"
  by (simp add: bits_eq)

lemma pc_mod_split: "pc (n mod 2 ^ (a + b)) = pc (n mod 2 ^ a) + pc (n div 2 ^ a mod 2 ^ b)"
proof -
  have "n mod 2 ^ (a + b) mod 2 ^ a = n mod 2 ^ a"
    by (simp add: mod_mod_cancel le_imp_power_dvd)
  moreover have "n mod 2 ^ (a + b) div 2 ^ a = n div 2 ^ a mod 2 ^ b"
    by (simp add: power_add mod_mult2_eq)
  ultimately show ?thesis using pc_split[of "n mod 2 ^ (a + b)" a] by simp
qed

lemma pc_nibbles:
  "pc (n mod 2 ^ 32) = pc (n mod 2 ^ 4) + pc (n div 2 ^ 4 mod 2 ^ 4) + pc (n div 2 ^ 8 mod 2 ^ 4)
     + pc (n div 2 ^ 12 mod 2 ^ 4) + pc (n div 2 ^ 16 mod 2 ^ 4) + pc (n div 2 ^ 20 mod 2 ^ 4)
     + pc (n div 2 ^ 24 mod 2 ^ 4) + pc (n div 2 ^ 28 mod 2 ^ 4)"
  unfolding pc_mod_split[of n 28 4, unfolded numeral_plus_numeral add_num_simps]
    pc_mod_split[of n 24 4, unfolded numeral_plus_numeral add_num_simps]
    pc_mod_split[of n 20 4, unfolded numeral_plus_numeral add_num_simps]
    pc_mod_split[of n 16 4, unfolded numeral_plus_numeral add_num_simps]
    pc_mod_split[of n 12 4, unfolded numeral_plus_numeral add_num_simps]
    pc_mod_split[of n 8 4, unfolded numeral_plus_numeral add_num_simps]
    pc_mod_split[of n 4 4, unfolded numeral_plus_numeral add_num_simps] ..

lemma pc_bytes:
  "pc (n mod 2 ^ 32) = pc (n mod 2 ^ 8) + pc (n div 2 ^ 8 mod 2 ^ 8)
     + pc (n div 2 ^ 16 mod 2 ^ 8) + pc (n div 2 ^ 24 mod 2 ^ 8)"
  unfolding pc_mod_split[of n 24 8, unfolded numeral_plus_numeral add_num_simps]
    pc_mod_split[of n 16 8, unfolded numeral_plus_numeral add_num_simps]
    pc_mod_split[of n 8 8, unfolded numeral_plus_numeral add_num_simps] ..

lemma unat_nibbles:
  fixes x :: c_long
  shows "unat (x AND 0x0000000F) = unat x mod 2 ^ 4"
    and "unat (drop_bit 4 (x AND 0x000000F0)) = unat x div 2 ^ 4 mod 2 ^ 4"
    and "unat (drop_bit 8 (x AND 0x00000F00)) = unat x div 2 ^ 8 mod 2 ^ 4"
    and "unat (drop_bit 12 (x AND 0x0000F000)) = unat x div 2 ^ 12 mod 2 ^ 4"
    and "unat (drop_bit 16 (x AND 0x000F0000)) = unat x div 2 ^ 16 mod 2 ^ 4"
    and "unat (drop_bit 20 (x AND 0x00F00000)) = unat x div 2 ^ 20 mod 2 ^ 4"
    and "unat (drop_bit 24 (x AND 0x0F000000)) = unat x div 2 ^ 24 mod 2 ^ 4"
    and "unat (drop_bit 28 (x AND 0xF0000000)) = unat x div 2 ^ 28 mod 2 ^ 4"
  using unat_field[of "0xF" 0 4 x]
        apply (simp add: mask_eq_exp_minus_1)
  by (rule unat_field; simp add: mask_eq_exp_minus_1)+

lemma unat_le_byte: "unat (le_byte x k) = unat x div 2 ^ (8 * k) mod 2 ^ 8"
  by (simp add: le_byte_def unsigned_ucast_eq unat_drop_bit take_bit_nat)

lemma bits_field: "bits ! (m mod 2 ^ 4) = int (pc (m mod 2 ^ 4))" "bits ! (m mod 2 ^ 8) = int (pc (m mod 2 ^ 8))"
  by (rule bits_nth, rule less_le_trans[of _ "2 ^ 4"], simp_all) (rule bits_nth, simp)

lemma ntbl_bitcount_correct: "ntbl_bitcount x = int (pc (unat x mod 2 ^ 32))"
  unfolding ntbl_bitcount_def unat_nibbles pc_nibbles bits_field of_nat_add ..

lemma byte_offsets:
  "n div 2 ^ (8 * 0) = (n::nat)" "8 * (1::nat) = 8" "8 * (2::nat) = 16" "8 * (3::nat) = 24"
  by simp_all

lemma BW_btbl_bitcount_correct: "BW_btbl_bitcount x = int (pc (unat x mod 2 ^ 32))"
  unfolding BW_btbl_bitcount_def unat_le_byte byte_offsets pc_bytes bits_field of_nat_add
  by (simp only: ac_simps)

lemma AR_btbl_bitcount_correct: "AR_btbl_bitcount x = int (pc (unat x mod 2 ^ 32))"
  unfolding AR_btbl_bitcount_def Let_def unat_le_byte byte_offsets pc_bytes bits_field of_nat_add ..

section \<open>The loop counters\<close>

lemma unat_signed_drop_bit:
  fixes x :: c_long
  assumes "unat x < 2 ^ 63"
  shows "unat (signed_drop_bit m x) = unat x div 2 ^ m"
  using assms by (simp add: signed_drop_bit_nonneg unat_drop_bit)

lemma top_bit: "bit x 63 \<longleftrightarrow> 2 ^ 63 \<le> unat x" for x :: c_long
proof
  assume "2 ^ 63 \<le> unat x"
  moreover have "unat x < 2 * 2 ^ 63" using unsigned_less[of x, where ?'a = nat] by simp
  ultimately have "unat x div 2 ^ 63 = 1"
    by (intro div_nat_eqI) (simp_all del: power.simps)
  then show "bit x 63" by (simp add: bit_iff_odd[of "unat x"] flip: bit_unat)
qed (metis not_bit_unat_lt not_le)

lemma signed_drop_bit_neg:
  fixes x :: c_long
  assumes "2 ^ 63 \<le> unat x"
  shows "2 ^ 63 \<le> unat (signed_drop_bit m x)"
proof -
  have "bit (signed_drop_bit m x) 63"
    using assms unfolding top_bit[symmetric] by (cases m) (auto simp: bit_simps)
  then show ?thesis by (simp only: top_bit)
qed

lemma nonneg_iff: "0 \<le> sint x \<longleftrightarrow> unat x < 2 ^ 63" for x :: c_long
  using bit_last_iff[of x] top_bit[of x] by (auto simp: not_le)

lemma unat_push_bit_one: "unat (push_bit 63 1 :: c_long) = 2 ^ 63"
  by simp

lemma bit_count_loop_correct: "x \<noteq> 0 \<Longrightarrow> bit_count_loop x n = (if 0 \<le> sint x then Some (n + int (pc (unat x))) else None)"
proof (induction x n rule: bit_count_loop.induct)
  case (1 x n)
  let ?y = "x AND (x - 1)"
  have pos: "0 < unat x" using 1(2) by (simp add: unat_gt_0)
  have m: "unat (x - 1) = unat x - 1" using 1(2) by (simp add: unat_minus_one)
  then have y: "pc (unat ?y) = pc (unat x) - 1" "0 < pc (unat x)"
    using pc_clear_lowest[OF pos] by (simp_all add: unsigned_and_eq)
  show ?case
  proof (cases "x = push_bit 63 1")
    case True
    then have "bit_count_loop x n = None" by (subst bit_count_loop.simps) (simp only: refl if_True)
    moreover have "\<not> 0 \<le> sint x" unfolding nonneg_iff True unat_push_bit_one by simp
    ultimately show ?thesis by simp
  next
    case ne: False
    show ?thesis
    proof (cases "0 \<le> sint x")
      case True
      then have "0 \<le> sint ?y" using word_clear_lowest_less[OF 1(2)] by (simp add: nonneg_iff)
      moreover have "pc (unat x) = 1" if "?y = 0" using y that by simp
      ultimately show ?thesis using 1(1)[OF ne refl refl] y True ne by (auto simp: bit_count_loop.simps[of x n] Let_def)
    next
      case False
      then have "2 ^ 63 \<le> unat x" by (simp add: nonneg_iff)
      moreover have "unat x \<noteq> 2 ^ 63" using ne by (metis unat_push_bit_one word_unat_eq_iff)
      ultimately have "bit x 63" "bit (x - 1) 63" by (simp_all add: top_bit m)
      then have b: "bit ?y 63" by (simp add: bit_simps)
      then have "?y \<noteq> 0" "\<not> 0 \<le> sint ?y" by (auto simp: nonneg_iff top_bit not_less)
      with 1(1)[OF ne refl refl] False ne show ?thesis by (simp add: bit_count_loop.simps[of x n] Let_def)
    qed
  qed
qed

lemma bit_count_correct: "bit_count x = (if 0 \<le> sint x then Some (int (pc (unat x))) else None)"
  by (simp add: bit_count_def bit_count_loop_correct)

text \<open>
  The recursive counters return exactly on non-negative input, and then count all 64 bits.
\<close>

lemma ntbl_bitcnt_nonneg: "unat x < 2 ^ 63 \<Longrightarrow> ntbl_bitcnt x = Some (int (pc (unat x)))"
proof (induction "unat x" arbitrary: x rule: less_induct)
  case less
  let ?y = "signed_drop_bit 4 x"
  have y: "unat ?y = unat x div 2 ^ 4" using less.prems by (rule unat_signed_drop_bit)
  have p: "pc (unat x) = pc (unat x mod 2 ^ 4) + pc (unat ?y)" unfolding y by (rule pc_split)
  have b: "bits ! unat (x AND 0xF) = int (pc (unat x mod 2 ^ 4))"
    unfolding unat_nibbles(1) bits_field ..
  show ?case
  proof (cases "?y = 0")
    case True
    then show ?thesis using p b by (subst ntbl_bitcnt.simps) (simp add: Let_def)
  next
    case False
    then have "unat x div 2 ^ 4 \<noteq> 0" using y by (metis unat_eq_zero)
    then have "unat ?y < unat x" unfolding y by simp
    moreover have "unat ?y < 2 ^ 63" unfolding y using less.prems by (meson div_le_dividend le_less_trans)
    ultimately have "ntbl_bitcnt ?y = Some (int (pc (unat ?y)))" by (rule less.hyps)
    with False show ?thesis using p b by (subst ntbl_bitcnt.simps) (simp add: Let_def)
  qed
qed

lemma ntbl_bitcnt_returns: "ntbl_bitcnt x = Some r \<Longrightarrow> unat x < 2 ^ 63"
proof (rule ntbl_bitcnt.raw_induct[where P = "\<lambda>x r. unat x < 2 ^ 63"])
  fix f :: "c_long \<Rightarrow> int option" and x r
  assume IH: "\<And>x r. f x = Some r \<Longrightarrow> unat x < 2 ^ 63"
    and eq: "(let cnt = bits ! unat (x AND 0xF); x = signed_drop_bit 4 x
      in if x \<noteq> 0 then Option.bind (f x) (\<lambda>c. Some (cnt + c)) else Some cnt) = Some r"
  show "unat x < 2 ^ 63"
  proof (rule ccontr)
    assume "\<not> unat x < 2 ^ 63"
    then have neg: "2 ^ 63 \<le> unat (signed_drop_bit 4 x)" by (simp only: not_less signed_drop_bit_neg)
    then have "signed_drop_bit 4 x \<noteq> 0" by auto
    with eq obtain c where "f (signed_drop_bit 4 x) = Some c"
      by (auto simp: Let_def bind_eq_Some_conv)
    then have "unat (signed_drop_bit 4 x) < 2 ^ 63" by (rule IH)
    with neg show False by (meson not_less)
  qed
qed

lemma ntbl_bitcnt_correct:
  "ntbl_bitcnt x = (if 0 \<le> sint x then Some (int (pc (unat x))) else None)"
  unfolding nonneg_iff using ntbl_bitcnt_nonneg ntbl_bitcnt_returns by (metis not_None_eq)

lemma btbl_bitcnt_nonneg: "unat x < 2 ^ 63 \<Longrightarrow> btbl_bitcnt x = Some (int (pc (unat x)))"
proof (induction "unat x" arbitrary: x rule: less_induct)
  case less
  let ?y = "signed_drop_bit 8 x"
  have y: "unat ?y = unat x div 2 ^ 8" using less.prems by (rule unat_signed_drop_bit)
  have p: "pc (unat x) = pc (unat x mod 2 ^ 8) + pc (unat ?y)" unfolding y by (rule pc_split)
  have "le_byte x 0 AND 0xFF = le_byte x 0"
    using take_bit_length_eq[of "le_byte x 0"] by (simp add: take_bit_eq_mask mask_eq_exp_minus_1)
  then have b: "bits ! unat (le_byte x 0 AND 0xFF) = int (pc (unat x mod 2 ^ 8))"
    using bits_field(2)[of "unat x"] unat_le_byte[of x 0] by simp
  show ?case
  proof (cases "?y = 0")
    case True
    then show ?thesis using p b by (subst btbl_bitcnt.simps) (simp add: Let_def)
  next
    case False
    then have "unat x div 2 ^ 8 \<noteq> 0" using y by (metis unat_eq_zero)
    then have "unat ?y < unat x" unfolding y by simp
    moreover have "unat ?y < 2 ^ 63" unfolding y using less.prems by (meson div_le_dividend le_less_trans)
    ultimately have "btbl_bitcnt ?y = Some (int (pc (unat ?y)))" by (rule less.hyps)
    with False show ?thesis using p b by (subst btbl_bitcnt.simps) (simp add: Let_def)
  qed
qed

lemma btbl_bitcnt_returns: "btbl_bitcnt x = Some r \<Longrightarrow> unat x < 2 ^ 63"
proof (rule btbl_bitcnt.raw_induct[where P = "\<lambda>x r. unat x < 2 ^ 63"])
  fix f :: "c_long \<Rightarrow> int option" and x r
  assume IH: "\<And>x r. f x = Some r \<Longrightarrow> unat x < 2 ^ 63"
    and eq: "(let cnt = bits ! unat (le_byte x 0 AND 0xFF); x = signed_drop_bit 8 x
      in if x \<noteq> 0 then Option.bind (f x) (\<lambda>c. Some (cnt + c)) else Some cnt) = Some r"
  show "unat x < 2 ^ 63"
  proof (rule ccontr)
    assume "\<not> unat x < 2 ^ 63"
    then have neg: "2 ^ 63 \<le> unat (signed_drop_bit 8 x)" by (simp only: not_less signed_drop_bit_neg)
    then have "signed_drop_bit 8 x \<noteq> 0" by auto
    with eq obtain c where "f (signed_drop_bit 8 x) = Some c"
      by (auto simp: Let_def bind_eq_Some_conv)
    then have "unat (signed_drop_bit 8 x) < 2 ^ 63" by (rule IH)
    with neg show False by (meson not_less)
  qed
qed

lemma btbl_bitcnt_correct:
  "btbl_bitcnt x = (if 0 \<le> sint x then Some (int (pc (unat x))) else None)"
  unfolding nonneg_iff using btbl_bitcnt_nonneg btbl_bitcnt_returns by (metis not_None_eq)

text \<open>
  The shifting counter: after \<open>i\<close> rounds the value is the original shifted by \<open>i\<close>, so its low
  bit is bit \<open>i\<close> of the original, for negative values too.
\<close>

lemma sint_and_1: "sint (x AND 1) = of_bool (bit x 0)" for x :: c_long
  by (cases "bit x 0") (simp_all add: and_one_eq bit_0 mod_2_eq_odd)

lemma bit_shifter_loop_correct:
  assumes "i \<le> 64"
  shows "bit_shifter_loop (signed_drop_bit i x) i n = n + int (card {j. i \<le> j \<and> j < 64 \<and> bit x j})"
  using assms
proof (induction "64 - i" arbitrary: i n)
  case 0
  then have "{j. i \<le> j \<and> j < 64 \<and> bit x j} = {}" by auto
  with 0 show ?case by (simp add: bit_shifter_loop.simps)
next
  case (Suc k)
  then have i: "i < 64" by simp
  let ?S = "\<lambda>i. {j. i \<le> j \<and> j < 64 \<and> bit x j}"
  have S: "?S i = (if bit x i then insert i (?S (i + 1)) else ?S (i + 1))"
    using i by (auto simp: Suc_le_eq le_less)
  have fin: "finite (?S m)" for m by simp
  have card: "int (card (?S i)) = of_bool (bit x i) + int (card (?S (i + 1)))"
    unfolding S by (simp add: card_insert_if fin)
  show ?case
  proof (cases "signed_drop_bit i x = 0")
    case True
    have "\<not> bit x j" if "i \<le> j" "j < 64" for j
      using arg_cong[OF True, of "\<lambda>w. bit w (j - i)"] that i by (auto simp: bit_simps split: if_splits)
    then have "?S i = {}" by auto
    with True show ?thesis by (simp add: bit_shifter_loop.simps)
  next
    case False
    have "bit (signed_drop_bit i x) 0 = bit x i"
      using i by (simp add: bit_simps)
    moreover have "signed_drop_bit 1 (signed_drop_bit i x) = signed_drop_bit (i + 1) x"
      by (simp add: add.commute)
    ultimately show ?thesis
      using Suc.hyps(1)[of "i + 1" "n + of_bool (bit x i)"] Suc.hyps(2) i False card
      by (subst bit_shifter_loop.simps) (simp add: sint_and_1)
  qed
qed

lemma bit_shifter_correct: "bit_shifter x = int (pc (unat x))"
proof -
  have "{j. 0 \<le> j \<and> j < 64 \<and> bit x j} = {j. bit (unat x) j}"
    by (auto simp: bit_unat dest: bit_imp_le_length)
  then show ?thesis
    using bit_shifter_loop_correct[of 0 x 0] by (simp add: bit_shifter_def pc_card)
qed

section \<open>The benchmark loop\<close>

text \<open>
  \<^verbatim>\<open>bitcnts.c\<close>, the body of the loop over \<open>pBitCntFunc\<close>:
  \<^verbatim>\<open>for (j = n = 0, seed = rand(); j < iterations; j++, seed += 13) n += f(seed);\<close>
  with the seed drawn by \<open>rand()\<close> and the number of iterations as arguments.  A counter that does
  not return makes the loop not return.
\<close>

fun bench :: "(c_long \<Rightarrow> int option) \<Rightarrow> nat \<Rightarrow> c_long \<Rightarrow> c_long \<Rightarrow> c_long option" where
  "bench f 0 seed n = Some n"
| "bench f (Suc j) seed n =
     (case f seed of None \<Rightarrow> None | Some c \<Rightarrow> bench f j (seed + 13) (n + word_of_int c))"

definition pBitCntFunc :: "(c_long \<Rightarrow> int option) list" where
  "pBitCntFunc =
    [bit_count, Some \<circ> bitcount, ntbl_bitcnt, Some \<circ> ntbl_bitcount,
     Some \<circ> BW_btbl_bitcount, Some \<circ> AR_btbl_bitcount, Some \<circ> bit_shifter]"

text \<open>What the benchmark relies on: a counter is right on values below \<open>2^32\<close>.\<close>

locale bit_counter =
  fixes count :: "c_long \<Rightarrow> int option"
  assumes counts: "unat x < 2 ^ 32 \<Longrightarrow> count x = Some (int (pc (unat x)))"
begin

lemma bench_total:
  "unat seed + 13 * k < 2 ^ 32 \<Longrightarrow>
   bench count k seed n = Some (n + of_nat (\<Sum>j<k. pc (unat seed + 13 * j)))"
proof (induction k arbitrary: seed n)
  case 0
  then show ?case by simp
next
  case (Suc k)
  have next_seed: "unat (seed + 13) = unat seed + 13"
    using Suc.prems by (simp add: unat_word_ariths)
  have "bench count (Suc k) seed n = bench count k (seed + 13) (n + of_nat (pc (unat seed)))"
    using counts[of seed] Suc.prems by simp
  also have "\<dots> = Some (n + of_nat (pc (unat seed)) + of_nat (\<Sum>j<k. pc (unat seed + 13 + 13 * j)))"
    using Suc.IH[of "seed + 13"] Suc.prems next_seed by simp
  finally show ?case
    by (simp add: sum.lessThan_Suc_shift add.assoc del: sum.lessThan_Suc)
qed

end

lemma pc_low_half: "n < 2 ^ 32 \<Longrightarrow> pc (n mod 2 ^ 32) = pc n"
  by simp

lemma nonneg_low_half: "unat x < 2 ^ 32 \<Longrightarrow> 0 \<le> sint x" for x :: c_long
  unfolding nonneg_iff by (rule less_trans[of _ "2 ^ 32"]) simp_all

lemmas counter_facts = bit_count_correct bitcount_correct ntbl_bitcnt_correct
  ntbl_bitcount_correct BW_btbl_bitcount_correct AR_btbl_bitcount_correct bit_shifter_correct
  pc_low_half nonneg_low_half

interpretation c_bit_count: bit_counter bit_count
  by unfold_locales (simp only: counter_facts if_True)

interpretation c_bitcount: bit_counter "Some \<circ> bitcount"
  by unfold_locales (simp only: counter_facts o_apply)

interpretation c_ntbl_bitcnt: bit_counter ntbl_bitcnt
  by unfold_locales (simp only: counter_facts if_True)

interpretation c_ntbl_bitcount: bit_counter "Some \<circ> ntbl_bitcount"
  by unfold_locales (simp only: counter_facts o_apply)

interpretation c_BW_btbl_bitcount: bit_counter "Some \<circ> BW_btbl_bitcount"
  by unfold_locales (simp only: counter_facts o_apply)

interpretation c_AR_btbl_bitcount: bit_counter "Some \<circ> AR_btbl_bitcount"
  by unfold_locales (simp only: counter_facts o_apply)

interpretation c_bit_shifter: bit_counter "Some \<circ> bit_shifter"
  by unfold_locales (simp only: counter_facts o_apply)

lemma pBitCntFunc_counters: "f \<in> set pBitCntFunc \<Longrightarrow> bit_counter f"
  unfolding pBitCntFunc_def
  using c_bit_count.bit_counter_axioms c_bitcount.bit_counter_axioms
    c_ntbl_bitcnt.bit_counter_axioms c_ntbl_bitcount.bit_counter_axioms
    c_BW_btbl_bitcount.bit_counter_axioms c_AR_btbl_bitcount.bit_counter_axioms
    c_bit_shifter.bit_counter_axioms
  by auto

section \<open>Bit arrays\<close>

text \<open>
  \<^verbatim>\<open>bitarray.c\<close>: an array of bits in an array of \<open>char\<close>.  An access outside the array is
  \<open>None\<close> (the C code reads or writes foreign memory there).
\<close>

definition alloc_bit_array :: "nat \<Rightarrow> u8 list" where
  "alloc_bit_array nbits = replicate ((nbits + 8 - 1) div 8) 0"

definition getbit :: "u8 list \<Rightarrow> nat \<Rightarrow> bool option" where
  "getbit a number =
    (let k = number div 8 in
     if k < length a then Some (a ! k AND push_bit (number mod 8) 1 \<noteq> 0) else None)"

definition setbit :: "u8 list \<Rightarrow> nat \<Rightarrow> int \<Rightarrow> u8 list option" where
  "setbit a number value =
    (let k = number div 8 in
     if k < length a
     then Some (a[k := (if value \<noteq> 0 then a ! k OR push_bit (number mod 8) 1
                          else a ! k AND NOT (push_bit (number mod 8) 1))])
     else None)"

definition flipbit :: "u8 list \<Rightarrow> nat \<Rightarrow> u8 list option" where
  "flipbit a number =
    (let k = number div 8 in
     if k < length a then Some (a[k := a ! k XOR push_bit (number mod 8) 1]) else None)"

lemma and_single_bit: "(w::u8) AND push_bit k 1 \<noteq> 0 \<longleftrightarrow> bit w k"
  by (simp add: bit_iff_and_push_bit_not_eq_0)

lemma getbit_in_range: "n < 8 * length a \<Longrightarrow> getbit a n = Some (bit (a ! (n div 8)) (n mod 8))"
  unfolding getbit_def and_single_bit by (auto simp: Let_def less_mult_imp_div_less mult.commute)

lemma same_byte_and_bit: "(m::nat) div 8 = n div 8 \<Longrightarrow> m mod 8 = n mod 8 \<longleftrightarrow> m = n"
  by (metis div_mult_mod_eq)

lemma setbit_shape:
  "setbit a n v = Some a' \<Longrightarrow> n div 8 < length a \<and> length a' = length a"
  by (auto simp: setbit_def Let_def split: if_splits)

lemma flipbit_shape:
  "flipbit a n = Some a' \<Longrightarrow> n div 8 < length a \<and> length a' = length a"
  by (auto simp: flipbit_def Let_def split: if_splits)

lemma getbit_setbit:
  assumes "setbit a n v = Some a'"
  shows "getbit a' m = (if m = n then Some (v \<noteq> 0) else getbit a m)"
  using assms setbit_shape[OF assms] same_byte_and_bit[of m n] unfolding getbit_def and_single_bit
  by (auto simp: setbit_def Let_def nth_list_update bit_simps split: if_splits)

lemma getbit_flipbit:
  assumes "flipbit a n = Some a'"
  shows "getbit a' m = (if m = n then map_option Not (getbit a m) else getbit a m)"
  using assms flipbit_shape[OF assms] same_byte_and_bit[of m n] unfolding getbit_def and_single_bit
  by (auto simp: flipbit_def Let_def nth_list_update bit_simps split: if_splits)

lemma alloc_bit_array_clear: "n < k \<Longrightarrow> getbit (alloc_bit_array k) n = Some False"
  by (auto simp: getbit_def alloc_bit_array_def Let_def)

section \<open>Bit files\<close>

text \<open>
  \<^verbatim>\<open>bitfiles.c\<close>: bit-at-a-time access to a byte stream.  The \<open>FILE\<close> is the list of bytes still
  to be read and the list of bytes written so far; \<open>fgetc\<close> at end of file gives \<open>EOF\<close>, which
  the code stores as the byte 255.  \<open>bfopen\<close> leaves the two buffers uninitialised: their contents
  are its arguments.
\<close>

record bfile =
  file_in :: "u8 list"
  file_out :: "u8 list"
  rbuf :: u8
  rcnt :: nat
  wbuf :: u8
  wcnt :: nat

definition bfopen :: "u8 list \<Rightarrow> u8 \<Rightarrow> u8 \<Rightarrow> bfile" where
  "bfopen contents rgarbage wgarbage =
    \<lparr>file_in = contents, file_out = [], rbuf = rgarbage, rcnt = 0, wbuf = wgarbage, wcnt = 0\<rparr>"

definition bfread :: "bfile \<Rightarrow> bool \<times> bfile" where
  "bfread bf =
    (let bf = (if 0 = rcnt bf
               then bf\<lparr>rbuf := (case file_in bf of [] \<Rightarrow> 255 | c # _ \<Rightarrow> c),
                       file_in := (case file_in bf of [] \<Rightarrow> [] | _ # cs \<Rightarrow> cs), rcnt := 8\<rparr>
               else bf);
         bf = bf\<lparr>rcnt := rcnt bf - 1\<rparr>
     in (rbuf bf AND push_bit (rcnt bf) 1 \<noteq> 0, bf))"

definition bfwrite :: "int \<Rightarrow> bfile \<Rightarrow> bfile" where
  "bfwrite b bf =
    (let bf = (if 8 = wcnt bf then bf\<lparr>file_out := file_out bf @ [wbuf bf], wcnt := 0\<rparr> else bf)
     in bf\<lparr>wcnt := wcnt bf + 1, wbuf := push_bit 1 (wbuf bf) OR of_bool (odd b)\<rparr>)"

text \<open>\<open>bfclose\<close> closes the stream as it is: what \<open>bfwrite\<close> still holds is not written.\<close>

definition bfclose :: "bfile \<Rightarrow> u8 list" where
  "bfclose bf = file_out bf"

text \<open>Bits of a byte sequence, most significant bit first, and the two abstraction functions.\<close>

definition low_bits :: "nat \<Rightarrow> u8 \<Rightarrow> bool list" where
  "low_bits k b = map (bit b) (rev [0..<k])"

definition unpack :: "u8 list \<Rightarrow> bool list" where
  "unpack bs = concat (map (low_bits 8) bs)"

definition written :: "bfile \<Rightarrow> bool list" where
  "written bf = unpack (file_out bf) @ low_bits (wcnt bf) (wbuf bf)"

definition to_read :: "bfile \<Rightarrow> bool list" where
  "to_read bf = low_bits (rcnt bf) (rbuf bf) @ unpack (file_in bf)"

lemma low_bits_0 [simp]: "low_bits 0 b = []"
  by (simp add: low_bits_def)

lemma length_low_bits [simp]: "length (low_bits k b) = k"
  by (simp add: low_bits_def)

lemma low_bits_Suc: "low_bits (Suc k) b = bit b k # low_bits k b"
  by (simp add: low_bits_def)

lemma low_bits_shift:
  "k < 8 \<Longrightarrow> low_bits (Suc k) (push_bit 1 b OR of_bool c) = low_bits k b @ [c]"
proof -
  assume "k < 8"
  then have "bit (push_bit 1 b OR of_bool c) (Suc i) = bit b i" if "i < k" for i
    unfolding bit_or_iff bit_push_bit_iff using that by (auto simp: bit_simps)
  then have "map (bit (push_bit 1 b OR of_bool c)) (map Suc (rev [0..<k])) = map (bit b) (rev [0..<k])"
    by simp
  moreover have "bit (push_bit 1 b OR of_bool c) 0 = c"
    unfolding bit_or_iff bit_push_bit_iff by (cases c) (simp_all add: bit_simps)
  ultimately show ?thesis
    by (simp add: low_bits_def upt_conv_Cons rev_map map_Suc_upt[symmetric] del: upt_Suc map_map)
qed

lemma unpack_Nil [simp]: "unpack [] = []" and unpack_append: "unpack (xs @ ys) = unpack xs @ unpack ys"
  and unpack_Cons: "unpack (x # xs) = low_bits 8 x @ unpack xs"
  by (simp_all add: unpack_def)

lemma length_unpack [simp]: "length (unpack bs) = 8 * length bs"
  by (induction bs) (simp_all add: unpack_Cons)

lemma written_bfwrite:
  assumes "wcnt bf \<le> 8"
  shows "written (bfwrite b bf) = written bf @ [odd b] \<and> 0 < wcnt (bfwrite b bf) \<and> wcnt (bfwrite b bf) \<le> 8"
proof (cases "wcnt bf = 8")
  case True
  have "low_bits (Suc 0) (push_bit 1 (wbuf bf) OR of_bool (odd b)) = [odd b]"
    using low_bits_shift[of 0] by simp
  with True show ?thesis
    by (simp add: written_def bfwrite_def unpack_append unpack_Cons Let_def)
next
  case False
  with assms have "wcnt bf < 8" by simp
  with low_bits_shift[OF this] show ?thesis
    by (auto simp: written_def bfwrite_def Let_def)
qed

text \<open>Writing a list of bits to a fresh file, then closing it.\<close>

fun bfwrites :: "int list \<Rightarrow> bfile \<Rightarrow> bfile" where
  "bfwrites [] bf = bf"
| "bfwrites (b # bs) bf = bfwrites bs (bfwrite b bf)"

fun bfreads :: "nat \<Rightarrow> bfile \<Rightarrow> bool list" where
  "bfreads 0 bf = []"
| "bfreads (Suc n) bf = (let (b, bf) = bfread bf in b # bfreads n bf)"

lemma written_bfwrites:
  "wcnt bf \<le> 8 \<Longrightarrow>
   written (bfwrites bs bf) = written bf @ map odd bs \<and> wcnt (bfwrites bs bf) \<le> 8
   \<and> (bs \<noteq> [] \<longrightarrow> 0 < wcnt (bfwrites bs bf))"
proof (induction bs arbitrary: bf)
  case Nil
  then show ?case by simp
next
  case (Cons b bs)
  note w = written_bfwrite[OF Cons.prems, of b]
  show ?case using Cons.IH[of "bfwrite b bf"] w by (cases bs) auto
qed

lemma to_read_bfread:
  assumes "rcnt bf \<le> 8" "to_read bf \<noteq> []"
  shows "fst (bfread bf) = hd (to_read bf)" "to_read (snd (bfread bf)) = tl (to_read bf)"
    "rcnt (snd (bfread bf)) \<le> 8"
proof -
  have 8: "low_bits 8 c = bit c 7 # low_bits 7 c" for c
    using low_bits_Suc[of 7] by simp
  have step: "fst (bfread bf) = hd (to_read bf) \<and> to_read (snd (bfread bf)) = tl (to_read bf)
      \<and> rcnt (snd (bfread bf)) \<le> 8"
  proof (cases "rcnt bf")
    case 0
    with assms(2) obtain c cs where "file_in bf = c # cs"
      by (cases "file_in bf") (auto simp: to_read_def)
    with 0 8[of c] show ?thesis
      unfolding bfread_def and_single_bit by (simp add: to_read_def unpack_Cons Let_def)
  next
    case (Suc k)
    with assms(1) low_bits_Suc[of k "rbuf bf"] show ?thesis
      unfolding bfread_def and_single_bit by (simp add: to_read_def Let_def)
  qed
  then show "fst (bfread bf) = hd (to_read bf)" "to_read (snd (bfread bf)) = tl (to_read bf)"
    "rcnt (snd (bfread bf)) \<le> 8" by blast+
qed

lemma bfreads_to_read:
  "rcnt bf \<le> 8 \<Longrightarrow> n \<le> length (to_read bf) \<Longrightarrow> bfreads n bf = take n (to_read bf)"
proof (induction n arbitrary: bf)
  case 0
  then show ?case by simp
next
  case (Suc n)
  then have ne: "to_read bf \<noteq> []" by auto
  note r = to_read_bfread[OF Suc.prems(1) ne]
  have "bfreads n (snd (bfread bf)) = take n (tl (to_read bf))"
    using Suc.IH[of "snd (bfread bf)"] Suc.prems(2) r by simp
  then show ?case
    using r(1) ne by (simp add: case_prod_beta Let_def) (metis list.collapse take_Suc_Cons)
qed

text \<open>
  The file left by \<open>bfclose\<close> after \<open>n > 0\<close> bits holds \<open>(n - 1) div 8\<close> bytes: the last one to
  eight bits are lost, also when \<open>n\<close> is a multiple of 8.
\<close>

lemma bfclose_contents:
  assumes "bs \<noteq> []"
  shows "unpack (bfclose (bfwrites bs (bfopen c g h))) = take (8 * ((length bs - 1) div 8)) (map odd bs)"
proof -
  let ?bf = "bfwrites bs (bfopen c g h)"
  have w: "written ?bf = map odd bs" "wcnt ?bf \<le> 8" "0 < wcnt ?bf"
    using written_bfwrites[of "bfopen c g h" bs] assms
    by (simp_all add: bfopen_def written_def)
  have len: "length bs = 8 * length (file_out ?bf) + wcnt ?bf"
    using arg_cong[OF w(1), of length] by (simp add: written_def)
  then have "(length bs - 1) div 8 = length (file_out ?bf)"
    using w(2,3) by (intro div_nat_eqI) simp_all
  then show ?thesis
    using w(1)[symmetric] by (simp add: bfclose_def written_def)
qed

lemma bfile_read_back:
  assumes "bs \<noteq> []" "n \<le> 8 * ((length bs - 1) div 8)"
  shows "bfreads n (bfopen (bfclose (bfwrites bs (bfopen c g h))) g' h') = take n (map odd bs)"
proof -
  let ?f = "bfclose (bfwrites bs (bfopen c g h))"
  have t: "to_read (bfopen ?f g' h') = unpack ?f" by (simp add: to_read_def bfopen_def)
  have "8 * ((length bs - 1) div 8) \<le> length bs"
    by (metis diff_le_self le_trans mult.commute div_times_less_eq_dividend)
  then have "n \<le> length (unpack ?f)"
    using assms unfolding bfclose_contents[OF assms(1)] by simp
  then show ?thesis
    using bfreads_to_read[of "bfopen ?f g' h'" n] assms(2)
    unfolding t bfclose_contents[OF assms(1)] by (simp add: bfopen_def min_def)
qed

section \<open>Properties\<close>

lemma card_bits_word: "card {i. bit x i} = pc (unat x)" for x :: c_long
  by (simp add: pc_card bit_unat)

text \<open>
  C38. All seven counters of the benchmark's function table return, and agree, on every value
  below \<open>2^32\<close>: each yields the number of one bits of its argument.
\<close>

theorem counters_agree:
  assumes "f \<in> set pBitCntFunc" "unat x < 2 ^ 32"
  shows "f x = Some (int (card {i. bit x i}))"
  unfolding card_bits_word
  using pBitCntFunc_counters[OF assms(1)] assms(2) by (rule bit_counter.counts)

theorem counters_agree_witness:
  "ntbl_bitcnt 0xDEADBEEF = Some (int (card {i. bit (0xDEADBEEF :: c_long) i}))"
  by (rule counters_agree) (simp_all add: pBitCntFunc_def)

text \<open>
  Exact behaviour on all 64-bit values: the shifting counter counts every bit, the mask and table
  counters the low 32 bits only, the first counter is undefined on negative arguments (its decrement
  overflows), and the two recursive counters return just on non-negative
  arguments, because the signed shift of a negative value never reaches zero.
\<close>

theorem counters_exact:
  "bit_count x = (if 0 \<le> sint x then Some (int (pc (unat x))) else None) \<and> bit_shifter x = int (pc (unat x)) \<and>
   bitcount x = int (pc (unat x mod 2 ^ 32)) \<and> ntbl_bitcount x = int (pc (unat x mod 2 ^ 32)) \<and>
   BW_btbl_bitcount x = int (pc (unat x mod 2 ^ 32)) \<and>
   AR_btbl_bitcount x = int (pc (unat x mod 2 ^ 32)) \<and>
   ntbl_bitcnt x = (if 0 \<le> sint x then Some (int (pc (unat x))) else None) \<and>
   btbl_bitcnt x = (if 0 \<le> sint x then Some (int (pc (unat x))) else None)"
  by (intro conjI bit_count_correct bit_shifter_correct bitcount_correct ntbl_bitcount_correct
      BW_btbl_bitcount_correct AR_btbl_bitcount_correct ntbl_bitcnt_correct btbl_bitcnt_correct)

text \<open>
  C40. As long as the seeds \<open>seed, seed + 13, seed + 26, \<dots>\<close> stay below \<open>2^32\<close>, the benchmark loop terminates
  with the total number of their one bits for each of the seven counters.  (Beyond that bound the counters that read 32 bits
  count less.)
\<close>

theorem bench_counts:
  assumes "f \<in> set pBitCntFunc" "unat seed + 13 * k < 2 ^ 32"
  shows "bench f k seed 0 = Some (of_nat (\<Sum>j<k. pc (unat seed + 13 * j)))"
  using bit_counter.bench_total[OF pBitCntFunc_counters[OF assms(1)] assms(2), of 0] by simp

theorem bench_counts_witness:
  "bench ntbl_bitcnt 2 7 0 = Some (of_nat (\<Sum>j<2. pc (unat (7 :: c_long) + 13 * j)))"
  by (rule bench_counts) (simp_all add: pBitCntFunc_def)

text \<open>
  Bit files lose their tail: after writing \<open>n > 0\<close> bits and closing, the file holds exactly the
  first \<open>8 * ((n - 1) div 8)\<close> of them, and those are read back unchanged; the last one to eight
  bits never reach the file.
\<close>

theorem bfile_roundtrip:
  assumes "bs \<noteq> []"
  shows "length (bfclose (bfwrites bs (bfopen c g h))) = (length bs - 1) div 8 \<and>
    bfreads (8 * ((length bs - 1) div 8)) (bfopen (bfclose (bfwrites bs (bfopen c g h))) g' h')
      = take (8 * ((length bs - 1) div 8)) (map odd bs)"
proof
  have "length (unpack (bfclose (bfwrites bs (bfopen c g h)))) = 8 * ((length bs - 1) div 8)"
    unfolding bfclose_contents[OF assms] using div_times_less_eq_dividend[of "length bs - 1" 8] by simp
  then show "length (bfclose (bfwrites bs (bfopen c g h))) = (length bs - 1) div 8" by simp
qed (rule bfile_read_back[OF assms order_refl])

theorem bfile_roundtrip_witness:
  "length (bfclose (bfwrites [1, 0, 1, 1, 0, 0, 1, 0] (bfopen [] 0 0))) = 0 \<and>
   bfreads 0 (bfopen (bfclose (bfwrites [1, 0, 1, 1, 0, 0, 1, 0] (bfopen [] 0 0))) 0 0) = []"
  using bfile_roundtrip[of "[1, 0, 1, 1, 0, 0, 1, 0]" "[]" 0 0 0 0] by simp

text \<open>
  Bit arrays: after \<open>setbit\<close> or \<open>flipbit\<close> inside the array, \<open>getbit\<close> sees exactly that bit
  changed and every other bit, in the same byte or elsewhere, as before.
\<close>

theorem bit_array_update:
  assumes "n < 8 * length a"
  shows "\<exists>a' b'. setbit a n v = Some a' \<and> flipbit a n = Some b' \<and>
    getbit a' n = Some (v \<noteq> 0) \<and> getbit b' n = map_option Not (getbit a n) \<and>
    (\<forall>m. m = n \<or> (getbit a' m = getbit a m \<and> getbit b' m = getbit a m))"
proof -
  have "n div 8 < length a" using assms by (simp add: less_mult_imp_div_less mult.commute)
  then obtain a' b' where ab: "setbit a n v = Some a'" "flipbit a n = Some b'"
    by (simp add: setbit_def flipbit_def Let_def)
  show ?thesis
    using getbit_setbit[OF ab(1)] getbit_flipbit[OF ab(2)] ab by auto
qed

theorem bit_array_update_witness:
  "\<exists>a' b'. setbit [0, 6] 9 0 = Some a' \<and> flipbit [0, 6] 9 = Some b' \<and>
    getbit a' 9 = Some False \<and> getbit b' 9 = Some False"
proof -
  have "getbit [0, 6] 9 = Some True" by (simp add: getbit_def Let_def)
  with bit_array_update[of 9 "[0, 6]" 0] show ?thesis by auto
qed

end
