(* ===== verification/Basicmath.thy ===== *)
theory Basicmath
  imports Prelude
begin

text \<open>
  MiBench \<^verbatim>\<open>automotive/basicmath\<close>: the integer square root \<open>usqrt\<close> of \<^verbatim>\<open>isqrt.c\<close>, on 64-bit
  \<open>unsigned long\<close>.  \<open>BITSPERLONG\<close> is the constant 32, so the routine reads the low 32 bits of its
  argument and computes a root scaled by \<open>2^16\<close>.
\<close>

unbundle bit_operations_syntax

section \<open>Definitions\<close>

text \<open>\<open>struct int_sqrt\<close> of \<^verbatim>\<open>snipmath.h\<close>.\<close>

record int_sqrt =
  q_sqrt :: u32
  q_frac :: u32

definition TOP2BITS :: "u64 \<Rightarrow> u64" where
  "TOP2BITS x = drop_bit 30 (x AND push_bit 30 3)"

text \<open>The loop variables, and one pass through the loop body.\<close>

record usqrt_vars =
  ux :: u64
  ua :: u64
  ur :: u64

definition usqrt_step :: "usqrt_vars \<Rightarrow> usqrt_vars" where
  "usqrt_step s =
    (let r = push_bit 2 (ur s) + TOP2BITS (ux s);
         x = push_bit 2 (ux s);
         a = push_bit 1 (ua s);
         e = push_bit 1 a + 1
     in if r \<ge> e then \<lparr>ux = x, ua = a + 1, ur = r - e\<rparr> else \<lparr>ux = x, ua = a, ur = r\<rparr>)"

text \<open>
  \<open>memcpy(q, &a, sizeof(long))\<close> copies all eight bytes of \<open>a\<close>: on a little-endian machine the
  low half lands in \<open>sqrt\<close>, the high half in \<open>frac\<close>.
\<close>

definition usqrt :: "u64 \<Rightarrow> int_sqrt" where
  "usqrt x =
    (let s = (usqrt_step ^^ 32) \<lparr>ux = x, ua = 0, ur = 0\<rparr>
     in \<lparr>q_sqrt = ucast (ua s), q_frac = ucast (drop_bit 32 (ua s))\<rparr>)"

section \<open>The loop invariant\<close>

text \<open>
  After \<open>i\<close> passes the accumulator is the root, and \<open>r\<close> the remainder, of the first \<open>2 i\<close> bits of
  the 64-bit number \<open>(x mod 2^32) * 2^32\<close>.
\<close>

definition prefix_bits :: "nat \<Rightarrow> nat \<Rightarrow> nat" where
  "prefix_bits n i = n * 4 ^ i div 2 ^ 32"

definition usqrt_inv :: "u64 \<Rightarrow> nat \<Rightarrow> usqrt_vars \<Rightarrow> bool" where
  "usqrt_inv x0 i s \<longleftrightarrow>
     ux s = push_bit (2 * i) x0 \<and>
     unat (ua s) < 2 ^ i \<and> unat (ur s) \<le> 2 * unat (ua s) \<and>
     unat (ua s) * unat (ua s) + unat (ur s) = prefix_bits (unat x0 mod 2 ^ 32) i"

lemma prefix_bits_Suc:
  "prefix_bits n (Suc i) = 4 * prefix_bits n i + n * 4 ^ i div 2 ^ 30 mod 4"
proof -
  have "prefix_bits n (Suc i) = n * 4 ^ i div 2 ^ 30"
    using div_mult_mult1[of "4::nat" "n * 4 ^ i" "2 ^ 30"] by (simp add: prefix_bits_def mult.left_commute)
  moreover have "prefix_bits n i = n * 4 ^ i div 2 ^ 30 div 4"
    by (simp add: prefix_bits_def flip: div_mult2_eq)
  ultimately show ?thesis by (metis mult_div_mod_eq)
qed

lemma unat_TOP2BITS: "unat (TOP2BITS x) = unat x div 2 ^ 30 mod 4"
  using unat_field[of "push_bit 30 3" 30 2 x]
  by (simp add: TOP2BITS_def mask_eq_exp_minus_1)

lemma unat_push_bit: "unat (push_bit k (x::'a::len word)) = unat x * 2 ^ k mod 2 ^ LENGTH('a)"
  by (simp add: unsigned_push_bit_eq push_bit_nat_eq take_bit_nat push_bit_eq_mult[of k "unat x"])

text \<open>The two bits the loop reads depend on the low 32 bits of the argument only.\<close>

lemma top_bits_of_shift:
  "n * 4 ^ i mod 2 ^ 64 div 2 ^ 30 mod 4 = (n mod 2 ^ 32) * 4 ^ i div 2 ^ 30 mod (4::nat)"
proof -
  have field: "m div 2 ^ 30 mod 4 = m mod 2 ^ 32 div 2 ^ 30" for m :: nat
    using mod_mult2_eq[of m "2 ^ 30" 4] by simp
  have "n * 4 ^ i mod 2 ^ 64 mod 2 ^ 32 = n * 4 ^ i mod (2 ^ 32 :: nat)"
    by (rule mod_mod_cancel) (simp add: le_imp_power_dvd)
  moreover have "(n mod 2 ^ 32) * 4 ^ i mod 2 ^ 32 = n * 4 ^ i mod (2 ^ 32 :: nat)"
    by (rule mod_mult_left_eq)
  ultimately show ?thesis unfolding field by (simp only:)
qed

lemma usqrt_step_inv:
  assumes inv: "usqrt_inv x0 i s" and i: "i < 32"
  shows "usqrt_inv x0 (Suc i) (usqrt_step s)"
proof -
  define A where "A = unat (ua s)"
  define R where "R = unat (ur s)"
  define n where "n = unat x0 mod 2 ^ 32"
  define d where "d = n * 4 ^ i div 2 ^ 30 mod 4"
  have x: "ux s = push_bit (2 * i) x0" and Ai: "A < 2 ^ i" and RA: "R \<le> 2 * A"
    and sq: "A * A + R = prefix_bits n i"
    using inv by (simp_all add: usqrt_inv_def A_def R_def n_def)
  have "(2::nat) ^ i \<le> 2 ^ 31" using i by (intro power_increasing) simp_all
  with Ai have A31: "A < 2 ^ 31" by (rule less_le_trans)
  have d3: "d \<le> 3" unfolding d_def by (simp add: Suc_le_lessD flip: less_Suc_eq_le)
  have top: "unat (TOP2BITS (ux s)) = d"
    unfolding x unat_TOP2BITS unat_push_bit d_def n_def
    using top_bits_of_shift[of "unat x0" i] by (simp add: power_mult)
  let ?r = "push_bit 2 (ur s) + TOP2BITS (ux s)"
  let ?a = "push_bit 1 (ua s)"
  let ?e = "push_bit 1 ?a + 1"
  have ua: "unat ?a = 2 * A"
    using A31 unfolding unat_push_bit A_def by simp
  then have ue: "unat ?e = 4 * A + 1"
    using A31 unfolding unat_word_ariths unat_push_bit by simp
  have ur: "unat ?r = 4 * R + d"
    using A31 RA d3 unfolding unat_word_ariths top unat_push_bit[of 2] R_def by simp
  have x': "push_bit 2 (ux s) = push_bit (2 * Suc i) x0"
    unfolding x by (simp add: push_bit_push_bit)
  have pS: "prefix_bits n (Suc i) = 4 * (A * A + R) + d"
    unfolding prefix_bits_Suc d_def sq ..
  show ?thesis
  proof (cases "?r \<ge> ?e")
    case True
    have le: "4 * A + 1 \<le> 4 * R + d" using True unfolding word_le_nat_alt ue ur .
    have a': "unat (?a + 1) = 2 * A + 1" using A31 unfolding unat_word_ariths ua by simp
    have r': "unat (?r - ?e) = 4 * R + d - (4 * A + 1)"
      using unat_sub[OF True] unfolding ue ur .
    have st: "usqrt_step s = \<lparr>ux = push_bit 2 (ux s), ua = ?a + 1, ur = ?r - ?e\<rparr>"
      using True by (simp add: usqrt_step_def Let_def)
    show ?thesis
      unfolding usqrt_inv_def st usqrt_vars.simps a' r' x' n_def[symmetric] pS
      using Ai RA d3 le by (auto simp: algebra_simps)
  next
    case False
    have lt: "4 * R + d < 4 * A + 1" using False unfolding not_le word_less_nat_alt ue ur .
    have st: "usqrt_step s = \<lparr>ux = push_bit 2 (ux s), ua = ?a, ur = ?r\<rparr>"
      using False by (simp add: usqrt_step_def Let_def)
    show ?thesis
      unfolding usqrt_inv_def st usqrt_vars.simps ua ur x' n_def[symmetric] pS
      using Ai lt by (auto simp: algebra_simps)
  qed
qed

lemma usqrt_loop_inv:
  "i \<le> 32 \<Longrightarrow> usqrt_inv x i ((usqrt_step ^^ i) \<lparr>ux = x, ua = 0, ur = 0\<rparr>)"
proof (induction i)
  case 0
  show ?case by (simp add: usqrt_inv_def prefix_bits_def)
next
  case (Suc i)
  then show ?case using usqrt_step_inv[of x i] by simp
qed

text \<open>
  C37. For every argument the value stored in \<open>q.sqrt\<close> is the integer square root of
  \<open>(x mod 2^32) * 2^32\<close>, that is \<open>floor(sqrt(x mod 2^32) * 2^16)\<close>, and \<open>q.frac\<close> is 0.  The header of the
  function promises \<open>floor(sqrt(x) * 2^16)\<close> for every \<open>unsigned long\<close>: this is met for arguments below \<open>2^32\<close>;
  the upper half of larger ones is ignored.
\<close>

theorem usqrt_floor:
  "(unat (q_sqrt (usqrt x)))\<^sup>2 \<le> (unat x mod 2 ^ 32) * 2 ^ 32 \<and>
   (unat x mod 2 ^ 32) * 2 ^ 32 < (unat (q_sqrt (usqrt x)) + 1)\<^sup>2 \<and> q_frac (usqrt x) = 0"
proof -
  define s where "s = (usqrt_step ^^ 32) \<lparr>ux = x, ua = 0, ur = 0\<rparr>"
  have inv: "usqrt_inv x 32 s" unfolding s_def by (rule usqrt_loop_inv) simp
  then have a: "unat (ua s) < 2 ^ 32" and r: "unat (ur s) \<le> 2 * unat (ua s)"
    and sq: "unat (ua s) * unat (ua s) + unat (ur s) = prefix_bits (unat x mod 2 ^ 32) 32"
    by (simp_all add: usqrt_inv_def)
  have "prefix_bits n 32 = n * 2 ^ 32" for n
    by (simp add: prefix_bits_def)
  note sq = sq[unfolded this]
  have "q_sqrt (usqrt x) = ucast (ua s)" "q_frac (usqrt x) = ucast (drop_bit 32 (ua s))"
    by (simp_all add: usqrt_def s_def[symmetric] Let_def)
  moreover have "unat (ucast (ua s) :: u32) = unat (ua s)"
    using a by (simp add: unsigned_ucast_eq take_bit_nat)
  moreover have "drop_bit 32 (ua s) = 0"
    using a unat_drop_bit[of 32 "ua s"] by (metis div_less unat_eq_zero)
  ultimately show ?thesis
    using sq r by (simp add: power2_eq_square algebra_simps)
qed

end
