(* ===== verification/Crc32.thy ===== *)
theory Crc32
  imports Prelude
begin

text \<open>
  MiBench \<^verbatim>\<open>telecomm/CRC32\<close>: the table-driven checksum of \<^verbatim>\<open>crc_32.c\<close> and \<^verbatim>\<open>crc.h\<close>.  \<open>DWORD\<close>
  is \<open>unsigned long\<close>, 64 bits wide on both targets, so the register has 32 spare high bits.  The
  reference is the bit-serial shift register the comments of the file describe.
\<close>

unbundle bit_operations_syntax

section \<open>Definitions\<close>

type_synonym DWORD = u64

definition crc_32_tab :: "DWORD list" where
  "crc_32_tab =
    [
     0x00000000, 0x77073096, 0xee0e612c, 0x990951ba, 0x076dc419, 0x706af48f,
     0xe963a535, 0x9e6495a3, 0x0edb8832, 0x79dcb8a4, 0xe0d5e91e, 0x97d2d988,
     0x09b64c2b, 0x7eb17cbd, 0xe7b82d07, 0x90bf1d91, 0x1db71064, 0x6ab020f2,
     0xf3b97148, 0x84be41de, 0x1adad47d, 0x6ddde4eb, 0xf4d4b551, 0x83d385c7,
     0x136c9856, 0x646ba8c0, 0xfd62f97a, 0x8a65c9ec, 0x14015c4f, 0x63066cd9,
     0xfa0f3d63, 0x8d080df5, 0x3b6e20c8, 0x4c69105e, 0xd56041e4, 0xa2677172,
     0x3c03e4d1, 0x4b04d447, 0xd20d85fd, 0xa50ab56b, 0x35b5a8fa, 0x42b2986c,
     0xdbbbc9d6, 0xacbcf940, 0x32d86ce3, 0x45df5c75, 0xdcd60dcf, 0xabd13d59,
     0x26d930ac, 0x51de003a, 0xc8d75180, 0xbfd06116, 0x21b4f4b5, 0x56b3c423,
     0xcfba9599, 0xb8bda50f, 0x2802b89e, 0x5f058808, 0xc60cd9b2, 0xb10be924,
     0x2f6f7c87, 0x58684c11, 0xc1611dab, 0xb6662d3d, 0x76dc4190, 0x01db7106,
     0x98d220bc, 0xefd5102a, 0x71b18589, 0x06b6b51f, 0x9fbfe4a5, 0xe8b8d433,
     0x7807c9a2, 0x0f00f934, 0x9609a88e, 0xe10e9818, 0x7f6a0dbb, 0x086d3d2d,
     0x91646c97, 0xe6635c01, 0x6b6b51f4, 0x1c6c6162, 0x856530d8, 0xf262004e,
     0x6c0695ed, 0x1b01a57b, 0x8208f4c1, 0xf50fc457, 0x65b0d9c6, 0x12b7e950,
     0x8bbeb8ea, 0xfcb9887c, 0x62dd1ddf, 0x15da2d49, 0x8cd37cf3, 0xfbd44c65,
     0x4db26158, 0x3ab551ce, 0xa3bc0074, 0xd4bb30e2, 0x4adfa541, 0x3dd895d7,
     0xa4d1c46d, 0xd3d6f4fb, 0x4369e96a, 0x346ed9fc, 0xad678846, 0xda60b8d0,
     0x44042d73, 0x33031de5, 0xaa0a4c5f, 0xdd0d7cc9, 0x5005713c, 0x270241aa,
     0xbe0b1010, 0xc90c2086, 0x5768b525, 0x206f85b3, 0xb966d409, 0xce61e49f,
     0x5edef90e, 0x29d9c998, 0xb0d09822, 0xc7d7a8b4, 0x59b33d17, 0x2eb40d81,
     0xb7bd5c3b, 0xc0ba6cad, 0xedb88320, 0x9abfb3b6, 0x03b6e20c, 0x74b1d29a,
     0xead54739, 0x9dd277af, 0x04db2615, 0x73dc1683, 0xe3630b12, 0x94643b84,
     0x0d6d6a3e, 0x7a6a5aa8, 0xe40ecf0b, 0x9309ff9d, 0x0a00ae27, 0x7d079eb1,
     0xf00f9344, 0x8708a3d2, 0x1e01f268, 0x6906c2fe, 0xf762575d, 0x806567cb,
     0x196c3671, 0x6e6b06e7, 0xfed41b76, 0x89d32be0, 0x10da7a5a, 0x67dd4acc,
     0xf9b9df6f, 0x8ebeeff9, 0x17b7be43, 0x60b08ed5, 0xd6d6a3e8, 0xa1d1937e,
     0x38d8c2c4, 0x4fdff252, 0xd1bb67f1, 0xa6bc5767, 0x3fb506dd, 0x48b2364b,
     0xd80d2bda, 0xaf0a1b4c, 0x36034af6, 0x41047a60, 0xdf60efc3, 0xa867df55,
     0x316e8eef, 0x4669be79, 0xcb61b38c, 0xbc66831a, 0x256fd2a0, 0x5268e236,
     0xcc0c7795, 0xbb0b4703, 0x220216b9, 0x5505262f, 0xc5ba3bbe, 0xb2bd0b28,
     0x2bb45a92, 0x5cb36a04, 0xc2d7ffa7, 0xb5d0cf31, 0x2cd99e8b, 0x5bdeae1d,
     0x9b64c2b0, 0xec63f226, 0x756aa39c, 0x026d930a, 0x9c0906a9, 0xeb0e363f,
     0x72076785, 0x05005713, 0x95bf4a82, 0xe2b87a14, 0x7bb12bae, 0x0cb61b38,
     0x92d28e9b, 0xe5d5be0d, 0x7cdcefb7, 0x0bdbdf21, 0x86d3d2d4, 0xf1d4e242,
     0x68ddb3f8, 0x1fda836e, 0x81be16cd, 0xf6b9265b, 0x6fb077e1, 0x18b74777,
     0x88085ae6, 0xff0f6a70, 0x66063bca, 0x11010b5c, 0x8f659eff, 0xf862ae69,
     0x616bffd3, 0x166ccf45, 0xa00ae278, 0xd70dd2ee, 0x4e048354, 0x3903b3c2,
     0xa7672661, 0xd06016f7, 0x4969474d, 0x3e6e77db, 0xaed16a4a, 0xd9d65adc,
     0x40df0b66, 0x37d83bf0, 0xa9bcae53, 0xdebb9ec5, 0x47b2cf7f, 0x30b5ffe9,
     0xbdbdf21c, 0xcabac28a, 0x53b39330, 0x24b4a3a6, 0xbad03605, 0xcdd70693,
     0x54de5729, 0x23d967bf, 0xb3667a2e, 0xc4614ab8, 0x5d681b02, 0x2a6f2b94,
     0xb40bbe37, 0xc30c8ea1, 0x5a05df1b, 0x2d02ef8d]"

definition UPDC32 :: "u8 \<Rightarrow> DWORD \<Rightarrow> DWORD" where
  "UPDC32 octet crc = crc_32_tab ! unat ((crc XOR ucast octet) AND 0xff) XOR drop_bit 8 crc"

definition updateCRC32 :: "u8 \<Rightarrow> DWORD \<Rightarrow> DWORD" where
  "updateCRC32 ch crc = UPDC32 ch crc"

fun crc32buf_loop :: "u8 list \<Rightarrow> DWORD \<Rightarrow> DWORD" where
  "crc32buf_loop [] oldcrc32 = oldcrc32"
| "crc32buf_loop (c # buf) oldcrc32 = crc32buf_loop buf (UPDC32 c oldcrc32)"

definition crc32buf :: "u8 list \<Rightarrow> DWORD" where
  "crc32buf buf = NOT (crc32buf_loop buf 0xFFFFFFFF)"

text \<open>
  \<open>crc32file\<close>: \<open>fopen\<close> gives the bytes of the file, or \<open>None\<close>; \<open>ferror\<close> is reported by the
  stream after the last \<open>getc\<close>.  The result is the return code with the two out-parameters, which
  the failing branch leaves as they are but for the count.
\<close>

datatype Boolean_T = ErrorB | SuccessB

record crc_out =
  out_crc :: DWORD
  out_charcnt :: int

fun crc32file_loop :: "u8 list \<Rightarrow> int \<Rightarrow> DWORD \<Rightarrow> int \<times> DWORD" where
  "crc32file_loop [] charcnt oldcrc32 = (charcnt, oldcrc32)"
| "crc32file_loop (c # fin) charcnt oldcrc32 = crc32file_loop fin (charcnt + 1) (UPDC32 c oldcrc32)"

definition crc32file :: "u8 list option \<Rightarrow> bool \<Rightarrow> crc_out \<Rightarrow> Boolean_T \<times> crc_out" where
  "crc32file fin ferror out =
    (case fin of
       None \<Rightarrow> (ErrorB, out\<lparr>out_charcnt := 0\<rparr>)
     | Some bytes \<Rightarrow>
         let (charcnt, oldcrc32) = crc32file_loop bytes 0 0xFFFFFFFF;
             charcnt = (if ferror then -1 else charcnt)
         in (SuccessB, out\<lparr>out_crc := NOT oldcrc32, out_charcnt := charcnt\<rparr>))"

section \<open>The bit-serial reference\<close>

text \<open>One clock of the shift register, for the polynomial \<open>0xedb88320\<close>.\<close>

definition crc_poly :: DWORD where
  "crc_poly = 0xedb88320"

definition crc_shift :: "DWORD \<Rightarrow> DWORD" where
  "crc_shift c = (if bit c 0 then drop_bit 1 c XOR crc_poly else drop_bit 1 c)"

definition crc_bits :: "bool list \<Rightarrow> DWORD \<Rightarrow> DWORD" where
  "crc_bits bs c = fold (\<lambda>b c. crc_shift (c XOR of_bool b)) bs c"

text \<open>The bits of a message in transmission order: each octet from its low bit to its high bit.\<close>

definition wire_bits :: "u8 list \<Rightarrow> bool list" where
  "wire_bits msg = concat (map (\<lambda>b. map (bit b) [0..<8]) msg)"

section \<open>Linearity of the register\<close>

lemma bit_crc_shift:
  "bit (crc_shift c) n \<longleftrightarrow> (bit c (Suc n) \<noteq> (bit c 0 \<and> bit crc_poly n))"
  by (simp add: crc_shift_def bit_xor_iff bit_drop_bit_eq)

lemma crc_shift_xor: "crc_shift (a XOR b) = crc_shift a XOR crc_shift b"
  by (rule bit_word_eqI) (auto simp: bit_crc_shift bit_xor_iff)

lemma crc_shift_0 [simp]: "crc_shift 0 = 0"
  by (simp add: crc_shift_def)

lemma crc_shifts_xor: "(crc_shift ^^ k) (a XOR b) = (crc_shift ^^ k) a XOR (crc_shift ^^ k) b"
  by (induction k) (simp_all add: crc_shift_xor)

lemma crc_shifts_0 [simp]: "(crc_shift ^^ k) 0 = 0"
  by (induction k) simp_all

text \<open>A register whose low \<open>k\<close> bits are clear is only shifted.\<close>

lemma crc_shifts_high:
  "\<forall>i<k. \<not> bit c i \<Longrightarrow> (crc_shift ^^ k) c = drop_bit k c"
proof (induction k)
  case 0
  then show ?case by simp
next
  case (Suc k)
  then have "(crc_shift ^^ k) c = drop_bit k c" by simp
  moreover have "\<not> bit (drop_bit k c) 0" using Suc.prems by (simp add: bit_drop_bit_eq)
  ultimately have "(crc_shift ^^ Suc k) c = drop_bit 1 (drop_bit k c)"
    unfolding funpow.simps o_apply by (simp only: crc_shift_def if_False)
  then show ?case by (simp add: drop_bit_drop_bit add.commute)
qed

section \<open>The table\<close>

text \<open>The table doubles: its upper half is its lower half with the entry of the new bit added.\<close>

lemma crc_table_double:
  assumes "k < 64"
  shows "map (\<lambda>i. (crc_shift ^^ m) (word_of_nat i)) [0..<2 ^ Suc k] =
    (let xs = map (\<lambda>i. (crc_shift ^^ m) (word_of_nat i)) [0..<2 ^ k]
     in xs @ map (\<lambda>v. v XOR (crc_shift ^^ m) (2 ^ k)) xs)"
proof -
  have add: "(word_of_nat (2 ^ k + i) :: DWORD) = word_of_nat i XOR 2 ^ k" if "i < 2 ^ k" for i
  proof -
    have "\<not> bit i k" using that by (simp add: bit_iff_odd)
    then have "(word_of_nat i :: DWORD) AND 2 ^ k = 0"
      by (intro bit_word_eqI) (auto simp: bit_simps)
    then have "word_of_nat i + 2 ^ k = (word_of_nat i :: DWORD) XOR 2 ^ k"
      by (rule disjunctive_add_eq_xor)
    then show ?thesis by (simp add: add.commute)
  qed
  have "[0..<2 ^ Suc k] = [0..<2 ^ k] @ map (\<lambda>i. 2 ^ k + i) [0..<2 ^ k]"
    by (simp add: map_add_upt upt_add_eq_append[symmetric] mult_2 add.commute)
  then show ?thesis
    using add by (simp add: Let_def crc_shifts_xor)
qed

lemma crc_shift_numeral:
  "crc_shift (numeral n) =
    (if odd (numeral n :: DWORD) then drop_bit 1 (numeral n) XOR 0xedb88320 else drop_bit 1 (numeral n))"
  "crc_shift 1 = 0xedb88320"
  by (simp_all add: crc_shift_def crc_poly_def bit_0)

lemma funpow_8: "(f ^^ 8) x = f (f (f (f (f (f (f (f x)))))))"
  by (simp add: numeral_eq_Suc)

lemma crc_powers:
  "(crc_shift ^^ 8) 1 = 0x77073096" "(crc_shift ^^ 8) 2 = 0xee0e612c"
  "(crc_shift ^^ 8) 4 = 0x076dc419" "(crc_shift ^^ 8) 8 = 0x0edb8832"
  "(crc_shift ^^ 8) 16 = 0x1db71064" "(crc_shift ^^ 8) 32 = 0x3b6e20c8"
  "(crc_shift ^^ 8) 64 = 0x76dc4190" "(crc_shift ^^ 8) 128 = 0xedb88320"
  unfolding funpow_8 by (simp_all add: crc_shift_numeral)

definition double_xor :: "DWORD \<Rightarrow> DWORD list \<Rightarrow> DWORD list" where
  "double_xor t xs = xs @ map (\<lambda>v. v XOR t) xs"

lemma crc_32_tab_built:
  "crc_32_tab =
    double_xor 0xedb88320 (double_xor 0x76dc4190 (double_xor 0x3b6e20c8 (double_xor 0x1db71064
     (double_xor 0x0edb8832 (double_xor 0x076dc419 (double_xor 0xee0e612c (double_xor 0x77073096 [0])))))))"
  unfolding crc_32_tab_def double_xor_def by simp

lemma crc_32_tab_eq: "crc_32_tab = map (\<lambda>i. (crc_shift ^^ 8) (word_of_nat i)) [0..<256]"
proof -
  define T where "T k = map (\<lambda>i. (crc_shift ^^ 8) (word_of_nat i)) [0..<2 ^ k]" for k
  have T0: "T 0 = [0]" by (simp add: T_def)
  have TS: "T (Suc k) = double_xor ((crc_shift ^^ 8) (2 ^ k)) (T k)" if "k < 64" for k
    unfolding T_def double_xor_def crc_table_double[OF that, of 8] Let_def ..
  have "T 8 = T (Suc (Suc (Suc (Suc (Suc (Suc (Suc (Suc 0))))))))" by (simp add: numeral_eq_Suc)
  also have "\<dots> = crc_32_tab"
    unfolding crc_32_tab_built by (simp add: TS T0 crc_powers)
  finally show ?thesis by (simp add: T_def)
qed

section \<open>Eight clocks at a time\<close>

lemma octet_mask: "(0xff :: DWORD) = mask 8"
  by (simp add: mask_eq_exp_minus_1)

lemma UPDC32_eq: "UPDC32 b c = (crc_shift ^^ 8) (c XOR ucast b)"
proof -
  let ?d = "c XOR ucast b"
  have split: "?d = (?d AND mask 8) XOR (?d AND NOT (mask 8))"
    by (rule bit_word_eqI) (auto simp: bit_simps)
  have lt: "unat (?d AND mask 8) < 256"
    using unat_and_mask[of ?d 8] by simp
  have low: "(crc_shift ^^ 8) (?d AND mask 8) = crc_32_tab ! unat (?d AND mask 8)"
    unfolding crc_32_tab_eq using lt by (simp del: upt_conv_Cons)
  have "(crc_shift ^^ 8) (?d AND NOT (mask 8)) = drop_bit 8 (?d AND NOT (mask 8))"
    by (intro crc_shifts_high) (simp add: bit_simps)
  also have "\<dots> = drop_bit 8 c"
    by (rule bit_word_eqI) (auto simp: bit_simps dest: bit_imp_le_length)
  finally show ?thesis
    unfolding UPDC32_def octet_mask low[symmetric] by (subst split) (simp only: crc_shifts_xor)
qed

text \<open>A run of at most 64 message bits enters the register as one word.\<close>

lemma crc_bits_Nil [simp]: "crc_bits [] c = c"
  and crc_bits_append: "crc_bits (xs @ ys) c = crc_bits ys (crc_bits xs c)"
  by (simp_all add: crc_bits_def)

lemma horner_snoc:
  assumes "length bs < 64"
  shows "horner_sum of_bool 2 (bs @ [b]) =
    (horner_sum of_bool 2 bs :: DWORD) XOR push_bit (length bs) (of_bool b)"
  by (rule bit_word_eqI)
    (use assms in \<open>auto simp: bit_horner_sum_bit_word_iff bit_simps nth_append\<close>)

lemma crc_bits_word:
  "length bs \<le> 64 \<Longrightarrow> crc_bits bs c = (crc_shift ^^ length bs) (c XOR horner_sum of_bool 2 bs)"
proof (induction bs rule: rev_induct)
  case Nil
  then show ?case by simp
next
  case (snoc b bs)
  let ?h = "horner_sum of_bool 2 bs :: DWORD" and ?p = "push_bit (length bs) (of_bool b) :: DWORD"
  have "(crc_shift ^^ length bs) ?p = drop_bit (length bs) ?p"
    by (intro crc_shifts_high) (auto simp: bit_simps)
  also have "\<dots> = of_bool b"
    by (rule bit_word_eqI) (use snoc.prems in \<open>auto simp: bit_simps\<close>)
  finally have p: "(crc_shift ^^ length bs) ?p = of_bool b" .
  have "crc_bits (bs @ [b]) c = crc_shift ((crc_shift ^^ length bs) (c XOR ?h) XOR of_bool b)"
    using snoc by (simp add: crc_bits_append) (simp add: crc_bits_def)
  also have "\<dots> = crc_shift ((crc_shift ^^ length bs) ((c XOR ?h) XOR ?p))"
    by (simp only: crc_shifts_xor p)
  finally show ?case
    using snoc.prems by (simp add: horner_snoc xor.assoc)
qed

lemma wire_bits_Nil [simp]: "wire_bits [] = []"
  and wire_bits_Cons: "wire_bits (b # bs) = map (bit b) [0..<8] @ wire_bits bs"
  and wire_bits_append: "wire_bits (xs @ ys) = wire_bits xs @ wire_bits ys"
  by (simp_all add: wire_bits_def del: upt_conv_Cons)

lemma length_wire_bits [simp]: "length (wire_bits m) = 8 * length m"
  by (induction m) (simp_all add: wire_bits_Cons)

lemma UPDC32_bits: "UPDC32 b c = crc_bits (map (bit b) [0..<8]) c"
proof -
  have "(horner_sum of_bool 2 (map (bit b) [0..<8]) :: DWORD) = ucast b"
  proof (rule bit_word_eqI)
    fix n assume "n < LENGTH(64)"
    show "bit (horner_sum of_bool 2 (map (bit b) [0..<8]) :: DWORD) n = bit (ucast b :: DWORD) n"
      using bit_imp_le_length[of b n]
      by (cases "n < 8") (auto simp: bit_horner_sum_bit_word_iff bit_simps)
  qed
  then show ?thesis using crc_bits_word[of "map (bit b) [0..<8]" c] by (simp add: UPDC32_eq)
qed

lemma crc32buf_loop_bits: "crc32buf_loop msg c = crc_bits (wire_bits msg) c"
  by (induction msg arbitrary: c) (simp_all add: wire_bits_Cons crc_bits_append UPDC32_bits)

lemma crc32buf_loop_append: "crc32buf_loop (xs @ ys) c = crc32buf_loop ys (crc32buf_loop xs c)"
  by (induction xs arbitrary: c) simp_all

lemma crc32file_loop_eq: "crc32file_loop bytes n c = (n + int (length bytes), crc32buf_loop bytes c)"
  by (induction bytes arbitrary: n c) simp_all

section \<open>The register stays within 32 bits and is a bijection there\<close>

definition reg32 :: "DWORD \<Rightarrow> bool" where
  "reg32 c \<longleftrightarrow> (\<forall>n\<ge>32. \<not> bit c n)"

lemma poly_high: "n \<ge> 32 \<Longrightarrow> \<not> bit crc_poly n" and poly_31: "bit crc_poly 31"
proof -
  have "unat crc_poly < 2 ^ 32" by (simp add: crc_poly_def)
  then show "n \<ge> 32 \<Longrightarrow> \<not> bit crc_poly n"
    using power_increasing[of 32 n "2::nat"] by (intro not_bit_unat_lt) linarith
  show "bit crc_poly 31" by (simp add: crc_poly_def)
qed

lemma reg32_shift: "reg32 c \<Longrightarrow> reg32 (crc_shift c)"
  by (auto simp: reg32_def bit_crc_shift poly_high)

lemma reg32_shifts: "reg32 c \<Longrightarrow> reg32 ((crc_shift ^^ k) c)"
  by (induction k) (simp_all add: reg32_shift)

lemma reg32_xor: "reg32 a \<Longrightarrow> reg32 b \<Longrightarrow> reg32 (a XOR b)"
  by (simp add: reg32_def bit_xor_iff)

lemma reg32_ones: "reg32 0xFFFFFFFF"
proof -
  have "\<not> bit (mask 32 :: DWORD) n" if "32 \<le> n" for n using that by (simp add: bit_mask_iff)
  then show ?thesis by (simp add: reg32_def mask_eq_exp_minus_1)
qed

lemma reg32_octet: "reg32 (ucast (b::u8))"
  by (auto simp: reg32_def bit_simps dest: bit_imp_le_length)

lemma reg32_loop: "reg32 c \<Longrightarrow> reg32 (crc32buf_loop msg c)"
  by (induction msg arbitrary: c) (simp_all add: UPDC32_eq reg32_shifts reg32_xor reg32_octet)

lemma crc_shift_inj:
  assumes "reg32 c" "reg32 d" "crc_shift c = crc_shift d"
  shows "c = d"
proof (rule bit_word_eqI)
  have eq: "bit (crc_shift c) n = bit (crc_shift d) n" for n using assms(3) by simp
  have 0: "bit c 0 = bit d 0"
    using eq[of 31] assms(1,2) by (simp add: bit_crc_shift poly_31 reg32_def)
  fix n
  show "bit c n = bit d n"
    using eq[of "n - 1"] 0 by (cases n) (auto simp: bit_crc_shift)
qed

lemma crc_shifts_inj:
  "reg32 c \<Longrightarrow> reg32 d \<Longrightarrow> (crc_shift ^^ k) c = (crc_shift ^^ k) d \<Longrightarrow> c = d"
  by (induction k) (simp_all, metis crc_shift_inj reg32_shifts)

lemma crc32buf_loop_inj:
  "reg32 c \<Longrightarrow> reg32 d \<Longrightarrow> crc32buf_loop msg c = crc32buf_loop msg d \<Longrightarrow> c = d"
proof (induction msg arbitrary: c d)
  case Nil
  then show ?case by simp
next
  case (Cons b msg)
  have r: "reg32 (c XOR ucast b)" "reg32 (d XOR ucast b)"
    using Cons.prems(1,2) by (simp_all add: reg32_xor reg32_octet)
  from Cons.prems(3) have eq: "crc32buf_loop msg ((crc_shift ^^ 8) (c XOR ucast b))
      = crc32buf_loop msg ((crc_shift ^^ 8) (d XOR ucast b))"
    unfolding crc32buf_loop.simps UPDC32_eq .
  have "(crc_shift ^^ 8) (c XOR ucast b) = (crc_shift ^^ 8) (d XOR ucast b)"
    by (rule Cons.IH[OF _ _ eq]) (intro reg32_shifts r)+
  then have "c XOR ucast b = d XOR ucast b" by (rule crc_shifts_inj[OF r])
  then show ?case by (simp only: word_xor_right_inject)
qed

section \<open>Properties\<close>

text \<open>
  C17. The table-driven checksum is the bit-serial one: for every message, \<open>crc32buf\<close> is the
  complement of the shift register (polynomial \<open>0xedb88320\<close>, initial value \<open>0xFFFFFFFF\<close>) after
  clocking in every bit of the message, each octet from low to high bit.
\<close>

theorem crc32buf_bit_serial:
  "crc32buf msg = NOT (crc_bits (wire_bits msg) 0xFFFFFFFF)"
  by (simp add: crc32buf_def crc32buf_loop_bits)

text \<open>
  C21. Burst errors of up to four octets are always detected: two messages of equal length that
  differ only inside a window of at most four octets have different checksums.
\<close>

theorem crc32buf_detects_burst:
  assumes "length m = length m'" "length m \<le> 4" "m \<noteq> m'"
  shows "crc32buf (xs @ m @ ys) \<noteq> crc32buf (xs @ m' @ ys)"
proof
  assume eq: "crc32buf (xs @ m @ ys) = crc32buf (xs @ m' @ ys)"
  let ?c = "crc32buf_loop xs 0xFFFFFFFF" and ?h = "\<lambda>m. horner_sum of_bool 2 (wire_bits m) :: DWORD"
  have c: "reg32 ?c" by (rule reg32_loop) (rule reg32_ones)
  have eq': "crc32buf_loop ys (crc32buf_loop m ?c) = crc32buf_loop ys (crc32buf_loop m' ?c)"
    using arg_cong[OF eq, of "(NOT)"] by (simp add: crc32buf_def crc32buf_loop_append)
  have "crc32buf_loop m ?c = crc32buf_loop m' ?c"
    by (rule crc32buf_loop_inj[OF _ _ eq']) (intro reg32_loop c)+
  then have "(crc_shift ^^ (8 * length m)) (?c XOR ?h m) = (crc_shift ^^ (8 * length m)) (?c XOR ?h m')"
    using assms(1,2) by (simp add: crc32buf_loop_bits crc_bits_word)
  note sh = this
  have r: "reg32 (?h k)" if "length k = length m" for k
    using that assms(2) by (auto simp: reg32_def bit_horner_sum_bit_word_iff)
  have "?c XOR ?h m = ?c XOR ?h m'"
    by (rule crc_shifts_inj[OF _ _ sh]) (intro reg32_xor c r; simp add: assms(1))+
  then have bits: "?h m = ?h m'" by (simp only: word_xor_right_inject xor.commute[of ?c])
  have "wire_bits m = wire_bits m'"
  proof (rule nth_equalityI)
    fix i assume "i < length (wire_bits m)"
    then show "wire_bits m ! i = wire_bits m' ! i"
      using arg_cong[OF bits, of "\<lambda>w. bit w i"] assms(1,2)
      by (simp add: bit_horner_sum_bit_word_iff)
  qed (use assms(1) in simp)
  with assms(1) have "m = m'"
  proof (induction m m' rule: list_induct2)
    case (Cons a as b bs)
    then have "map (bit a) [0..<8] = map (bit b) [0..<8]" "wire_bits as = wire_bits bs"
      by (simp_all add: wire_bits_Cons del: upt_conv_Cons)
    moreover from this(1) have "a = b"
      by (intro bit_word_eqI) (simp add: list_eq_iff_nth_eq)
    ultimately show ?case using Cons.IH by simp
  qed simp
  with assms(3) show False ..
qed

theorem crc32buf_detects_burst_witness:
  "crc32buf ([1] @ [2, 3] @ [4]) \<noteq> crc32buf ([1] @ [2, 7] @ [4])"
  by (rule crc32buf_detects_burst) simp_all

text \<open>
  \<open>crc32file\<close> on a readable file counts its bytes and returns the checksum of its contents;
  with a 64-bit \<open>DWORD\<close> the upper half of that checksum is all ones, whatever the contents.
\<close>

theorem crc32file_result:
  "crc32file (Some bytes) False out =
     (SuccessB, out\<lparr>out_crc := crc32buf bytes, out_charcnt := int (length bytes)\<rparr>) \<and>
   drop_bit 32 (crc32buf bytes) = 0xFFFFFFFF"
proof
  show "crc32file (Some bytes) False out =
     (SuccessB, out\<lparr>out_crc := crc32buf bytes, out_charcnt := int (length bytes)\<rparr>)"
    by (simp add: crc32file_def crc32file_loop_eq crc32buf_def)
  have r: "reg32 (crc32buf_loop bytes 0xFFFFFFFF)" by (rule reg32_loop) (rule reg32_ones)
  have "drop_bit 32 (crc32buf bytes) = mask 32"
    unfolding crc32buf_def
    by (rule bit_word_eqI) (use r in \<open>auto simp: reg32_def bit_simps\<close>)
  then show "drop_bit 32 (crc32buf bytes) = 0xFFFFFFFF" by (simp add: mask_eq_exp_minus_1)
qed

end
