(* ===== verification/Adpcm.thy ===== *)
theory Adpcm
  imports Prelude
begin

text \<open>
  MiBench \<^verbatim>\<open>telecomm/adpcm\<close>: the Intel/DVI ADPCM coder and decoder of \<^verbatim>\<open>adpcm.c\<close>.  All
  intermediate values are \<open>int\<close> in C and fit by a wide margin, so they are \<open>int\<close> here; the code
  stream is a list of bytes.
\<close>

unbundle bit_operations_syntax

section \<open>Definitions\<close>

definition indexTable :: "int list" where
  "indexTable = [-1, -1, -1, -1, 2, 4, 6, 8, -1, -1, -1, -1, 2, 4, 6, 8]"

definition stepsizeTable :: "int list" where
  "stepsizeTable =
    [7, 8, 9, 10, 11, 12, 13, 14, 16, 17,
     19, 21, 23, 25, 28, 31, 34, 37, 41, 45,
     50, 55, 60, 66, 73, 80, 88, 97, 107, 118,
     130, 143, 157, 173, 190, 209, 230, 253, 279, 307,
     337, 371, 408, 449, 494, 544, 598, 658, 724, 796,
     876, 963, 1060, 1166, 1282, 1411, 1552, 1707, 1878, 2066,
     2272, 2499, 2749, 3024, 3327, 3660, 4026, 4428, 4871, 5358,
     5894, 6484, 7132, 7845, 8630, 9493, 10442, 11487, 12635, 13899,
     15289, 16818, 18500, 20350, 22385, 24623, 27086, 29794, 32767]"

text \<open>\<open>struct adpcm_state\<close> of \<^verbatim>\<open>adpcm.h\<close>: a \<open>short\<close> and a \<open>char\<close>.\<close>

record adpcm_state =
  valprev :: int
  st_index :: int

text \<open>The local variables that live across iterations.\<close>

record adpcm_vars =
  valpred :: int
  index :: int
  step :: int

text \<open>The clamping of the predicted value and of the index, common to both loops.\<close>

definition clamp16 :: "int \<Rightarrow> int" where
  "clamp16 v = (if v > 32767 then 32767 else if v < -32768 then -32768 else v)"

definition clamp_index :: "int \<Rightarrow> int" where
  "clamp_index i = (let i = (if i < 0 then 0 else i) in if i > 88 then 88 else i)"

text \<open>
  One pass of the coder's loop up to step 5: the 4-bit code and the new variables.
\<close>

definition adpcm_code_sample :: "int \<Rightarrow> adpcm_vars \<Rightarrow> int \<times> adpcm_vars" where
  "adpcm_code_sample val s =
    (let diff = val - valpred s;
         sign = (if diff < 0 then 8 else 0 :: int);
         diff = (if sign \<noteq> 0 then - diff else diff);
         step = step s;
         delta = 0;
         vpdiff = sar 3 step;
         (delta, diff, vpdiff) =
           (if diff \<ge> step then (4, diff - step, vpdiff + step) else (delta, diff, vpdiff));
         step = sar 1 step;
         (delta, diff, vpdiff) =
           (if diff \<ge> step then (delta OR 2, diff - step, vpdiff + step) else (delta, diff, vpdiff));
         step = sar 1 step;
         (delta, vpdiff) =
           (if diff \<ge> step then (delta OR 1, vpdiff + step) else (delta, vpdiff));
         valpred = (if sign \<noteq> 0 then valpred s - vpdiff else valpred s + vpdiff);
         valpred = clamp16 valpred;
         delta = delta OR sign;
         index = clamp_index (index s + indexTable ! nat delta);
         step = stepsizeTable ! nat index
     in (delta, \<lparr>valpred = valpred, index = index, step = step\<rparr>))"

text \<open>
  Step 6 and the loop: two codes to a byte, high nibble first; \<open>bufferstep\<close> says that the high
  nibble comes next.
\<close>

fun adpcm_coder_loop :: "int list \<Rightarrow> adpcm_vars \<Rightarrow> bool \<Rightarrow> int \<Rightarrow> u8 list \<times> adpcm_vars" where
  "adpcm_coder_loop [] s bufferstep outputbuffer =
     ((if \<not> bufferstep then [word_of_int outputbuffer] else []), s)"
| "adpcm_coder_loop (val # indata) s bufferstep outputbuffer =
     (let (delta, s) = adpcm_code_sample val s
      in if bufferstep
         then adpcm_coder_loop indata s (\<not> bufferstep) (push_bit 4 delta AND 0xf0)
         else let (out, s) = adpcm_coder_loop indata s (\<not> bufferstep) outputbuffer
              in (word_of_int ((delta AND 0x0f) OR outputbuffer) # out, s))"

definition adpcm_start :: "adpcm_state \<Rightarrow> adpcm_vars" where
  "adpcm_start st =
    \<lparr>valpred = valprev st, index = st_index st, step = stepsizeTable ! nat (st_index st)\<rparr>"

definition adpcm_finish :: "adpcm_vars \<Rightarrow> adpcm_state" where
  "adpcm_finish s = \<lparr>valprev = s16 (valpred s), st_index = s8 (index s)\<rparr>"

definition adpcm_coder :: "int list \<Rightarrow> adpcm_state \<Rightarrow> u8 list \<times> adpcm_state" where
  "adpcm_coder indata st =
    (let (out, s) = adpcm_coder_loop indata (adpcm_start st) True 0 in (out, adpcm_finish s))"

text \<open>One pass of the decoder's loop after the code is fetched.\<close>

definition adpcm_decode_sample :: "int \<Rightarrow> adpcm_vars \<Rightarrow> adpcm_vars" where
  "adpcm_decode_sample delta s =
    (let index = clamp_index (index s + indexTable ! nat delta);
         sign = delta AND 8;
         delta = delta AND 7;
         vpdiff = sar 3 (step s);
         vpdiff = (if delta AND 4 \<noteq> 0 then vpdiff + step s else vpdiff);
         vpdiff = (if delta AND 2 \<noteq> 0 then vpdiff + sar 1 (step s) else vpdiff);
         vpdiff = (if delta AND 1 \<noteq> 0 then vpdiff + sar 2 (step s) else vpdiff);
         valpred = (if sign \<noteq> 0 then valpred s - vpdiff else valpred s + vpdiff);
         valpred = clamp16 valpred
     in \<lparr>valpred = valpred, index = index, step = stepsizeTable ! nat index\<rparr>)"

text \<open>
  The decoder's loop: \<open>bufferstep\<close> says that the low nibble of \<open>inputbuffer\<close> is still to come.
  Reading past the end of the input is \<open>None\<close>.
\<close>

fun adpcm_decoder_loop ::
  "nat \<Rightarrow> u8 list \<Rightarrow> adpcm_vars \<Rightarrow> bool \<Rightarrow> int \<Rightarrow> (int list \<times> adpcm_vars) option" where
  "adpcm_decoder_loop 0 indata s bufferstep inputbuffer = Some ([], s)"
| "adpcm_decoder_loop (Suc len) indata s bufferstep inputbuffer =
     (if bufferstep
      then let s = adpcm_decode_sample (inputbuffer AND 0xf) s
           in map_option (\<lambda>(out, s'). (s16 (valpred s) # out, s'))
                (adpcm_decoder_loop len indata s (\<not> bufferstep) inputbuffer)
      else case indata of
             [] \<Rightarrow> None
           | b # indata \<Rightarrow>
               let inputbuffer = sint b;
                   s = adpcm_decode_sample (sar 4 inputbuffer AND 0xf) s
               in map_option (\<lambda>(out, s'). (s16 (valpred s) # out, s'))
                    (adpcm_decoder_loop len indata s (\<not> bufferstep) inputbuffer))"

definition adpcm_decoder :: "u8 list \<Rightarrow> nat \<Rightarrow> adpcm_state \<Rightarrow> (int list \<times> adpcm_state) option" where
  "adpcm_decoder indata len st =
    map_option (\<lambda>(out, s). (out, adpcm_finish s))
      (adpcm_decoder_loop len indata (adpcm_start st) False 0)"

section \<open>Ranges\<close>

text \<open>The invariant of the state, and of the loop variables.\<close>

definition adpcm_ok :: "adpcm_state \<Rightarrow> bool" where
  "adpcm_ok st \<longleftrightarrow> -32768 \<le> valprev st \<and> valprev st \<le> 32767 \<and> 0 \<le> st_index st \<and> st_index st \<le> 88"

definition vars_ok :: "adpcm_vars \<Rightarrow> bool" where
  "vars_ok s \<longleftrightarrow> -32768 \<le> valpred s \<and> valpred s \<le> 32767 \<and> 0 \<le> index s \<and> index s \<le> 88
     \<and> step s = stepsizeTable ! nat (index s)"

lemma clamp16_range: "-32768 \<le> clamp16 v" "clamp16 v \<le> 32767"
  by (simp_all add: clamp16_def)

lemma clamp_index_range: "0 \<le> clamp_index i" "clamp_index i \<le> 88"
  by (simp_all add: clamp_index_def Let_def)

lemma code_sample_ok: "vars_ok (snd (adpcm_code_sample val s))"
  unfolding adpcm_code_sample_def vars_ok_def Let_def
  by (simp add: clamp16_range clamp_index_range split: prod.splits)

lemma decode_sample_ok: "vars_ok (adpcm_decode_sample d s)"
  unfolding adpcm_decode_sample_def vars_ok_def Let_def
  by (simp add: clamp16_range clamp_index_range)

lemma start_ok: "adpcm_ok st \<Longrightarrow> vars_ok (adpcm_start st)"
  by (simp add: adpcm_ok_def vars_ok_def adpcm_start_def)

lemma finish_ok: "vars_ok s \<Longrightarrow> adpcm_ok (adpcm_finish s)"
  and finish_exact: "vars_ok s \<Longrightarrow> adpcm_finish s = \<lparr>valprev = valpred s, st_index = index s\<rparr>"
  by (simp_all add: adpcm_ok_def vars_ok_def adpcm_finish_def s16_id s8_id)

section \<open>The decoder follows the coder\<close>

text \<open>The decoder's step on the coder's code is the coder's step.\<close>

lemma decode_of_code:
  assumes "adpcm_code_sample val s = (delta, s')"
  shows "adpcm_decode_sample delta s = s' \<and> 0 \<le> delta \<and> delta < 16"
  using assms unfolding adpcm_code_sample_def adpcm_decode_sample_def Let_def
  by (auto simp: drop_bit_drop_bit numeral_2_eq_2 split: if_splits)

text \<open>Two nibbles packed in a byte come out again, whatever the sign of the byte.\<close>

definition pack_byte :: "int \<Rightarrow> int \<Rightarrow> u8" where
  "pack_byte h l = word_of_int ((l AND 0x0f) OR (push_bit 4 h AND 0xf0))"

lemma nibble_masks: "(0xf :: int) = mask 4" "(0xf0 :: int) = push_bit 4 (mask 4)"
  by (simp_all add: mask_eq_exp_minus_1)

lemma nibble_id: "0 \<le> d \<Longrightarrow> d < 16 \<Longrightarrow> d AND mask 4 = (d::int)"
  by (simp add: take_bit_int_eq_self flip: take_bit_eq_mask)

lemma pack_byte_high:
  assumes "0 \<le> h" "h < 16"
  shows "sar 4 (sint (pack_byte h l)) AND 0xf = h"
proof -
  have "sar 4 (sint (pack_byte h l)) AND mask 4 = h AND mask 4"
    unfolding pack_byte_def nibble_masks
    by (rule bit_eqI) (auto simp: bit_simps)
  then show ?thesis using nibble_id[OF assms] by (simp only: nibble_masks)
qed

lemma pack_byte_low:
  assumes "0 \<le> l" "l < 16"
  shows "sint (pack_byte h l) AND 0xf = l"
proof -
  have "sint (pack_byte h l) AND mask 4 = l AND mask 4"
    unfolding pack_byte_def nibble_masks
    by (rule bit_eqI) (auto simp: bit_simps)
  then show ?thesis using nibble_id[OF assms] by (simp only: nibble_masks)
qed

lemma pack_byte_last: "pack_byte h 0 = word_of_int (push_bit 4 h AND 0xf0)"
  by (simp add: pack_byte_def)

text \<open>The variables of the coder after each sample: what a decoder should reproduce.\<close>

fun adpcm_trace :: "int list \<Rightarrow> adpcm_vars \<Rightarrow> adpcm_vars list" where
  "adpcm_trace [] s = []"
| "adpcm_trace (val # vs) s = (let s' = snd (adpcm_code_sample val s) in s' # adpcm_trace vs s')"

lemma trace_ok: "s' \<in> set (adpcm_trace xs s) \<Longrightarrow> vars_ok s'"
  by (induction xs arbitrary: s) (auto simp: Let_def code_sample_ok)

lemma coder_loop_final: "snd (adpcm_coder_loop xs s b ob) = last (s # adpcm_trace xs s)"
  by (induction xs arbitrary: s b ob) (auto simp: Let_def case_prod_beta)

lemma coder_loop_length:
  "length (fst (adpcm_coder_loop xs s b ob)) = (length xs + (if b then 1 else 2)) div 2"
  by (induction xs arbitrary: s b ob) (auto simp: Let_def case_prod_beta)

lemma decoder_follows_coder:
  "adpcm_decoder_loop (length xs) (fst (adpcm_coder_loop xs s True ob)) s False ib
     = Some (map (s16 \<circ> valpred) (adpcm_trace xs s), last (s # adpcm_trace xs s))"
  "0 \<le> h \<Longrightarrow> h < 16 \<Longrightarrow>
   \<exists>l out. fst (adpcm_coder_loop xs s False (push_bit 4 h AND 0xf0)) = pack_byte h l # out \<and>
     adpcm_decoder_loop (length xs) out s True (sint (pack_byte h l))
       = Some (map (s16 \<circ> valpred) (adpcm_trace xs s), last (s # adpcm_trace xs s))"
proof (induction xs arbitrary: s ob ib h)
  case Nil
  { case 1 show ?case by simp }
  { case (2 s h) show ?case using pack_byte_last[of h, symmetric] by auto }
next
  case (Cons x xs)
  { case (1 s ob ib)
    obtain d s' where cs: "adpcm_code_sample x s = (d, s')" by fastforce
    note d = decode_of_code[OF cs]
    from Cons.IH(2)[of d s'] d obtain l out where
      "fst (adpcm_coder_loop xs s' False (push_bit 4 d AND 0xf0)) = pack_byte d l # out"
      "adpcm_decoder_loop (length xs) out s' True (sint (pack_byte d l))
        = Some (map (s16 \<circ> valpred) (adpcm_trace xs s'), last (s' # adpcm_trace xs s'))"
      by blast
    then show ?case using cs d pack_byte_high[of d l] by simp }
  { case (2 s h)
    obtain d s' where cs: "adpcm_code_sample x s = (d, s')" by fastforce
    note d = decode_of_code[OF cs]
    let ?b = "pack_byte h d"
    have "fst (adpcm_coder_loop (x # xs) s False (push_bit 4 h AND 0xf0))
        = ?b # fst (adpcm_coder_loop xs s' True (push_bit 4 h AND 0xf0))"
      using cs by (simp add: pack_byte_def split: prod.split)
    moreover have "adpcm_decoder_loop (length (x # xs))
        (fst (adpcm_coder_loop xs s' True (push_bit 4 h AND 0xf0))) s True (sint ?b)
      = Some (map (s16 \<circ> valpred) (adpcm_trace (x # xs) s), last (s # adpcm_trace (x # xs) s))"
      using cs d pack_byte_low[of d h] Cons.IH(1)[of s' "push_bit 4 h AND 0xf0" "sint ?b"] by simp
    ultimately show ?case by blast }
qed

section \<open>Quantisation error\<close>

text \<open>
  The coder's three comparisons are a division with remainder by \<open>step/4\<close>: if the difference is
  below \<open>2 * step\<close>, what is left is less than a quarter step plus the bits the shifts drop.
\<close>

lemma step_positive: "vars_ok s \<Longrightarrow> 7 \<le> step s \<and> step s \<le> 32767"
proof -
  assume "vars_ok s"
  then have "step s = stepsizeTable ! nat (index s)" "nat (index s) < 89"
    by (auto simp: vars_ok_def)
  moreover have "\<forall>x\<in>set stepsizeTable. 7 \<le> x \<and> x \<le> 32767" "length stepsizeTable = 89"
    by (simp_all add: stepsizeTable_def)
  ultimately show ?thesis by (metis nth_mem)
qed

definition quant :: "int \<Rightarrow> int \<Rightarrow> int \<Rightarrow> int \<Rightarrow> int" where
  "quant D s h q =
    (let a = (if D \<ge> s then s else 0); D = D - a;
         b = (if D \<ge> h then h else 0); D = D - b;
         c = (if D \<ge> q then q else 0)
     in a + b + c)"

lemma quant_error:
  "0 \<le> D \<Longrightarrow> D < 2 * s \<Longrightarrow> \<bar>D - (s div 8 + quant D s (s div 2) (s div 4))\<bar> \<le> s div 8 + 2"
  unfolding quant_def Let_def by (auto split: if_splits; presburger)

lemma code_sample_quant:
  "valpred (snd (adpcm_code_sample val s)) =
    (let D = val - valpred s;
         v = sar 3 (step s) + quant (if D < 0 then - D else D) (step s) (sar 1 (step s)) (sar 1 (sar 1 (step s)))
     in clamp16 (if D < 0 then valpred s - v else valpred s + v))"
proof -
  obtain e h q where eq: "sar 3 (step s) = e" "sar 1 (step s) = h" "sar 1 h = q" by blast
  define D where "D = val - valpred s"
  show ?thesis
    unfolding adpcm_code_sample_def quant_def Let_def eq D_def[symmetric]
    by (cases "D < 0"; cases "(if D < 0 then - D else D) \<ge> step s"; simp add: add.assoc)
qed

section \<open>Properties\<close>

lemma adpcm_coder_parts:
  "fst (adpcm_coder xs st) = fst (adpcm_coder_loop xs (adpcm_start st) True 0)"
  "snd (adpcm_coder xs st) = adpcm_finish (last (adpcm_start st # adpcm_trace xs (adpcm_start st)))"
  by (simp_all add: adpcm_coder_def case_prod_beta coder_loop_final del: last.simps)

lemma decode_coder:
  "adpcm_decoder (fst (adpcm_coder xs st)) (length xs) st =
     Some (map valpred (adpcm_trace xs (adpcm_start st)), snd (adpcm_coder xs st))"
proof -
  have "map (s16 \<circ> valpred) (adpcm_trace xs s) = map valpred (adpcm_trace xs s)" for s
    by (rule map_cong) (auto dest!: trace_ok simp: vars_ok_def s16_id)
  then show ?thesis
    unfolding adpcm_coder_parts adpcm_decoder_def
    by (simp add: decoder_follows_coder(1) del: last.simps)
qed

lemma final_vars_ok: "vars_ok s \<Longrightarrow> vars_ok (last (s # adpcm_trace xs s))"
  using trace_ok last_in_set[of "s # adpcm_trace xs s"] by (metis list.distinct(1) set_ConsD)

text \<open>
  Decoder and coder stay in step: decoding the coder's output from the same state yields, for
  every sample, exactly the value the coder itself predicted, leaves the decoder in the coder's
  final state, and never reads past the end of the code stream.
\<close>

theorem adpcm_decoder_tracks_coder:
  "adpcm_decoder (fst (adpcm_coder xs st)) (length xs) st =
     Some (map valpred (adpcm_trace xs (adpcm_start st)), snd (adpcm_coder xs st))"
  by (rule decode_coder)

text \<open>
  Both directions keep the state in range (a 16-bit value and an index from 0 to 88, so no
  table access is out of bounds and no store truncates), and \<open>n\<close> samples give \<open>(n + 1) div 2\<close> bytes.
\<close>

theorem adpcm_state_invariant:
  assumes "adpcm_ok st"
  shows "adpcm_ok (snd (adpcm_coder xs st)) \<and> length (fst (adpcm_coder xs st)) = (length xs + 1) div 2 \<and>
    (\<forall>out st'. adpcm_decoder bs n st = Some (out, st') \<longrightarrow> adpcm_ok st' \<and> length out = n)"
proof (intro conjI allI impI)
  show "adpcm_ok (snd (adpcm_coder xs st))"
    unfolding adpcm_coder_parts using start_ok[OF assms] by (intro finish_ok final_vars_ok)
  show "length (fst (adpcm_coder xs st)) = (length xs + 1) div 2"
    by (simp add: adpcm_coder_parts coder_loop_length)
  have dec: "adpcm_decoder_loop n bs s b ib = Some (out, s') \<Longrightarrow> vars_ok s \<Longrightarrow> vars_ok s' \<and> length out = n"
    for s b ib out s'
    by (induction n arbitrary: bs s b ib out)
      (auto simp: Let_def decode_sample_ok split: if_splits list.splits)
  fix out st' assume "adpcm_decoder bs n st = Some (out, st')"
  then obtain s' where "adpcm_decoder_loop n bs (adpcm_start st) False 0 = Some (out, s')"
    "st' = adpcm_finish s'" by (auto simp: adpcm_decoder_def)
  with dec[OF this(1) start_ok[OF assms]] show "adpcm_ok st'" "length out = n"
    by (simp_all add: finish_ok)
qed

theorem adpcm_state_invariant_witness:
  "adpcm_ok (snd (adpcm_coder [100, -5] \<lparr>valprev = 0, st_index = 0\<rparr>))"
  using adpcm_state_invariant[of "\<lparr>valprev = 0, st_index = 0\<rparr>" "[100, -5]" "[]" 0]
  by (simp add: adpcm_ok_def)

text \<open>
  Tracking accuracy: whenever the input is within twice the current step of the prediction, the
  new prediction is within an eighth of a step (plus two, for the bits the shifts drop) of the input.
\<close>

theorem adpcm_tracking_error:
  assumes "\<bar>val - valpred s\<bar> < 2 * step s" "-32768 \<le> val" "val \<le> 32767"
  shows "\<bar>val - valpred (snd (adpcm_code_sample val s))\<bar> \<le> step s div 8 + 2"
proof -
  define D where "D = val - valpred s"
  define A where "A = (if D < 0 then - D else D)"
  define v where "v = step s div 8 + quant A (step s) (step s div 2) (step s div 4)"
  have dv: "sar 3 (step s) = step s div 8" "sar 1 (step s) = step s div 2"
    "sar 1 (step s div 2) = step s div 4"
    by (simp_all add: drop_bit_eq_div div_mult2_eq[symmetric])
  have c: "\<bar>val - clamp16 v\<bar> \<le> \<bar>val - v\<bar>" for v
    using assms(2,3) by (auto simp: clamp16_def)
  have q: "\<bar>A - v\<bar> \<le> step s div 8 + 2"
    unfolding v_def by (rule quant_error) (use assms(1) in \<open>auto simp: A_def D_def\<close>)
  have "valpred (snd (adpcm_code_sample val s)) = clamp16 (if D < 0 then valpred s - v else valpred s + v)"
    unfolding code_sample_quant Let_def D_def[symmetric] dv A_def[symmetric] v_def[symmetric] ..
  also have "\<bar>val - \<dots>\<bar> \<le> \<bar>A - v\<bar>"
    by (rule order_trans[OF c]) (auto simp: A_def D_def)
  finally show ?thesis using q by linarith
qed

theorem adpcm_tracking_error_witness:
  "\<bar>1000 - valpred (snd (adpcm_code_sample 1000 \<lparr>valpred = 0, index = 50, step = 876\<rparr>))\<bar> \<le> 876 div 8 + 2"
  using adpcm_tracking_error[of 1000 "\<lparr>valpred = 0, index = 50, step = 876\<rparr>"] by simp

end
