(* ===== verification/Adpcm_Driver.thy ===== *)
theory Adpcm_Driver
  imports Adpcm
begin

text \<open>
  MiBench \<^verbatim>\<open>telecomm/adpcm\<close>: the programs \<^verbatim>\<open>rawcaudio.c\<close> and \<^verbatim>\<open>rawdaudio.c\<close>, filters from standard input to standard output.  The
  answers of \<open>read\<close> are a list, so that every way a stream is cut into calls is covered; what follows the list is the end of
  the file.  The results are the bytes handed to \<open>write\<close>, the final state (which the programs print) and the exit code.
\<close>

unbundle bit_operations_syntax

section \<open>Definitions\<close>

definition NSAMPLES :: nat where
  "NSAMPLES = 1000"

datatype read_result = Data "u8 list" | Read_Error

text \<open>The \<open>short\<close> values in a buffer of bytes, and back.\<close>

fun sbuf :: "u8 list \<Rightarrow> int list" where
  "sbuf (lo # hi # bs) = s16 (uint lo + 256 * uint hi) # sbuf bs"
| "sbuf _ = []"

definition short_bytes :: "int \<Rightarrow> u8 list" where
  "short_bytes v = [word_of_int v, word_of_int (sar 8 v)]"

fun rawcaudio :: "read_result list \<Rightarrow> adpcm_state \<Rightarrow> u8 list \<times> adpcm_state \<times> nat" where
  "rawcaudio [] state = ([], state, 0)"
| "rawcaudio (Read_Error # input) state = ([], state, 1)"
| "rawcaudio (Data buf # input) state =
    (let n = length buf
     in if n = 0 then ([], state, 0)
        else let (abuf, state) = adpcm_coder (take (n div 2) (sbuf buf)) state;
                 (out, fin) = rawcaudio input state
             in (take (n div 4) abuf @ out, fin))"

text \<open>\<open>None\<close> is a read behind the bytes of the buffer.\<close>

fun rawdaudio :: "read_result list \<Rightarrow> adpcm_state \<Rightarrow> (u8 list \<times> adpcm_state \<times> nat) option" where
  "rawdaudio [] state = Some ([], state, 0)"
| "rawdaudio (Read_Error # input) state = Some ([], state, 1)"
| "rawdaudio (Data abuf # input) state =
    (let n = length abuf
     in if n = 0 then Some ([], state, 0)
        else case adpcm_decoder abuf (n * 2) state of
          None \<Rightarrow> None
        | Some (samples, state) \<Rightarrow>
            map_option (\<lambda>(out, fin). (take (n * 4) (concat (map short_bytes samples)) @ out, fin)) (rawdaudio input state))"

text \<open>The state of both programs when they start.\<close>

definition initial_state :: adpcm_state where
  "initial_state = \<lparr>valprev = 0, st_index = 0\<rparr>"

section \<open>Buffers\<close>

lemma length_sbuf [simp]: "length (sbuf bs) = length bs div 2"
  by (induction bs rule: sbuf.induct) simp_all

lemma sbuf_append: "even (length bs) \<Longrightarrow> sbuf (bs @ cs) = sbuf bs @ sbuf cs"
  by (induction bs rule: sbuf.induct) simp_all

lemma length_short_bytes [simp]: "length (concat (map short_bytes vs)) = 2 * length vs"
  by (induction vs) (simp_all add: short_bytes_def)

section \<open>Codec calls in a row\<close>

lemma start_finish: "vars_ok s \<Longrightarrow> adpcm_start (adpcm_finish s) = s"
  by (simp add: finish_exact adpcm_start_def) (simp add: vars_ok_def)

lemma trace_append: "adpcm_trace (xs @ ys) s = adpcm_trace xs s @ adpcm_trace ys (last (s # adpcm_trace xs s))"
  by (induction xs arbitrary: s) (simp_all add: Let_def)

lemma coder_loop_buffer: "adpcm_coder_loop ys s True ob = adpcm_coder_loop ys s True 0"
  by (cases ys) simp_all

lemma coder_loop_append:
  "even (length xs) \<Longrightarrow> fst (adpcm_coder_loop (xs @ ys) s True 0) =
    fst (adpcm_coder_loop xs s True 0) @ fst (adpcm_coder_loop ys (last (s # adpcm_trace xs s)) True 0)"
proof (induction xs arbitrary: s rule: induct_list012)
  case (3 x y xs)
  then show ?case by (simp add: Let_def case_prod_beta coder_loop_buffer[of _ _ "push_bit 4 _ AND 0xf0"])
qed simp_all

lemma coder_append:
  assumes "adpcm_ok st" "even (length xs)"
  shows "adpcm_coder (xs @ ys) st =
    (fst (adpcm_coder xs st) @ fst (adpcm_coder ys (snd (adpcm_coder xs st))), snd (adpcm_coder ys (snd (adpcm_coder xs st))))"
proof -
  have "adpcm_start (snd (adpcm_coder xs st)) = last (adpcm_start st # adpcm_trace xs (adpcm_start st))"
    unfolding adpcm_coder_parts by (intro start_finish final_vars_ok start_ok assms(1))
  then show ?thesis
    unfolding prod_eq_iff fst_conv snd_conv adpcm_coder_parts trace_append coder_loop_append[OF assms(2)] by simp
qed

lemma coder_ok: "adpcm_ok st \<Longrightarrow> adpcm_ok (snd (adpcm_coder xs st))"
  unfolding adpcm_coder_parts by (intro finish_ok final_vars_ok start_ok)

lemma decoder_loop_buffer: "adpcm_decoder_loop k cs s False ib = adpcm_decoder_loop k cs s False 0"
  by (cases k) simp_all

lemma decoder_loop_append:
  "adpcm_decoder_loop (2 * length bs + k) (bs @ cs) s False 0 =
    (case adpcm_decoder_loop (2 * length bs) bs s False 0 of
       None \<Rightarrow> None
     | Some (out, s') \<Rightarrow> map_option (\<lambda>(out', s''). (out @ out', s'')) (adpcm_decoder_loop k cs s' False 0))"
proof (induction bs arbitrary: s)
  case Nil
  then show ?case by (simp add: option.map_id)
next
  case (Cons b bs)
  let ?s = "adpcm_decode_sample (sint b AND 0xf) (adpcm_decode_sample (sar 4 (sint b) AND 0xf) s)"
  show ?case
  proof (cases "adpcm_decoder_loop (2 * length bs) bs ?s False 0")
    case (Some r)
    then show ?thesis using Cons.IH[of ?s]
      by (cases r) (simp add: Let_def decoder_loop_buffer[of _ _ _ "sint b"] option.map_comp o_def split_beta')
  qed (use Cons.IH[of ?s] in \<open>simp add: Let_def decoder_loop_buffer[of _ _ _ "sint b"]\<close>)
qed

lemma decoder_loop_ok:
  assumes "vars_ok s"
  shows "\<exists>out s'. adpcm_decoder_loop (2 * length bs) bs s False 0 = Some (out, s') \<and> length out = 2 * length bs \<and> vars_ok s'"
  using assms
proof (induction bs arbitrary: s)
  case (Cons b bs)
  let ?s = "adpcm_decode_sample (sint b AND 0xf) (adpcm_decode_sample (sar 4 (sint b) AND 0xf) s)"
  from Cons.IH[of ?s, OF decode_sample_ok] show ?case
    by (auto simp: Let_def decoder_loop_buffer[of _ _ _ "sint b"])
qed simp

lemma decoder_append:
  assumes "adpcm_ok st"
  shows "\<exists>out st'. adpcm_decoder bs (length bs * 2) st = Some (out, st') \<and> length out = 2 * length bs \<and> adpcm_ok st' \<and>
    adpcm_decoder (bs @ cs) (length (bs @ cs) * 2) st = map_option (\<lambda>(out', st''). (out @ out', st'')) (adpcm_decoder cs (length cs * 2) st')"
proof -
  obtain out s' where o: "adpcm_decoder_loop (2 * length bs) bs (adpcm_start st) False 0 = Some (out, s')" "length out = 2 * length bs" "vars_ok s'"
    using decoder_loop_ok[OF start_ok[OF assms]] by blast
  have e: "length (bs @ cs) * 2 = 2 * length bs + length cs * 2" by simp
  show ?thesis
    using o finish_ok[OF o(3)] unfolding adpcm_decoder_def e decoder_loop_append start_finish[OF o(3)]
    by (auto simp: start_finish mult.commute option.map_comp o_def case_prod_beta)
qed

section \<open>The programs\<close>

lemma rawcaudio_coder:
  assumes "adpcm_ok st" "\<forall>c\<in>set cs. c \<noteq> [] \<and> 4 dvd length c"
  shows "rawcaudio (map Data cs) st = (fst (adpcm_coder (sbuf (concat cs)) st), snd (adpcm_coder (sbuf (concat cs)) st), 0)"
  using assms
proof (induction cs arbitrary: st)
  case Nil
  then show ?case by (simp add: adpcm_coder_def start_finish finish_exact start_ok) (simp add: adpcm_start_def)
next
  case (Cons c cs)
  let ?r = "adpcm_coder (sbuf c) st"
  have c: "c \<noteq> []" "even (length c)" "even (length c div 2)" using Cons.prems(2) by auto
  have "length (fst ?r) = (length c div 2 + 1) div 2" by (simp add: adpcm_coder_parts coder_loop_length)
  then have "length (fst ?r) = length c div 4" using c(3) Cons.prems(2) by auto
  then show ?case using c Cons.IH[OF coder_ok[OF Cons.prems(1), of "sbuf c"]] Cons.prems
    by (simp add: Let_def sbuf_append coder_append case_prod_beta)
qed

lemma rawdaudio_decoder:
  assumes "adpcm_ok st" "\<forall>c\<in>set cs. c \<noteq> []"
  shows "rawdaudio (map Data cs) st =
    map_option (\<lambda>(samples, st'). (concat (map short_bytes samples), st', 0)) (adpcm_decoder (concat cs) (length (concat cs) * 2) st)"
  using assms
proof (induction cs arbitrary: st)
  case Nil
  then show ?case by (simp add: adpcm_decoder_def finish_exact start_ok) (simp add: adpcm_start_def)
next
  case (Cons c cs)
  obtain out st' where o: "adpcm_decoder c (length c * 2) st = Some (out, st')" "length out = 2 * length c" "adpcm_ok st'"
    "adpcm_decoder (c @ concat cs) (length (c @ concat cs) * 2) st =
      map_option (\<lambda>(out', st''). (out @ out', st'')) (adpcm_decoder (concat cs) (length (concat cs) * 2) st')"
    using decoder_append[OF Cons.prems(1)] by blast
  then show ?case using Cons.prems(2) Cons.IH[OF o(3)] unfolding list.map concat.simps o(4)
    by (simp add: Let_def option.map_comp o_def case_prod_beta)
qed

section \<open>Properties\<close>

text \<open>
  C23.  The two programs in a row.  However the samples come to \<open>rawcaudio\<close> in reads of whole pairs of samples, and however its
  output comes to \<open>rawdaudio\<close>, the second program writes exactly the predictions the first one made for its samples, ends in the
  state the first one ended in, and both exit with 0; the state carries over every read.
\<close>

theorem adpcm_programs_in_step:
  assumes "\<forall>c\<in>set cs. c \<noteq> [] \<and> length c \<le> NSAMPLES * 2 \<and> 4 dvd length c" "\<forall>d\<in>set ds. d \<noteq> [] \<and> length d \<le> NSAMPLES div 2"
    and "concat ds = fst (rawcaudio (map Data cs) initial_state)"
  shows "\<exists>st. snd (rawcaudio (map Data cs) initial_state) = (st, 0) \<and>
    rawdaudio (map Data ds) initial_state =
      Some (concat (map (short_bytes \<circ> valpred) (adpcm_trace (sbuf (concat cs)) (adpcm_start initial_state))), st, 0)"
proof -
  let ?x = "sbuf (concat cs)"
  have i: "adpcm_ok initial_state" by (simp add: initial_state_def adpcm_ok_def)
  have c: "rawcaudio (map Data cs) initial_state = (fst (adpcm_coder ?x initial_state), snd (adpcm_coder ?x initial_state), 0)"
    by (rule rawcaudio_coder[OF i]) (use assms(1) in blast)
  have "4 dvd length (concat cs)" using assms(1) by (induction cs) simp_all
  then have l: "length (concat ds) * 2 = length ?x"
    unfolding assms(3) c fst_conv adpcm_coder_parts coder_loop_length by auto
  have "adpcm_decoder (concat ds) (length (concat ds) * 2) initial_state =
      Some (map valpred (adpcm_trace ?x (adpcm_start initial_state)), snd (adpcm_coder ?x initial_state))"
    unfolding l unfolding assms(3) c fst_conv by (rule decode_coder)
  then have "rawdaudio (map Data ds) initial_state =
      Some (concat (map (short_bytes \<circ> valpred) (adpcm_trace ?x (adpcm_start initial_state))), snd (adpcm_coder ?x initial_state), 0)"
    using rawdaudio_decoder[OF i, of ds] assms(2) by simp
  then show ?thesis unfolding c by simp
qed

theorem adpcm_programs_in_step_witness:
  "\<exists>st. snd (rawcaudio (map Data [[16, 39, 240, 216], [1, 0, 2, 0, 255, 255, 0, 128]]) initial_state) = (st, 0) \<and>
    rawdaudio (map Data [[127], [32, 143]]) initial_state =
      Some (concat (map (short_bytes \<circ> valpred) (adpcm_trace (sbuf (concat [[16, 39, 240, 216], [1, 0, 2, 0, 255, 255, 0, 128]])) (adpcm_start initial_state))), st, 0)"
proof (rule adpcm_programs_in_step)
  show "concat [[127], [32, 143]] = fst (rawcaudio (map Data [[16, 39, 240, 216], [1, 0, 2, 0, 255, 255, 0, 128]]) initial_state)"
    by code_simp
qed code_simp+

text \<open>
  Samples are lost when a read is not a whole number of pairs: of a read of \<open>n\<close> bytes the coder writes only \<open>n div 4\<close> bytes,
  so that a source that delivers one sample at a time is coded to nothing.
\<close>

theorem rawcaudio_drops_half_bytes:
  assumes "\<forall>c\<in>set cs. length c = 2"
  shows "fst (rawcaudio (map Data cs) st) = []"
  using assms by (induction cs arbitrary: st) (auto simp: Let_def case_prod_beta)

theorem rawcaudio_drops_half_bytes_witness: "fst (rawcaudio (map Data [[16, 39], [240, 216]]) initial_state) = []"
  by (rule rawcaudio_drops_half_bytes) simp

end
