(* ===== verification/Lockstep.thy ===== *)
theory Lockstep
  imports Prelude "HOL-Library.Monad_Syntax"
begin

text \<open>
  The interface between a coder and a decoder that keep corresponding states: what
  the telephony programs rely on when they code a stream block by block.
\<close>

text \<open>A stateful function run over a list of inputs, stopping at the first failure.\<close>

fun run :: "('s \<Rightarrow> 'x \<Rightarrow> ('s \<times> 'y) option) \<Rightarrow> 's \<Rightarrow> 'x list \<Rightarrow> ('s \<times> 'y list) option" where
  "run f s [] = Some (s, [])"
| "run f s (x # xs) = do { (s, y) \<leftarrow> f s x; (s, ys) \<leftarrow> run f s xs; Some (s, y # ys) }"

lemma run_length: "run f s xs = Some (s', ys) \<Longrightarrow> length ys = length xs"
  by (induction f s xs arbitrary: ys rule: run.induct) (auto split: bind_splits)

lemma run_append:
  "run f s (xs @ ys) = do { (s, us) \<leftarrow> run f s xs; (s, vs) \<leftarrow> run f s ys; Some (s, us @ vs) }"
  by (induction f s xs rule: run.induct) (auto split: bind_splits)

locale lockstep =
  fixes enc :: "'s \<Rightarrow> 'x \<Rightarrow> ('s \<times> 'f) option"
    and dec :: "'t \<Rightarrow> 'f \<Rightarrow> ('t \<times> 'y) option"
    and valid :: "'x \<Rightarrow> bool"
    and sync :: "'s \<Rightarrow> 't \<Rightarrow> bool"
    and good :: "'x \<Rightarrow> 'f \<Rightarrow> 'y \<Rightarrow> bool"
  assumes step: "sync s t \<Longrightarrow> valid x \<Longrightarrow>
    \<exists>s' f t' y. enc s x = Some (s', f) \<and> dec t f = Some (t', y) \<and> sync s' t' \<and> good x f y"
begin

text \<open>A stream of any length is coded and decoded without failure, and the two sides are in step at its end.\<close>

lemma stream:
  assumes "sync s t" "list_all valid xs"
  shows "\<exists>s' fs t' ys. run enc s xs = Some (s', fs) \<and> run dec t fs = Some (t', ys) \<and> sync s' t' \<and>
    length fs = length xs \<and> length ys = length xs \<and> (\<forall>i<length xs. good (xs ! i) (fs ! i) (ys ! i))"
  using assms
proof (induction xs arbitrary: s t)
  case (Cons x xs)
  obtain s1 f t1 y where 1: "enc s x = Some (s1, f)" "dec t f = Some (t1, y)" "sync s1 t1" "good x f y"
    using step[OF Cons.prems(1), of x] Cons.prems(2) by auto
  obtain s' fs t' ys where 2: "run enc s1 xs = Some (s', fs)" "run dec t1 fs = Some (t', ys)" "sync s' t'"
    "length fs = length xs" "length ys = length xs" "\<forall>i<length xs. good (xs ! i) (fs ! i) (ys ! i)"
    using Cons.IH[OF 1(3)] Cons.prems(2) by auto
  have "\<forall>i<length (x # xs). good ((x # xs) ! i) ((f # fs) ! i) ((y # ys) ! i)"
    using 1(4) 2(6) by (auto simp: less_Suc_eq_0_disj)
  with 1 2 show ?case by (intro exI[of _ s'] exI[of _ "f # fs"] exI[of _ t'] exI[of _ "y # ys"]) simp
qed simp

end

end
