(* ===== verification/Gsm_Arith.thy ===== *)
theory Gsm_Arith
  imports Prelude "HOL-Library.Monad_Syntax"
begin

text \<open>
  MiBench \<^verbatim>\<open>telecomm/gsm\<close>, the fixed-point arithmetic of GSM 06.10: \<^verbatim>\<open>src/add.c\<close>, the
  macros of \<^verbatim>\<open>inc/private.h\<close> and the tables of \<^verbatim>\<open>src/table.c\<close>.

  A \<open>word\<close> is a 16-bit \<open>short\<close>, a \<open>longword\<close> a 64-bit \<open>long\<close>.  Both are \<open>int\<close> here: a value
  stored in a \<open>word\<close> is truncated by \<^term>\<open>s16\<close>; the \<open>longword\<close> values the codec computes stay far
  below 64 bits, which the range lemmas of the later theories make explicit.  The build defines
  \<open>SASR\<close> and leaves the assertions on, so a function that asserts returns an option, \<open>None\<close> being
  the abort.
\<close>

unbundle bit_operations_syntax

section \<open>Definitions\<close>

abbreviation MIN_WORD :: int where "MIN_WORD \<equiv> -32768"
abbreviation MAX_WORD :: int where "MAX_WORD \<equiv> 32767"
abbreviation MIN_LONGWORD :: int where "MIN_LONGWORD \<equiv> -2147483648"
abbreviation MAX_LONGWORD :: int where "MAX_LONGWORD \<equiv> 2147483647"

abbreviation SASR :: "int \<Rightarrow> nat \<Rightarrow> int" where
  "SASR x n \<equiv> drop_bit n x"

text \<open>\<open>assert\<close>: failing aborts.\<close>

definition c_assert :: "bool \<Rightarrow> unit option" where
  "c_assert b = (if b then Some () else None)"

subsection \<open>\<open>add.c\<close>\<close>

definition saturate :: "int \<Rightarrow> int" where
  "saturate x = (if x < MIN_WORD then MIN_WORD else if x > MAX_WORD then MAX_WORD else x)"

definition gsm_add :: "int \<Rightarrow> int \<Rightarrow> int" where
  "gsm_add a b = s16 (saturate (a + b))"

definition gsm_sub :: "int \<Rightarrow> int \<Rightarrow> int" where
  "gsm_sub a b = s16 (saturate (a - b))"

definition gsm_mult :: "int \<Rightarrow> int \<Rightarrow> int" where
  "gsm_mult a b = (if a = MIN_WORD \<and> b = MIN_WORD then MAX_WORD else s16 (SASR (a * b) 15))"

definition gsm_mult_r :: "int \<Rightarrow> int \<Rightarrow> int" where
  "gsm_mult_r a b =
    (if b = MIN_WORD \<and> a = MIN_WORD then MAX_WORD
     else let prod = a * b + 16384; prod = SASR prod 15 in s16 (prod AND 0xFFFF))"

definition gsm_abs :: "int \<Rightarrow> int" where
  "gsm_abs a = (if a < 0 then (if a = MIN_WORD then MAX_WORD else - a) else a)"

definition gsm_L_mult :: "int \<Rightarrow> int \<Rightarrow> int option" where
  "gsm_L_mult a b = do { c_assert (a \<noteq> MIN_WORD \<or> b \<noteq> MIN_WORD); Some (push_bit 1 (a * b)) }"

definition gsm_L_add :: "int \<Rightarrow> int \<Rightarrow> int" where
  "gsm_L_add a b =
    (if a < 0 then
       (if b \<ge> 0 then a + b
        else let A = - (a + 1) + - (b + 1)
             in if A \<ge> MAX_LONGWORD then MIN_LONGWORD else - A - 2)
     else if b \<le> 0 then a + b
     else let A = a + b in if A > MAX_LONGWORD then MAX_LONGWORD else A)"

definition gsm_L_sub :: "int \<Rightarrow> int \<Rightarrow> int" where
  "gsm_L_sub a b =
    (if a \<ge> 0 then
       (if b \<ge> 0 then a - b
        else let A = a + - (b + 1) in if A \<ge> MAX_LONGWORD then MAX_LONGWORD else A + 1)
     else if b \<le> 0 then a - b
     else let A = - (a + 1) + b in if A \<ge> MAX_LONGWORD then MIN_LONGWORD else - A - 1)"

definition bitoff :: "int list" where
  "bitoff = [
    8, 7, 6, 6, 5, 5, 5, 5, 4, 4, 4, 4, 4, 4, 4, 4,
    3, 3, 3, 3, 3, 3, 3, 3, 3, 3, 3, 3, 3, 3, 3, 3,
    2, 2, 2, 2, 2, 2, 2, 2, 2, 2, 2, 2, 2, 2, 2, 2,
    2, 2, 2, 2, 2, 2, 2, 2, 2, 2, 2, 2, 2, 2, 2, 2,
    1, 1, 1, 1, 1, 1, 1, 1, 1, 1, 1, 1, 1, 1, 1, 1,
    1, 1, 1, 1, 1, 1, 1, 1, 1, 1, 1, 1, 1, 1, 1, 1,
    1, 1, 1, 1, 1, 1, 1, 1, 1, 1, 1, 1, 1, 1, 1, 1,
    1, 1, 1, 1, 1, 1, 1, 1, 1, 1, 1, 1, 1, 1, 1, 1,
    0, 0, 0, 0, 0, 0, 0, 0, 0, 0, 0, 0, 0, 0, 0, 0,
    0, 0, 0, 0, 0, 0, 0, 0, 0, 0, 0, 0, 0, 0, 0, 0,
    0, 0, 0, 0, 0, 0, 0, 0, 0, 0, 0, 0, 0, 0, 0, 0,
    0, 0, 0, 0, 0, 0, 0, 0, 0, 0, 0, 0, 0, 0, 0, 0,
    0, 0, 0, 0, 0, 0, 0, 0, 0, 0, 0, 0, 0, 0, 0, 0,
    0, 0, 0, 0, 0, 0, 0, 0, 0, 0, 0, 0, 0, 0, 0, 0,
    0, 0, 0, 0, 0, 0, 0, 0, 0, 0, 0, 0, 0, 0, 0, 0,
    0, 0, 0, 0, 0, 0, 0, 0, 0, 0, 0, 0, 0, 0, 0, 0]"

definition gsm_norm :: "int \<Rightarrow> int option" where
  "gsm_norm a = do {
    c_assert (a \<noteq> 0);
    if a < 0 \<and> a \<le> -1073741824 then Some 0
    else let a = (if a < 0 then NOT a else a)
         in Some
           (if a AND 0xffff0000 \<noteq> 0
            then (if a AND 0xff000000 \<noteq> 0
                  then -1 + bitoff ! nat (0xFF AND SASR a 24)
                  else 7 + bitoff ! nat (0xFF AND SASR a 16))
            else (if a AND 0xff00 \<noteq> 0
                  then 15 + bitoff ! nat (0xFF AND SASR a 8)
                  else 23 + bitoff ! nat (0xFF AND a))) }"

text \<open>The right shifts come first here, since the left shifts call them.\<close>

definition gsm_L_asr :: "int \<Rightarrow> int \<Rightarrow> int" where
  "gsm_L_asr a n =
    (if n \<ge> 32 then (if a < 0 then -1 else 0)
     else if n \<le> -32 then 0
     else if n < 0 then push_bit (nat (- n)) a
     else SASR a (nat n))"

definition gsm_asr :: "int \<Rightarrow> int \<Rightarrow> int" where
  "gsm_asr a n =
    (if n \<ge> 16 then (if a < 0 then -1 else 0)
     else if n \<le> -16 then 0
     else if n < 0 then s16 (push_bit (nat (- n)) a)
     else s16 (SASR a (nat n)))"

definition gsm_L_asl :: "int \<Rightarrow> int \<Rightarrow> int" where
  "gsm_L_asl a n =
    (if n \<ge> 32 then 0
     else if n \<le> -32 then (if a < 0 then -1 else 0)
     else if n < 0 then gsm_L_asr a (- n)
     else push_bit (nat n) a)"

definition gsm_asl :: "int \<Rightarrow> int \<Rightarrow> int" where
  "gsm_asl a n =
    (if n \<ge> 16 then 0
     else if n \<le> -16 then (if a < 0 then -1 else 0)
     else if n < 0 then gsm_asr a (- n)
     else s16 (push_bit (nat n) a))"

text \<open>The \<open>while (k--)\<close> loop of the division.\<close>

fun gsm_div_loop :: "nat \<Rightarrow> int \<Rightarrow> int \<Rightarrow> int \<Rightarrow> int" where
  "gsm_div_loop 0 dv L_num L_denum = dv"
| "gsm_div_loop (Suc k) dv L_num L_denum =
     (let dv = s16 (push_bit 1 dv);
          L_num = push_bit 1 L_num
      in if L_num \<ge> L_denum then gsm_div_loop k (s16 (dv + 1)) (L_num - L_denum) L_denum
         else gsm_div_loop k dv L_num L_denum)"

definition gsm_div :: "int \<Rightarrow> int \<Rightarrow> int option" where
  "gsm_div num denum = do {
    c_assert (num \<ge> 0 \<and> denum \<ge> num);
    if num = 0 then Some 0 else Some (gsm_div_loop 15 0 num denum) }"

subsection \<open>The macros of \<open>private.h\<close>\<close>

definition GSM_MULT_R :: "int \<Rightarrow> int \<Rightarrow> int" where
  "GSM_MULT_R a b = SASR (a * b + 16384) 15"

definition GSM_MULT :: "int \<Rightarrow> int \<Rightarrow> int" where
  "GSM_MULT a b = SASR (a * b) 15"

definition GSM_L_ADD :: "int \<Rightarrow> int \<Rightarrow> int" where
  "GSM_L_ADD a b =
    (if a < 0 then
       (if b \<ge> 0 then a + b
        else let utmp = - (a + 1) + - (b + 1)
             in if utmp \<ge> MAX_LONGWORD then MIN_LONGWORD else - utmp - 2)
     else if b \<le> 0 then a + b
     else let utmp = a + b in if utmp \<ge> MAX_LONGWORD then MAX_LONGWORD else utmp)"

text \<open>The range test of \<open>GSM_ADD\<close> is one unsigned 64-bit comparison.\<close>

definition GSM_ADD :: "int \<Rightarrow> int \<Rightarrow> int" where
  "GSM_ADD a b =
    (let ltmp = a + b
     in if uint (word_of_int (ltmp - MIN_WORD) :: u64) > MAX_WORD - MIN_WORD
        then (if ltmp > 0 then MAX_WORD else MIN_WORD)
        else ltmp)"

definition GSM_SUB :: "int \<Rightarrow> int \<Rightarrow> int" where
  "GSM_SUB a b =
    (let ltmp = a - b
     in if ltmp \<ge> MAX_WORD then MAX_WORD else if ltmp \<le> MIN_WORD then MIN_WORD else ltmp)"

definition GSM_ABS :: "int \<Rightarrow> int" where
  "GSM_ABS a = (if a < 0 then (if a = MIN_WORD then MAX_WORD else - a) else a)"

subsection \<open>\<open>table.c\<close>\<close>

definition gsm_A :: "int list" where
  "gsm_A = [20480, 20480, 20480, 20480, 13964, 15360, 8534, 9036]"

definition gsm_B :: "int list" where
  "gsm_B = [0, 0, 2048, -2560, 94, -1792, -341, -1144]"

definition gsm_MIC :: "int list" where
  "gsm_MIC = [-32, -32, -16, -16, -8, -8, -4, -4]"

definition gsm_MAC :: "int list" where
  "gsm_MAC = [31, 31, 15, 15, 7, 7, 3, 3]"

definition gsm_INVA :: "int list" where
  "gsm_INVA = [13107, 13107, 13107, 13107, 19223, 17476, 31454, 29708]"

definition gsm_DLB :: "int list" where
  "gsm_DLB = [6554, 16384, 26214, 32767]"

definition gsm_QLB :: "int list" where
  "gsm_QLB = [3277, 11469, 21299, 32767]"

definition gsm_H :: "int list" where
  "gsm_H = [-134, -374, 0, 2054, 5741, 8192, 5741, 2054, 0, -374, -134]"

definition gsm_NRFAC :: "int list" where
  "gsm_NRFAC = [29128, 26215, 23832, 21846, 20165, 18725, 17476, 16384]"

definition gsm_FAC :: "int list" where
  "gsm_FAC = [18431, 20479, 22527, 24575, 26623, 28671, 30719, 32767]"

subsection \<open>\<open>struct gsm_state\<close> of \<open>private.h\<close>\<close>

record gsm_state =
  S_dp0 :: "int list"
  S_z1 :: int
  S_L_z2 :: int
  S_mp :: int
  S_u :: "int list"
  S_LARpp :: "int list list"
  S_j :: nat
  S_nrp :: int
  S_v :: "int list"
  S_msr :: int
  S_verbose :: int
  S_fast :: int

text \<open>
  \<open>gsm_create\<close>: \<open>malloc\<close>, \<open>memset\<close> to zero, \<open>nrp = 40\<close>.  The argument says whether \<open>malloc\<close> finds memory.
\<close>

definition gsm_initial :: gsm_state where
  "gsm_initial = \<lparr>S_dp0 = replicate 280 0, S_z1 = 0, S_L_z2 = 0, S_mp = 0, S_u = replicate 8 0,
     S_LARpp = replicate 2 (replicate 8 0), S_j = 0, S_nrp = 40, S_v = replicate 9 0, S_msr = 0,
     S_verbose = 0, S_fast = 0\<rparr>"

definition gsm_create :: "bool \<Rightarrow> gsm_state option" where
  "gsm_create mem = (if mem then Some gsm_initial else None)"

text \<open>
  \<open>gsm_option\<close> with \<open>GSM_OPT_VERBOSE = 1\<close> and \<open>GSM_OPT_FAST = 2\<close>: assertions are on, so \<open>NDEBUG\<close> is not
  defined; \<open>FAST\<close> is not defined either.  \<open>None\<close> is the null pointer for \<open>val\<close>; \<open>verbose\<close> is a \<open>char\<close>.
\<close>

definition gsm_option :: "gsm_state \<Rightarrow> int \<Rightarrow> int option \<Rightarrow> gsm_state \<times> int" where
  "gsm_option r opt val =
    (if opt = 1 then
       (case val of None \<Rightarrow> (r, S_verbose r) | Some x \<Rightarrow> (r\<lparr>S_verbose := s8 x\<rparr>, S_verbose r))
     else if opt = 2 then (r, -1)
     else (r, -1))"

section \<open>Ranges\<close>

definition is_word :: "int \<Rightarrow> bool" where
  "is_word x \<longleftrightarrow> MIN_WORD \<le> x \<and> x \<le> MAX_WORD"

definition is_longword :: "int \<Rightarrow> bool" where
  "is_longword x \<longleftrightarrow> MIN_LONGWORD \<le> x \<and> x \<le> MAX_LONGWORD"

named_theorems word_ranges \<open>16-bit ranges of the arithmetic operations\<close>

lemma is_word_s16 [simp]: "is_word (s16 x)"
  using s16_range[of x] by (simp add: is_word_def)

lemma s16_is_word [simp]: "is_word x \<Longrightarrow> s16 x = x"
  by (simp add: is_word_def s16_id)

lemma c_assert_bind [simp]: "Option.bind (c_assert b) f = (if b then f () else None)"
  by (simp add: c_assert_def)

lemma saturate_range [word_ranges, simp]: "is_word (saturate x)"
  by (simp add: saturate_def is_word_def)

lemma saturate_id [simp]: "is_word x \<Longrightarrow> saturate x = x"
  by (simp add: saturate_def is_word_def)

text \<open>The unsigned comparison is a range test for every sum of two words.\<close>

lemma GSM_ADD_saturate:
  assumes "is_word a" "is_word b"
  shows "GSM_ADD a b = saturate (a + b)"
proof (cases "a + b < MIN_WORD")
  case True
  have "uint (word_of_int (a + b - MIN_WORD) :: u64) = (a + b - MIN_WORD) mod 2 ^ 64"
    by (subst uint_word_of_int) simp
  also have "\<dots> = a + b - MIN_WORD + 2 ^ 64"
    using assms True by (intro int_mod_pos_eq[where q = "-1"]) (auto simp: is_word_def)
  finally show ?thesis
    using True assms unfolding GSM_ADD_def Let_def saturate_def is_word_def by auto
next
  case False
  have "uint (word_of_int (a + b - MIN_WORD) :: u64) = a + b - MIN_WORD"
    using assms False by (subst uint_word_of_int, intro mod_pos_pos_trivial) (auto simp: is_word_def)
  then show ?thesis
    using False unfolding GSM_ADD_def Let_def saturate_def by auto
qed

lemma GSM_SUB_saturate: "GSM_SUB a b = saturate (a - b)"
  unfolding GSM_SUB_def saturate_def Let_def by auto

lemma gsm_add_saturate: "gsm_add a b = saturate (a + b)"
  and gsm_sub_saturate: "gsm_sub a b = saturate (a - b)"
  by (simp_all add: gsm_add_def gsm_sub_def)

lemma GSM_ADD_word [word_ranges]: "is_word a \<Longrightarrow> is_word b \<Longrightarrow> is_word (GSM_ADD a b)"
  by (simp add: GSM_ADD_saturate)

lemma GSM_SUB_word [word_ranges]: "is_word (GSM_SUB a b)"
  by (simp add: GSM_SUB_saturate)

lemma GSM_ABS_eq: "is_word a \<Longrightarrow> GSM_ABS a = min \<bar>a\<bar> MAX_WORD"
  by (auto simp: GSM_ABS_def is_word_def)

lemma GSM_ABS_range [word_ranges]: "is_word a \<Longrightarrow> is_word (GSM_ABS a)"
  and GSM_ABS_nonneg: "is_word a \<Longrightarrow> 0 \<le> GSM_ABS a"
  by (auto simp: GSM_ABS_def is_word_def)

text \<open>A product of two words bounded by \<open>2^30\<close> in absolute value fits after the shift, unless it is \<open>2^30\<close> itself.\<close>

lemma abs_mult_le: "\<bar>a\<bar> \<le> A \<Longrightarrow> \<bar>b\<bar> \<le> B \<Longrightarrow> \<bar>a * b\<bar> \<le> A * (B::int)"
  by (simp add: abs_mult mult_mono)

lemma word_product:
  assumes "is_word a" "is_word b" "\<not> (a = MIN_WORD \<and> b = MIN_WORD)"
  shows "- 1073741824 \<le> a * b \<and> a * b \<le> 1073709056"
proof -
  have w: "\<bar>a\<bar> \<le> 32768" "\<bar>b\<bar> \<le> 32768" using assms(1,2) by (auto simp: is_word_def)
  from assms have "\<bar>a\<bar> \<le> 32767 \<or> \<bar>b\<bar> \<le> 32767 \<or> a * b \<le> 0"
    by (auto simp: is_word_def)
  with abs_mult_le[OF w] abs_mult_le[of a 32767 b 32768] abs_mult_le[of a 32768 b 32767] w
  show ?thesis by auto
qed

lemma GSM_MULT_R_word [word_ranges]:
  assumes "is_word a" "is_word b" "\<not> (a = MIN_WORD \<and> b = MIN_WORD)"
  shows "is_word (GSM_MULT_R a b)"
  using word_product[OF assms] unfolding is_word_def GSM_MULT_R_def drop_bit_eq_div
  by (auto simp: zdiv_int)

lemma GSM_MULT_word [word_ranges]:
  assumes "is_word a" "is_word b" "\<not> (a = MIN_WORD \<and> b = MIN_WORD)"
  shows "is_word (GSM_MULT a b)"
  using word_product[OF assms] unfolding is_word_def GSM_MULT_def drop_bit_eq_div
  by auto

section \<open>Normalisation\<close>

text \<open>The table gives the number of leading zeros of a byte.\<close>

lemma bitoff_runs:
  "bitoff = 8 # 7 # replicate 2 6 @ replicate 4 5 @ replicate 8 4 @ replicate 16 3
     @ replicate 32 2 @ replicate 64 1 @ replicate 128 0"
  by (simp add: bitoff_def numeral_nat)

lemma bitoff_nth:
  assumes "0 < n" "n < 256"
  shows "0 \<le> bitoff ! n \<and> bitoff ! n \<le> 7 \<and>
    2 ^ nat (7 - bitoff ! n) \<le> n \<and> n < 2 ^ nat (8 - bitoff ! n)"
  using assms unfolding bitoff_runs by (auto simp: nth_append nth_Cons' nth_replicate)

lemma int_and_field: "(a::int) AND push_bit n (mask m) = push_bit n (take_bit m (drop_bit n a))"
  by (rule bit_eqI) (auto simp: bit_simps)

lemma int_and_high_zero:
  assumes "0 \<le> a" "a < 2 ^ (n + m)" "M = push_bit n (mask m)"
  shows "(a::int) AND M = 0 \<longleftrightarrow> a < 2 ^ n"
proof -
  have "a div 2 ^ n < 2 ^ m"
    using assms by (simp add: int_div_less_iff power_add mult.commute)
  then have "take_bit m (drop_bit n a) = a div 2 ^ n"
    using assms(1) by (simp add: drop_bit_eq_div take_bit_int_eq_self pos_imp_zdiv_nonneg_iff)
  then have "a AND M = 2 ^ n * (a div 2 ^ n)"
    unfolding assms(3) int_and_field by (simp add: push_bit_eq_mult)
  then show ?thesis
    using assms(1) by (auto simp: zdiv_eq_0_iff)
qed

text \<open>One branch of \<open>gsm_norm\<close>: the leading byte sits at bit \<open>s\<close>.\<close>

lemma norm_byte:
  assumes "2 ^ s \<le> a" "a < 2 ^ (s + 8)"
  shows "\<exists>k. bitoff ! nat (0xFF AND SASR a s) = int k \<and> k \<le> 7 \<and>
    2 ^ (s + 7) \<le> a * 2 ^ k \<and> a * 2 ^ k < 2 ^ (s + 8)"
proof -
  define b where "b = a div 2 ^ s"
  have b: "1 \<le> b" "b < 256"
    using assms by (simp_all add: b_def int_le_div_iff int_div_less_iff power_add)
  have "0xFF AND SASR a s = take_bit 8 b"
    by (simp add: b_def take_bit_eq_mask mask_eq_exp_minus_1 and.commute drop_bit_eq_div)
  then have "nat (0xFF AND SASR a s) = nat b"
    using b by (simp add: take_bit_int_eq_self)
  moreover obtain k where k: "bitoff ! nat b = int k" "k \<le> 7"
  proof (rule that[of "nat (bitoff ! nat b)"])
    have "0 \<le> bitoff ! nat b \<and> bitoff ! nat b \<le> 7"
      using bitoff_nth[of "nat b"] b by simp
    then show "bitoff ! nat b = int (nat (bitoff ! nat b))" "nat (bitoff ! nat b) \<le> 7" by linarith+
  qed
  moreover have "2 ^ (7 - k) \<le> b" "b < 2 ^ (8 - k)"
  proof -
    have "2 ^ (7 - k) \<le> nat b" "nat b < 2 ^ (8 - k)"
      using bitoff_nth[of "nat b"] b k by (auto simp: nat_diff_distrib' nat_less_iff)
    then show "2 ^ (7 - k) \<le> b" "b < 2 ^ (8 - k)"
      using b by (simp_all add: le_nat_iff nat_less_iff)
  qed
  then have "2 ^ (7 - k) * 2 ^ s \<le> a" "a < 2 ^ (8 - k) * 2 ^ s"
    by (simp_all add: b_def int_le_div_iff int_div_less_iff)
  then have "2 ^ (7 - k) * 2 ^ s * 2 ^ k \<le> a * 2 ^ k" "a * 2 ^ k < 2 ^ (8 - k) * 2 ^ s * 2 ^ k"
    by simp_all
  then have "2 ^ (s + 7) \<le> a * 2 ^ k" "a * 2 ^ k < 2 ^ (s + 8)"
    using k(2) by (simp_all add: add.commute flip: power_add)
  ultimately show ?thesis by auto
qed

lemma gsm_norm_pos_aux:
  assumes "0 < a" "a < 2 ^ 31"
  shows "\<exists>k. (if a AND 0xffff0000 \<noteq> 0
            then (if a AND 0xff000000 \<noteq> 0
                  then -1 + bitoff ! nat (0xFF AND SASR a 24)
                  else 7 + bitoff ! nat (0xFF AND SASR a 16))
            else (if a AND 0xff00 \<noteq> 0
                  then 15 + bitoff ! nat (0xFF AND SASR a 8)
                  else 23 + bitoff ! nat (0xFF AND a))) = int k \<and>
    k \<le> 30 \<and> 2 ^ 30 \<le> a * 2 ^ k \<and> a * 2 ^ k < 2 ^ 31"
proof -
  have m: "a AND 0xffff0000 = 0 \<longleftrightarrow> a < 2 ^ 16" "a AND 0xff000000 = 0 \<longleftrightarrow> a < 2 ^ 24"
    using assms int_and_high_zero[of a 16 16 "0xffff0000"] int_and_high_zero[of a 24 8 "0xff000000"]
    by (simp_all add: mask_eq_exp_minus_1)
  have m2: "a AND 0xff00 = 0 \<longleftrightarrow> a < 2 ^ 8" if "a < 2 ^ 16"
    using assms that int_and_high_zero[of a 8 8 "0xff00"] by (simp add: mask_eq_exp_minus_1)
  consider "2 ^ 24 \<le> a" | "2 ^ 16 \<le> a" "a < 2 ^ 24" | "2 ^ 8 \<le> a" "a < 2 ^ 16" | "a < 2 ^ 8"
    by linarith
  then show ?thesis
  proof cases
    case 1
    then obtain k where k: "bitoff ! nat (0xFF AND SASR a 24) = int k" "2 ^ 31 \<le> a * 2 ^ k" "a * 2 ^ k < 2 ^ 32"
      "k \<le> 7" using norm_byte[of 24 a] assms by auto
    from k assms have "k \<noteq> 0" by (cases k) auto
    then obtain l where "k = Suc l" using not0_implies_Suc by blast
    with k show ?thesis using m 1 by (intro exI[of _ l]) simp
  next
    case 2
    with norm_byte[of 16 a] obtain k where "bitoff ! nat (0xFF AND SASR a 16) = int k" "k \<le> 7"
      "2 ^ 23 \<le> a * 2 ^ k" "a * 2 ^ k < 2 ^ 24" by auto
    with m 2 show ?thesis by (intro exI[of _ "7 + k"]) (simp add: power_add)
  next
    case 3
    with norm_byte[of 8 a] obtain k where "bitoff ! nat (0xFF AND SASR a 8) = int k" "k \<le> 7"
      "2 ^ 15 \<le> a * 2 ^ k" "a * 2 ^ k < 2 ^ 16" by auto
    with m m2 3 show ?thesis by (intro exI[of _ "15 + k"]) (simp add: power_add)
  next
    case 4
    with norm_byte[of 0 a] assms obtain k where "bitoff ! nat (0xFF AND a) = int k" "k \<le> 7"
      "2 ^ 7 \<le> a * 2 ^ k" "a * 2 ^ k < 2 ^ 8" by auto
    with m m2 4 show ?thesis by (intro exI[of _ "23 + k"]) (simp add: power_add)
  qed
qed

lemma gsm_norm_pos:
  assumes "0 < a" "a < 2 ^ 31"
  obtains k where "gsm_norm a = Some (int k)" "k \<le> 30" "2 ^ 30 \<le> a * 2 ^ k" "a * 2 ^ k < 2 ^ 31"
  using gsm_norm_pos_aux[OF assms] assms by (auto simp: gsm_norm_def Let_def)

lemma gsm_norm_neg:
  assumes "- (2 ^ 31) \<le> a" "a < 0"
  obtains k where "gsm_norm a = Some (int k)" "k \<le> 31" "- (2 ^ 31) \<le> a * 2 ^ k" "a * 2 ^ k \<le> - (2 ^ 30)"
proof (cases "a \<le> -1073741824 \<or> a = -1")
  case True
  then show thesis
  proof
    assume "a \<le> -1073741824"
    then show thesis using assms that[of 0] by (simp add: gsm_norm_def)
  next
    assume "a = -1"
    then show thesis using that[of 31] by (simp add: gsm_norm_def bitoff_def)
  qed
next
  case False
  define b where "b = NOT a"
  have b: "0 < b" "b < 2 ^ 30" "a = - b - 1" using False assms by (auto simp: b_def not_int_def)
  then obtain k where "gsm_norm b = Some (int k)" "k \<le> 30" "2 ^ 30 \<le> b * 2 ^ k" "b * 2 ^ k < 2 ^ 31"
    using gsm_norm_pos[of b] by auto
  moreover from this(1) have "gsm_norm a = Some (int k)"
    using False assms b(1) by (simp add: gsm_norm_def Let_def flip: b_def)
  moreover have "b * 2 ^ k + 2 ^ k \<le> 2 ^ 31"
  proof -
    have e: "2 ^ 31 = (2 ^ (31 - k) * 2 ^ k :: int)"
      using \<open>k \<le> 30\<close> by (simp flip: power_add)
    with \<open>b * 2 ^ k < 2 ^ 31\<close> have "b * 2 ^ k < 2 ^ (31 - k) * 2 ^ k" by (simp only:)
    then have "b + 1 \<le> 2 ^ (31 - k)" by simp
    then have "(b + 1) * 2 ^ k \<le> 2 ^ (31 - k) * 2 ^ k" by simp
    then show ?thesis unfolding e by (simp only: distrib_right mult_1)
  qed
  moreover have "a * 2 ^ k = - (b * 2 ^ k) - 2 ^ k"
    unfolding b(3) by (simp add: algebra_simps)
  moreover have "(0::int) < 2 ^ k" by simp
  ultimately show thesis
    by (intro that[of k]) linarith+
qed

section \<open>Division\<close>

text \<open>
  The loop is restoring division: it keeps the remainder below the denominator and the quotient
  below \<open>2 ^ 15\<close>, so the 16-bit quotient never wraps.
\<close>

lemma gsm_div_loop_exact:
  assumes "0 < d" "0 \<le> n" "n < d" "0 \<le> q" "q < 2 ^ (15 - k)" "k \<le> 15"
  shows "gsm_div_loop k q n d = q * 2 ^ k + n * 2 ^ k div d"
  using assms
proof (induction k arbitrary: q n)
  case 0
  then show ?case by (simp add: div_pos_pos_trivial)
next
  case (Suc k)
  have le: "2 * q + 1 < 2 ^ (15 - k)"
  proof -
    have "2 ^ (15 - k) = (2 * 2 ^ (15 - Suc k) :: int)"
      using Suc.prems(6) by (simp add: Suc_diff_Suc flip: power_Suc)
    with Suc.prems(5) show ?thesis by linarith
  qed
  also have "(2::int) ^ (15 - k) \<le> 2 ^ 15" by (rule power_increasing) auto
  finally have w: "s16 (push_bit 1 q) = 2 * q" "s16 (2 * q + 1) = 2 * q + 1"
    using Suc.prems(4) by (simp_all add: s16_id)
  have step: "n * 2 ^ Suc k div d = c * 2 ^ k + (2 * n - c * d) * 2 ^ k div d" for c
  proof -
    have "n * 2 ^ Suc k = (2 * n - c * d) * 2 ^ k + (c * 2 ^ k) * d" by (simp add: algebra_simps)
    then show ?thesis using Suc.prems(1) by (metis add.commute div_mult_self1 less_irrefl)
  qed
  show ?case
  proof (cases "2 * n \<ge> d")
    case True
    then have "gsm_div_loop (Suc k) q n d = gsm_div_loop k (2 * q + 1) (2 * n - d) d"
      using w by (simp add: push_bit_eq_mult mult.commute)
    also have "\<dots> = (2 * q + 1) * 2 ^ k + (2 * n - d) * 2 ^ k div d"
      using Suc.prems le True by (intro Suc.IH) auto
    finally show ?thesis using step[of 1] by (simp add: algebra_simps)
  next
    case False
    then have "gsm_div_loop (Suc k) q n d = gsm_div_loop k (2 * q) (2 * n) d"
      using w by (simp add: push_bit_eq_mult mult.commute)
    also have "\<dots> = 2 * q * 2 ^ k + 2 * n * 2 ^ k div d"
      using Suc.prems le False by (intro Suc.IH) auto
    finally show ?thesis by (simp add: algebra_simps)
  qed
qed

text \<open>With equal arguments every bit of the quotient is one.\<close>

lemma gsm_div_loop_equal:
  assumes "0 < d" "0 \<le> q" "q < 2 ^ (15 - k)" "k \<le> 15"
  shows "gsm_div_loop k q d d = (q + 1) * 2 ^ k - 1"
  using assms
proof (induction k arbitrary: q)
  case (Suc k)
  have "2 ^ (15 - k) = (2 * 2 ^ (15 - Suc k) :: int)"
    using Suc.prems(4) by (simp add: Suc_diff_Suc flip: power_Suc)
  with Suc.prems(3) have le: "2 * q + 1 < 2 ^ (15 - k)" by linarith
  also have "(2::int) ^ (15 - k) \<le> 2 ^ 15" by (rule power_increasing) auto
  finally have w: "s16 (push_bit 1 q) = 2 * q" "s16 (2 * q + 1) = 2 * q + 1"
    using Suc.prems(2) by (simp_all add: s16_id)
  then have "gsm_div_loop (Suc k) q d d = gsm_div_loop k (2 * q + 1) d d"
    using Suc.prems(1) by (simp add: push_bit_eq_mult mult.commute)
  also have "\<dots> = (2 * q + 2) * 2 ^ k - 1"
    using Suc.IH[of "2 * q + 1"] Suc.prems le by simp
  finally show ?case by (simp add: algebra_simps)
qed simp

lemma gsm_div_quotient:
  assumes "0 \<le> num" "num \<le> denum" "0 < denum"
  shows "gsm_div num denum = Some (min 32767 (num * 32768 div denum))"
proof (cases "num = denum")
  case True
  then show ?thesis
    using assms gsm_div_loop_equal[of denum 0 15] by (simp add: gsm_div_def)
next
  case False
  then have "num * 32768 div denum < 32768"
    using assms by (simp add: int_div_less_iff)
  then show ?thesis
    using assms False gsm_div_loop_exact[of denum num 0 15] by (auto simp: gsm_div_def)
qed

lemma gsm_div_range:
  assumes "0 \<le> num" "num \<le> denum"
  obtains q where "gsm_div num denum = Some q" "0 \<le> q" "q \<le> 32767"
proof (cases "denum = 0")
  case True
  then show thesis using assms that[of 0] by (simp add: gsm_div_def)
next
  case False
  then show thesis
    using assms gsm_div_quotient[OF assms] that by (simp add: pos_imp_zdiv_nonneg_iff)
qed

section \<open>Properties\<close>

lemma s16_and_mask: "s16 (x AND 0xFFFF) = s16 x"
proof -
  have "s16 (x AND mask 16) = s16 x" by (rule bit_eqI) (auto simp: bit_simps)
  then show ?thesis by (simp add: mask_eq_exp_minus_1)
qed

lemma gsm_mult_r_macro:
  assumes "is_word a" "is_word b" "\<not> (a = MIN_WORD \<and> b = MIN_WORD)"
  shows "gsm_mult_r a b = GSM_MULT_R a b"
  using assms GSM_MULT_R_word[OF assms]
  by (auto simp: gsm_mult_r_def Let_def s16_and_mask simp flip: GSM_MULT_R_def)

lemma gsm_mult_r_word [word_ranges]: "is_word (gsm_mult_r a b)"
  by (simp add: gsm_mult_r_def Let_def is_word_def) (use is_word_s16 is_word_def in auto)

lemma gsm_mult_word [word_ranges]: "is_word (gsm_mult a b)"
  by (simp add: gsm_mult_def) (simp add: is_word_def)

text \<open>
  C34. The inlined macros and the functions of \<^verbatim>\<open>add.c\<close> compute the same saturating arithmetic: on
  16-bit operands addition and subtraction are the exact result clamped to 16 bits, the rounded
  product is the exact product divided by \<open>2^15\<close> and rounded to nearest (except for the one pair of
  operands the macro excludes), and on 32-bit operands long addition is clamped to 32 bits.
\<close>

theorem gsm_arith_saturating:
  assumes "is_word a" "is_word b" "is_longword x" "is_longword y"
  shows "GSM_ADD a b = max MIN_WORD (min MAX_WORD (a + b)) \<and> gsm_add a b = GSM_ADD a b \<and>
    GSM_SUB a b = max MIN_WORD (min MAX_WORD (a - b)) \<and> gsm_sub a b = GSM_SUB a b \<and>
    GSM_ABS a = min \<bar>a\<bar> MAX_WORD \<and> gsm_abs a = GSM_ABS a \<and>
    (a \<noteq> MIN_WORD \<or> b \<noteq> MIN_WORD \<longrightarrow>
      gsm_mult_r a b = GSM_MULT_R a b \<and> gsm_mult a b = GSM_MULT a b \<and>
      GSM_MULT_R a b = (a * b + 2 ^ 14) div 2 ^ 15 \<and> is_word (GSM_MULT_R a b)) \<and>
    GSM_L_ADD x y = max MIN_LONGWORD (min MAX_LONGWORD (x + y)) \<and>
    gsm_L_add x y = GSM_L_ADD x y \<and>
    gsm_L_sub x y = max MIN_LONGWORD (min MAX_LONGWORD (x - y))"
proof -
  have sat: "saturate z = max MIN_WORD (min MAX_WORD z)" for z
    by (auto simp: saturate_def)
  have L: "GSM_L_ADD x y = max MIN_LONGWORD (min MAX_LONGWORD (x + y))"
    "gsm_L_add x y = max MIN_LONGWORD (min MAX_LONGWORD (x + y))"
    "gsm_L_sub x y = max MIN_LONGWORD (min MAX_LONGWORD (x - y))"
    using assms(3,4)
    unfolding GSM_L_ADD_def gsm_L_add_def gsm_L_sub_def is_longword_def Let_def by auto
  have M: "gsm_mult a b = GSM_MULT a b" if "a \<noteq> MIN_WORD \<or> b \<noteq> MIN_WORD"
    using GSM_MULT_word[OF assms(1,2)] that by (auto simp: gsm_mult_def simp flip: GSM_MULT_def)
  show ?thesis
    using assms(1,2) L M gsm_mult_r_macro[OF assms(1,2)] GSM_MULT_R_word[OF assms(1,2)]
    by (simp add: GSM_ADD_saturate GSM_SUB_saturate gsm_add_saturate gsm_sub_saturate sat GSM_ABS_eq
        gsm_abs_def GSM_ABS_def[symmetric] GSM_MULT_R_def drop_bit_eq_div)
qed

theorem gsm_arith_saturating_witness:
  "gsm_add 30000 (-5) = GSM_ADD 30000 (-5) \<and> GSM_ADD 30000 30000 = MAX_WORD"
  using gsm_arith_saturating[of 30000 "-5" 0 0] gsm_arith_saturating[of 30000 30000 0 0]
  by (simp add: is_word_def is_longword_def)

text \<open>
  Normalisation: for every nonzero 32-bit value, \<open>gsm_norm\<close> returns the shift that brings it
  into \<open>[2^30, 2^31)\<close>, or into \<open>[-2^31, -2^30]\<close> when it is negative, and aborts on zero.
\<close>

theorem gsm_norm_normalises:
  assumes "is_longword a" "a \<noteq> 0"
  shows "gsm_norm 0 = None \<and> (\<exists>k. gsm_norm a = Some k \<and> 0 \<le> k \<and> k \<le> 31 \<and>
    (if a > 0 then 2 ^ 30 \<le> gsm_L_asl a k \<and> gsm_L_asl a k < 2 ^ 31
     else - (2 ^ 31) \<le> gsm_L_asl a k \<and> gsm_L_asl a k \<le> - (2 ^ 30)))"
proof -
  have "\<exists>k. gsm_norm a = Some (int k) \<and> k \<le> 31 \<and>
    (if a > 0 then 2 ^ 30 \<le> a * 2 ^ k \<and> a * 2 ^ k < 2 ^ 31
     else - (2 ^ 31) \<le> a * 2 ^ k \<and> a * 2 ^ k \<le> - (2 ^ 30))"
  proof (cases "a > 0")
    case True
    then obtain k where "gsm_norm a = Some (int k)" "k \<le> 30" "2 ^ 30 \<le> a * 2 ^ k" "a * 2 ^ k < 2 ^ 31"
      using gsm_norm_pos[of a] assms(1) by (auto simp: is_longword_def)
    with True show ?thesis by (intro exI[of _ k]) auto
  next
    case False
    then obtain k where "gsm_norm a = Some (int k)" "k \<le> 31" "- (2 ^ 31) \<le> a * 2 ^ k" "a * 2 ^ k \<le> - (2 ^ 30)"
      using gsm_norm_neg[of a] assms by (auto simp: is_longword_def)
    with False show ?thesis by (intro exI[of _ k]) auto
  qed
  then obtain k where "gsm_norm a = Some (int k)" "k \<le> 31"
    "if a > 0 then 2 ^ 30 \<le> a * 2 ^ k \<and> a * 2 ^ k < 2 ^ 31
     else - (2 ^ 31) \<le> a * 2 ^ k \<and> a * 2 ^ k \<le> - (2 ^ 30)" by blast
  moreover have "gsm_norm 0 = None" by (simp add: gsm_norm_def)
  ultimately show ?thesis
    by (intro conjI exI[of _ "int k"]) (simp_all add: gsm_L_asl_def push_bit_eq_mult split: if_splits)
qed

theorem gsm_norm_normalises_witness:
  "\<exists>k. gsm_norm (-5) = Some k \<and> - (2 ^ 31) \<le> gsm_L_asl (-5) k \<and> gsm_L_asl (-5) k \<le> - (2 ^ 30)"
  using gsm_norm_normalises[of "-5"] by (auto simp: is_longword_def)

text \<open>
  Division: for \<open>0 \<le> num \<le> denum\<close> the 15-step loop returns the first 15 bits of the fraction
  \<open>num / denum\<close>, capped at \<open>32767\<close> for the fraction one; any other pair trips the assertion.
\<close>

theorem gsm_div_fraction:
  assumes "0 < denum"
  shows "gsm_div num denum =
    (if 0 \<le> num \<and> num \<le> denum then Some (min 32767 (num * 2 ^ 15 div denum)) else None)"
  using gsm_div_quotient[of num denum] assms by (simp add: gsm_div_def)

theorem gsm_div_fraction_witness: "gsm_div 1 3 = Some 10922 \<and> gsm_div 3 1 = None"
  using gsm_div_fraction[of 3 1] gsm_div_fraction[of 1 3] by simp

end
