(* ===== verification/Gsm_Frame.thy ===== *)
theory Gsm_Frame
  imports Gsm_Arith
begin

text \<open>
  The 33-byte frame format of the GSM codec: the packing code of \<^verbatim>\<open>gsm_encode.c\<close> and
  \<^verbatim>\<open>gsm_implode.c\<close> and the unpacking code of \<^verbatim>\<open>gsm_decode.c\<close> and \<^verbatim>\<open>gsm_explode.c\<close>.

  The source repeats the code of one sub-segment four times with other indices; \<open>pack_segment\<close> and
  \<open>unpack_segment\<close> are that code once, and the four calls below pass the indices the source has.
\<close>

unbundle bit_operations_syntax

section \<open>Definitions\<close>

text \<open>The arrays the coder fills and the decoder reads.\<close>

record gsm_params =
  LARc :: "int list"
  Nc :: "int list"
  bc :: "int list"
  Mc :: "int list"
  xmaxc :: "int list"
  xmc :: "int list"

definition GSM_MAGIC :: int where
  "GSM_MAGIC = 0xD"

text \<open>Bytes 1 to 5: the magic nibble and the eight log area ratios.\<close>

definition pack_LARc :: "(nat \<Rightarrow> int) \<Rightarrow> u8 list" where
  "pack_LARc L =
    map word_of_int
     [push_bit 4 (GSM_MAGIC AND 0xF) OR (SASR (L 0) 2 AND 0xF),
      push_bit 6 (L 0 AND 0x3) OR (L 1 AND 0x3F),
      push_bit 3 (L 2 AND 0x1F) OR (SASR (L 3) 2 AND 0x7),
      push_bit 6 (L 3 AND 0x3) OR push_bit 2 (L 4 AND 0xF) OR (SASR (L 5) 2 AND 0x3),
      push_bit 6 (L 5 AND 0x3) OR push_bit 3 (L 6 AND 0x7) OR (L 7 AND 0x7)]"

text \<open>The seven bytes of one sub-segment; \<open>x\<close> indexes its thirteen pulses.\<close>

definition pack_segment :: "int \<Rightarrow> int \<Rightarrow> int \<Rightarrow> int \<Rightarrow> (nat \<Rightarrow> int) \<Rightarrow> u8 list" where
  "pack_segment N b M xm x =
    map word_of_int
     [push_bit 1 (N AND 0x7F) OR (SASR b 1 AND 0x1),
      push_bit 7 (b AND 0x1) OR push_bit 5 (M AND 0x3) OR (SASR xm 1 AND 0x1F),
      push_bit 7 (xm AND 0x1) OR push_bit 4 (x 0 AND 0x7) OR push_bit 1 (x 1 AND 0x7) OR (SASR (x 2) 2 AND 0x1),
      push_bit 6 (x 2 AND 0x3) OR push_bit 3 (x 3 AND 0x7) OR (x 4 AND 0x7),
      push_bit 5 (x 5 AND 0x7) OR push_bit 2 (x 6 AND 0x7) OR (SASR (x 7) 1 AND 0x3),
      push_bit 7 (x 7 AND 0x1) OR push_bit 4 (x 8 AND 0x7) OR push_bit 1 (x 9 AND 0x7) OR (SASR (x 10) 2 AND 0x1),
      push_bit 6 (x 10 AND 0x3) OR push_bit 3 (x 11 AND 0x7) OR (x 12 AND 0x7)]"

text \<open>\<open>gsm_encode\<close> after the call of the coder.\<close>

definition gsm_pack :: "gsm_params \<Rightarrow> u8 list" where
  "gsm_pack p =
    pack_LARc (\<lambda>i. LARc p ! i)
    @ pack_segment (Nc p ! 0) (bc p ! 0) (Mc p ! 0) (xmaxc p ! 0) (\<lambda>i. xmc p ! i)
    @ pack_segment (Nc p ! 1) (bc p ! 1) (Mc p ! 1) (xmaxc p ! 1) (\<lambda>i. xmc p ! (13 + i))
    @ pack_segment (Nc p ! 2) (bc p ! 2) (Mc p ! 2) (xmaxc p ! 2) (\<lambda>i. xmc p ! (26 + i))
    @ pack_segment (Nc p ! 3) (bc p ! 3) (Mc p ! 3) (xmaxc p ! 3) (\<lambda>i. xmc p ! (39 + i))"

text \<open>\<open>gsm_implode\<close>: the same from one array of 76 values.\<close>

definition gsm_implode :: "int list \<Rightarrow> u8 list" where
  "gsm_implode source =
    pack_LARc (\<lambda>i. source ! i)
    @ pack_segment (source ! 8) (source ! 9) (source ! 10) (source ! 11) (\<lambda>i. source ! (12 + i))
    @ pack_segment (source ! 25) (source ! 26) (source ! 27) (source ! 28) (\<lambda>i. source ! (29 + i))
    @ pack_segment (source ! 42) (source ! 43) (source ! 44) (source ! 45) (\<lambda>i. source ! (46 + i))
    @ pack_segment (source ! 59) (source ! 60) (source ! 61) (source ! 62) (\<lambda>i. source ! (63 + i))"

definition unpack_LARc :: "u8 list \<Rightarrow> int list" where
  "unpack_LARc c =
    (let c = (\<lambda>i. uint (c ! i)) in
     [push_bit 2 (c 0 AND 0xF) OR (SASR (c 1) 6 AND 0x3),
      c 1 AND 0x3F,
      SASR (c 2) 3 AND 0x1F,
      push_bit 2 (c 2 AND 0x7) OR (SASR (c 3) 6 AND 0x3),
      SASR (c 3) 2 AND 0xF,
      push_bit 2 (c 3 AND 0x3) OR (SASR (c 4) 6 AND 0x3),
      SASR (c 4) 3 AND 0x7,
      c 4 AND 0x7])"

text \<open>
  \<open>Nc\<close>, \<open>bc\<close>, \<open>Mc\<close>, \<open>xmaxc\<close> and the thirteen pulses of the sub-segment whose seven bytes start at
  \<open>o\<close>, in the order the source assigns them.
\<close>

definition unpack_segment :: "u8 list \<Rightarrow> nat \<Rightarrow> int list" where
  "unpack_segment c k =
    (let c = (\<lambda>i. uint (c ! (k + i))) in
     [SASR (c 0) 1 AND 0x7F,
      push_bit 1 (c 0 AND 0x1) OR (SASR (c 1) 7 AND 0x1),
      SASR (c 1) 5 AND 0x3,
      push_bit 1 (c 1 AND 0x1F) OR (SASR (c 2) 7 AND 0x1),
      SASR (c 2) 4 AND 0x7,
      SASR (c 2) 1 AND 0x7,
      push_bit 2 (c 2 AND 0x1) OR (SASR (c 3) 6 AND 0x3),
      SASR (c 3) 3 AND 0x7,
      c 3 AND 0x7,
      SASR (c 4) 5 AND 0x7,
      SASR (c 4) 2 AND 0x7,
      push_bit 1 (c 4 AND 0x3) OR (SASR (c 5) 7 AND 0x1),
      SASR (c 5) 4 AND 0x7,
      SASR (c 5) 1 AND 0x7,
      push_bit 2 (c 5 AND 0x1) OR (SASR (c 6) 6 AND 0x3),
      SASR (c 6) 3 AND 0x7,
      c 6 AND 0x7])"

text \<open>\<open>gsm_explode\<close> returns -1 (\<open>None\<close>) unless the frame starts with the magic nibble.\<close>

definition gsm_explode :: "u8 list \<Rightarrow> int list option" where
  "gsm_explode c =
    (if SASR (uint (c ! 0)) 4 AND 0x0F \<noteq> GSM_MAGIC then None
     else Some (unpack_LARc c @ unpack_segment c 5 @ unpack_segment c 12
                @ unpack_segment c 19 @ unpack_segment c 26))"

text \<open>\<open>gsm_decode\<close> up to the call of the decoder, on the separate arrays.\<close>

definition gsm_unpack :: "u8 list \<Rightarrow> gsm_params option" where
  "gsm_unpack c =
    (if SASR (uint (c ! 0)) 4 AND 0x0F \<noteq> GSM_MAGIC then None
     else let s = map (unpack_segment c) [5, 12, 19, 26]
          in Some \<lparr>LARc = unpack_LARc c,
                   Nc = map (\<lambda>v. v ! 0) s, bc = map (\<lambda>v. v ! 1) s, Mc = map (\<lambda>v. v ! 2) s,
                   xmaxc = map (\<lambda>v. v ! 3) s, xmc = concat (map (drop 4) s)\<rparr>)"

section \<open>Widths\<close>

definition fits :: "nat \<Rightarrow> int \<Rightarrow> bool" where
  "fits n x \<longleftrightarrow> 0 \<le> x \<and> x < 2 ^ n"

lemma fits_take_bit: "fits n x \<longleftrightarrow> take_bit n x = x"
  by (auto simp: fits_def take_bit_int_eq_self_iff)

lemma fits_take_bitI [simp]: "fits n (take_bit n x)"
  by (simp add: fits_take_bit)

text \<open>The bit widths of the comment in \<^verbatim>\<open>gsm_implode.c\<close>.\<close>

definition LARc_sizes :: "nat list" where
  "LARc_sizes = [6, 6, 5, 5, 4, 4, 3, 3]"

definition segment_sizes :: "nat list" where
  "segment_sizes = [7, 2, 2, 6] @ replicate 13 3"

definition frame_sizes :: "nat list" where
  "frame_sizes = LARc_sizes @ concat (replicate 4 segment_sizes)"

section \<open>Masks as fields\<close>

lemma and_field:
  "(x::int) AND 0x1 = take_bit 1 x" "x AND 0x3 = take_bit 2 x" "x AND 0x7 = take_bit 3 x"
  "x AND 0xF = take_bit 4 x" "x AND 0x1F = take_bit 5 x" "x AND 0x3F = take_bit 6 x"
  "x AND 0x7F = take_bit 7 x"
  by (simp_all add: take_bit_eq_mask mask_eq_exp_minus_1)

lemma uint_byte: "uint (word_of_int e :: u8) = take_bit 8 e"
  by (simp add: unsigned_of_int)

lemma magic_field: "take_bit 4 GSM_MAGIC = GSM_MAGIC"
  by (simp add: GSM_MAGIC_def)

lemma nth_small:
  "(a0 # r) ! 0 = a0" "(a0 # a1 # r) ! 1 = a1" "(a0 # a1 # a2 # r) ! 2 = a2"
  "(a0 # a1 # a2 # a3 # r) ! 3 = a3" "(a0 # a1 # a2 # a3 # a4 # r) ! 4 = a4"
  "(a0 # a1 # a2 # a3 # a4 # a5 # r) ! 5 = a5" "(a0 # a1 # a2 # a3 # a4 # a5 # a6 # r) ! 6 = a6"
  by simp_all

text \<open>Equality of values of at most eight bits, bit by bit.\<close>

lemma bits8_eqI:
  fixes x y :: int
  assumes "bit x 0 = bit y 0" "bit x 1 = bit y 1" "bit x 2 = bit y 2" "bit x 3 = bit y 3"
    "bit x 4 = bit y 4" "bit x 5 = bit y 5" "bit x 6 = bit y 6" "bit x 7 = bit y 7"
    "\<And>m. bit x (m + 8) = bit y (m + 8)"
  shows "x = y"
proof (rule bit_eqI)
  fix n
  show "bit x n = bit y n"
  proof (cases "n < 8")
    case True
    then have "n \<in> set [0, 1, 2, 3, 4, 5, 6, 7]" by auto
    then show ?thesis using assms(1-8) by auto
  next
    case False
    then show ?thesis using assms(9)[of "n - 8"] by simp
  qed
qed

lemmas bit_fields = bit_take_bit_iff bit_or_iff bit_push_bit_iff bit_drop_bit_eq comp_def

lemma pack_unpack_LARc:
  "unpack_LARc (pack_LARc L @ r) =
    [take_bit 6 (L 0), take_bit 6 (L 1), take_bit 5 (L 2), take_bit 5 (L 3),
     take_bit 4 (L 4), take_bit 4 (L 5), take_bit 3 (L 6), take_bit 3 (L 7)]"
  unfolding unpack_LARc_def pack_LARc_def and_field Let_def
  by (simp only: list.map append.simps nth_small uint_byte list.inject, intro conjI refl[of "[]"])
     (rule bits8_eqI; simp only: bit_fields; simp add: numeral_eq_Suc)+

lemma pack_unpack_segment:
  assumes "length l = k"
  shows "unpack_segment (l @ pack_segment N b M xm x @ r) k =
    [take_bit 7 N, take_bit 2 b, take_bit 2 M, take_bit 6 xm] @ map (\<lambda>i. take_bit 3 (x i)) [0..<13]"
proof -
  have u: "[0..<13] = [0, 1, 2, 3, 4, 5, 6, 7, 8, 9, 10, 11, 12]" by (simp add: upt_rec)
  have n: "(l @ s) ! (k + i) = s ! i" for s :: "u8 list" and i using assms by (simp add: nth_append)
  show ?thesis
    unfolding unpack_segment_def pack_segment_def and_field Let_def n u
    by (simp only: list.map append.simps nth_small uint_byte list.inject, intro conjI refl[of "[]"])
       (rule bits8_eqI; simp only: bit_fields; simp add: numeral_eq_Suc)+
qed

text \<open>And back: a byte whose fields are taken out and put together again.\<close>

lemma word_of_int_byteI: "take_bit 8 e = uint w \<Longrightarrow> word_of_int e = (w :: u8)"
  by (rule word_uint_eqI) (simp only: uint_byte)

lemma byte_high_bits: "\<not> bit (w :: u8) (Suc (Suc (Suc (Suc (Suc (Suc (Suc (Suc m))))))))"
  by (auto dest: bit_imp_le_length)

lemma unpack_pack_segment:
  assumes "[N, b, M, xm] @ map x [0..<13] = unpack_segment c k"
  shows "pack_segment N b M xm x = map (\<lambda>i. c ! (k + i)) [0..<7]"
proof -
  have u: "[0..<13] = [0, 1, 2, 3, 4, 5, 6, 7, 8, 9, 10, 11, 12]" "[0..<7] = [0, 1, 2, 3, 4, 5, 6]"
    by (simp_all add: upt_rec)
  note e = assms[unfolded unpack_segment_def Let_def u list.map append.simps list.inject and_field]
  show ?thesis
    unfolding pack_segment_def u list.map list.inject and_field
    by (intro conjI refl[of "[]"]; rule word_of_int_byteI; simp only: e; rule bits8_eqI;
        simp only: bit_fields; simp add: numeral_eq_Suc bit_simps byte_high_bits)
qed

lemma unpack_pack_LARc:
  assumes "map L [0..<8] = unpack_LARc c" "SASR (uint (c ! 0)) 4 AND 0x0F = GSM_MAGIC"
  shows "pack_LARc L = map (\<lambda>i. c ! i) [0..<5]"
proof -
  have u: "[0..<8] = [0, 1, 2, 3, 4, 5, 6, 7]" "[0..<5] = [0, 1, 2, 3, 4]"
    by (simp_all add: upt_rec)
  note e = assms(1)[unfolded unpack_LARc_def Let_def u list.map append.simps list.inject and_field]
  show ?thesis
    unfolding pack_LARc_def u list.map list.inject and_field
    by (intro conjI refl[of "[]"]; rule word_of_int_byteI; simp only: e assms(2)[symmetric] and_field;
        rule bits8_eqI; simp only: bit_fields; simp add: numeral_eq_Suc bit_simps byte_high_bits)
qed

section \<open>Whole frames\<close>

lemma length_pack [simp]: "length (pack_LARc L) = 5" "length (pack_segment N b M xm x) = 7"
  by (simp_all add: pack_LARc_def pack_segment_def)

lemma length_unpack_fields [simp]: "length (unpack_LARc c) = 8" "length (unpack_segment c k) = 17"
  by (simp_all add: unpack_LARc_def unpack_segment_def Let_def)

lemma magic_packed: "SASR (uint ((pack_LARc L @ r) ! 0)) 4 AND 0x0F = GSM_MAGIC"
proof -
  have "take_bit 4 (SASR (take_bit 8 (push_bit 4 (take_bit 4 GSM_MAGIC) OR take_bit 4 (SASR (L 0) 2))) 4)
      = take_bit 4 GSM_MAGIC"
    by (rule bits8_eqI; simp only: bit_fields; simp add: numeral_eq_Suc)
  then show ?thesis
    unfolding pack_LARc_def and_field list.map append.simps nth_small uint_byte magic_field .
qed

lemma slices:
  assumes "length xs = 76"
  shows "xs = map ((!) xs) [0..<8] @ map (\<lambda>i. xs ! (8 + i)) [0..<17] @ map (\<lambda>i. xs ! (25 + i)) [0..<17]
    @ map (\<lambda>i. xs ! (42 + i)) [0..<17] @ map (\<lambda>i. xs ! (59 + i)) [0..<17]"
  by (rule nth_equalityI) (use assms in \<open>auto simp: nth_append\<close>)

lemma segment_fields:
  "map2 take_bit segment_sizes (map (\<lambda>i. f (k + i)) [0..<17]) =
    [take_bit 7 (f k), take_bit 2 (f (k + 1)), take_bit 2 (f (k + 2)), take_bit 6 (f (k + 3))]
      @ map (\<lambda>i. take_bit 3 (f (k + 4 + i) :: int)) [0..<13]"
  by (simp add: segment_sizes_def upt_rec numeral_eq_Suc)

lemma LARc_fields:
  "map2 take_bit LARc_sizes (map f [0..<8]) =
    [take_bit 6 (f 0 :: int), take_bit 6 (f 1), take_bit 5 (f 2), take_bit 5 (f 3),
     take_bit 4 (f 4), take_bit 4 (f 5), take_bit 3 (f 6), take_bit 3 (f 7)]"
  by (simp add: LARc_sizes_def upt_rec numeral_eq_Suc)

lemma length_sizes [simp]: "length LARc_sizes = 8" "length segment_sizes = 17"
  by (simp_all add: LARc_sizes_def segment_sizes_def)

lemma frame_sizes_split:
  "frame_sizes = LARc_sizes @ segment_sizes @ segment_sizes @ segment_sizes @ segment_sizes"
  by (simp add: frame_sizes_def eval_nat_numeral)

lemma explode_implode:
  assumes "length xs = 76"
  shows "gsm_explode (gsm_implode xs) = Some (map2 take_bit frame_sizes xs)"
proof -
  let ?L = "pack_LARc (\<lambda>i. xs ! i)"
  define S where "S k = pack_segment (xs ! k) (xs ! (k + 1)) (xs ! (k + 2)) (xs ! (k + 3)) (\<lambda>i. xs ! (k + 4 + i))" for k
  have c: "gsm_implode xs = ?L @ S 8 @ S 25 @ S 42 @ S 59"
    by (simp add: gsm_implode_def S_def)
  have seg: "unpack_segment (l @ S k @ r) (length l) = map2 take_bit segment_sizes (map (\<lambda>i. xs ! (k + i)) [0..<17])" for l r k
    unfolding S_def by (subst pack_unpack_segment[OF refl]) (simp only: segment_fields)
  have len: "length (S k) = 7" for k by (simp add: S_def)
  have sz: "map2 take_bit frame_sizes xs = map2 take_bit LARc_sizes (map ((!) xs) [0..<8])
     @ map2 take_bit segment_sizes (map (\<lambda>i. xs ! (8 + i)) [0..<17])
     @ map2 take_bit segment_sizes (map (\<lambda>i. xs ! (25 + i)) [0..<17])
     @ map2 take_bit segment_sizes (map (\<lambda>i. xs ! (42 + i)) [0..<17])
     @ map2 take_bit segment_sizes (map (\<lambda>i. xs ! (59 + i)) [0..<17])"
    by (subst (1) slices[OF assms], simp only: frame_sizes_split) simp
  show ?thesis
    unfolding gsm_explode_def c sz
    using seg[of ?L 8 "S 25 @ S 42 @ S 59"] seg[of "?L @ S 8" 25 "S 42 @ S 59"]
      seg[of "?L @ S 8 @ S 25" 42 "S 59"] seg[of "?L @ S 8 @ S 25 @ S 42" 59 "[]"]
    by (simp add: magic_packed pack_unpack_LARc len LARc_fields)
qed

lemma bytes:
  assumes "length c = 33"
  shows "map ((!) c) [0..<5] @ map (\<lambda>i. c ! (5 + i)) [0..<7] @ map (\<lambda>i. c ! (12 + i)) [0..<7]
    @ map (\<lambda>i. c ! (19 + i)) [0..<7] @ map (\<lambda>i. c ! (26 + i)) [0..<7] = c"
  by (rule nth_equalityI) (use assms in \<open>auto simp: nth_append\<close>)

lemma segment_head:
  "[f k, f (k + 1), f (k + 2), f (k + 3)] @ map (\<lambda>i. f (k + 4 + i)) [0..<13] = map (\<lambda>i. f (k + i)) [0..<17]"
  by (simp add: upt_rec numeral_eq_Suc)

lemma implode_explode:
  assumes "length c = 33" "gsm_explode c = Some v"
  shows "gsm_implode v = c" "length v = 76"
proof -
  have magic: "SASR (uint (c ! 0)) 4 AND 0x0F = GSM_MAGIC"
    and v: "v = unpack_LARc c @ unpack_segment c 5 @ unpack_segment c 12 @ unpack_segment c 19 @ unpack_segment c 26"
    using assms(2) by (auto simp: gsm_explode_def split: if_splits)
  show len: "length v = 76" by (simp add: v)
  have sl: "map ((!) v) [0..<8] = unpack_LARc c"
    "map (\<lambda>i. v ! (8 + i)) [0..<17] = unpack_segment c 5" "map (\<lambda>i. v ! (25 + i)) [0..<17] = unpack_segment c 12"
    "map (\<lambda>i. v ! (42 + i)) [0..<17] = unpack_segment c 19" "map (\<lambda>i. v ! (59 + i)) [0..<17] = unpack_segment c 26"
    using trans[OF v[symmetric] slices[OF len]] by simp_all
  have seg: "pack_segment (v ! k) (v ! (k + 1)) (v ! (k + 2)) (v ! (k + 3)) (\<lambda>i. v ! (k + 4 + i))
      = map (\<lambda>i. c ! (j + i)) [0..<7]" if "map (\<lambda>i. v ! (k + i)) [0..<17] = unpack_segment c j" for k j
    by (rule unpack_pack_segment) (simp only: segment_head[of "(!) v" k] that)
  show "gsm_implode v = c"
    using seg[OF sl(2)] seg[OF sl(3)] seg[OF sl(4)] seg[OF sl(5)] unpack_pack_LARc[OF sl(1) magic] bytes[OF assms(1)]
    by (simp add: gsm_implode_def del: upt_conv_Cons_Cons)
qed

section \<open>The separate arrays\<close>

definition segment_values :: "gsm_params \<Rightarrow> nat \<Rightarrow> int list" where
  "segment_values p j = [Nc p ! j, bc p ! j, Mc p ! j, xmaxc p ! j] @ map (\<lambda>i. xmc p ! (13 * j + i)) [0..<13]"

definition flatten :: "gsm_params \<Rightarrow> int list" where
  "flatten p = LARc p @ segment_values p 0 @ segment_values p 1 @ segment_values p 2 @ segment_values p 3"

text \<open>Parameters that fit their fields: what the coder must produce and the decoder may assume.\<close>

definition params_ok :: "gsm_params \<Rightarrow> bool" where
  "params_ok p \<longleftrightarrow> list_all2 fits LARc_sizes (LARc p) \<and>
    length (Nc p) = 4 \<and> length (bc p) = 4 \<and> length (Mc p) = 4 \<and> length (xmaxc p) = 4 \<and> length (xmc p) = 52 \<and>
    list_all (fits 7) (Nc p) \<and> list_all (fits 2) (bc p) \<and> list_all (fits 2) (Mc p) \<and>
    list_all (fits 6) (xmaxc p) \<and> list_all (fits 3) (xmc p)"

lemma length_segment_values [simp]: "length (segment_values p j) = 17"
  by (simp add: segment_values_def)

lemma pack_flatten:
  assumes "length (LARc p) = 8"
  shows "gsm_pack p = gsm_implode (flatten p)"
proof -
  have L: "pack_LARc f = pack_LARc g" if "\<And>i. i < 8 \<Longrightarrow> f i = g i" for f g
    unfolding pack_LARc_def using that by simp
  have S: "pack_segment N b M xm f = pack_segment N b M xm g" if "\<And>i. i < 13 \<Longrightarrow> f i = g i" for N b M xm f g
    unfolding pack_segment_def using that by simp
  show ?thesis
    unfolding gsm_pack_def gsm_implode_def
    by (intro arg_cong2[of _ _ _ _ append] L)
      (use assms in \<open>auto simp: flatten_def segment_values_def nth_append nth_Cons' intro!: S\<close>)
qed

lemma fits_map2: "list_all2 fits ns xs \<Longrightarrow> map2 take_bit ns xs = xs"
  by (induction rule: list_all2_induct) (simp_all add: fits_take_bit)

lemma params_ok_flatten:
  assumes "params_ok p"
  shows "list_all2 fits frame_sizes (flatten p)"
proof -
  have "list_all2 fits segment_sizes (segment_values p j)" if "j < 4" for j
    unfolding segment_sizes_def segment_values_def
  proof (rule list_all2_appendI)
    show "list_all2 fits [7, 2, 2, 6] [Nc p ! j, bc p ! j, Mc p ! j, xmaxc p ! j]"
      using assms that by (simp add: params_ok_def list_all_length)
    show "list_all2 fits (replicate 13 3) (map (\<lambda>i. xmc p ! (13 * j + i)) [0..<13])"
      using assms that by (simp add: params_ok_def list_all_length list_all2_conv_all_nth)
  qed
  then show ?thesis
    unfolding frame_sizes_split flatten_def
    using assms by (intro list_all2_appendI) (auto simp: params_ok_def)
qed

lemma unpack_segments:
  assumes "gsm_explode c = Some (flatten p)" "length (LARc p) = 8"
  shows "unpack_LARc c = LARc p" "unpack_segment c 5 = segment_values p 0" "unpack_segment c 12 = segment_values p 1"
    "unpack_segment c 19 = segment_values p 2" "unpack_segment c 26 = segment_values p 3"
    "SASR (uint (c ! 0)) 4 AND 0x0F = GSM_MAGIC"
  using assms unfolding gsm_explode_def flatten_def by (auto split: if_splits)

lemma four_nths: "length xs = 4 \<Longrightarrow> [xs ! 0, xs ! 1, xs ! 2, xs ! 3] = xs"
  by (rule nth_equalityI) (auto simp: nth_Cons' less_Suc_eq numeral_eq_Suc)

lemma unpack_of_explode:
  assumes "gsm_explode c = Some (flatten p)" "length (LARc p) = 8"
    "length (Nc p) = 4" "length (bc p) = 4" "length (Mc p) = 4" "length (xmaxc p) = 4" "length (xmc p) = 52"
  shows "gsm_unpack c = Some p"
proof -
  have x: "map (\<lambda>i. xmc p ! i) [0..<13] @ map (\<lambda>i. xmc p ! (13 + i)) [0..<13]
      @ map (\<lambda>i. xmc p ! (26 + i)) [0..<13] @ map (\<lambda>i. xmc p ! (39 + i)) [0..<13] = xmc p"
    by (rule nth_equalityI) (use assms in \<open>auto simp: nth_append\<close>)
  show ?thesis
    unfolding gsm_unpack_def Let_def
    using unpack_segments[OF assms(1,2)] x four_nths[OF assms(3)] four_nths[OF assms(4)]
      four_nths[OF assms(5)] four_nths[OF assms(6)]
    by (simp add: segment_values_def)
qed

lemma unpack_pack:
  assumes "params_ok p"
  shows "gsm_unpack (gsm_pack p) = Some p"
proof -
  have len: "length (LARc p) = 8" "length (flatten p) = 76"
    using assms by (auto simp: params_ok_def flatten_def dest: list_all2_lengthD)
  have "gsm_explode (gsm_pack p) = Some (flatten p)"
    unfolding pack_flatten[OF len(1)] explode_implode[OF len(2)]
    by (simp add: fits_map2[OF params_ok_flatten[OF assms]])
  then show ?thesis
    using assms len(1) by (intro unpack_of_explode) (simp_all add: params_ok_def)
qed

text \<open>Whatever 33 bytes arrive, the decoder gets arrays of the right sizes with values that fit.\<close>

lemma unpack_fits:
  "list_all2 fits LARc_sizes (unpack_LARc c)" "list_all2 fits segment_sizes (unpack_segment c k)"
proof -
  have g: "fits 6 (push_bit 2 (take_bit 4 x) OR take_bit 2 y)" "fits 5 (push_bit 2 (take_bit 3 x) OR take_bit 2 y)"
    "fits 4 (push_bit 2 (take_bit 2 x) OR take_bit 2 y)" "fits 2 (push_bit 1 (take_bit 1 x) OR take_bit 1 y)"
    "fits 6 (push_bit 1 (take_bit 5 x) OR take_bit 1 y)" "fits 3 (push_bit 2 (take_bit 1 x) OR take_bit 2 y)"
    "fits 3 (push_bit 1 (take_bit 2 x) OR take_bit 1 y)" for x y
    unfolding fits_take_bit by (rule bits8_eqI; simp only: bit_fields; simp add: numeral_eq_Suc)+
  have r: "replicate 13 (3::nat) = [3, 3, 3, 3, 3, 3, 3, 3, 3, 3, 3, 3, 3]"
    by (simp add: numeral_eq_Suc)
  show "list_all2 fits LARc_sizes (unpack_LARc c)" "list_all2 fits segment_sizes (unpack_segment c k)"
    unfolding LARc_sizes_def segment_sizes_def unpack_LARc_def unpack_segment_def Let_def and_field r
    by (simp_all only: append.simps list_all2_Cons list_all2_Nil g fits_take_bitI simp_thms)
qed

lemma segment_fits:
  assumes "list_all2 fits segment_sizes s"
  shows "fits 7 (s ! 0)" "fits 2 (s ! 1)" "fits 2 (s ! 2)" "fits 6 (s ! 3)" "list_all (fits 3) (drop 4 s)"
proof -
  from assms obtain w x y z b where "s = w # x # y # z # b" "fits 7 w" "fits 2 x" "fits 2 y" "fits 6 z"
    "list_all2 fits (replicate 13 3) b"
    unfolding segment_sizes_def append.simps list_all2_Cons1 by blast
  then show "fits 7 (s ! 0)" "fits 2 (s ! 1)" "fits 2 (s ! 2)" "fits 6 (s ! 3)" "list_all (fits 3) (drop 4 s)"
    by (simp_all add: list_all2_conv_all_nth list_all_length)
qed

lemma unpack_flatten:
  assumes "gsm_unpack c = Some q"
  shows "gsm_explode c = Some (flatten q)"
proof -
  let ?s = "unpack_segment c"
  have t: "[?s k ! 0, ?s k ! 1, ?s k ! 2, ?s k ! 3] @ drop 4 (?s k) = ?s k" for k
    by (rule nth_equalityI) (auto simp: nth_Cons' less_Suc_eq numeral_eq_Suc)
  then have t': "?s k ! 0 # ?s k ! Suc 0 # ?s k ! 2 # ?s k ! 3 # drop 4 (?s k) @ r = ?s k @ r" for k r
    by (metis One_nat_def append_Cons append_Nil append_assoc)
  have x: "map (\<lambda>i. (l @ drop 4 (?s k) @ r) ! (length l + i)) [0..<13] = drop 4 (?s k)" for l k r
    by (rule nth_equalityI) (auto simp: nth_append)
  from assms show ?thesis
    using x[of "[]" 5] x[of "drop 4 (?s 5)" 12] x[of "drop 4 (?s 5) @ drop 4 (?s 12)" 19]
      x[of "drop 4 (?s 5) @ drop 4 (?s 12) @ drop 4 (?s 19)" 26 "[]"]
    by (auto simp: gsm_unpack_def gsm_explode_def Let_def flatten_def segment_values_def t' t'[of _ "[]", simplified]
        split: if_splits)
qed

lemma unpack_ok:
  assumes "gsm_unpack c = Some p"
  shows "params_ok p"
proof -
  note s = segment_fits[OF unpack_fits(2)]
  have "list_all (fits 3) (concat (map (drop 4) (map (unpack_segment c) [5, 12, 19, 26])))"
    using s(5) by (simp add: list_all_append)
  then show ?thesis
    using assms s(1-4) unpack_fits(1)
    by (auto simp: gsm_unpack_def Let_def params_ok_def split: if_splits)
qed

section \<open>Properties\<close>

text \<open>
  C24. The frame is a faithful container: parameters that fit their fields come out of
  the 33 packed bytes unchanged, and whatever 33 bytes are unpacked, the parameters fit their fields
  and packing them gives the same bytes again.
\<close>

theorem gsm_frame_roundtrip:
  "(params_ok p \<longrightarrow> gsm_unpack (gsm_pack p) = Some p \<and> length (gsm_pack p) = 33) \<and>
   (gsm_unpack c = Some q \<and> length c = 33 \<longrightarrow> params_ok q \<and> gsm_pack q = c)"
proof (intro conjI impI)
  show "params_ok p \<Longrightarrow> gsm_unpack (gsm_pack p) = Some p" by (rule unpack_pack)
  show "length (gsm_pack p) = 33" by (simp add: gsm_pack_def)
  assume a: "gsm_unpack c = Some q \<and> length c = 33"
  then show ok: "params_ok q" using unpack_ok by blast
  from a have "gsm_explode c = Some (flatten q)" using unpack_flatten by blast
  with a ok show "gsm_pack q = c"
    using implode_explode(1)[of c] pack_flatten[of q]
    by (auto simp: params_ok_def dest: list_all2_lengthD)
qed

theorem gsm_frame_roundtrip_witness:
  "gsm_unpack (gsm_pack \<lparr>LARc = replicate 8 1, Nc = replicate 4 40, bc = replicate 4 3, Mc = replicate 4 2,
       xmaxc = replicate 4 63, xmc = replicate 52 7\<rparr>)
   = Some \<lparr>LARc = replicate 8 1, Nc = replicate 4 40, bc = replicate 4 3, Mc = replicate 4 2,
       xmaxc = replicate 4 63, xmc = replicate 52 7\<rparr>"
proof -
  have "params_ok \<lparr>LARc = replicate 8 1, Nc = replicate 4 40, bc = replicate 4 3, Mc = replicate 4 2,
       xmaxc = replicate 4 63, xmc = replicate 52 7\<rparr>"
    by (simp add: params_ok_def fits_def LARc_sizes_def list_all_length list_all2_conv_all_nth nth_Cons')
  from gsm_frame_roundtrip[THEN conjunct1, THEN mp, OF this] show ?thesis by (rule conjunct1)
qed

lemma magic_test: "SASR (uint (w :: u8)) 4 AND 0x0F = uint w div 16"
proof -
  have "uint w < 256" using uint_lt2p[of w] by simp
  then have "0 \<le> uint w div 16" "uint w div 16 < 16" by (auto simp: div_int_pos_iff)
  then show ?thesis
    by (simp add: and_field drop_bit_eq_div take_bit_int_eq_self)
qed

text \<open>
  \<open>gsm_implode\<close> and \<open>gsm_explode\<close> are inverse to each other: exploding an imploded frame gives the
  76 values cut to their field widths, and every 33-byte frame with the magic nibble \<open>0xD\<close>
  is the implosion of what it explodes to; without that nibble both readers report the error.
\<close>

theorem gsm_implode_explode:
  assumes "length xs = 76" "length c = 33"
  shows "gsm_explode (gsm_implode xs) = Some (map2 take_bit frame_sizes xs) \<and>
    (uint (c ! 0) div 16 = 0xD \<longrightarrow> (\<exists>v. gsm_explode c = Some v \<and> gsm_implode v = c)) \<and>
    (uint (c ! 0) div 16 \<noteq> 0xD \<longrightarrow> gsm_explode c = None \<and> gsm_unpack c = None)"
proof (intro conjI impI)
  show "gsm_explode (gsm_implode xs) = Some (map2 take_bit frame_sizes xs)"
    using assms(1) by (rule explode_implode)
  show "\<exists>v. gsm_explode c = Some v \<and> gsm_implode v = c" if "uint (c ! 0) div 16 = 0xD"
    using implode_explode(1)[OF assms(2)] that unfolding gsm_explode_def magic_test GSM_MAGIC_def by simp
qed (simp_all add: gsm_explode_def gsm_unpack_def magic_test GSM_MAGIC_def)

theorem gsm_implode_explode_witness:
  "gsm_explode (gsm_implode (replicate 76 9)) = Some (map2 take_bit frame_sizes (replicate 76 9)) \<and>
   gsm_explode (replicate 33 0) = None"
  using gsm_implode_explode[of "replicate 76 9" "replicate 33 0"] by simp

end
