(* ===== verification/Gsm_Preprocess.thy ===== *)
theory Gsm_Preprocess
  imports Gsm_Arith
begin

text \<open>
  \<^verbatim>\<open>src/preprocess.c\<close>: downscaling, offset compensation (a recursive high-pass filter with a
  31 by 16 bit multiplication) and pre-emphasis of one frame.
\<close>

unbundle bit_operations_syntax

section \<open>Definitions\<close>

text \<open>The body of the loop, on the three variables it carries from sample to sample.\<close>

definition preprocess_step :: "int \<Rightarrow> int \<times> int \<times> int \<Rightarrow> (int \<times> int \<times> int \<times> int) option" where
  "preprocess_step s = (\<lambda>(z1, L_z2, mp). do {
    let SO = s16 (push_bit 2 (SASR s 3));
    c_assert (SO \<ge> -0x4000);
    c_assert (SO \<le> 0x3FFC);
    let s1 = s16 (SO - z1);
    let z1 = SO;
    c_assert (s1 \<noteq> MIN_WORD);
    let L_s2 = push_bit 15 s1;
    let msp = s16 (SASR L_z2 15);
    let lsp = s16 (L_z2 - push_bit 15 msp);
    let L_s2 = L_s2 + GSM_MULT_R lsp 32735;
    let L_temp = msp * 32735;
    let L_z2 = GSM_L_ADD L_temp L_s2;
    let L_temp = GSM_L_ADD L_z2 16384;
    let msp = s16 (GSM_MULT_R mp (-28180));
    let mp = s16 (SASR L_temp 15);
    Some (s16 (GSM_ADD mp msp), z1, L_z2, mp) })"

fun preprocess_loop :: "int list \<Rightarrow> int \<times> int \<times> int \<Rightarrow> (int list \<times> int \<times> int \<times> int) option" where
  "preprocess_loop [] st = Some ([], st)"
| "preprocess_loop (s # ss) st = do {
     (so, st) \<leftarrow> preprocess_step s st;
     (rest, st) \<leftarrow> preprocess_loop ss st;
     Some (so # rest, st) }"

definition Gsm_Preprocess :: "gsm_state \<Rightarrow> int list \<Rightarrow> (gsm_state \<times> int list) option" where
  "Gsm_Preprocess S s = do {
    (so, z1, L_z2, mp) \<leftarrow> preprocess_loop s (S_z1 S, S_L_z2 S, s16 (S_mp S));
    Some (S\<lparr>S_z1 := z1, S_L_z2 := L_z2, S_mp := mp\<rparr>, so) }"

section \<open>The filter without overflow\<close>

text \<open>
  The same filter in exact arithmetic: the split multiplication is one rounded multiplication by
  \<open>32735 / 2^15\<close>, and nothing saturates before the last addition.
\<close>

definition ref_step :: "int \<Rightarrow> int \<times> int \<times> int \<Rightarrow> int \<times> int \<times> int \<times> int" where
  "ref_step s = (\<lambda>(x, y, m).
    let x' = 4 * (s div 8);
        y' = 2 ^ 15 * (x' - x) + (32735 * y + 2 ^ 14) div 2 ^ 15;
        m' = (y' + 2 ^ 14) div 2 ^ 15
    in (saturate (m' + (-28180 * m + 2 ^ 14) div 2 ^ 15), x', y', m'))"

fun ref_filter :: "int list \<Rightarrow> int \<times> int \<times> int \<Rightarrow> int list \<times> int \<times> int \<times> int" where
  "ref_filter [] st = ([], st)"
| "ref_filter (s # ss) st =
     (let (so, st) = ref_step s st; (rest, st) = ref_filter ss st in (so # rest, st))"

text \<open>
  The invariant: the difference between the last input and the filter's memory is a rounded
  average of past inputs, so it stays in the range of the inputs up to the accumulated rounding
  error, which 512 bounds.
\<close>

definition pre_ok :: "int \<times> int \<times> int \<Rightarrow> bool" where
  "pre_ok = (\<lambda>(z1, L_z2, mp). -0x4000 \<le> z1 \<and> z1 \<le> 0x3FFC \<and>
     - (2 ^ 29) - 512 \<le> 2 ^ 15 * z1 - L_z2 \<and> 2 ^ 15 * z1 - L_z2 \<le> 2 ^ 15 * 0x3FFC + 512 \<and>
     is_word mp)"

lemma GSM_L_ADD_exact: "is_longword (a + b) \<Longrightarrow> GSM_L_ADD a b = a + b"
  by (auto simp: GSM_L_ADD_def is_longword_def Let_def)

lemma downscale: "is_word s \<Longrightarrow> push_bit 2 (SASR s 3) = 4 * (s div 8) \<and> -0x4000 \<le> 4 * (s div 8) \<and> 4 * (s div 8) \<le> 0x3FFC"
  unfolding is_word_def by (simp add: push_bit_eq_mult drop_bit_eq_div) presburger

lemma split_product:
  assumes "y = m * 2 ^ 15 + l"
  shows "m * 32735 + (l * 32735 + 16384) div 2 ^ 15 = (32735 * y + 2 ^ 14) div (2 ^ 15 :: int)"
proof -
  have "32735 * y + 2 ^ 14 = (l * 32735 + 16384) + (m * 32735) * 2 ^ 15"
    unfolding assms by simp
  then show ?thesis by (simp only: div_mult_self1) simp
qed

lemma filter_bound:
  assumes "-0x4000 \<le> z1" "z1 \<le> 0x3FFC" "w = 2 ^ 15 * z1 - y"
    "- (2 ^ 29) - 512 \<le> w" "w \<le> 2 ^ 15 * 0x3FFC + 512"
  shows "- (2 ^ 29) - 512 \<le> 2 ^ 15 * z1 - (32735 * y + 2 ^ 14) div 2 ^ 15"
    "2 ^ 15 * z1 - (32735 * y + 2 ^ 14) div (2 ^ 15 :: int) \<le> 2 ^ 15 * 0x3FFC + 512"
proof -
  define q where "q = (32735 * y + 2 ^ 14) div 2 ^ 15"
  have "q * 2 ^ 15 \<le> 32735 * y + 2 ^ 14" "32735 * y + 2 ^ 14 < (q + 1) * 2 ^ 15"
    using int_le_div_iff[of "2 ^ 15" q "32735 * y + 2 ^ 14"]
      int_div_less_iff[of "2 ^ 15" "32735 * y + 2 ^ 14" "q + 1"] by (simp_all add: q_def)
  with assms have "- (2 ^ 29) - 512 \<le> 2 ^ 15 * z1 - q \<and> 2 ^ 15 * z1 - q \<le> 2 ^ 15 * 0x3FFC + 512"
    by simp
  then show "- (2 ^ 29) - 512 \<le> 2 ^ 15 * z1 - (32735 * y + 2 ^ 14) div 2 ^ 15"
    "2 ^ 15 * z1 - (32735 * y + 2 ^ 14) div (2 ^ 15 :: int) \<le> 2 ^ 15 * 0x3FFC + 512"
    unfolding q_def by blast+
qed

lemma preprocess_step_exact:
  assumes "pre_ok st" "is_word s"
  shows "preprocess_step s st = Some (ref_step s st) \<and> pre_ok (snd (ref_step s st)) \<and> is_word (fst (ref_step s st))"
proof -
  obtain z1 y mp where st: "st = (z1, y, mp)" by (cases st) auto
  have z: "-0x4000 \<le> z1" "z1 \<le> 0x3FFC" "- (2 ^ 29) - 512 \<le> 2 ^ 15 * z1 - y" "2 ^ 15 * z1 - y \<le> 2 ^ 15 * 0x3FFC + 512"
    and mp: "is_word mp" using assms(1) unfolding st pre_ok_def by simp_all
  define x where "x = 4 * (s div 8)"
  have x: "push_bit 2 (SASR s 3) = x" "-0x4000 \<le> x" "x \<le> 0x3FFC"
    using downscale[OF assms(2)] by (simp_all add: x_def)
  define m where "m = SASR y 15"
  define l where "l = y - push_bit 15 m"
  have yml: "y = m * 2 ^ 15 + l" by (simp add: l_def push_bit_eq_mult)
  have m: "is_word m" using z unfolding m_def is_word_def drop_bit_eq_div
    by (simp add: int_le_div_iff int_div_less_iff flip: less_iff_succ_less_eq zle_add1_eq_le)
  have "l = y mod 2 ^ 15"
    by (simp add: l_def m_def push_bit_eq_mult drop_bit_eq_div minus_div_mult_eq_mod)
  then have "0 \<le> l \<and> l < 2 ^ 15" by simp
  then have l: "is_word l" by (simp add: is_word_def)
  define q where "q = (32735 * y + 2 ^ 14) div 2 ^ 15"
  note qb = filter_bound[OF z(1,2) refl z(3,4), folded q_def]
  have q: "m * 32735 + (push_bit 15 (x - z1) + GSM_MULT_R l 32735) = 2 ^ 15 * (x - z1) + q"
    using split_product[OF yml] by (simp add: q_def GSM_MULT_R_def drop_bit_eq_div push_bit_eq_mult)
  define y' where "y' = 2 ^ 15 * (x - z1) + q"
  have y': "- (2 ^ 29) - 512 \<le> 2 ^ 15 * x - y'" "2 ^ 15 * x - y' \<le> 2 ^ 15 * 0x3FFC + 512"
    using qb by (simp_all add: y'_def)
  have L: "is_longword y'" "is_longword (y' + 16384)"
    using y' x(2,3) by (auto simp: is_longword_def)
  have m': "is_word (SASR (y' + 16384) 15)"
    using y' x(2,3) unfolding is_word_def drop_bit_eq_div
    by (simp add: int_le_div_iff int_div_less_iff flip: less_iff_succ_less_eq zle_add1_eq_le)
  have r: "is_word (x - z1)" "x - z1 \<noteq> MIN_WORD" "is_word x"
    using x z by (auto simp: is_word_def)
  have e: "is_word (GSM_MULT_R mp (-28180))"
    using mp by (intro GSM_MULT_R_word) (auto simp: is_word_def)
  have G: "GSM_L_ADD (m * 32735) (push_bit 15 (x - z1) + GSM_MULT_R l 32735) = y'"
    "GSM_L_ADD y' 16384 = y' + 16384"
    using L by (auto simp: q y'_def intro!: trans[OF GSM_L_ADD_exact])
  have "preprocess_step s st =
      Some (s16 (GSM_ADD (SASR (y' + 16384) 15) (GSM_MULT_R mp (-28180))), x, y', SASR (y' + 16384) 15)"
    unfolding preprocess_step_def st Let_def case_prod_conv m_def[symmetric] x(1) l_def[symmetric]
    using r x(2,3) L m' m e l
    by (simp add: G flip: m_def l_def)
  moreover have "s16 (GSM_ADD (SASR (y' + 16384) 15) (GSM_MULT_R mp (-28180))) =
      saturate (SASR (y' + 16384) 15 + GSM_MULT_R mp (-28180))"
    using m' e by (simp add: GSM_ADD_saturate)
  moreover have "ref_step s st =
      (saturate (SASR (y' + 16384) 15 + GSM_MULT_R mp (-28180)), x, y', SASR (y' + 16384) 15)"
    unfolding st ref_step_def Let_def case_prod_conv x_def[symmetric] q_def[symmetric] y'_def[symmetric]
      GSM_MULT_R_def drop_bit_eq_div mult.commute[of mp] by simp
  ultimately show ?thesis
    using x(2,3) y' m' by (simp only: pre_ok_def case_prod_conv fst_conv snd_conv saturate_range)
qed

section \<open>Properties\<close>

lemma preprocess_loop_exact:
  assumes "pre_ok st" "list_all is_word ss"
  shows "preprocess_loop ss st = Some (ref_filter ss st) \<and> pre_ok (snd (ref_filter ss st)) \<and>
    list_all is_word (fst (ref_filter ss st)) \<and> length (fst (ref_filter ss st)) = length ss"
  using assms
proof (induction ss arbitrary: st)
  case (Cons s ss)
  from preprocess_step_exact[of st s] Cons.prems
  have s: "preprocess_step s st = Some (ref_step s st)" "pre_ok (snd (ref_step s st))" "is_word (fst (ref_step s st))"
    by auto
  from Cons.IH[OF s(2)] Cons.prems(2) s show ?case
    by (simp add: case_prod_beta Let_def)
qed simp

lemma Gsm_Preprocess_exact:
  assumes "pre_ok (S_z1 S, S_L_z2 S, S_mp S)" "list_all is_word s"
  obtains so z1 L_z2 mp where
    "ref_filter s (S_z1 S, S_L_z2 S, S_mp S) = (so, z1, L_z2, mp)"
    "Gsm_Preprocess S s = Some (S\<lparr>S_z1 := z1, S_L_z2 := L_z2, S_mp := mp\<rparr>, so)"
    "pre_ok (z1, L_z2, mp)" "list_all is_word so" "length so = length s"
proof -
  have w: "s16 (S_mp S) = S_mp S" using assms(1) by (simp add: pre_ok_def)
  obtain so z1 L_z2 mp where r: "ref_filter s (S_z1 S, S_L_z2 S, S_mp S) = (so, z1, L_z2, mp)"
    by (cases "ref_filter s (S_z1 S, S_L_z2 S, S_mp S)") auto
  show thesis
    using preprocess_loop_exact[OF assms] by (intro that[OF r]) (simp_all add: Gsm_Preprocess_def w r)
qed

text \<open>
  C26. Preprocessing never overflows: on any 16-bit samples, from any state the
  function itself can reach, no assertion fails, no 16-bit store truncates and no long addition
  saturates; the result is the exact filter with one rounded multiplication per sample, and the
  state stays in the set for which this holds.
\<close>

theorem Gsm_Preprocess_refines_filter:
  assumes "pre_ok (S_z1 S, S_L_z2 S, S_mp S)" "list_all is_word s"
  shows "\<exists>S' so. Gsm_Preprocess S s = Some (S', so) \<and>
    ref_filter s (S_z1 S, S_L_z2 S, S_mp S) = (so, S_z1 S', S_L_z2 S', S_mp S') \<and>
    pre_ok (S_z1 S', S_L_z2 S', S_mp S') \<and> list_all is_word so"
  by (rule Gsm_Preprocess_exact[OF assms]) simp

theorem Gsm_Preprocess_refines_filter_witness:
  "\<exists>S' so. Gsm_Preprocess gsm_initial [32767, -32768] = Some (S', so) \<and>
    ref_filter [32767, -32768] (0, 0, 0) = (so, S_z1 S', S_L_z2 S', S_mp S')"
  using Gsm_Preprocess_refines_filter[of gsm_initial "[32767, -32768]"]
  by (simp add: pre_ok_def is_word_def gsm_initial_def del: ref_filter.simps) blast

end
