(* ===== verification/Gsm_Short_Term.thy ===== *)
theory Gsm_Short_Term
  imports Gsm_Arith
begin

text \<open>
  \<^verbatim>\<open>src/short_term.c\<close>: decoding of the log area ratios, their interpolation over the frame, the
  reflection coefficients, and the lattice filters of the coder (analysis) and of the decoder
  (synthesis).  The \<open>FAST\<close> floating-point filters are not part of the build.
\<close>

unbundle bit_operations_syntax

section \<open>Definitions\<close>

subsection \<open>Coefficients\<close>

text \<open>\<open>STEP(B, MIC, INVA)\<close>.\<close>

definition decode_LAR :: "int \<times> int \<times> int \<Rightarrow> int \<Rightarrow> int" where
  "decode_LAR = (\<lambda>(B, MIC, INVA) LARc.
    let temp1 = s16 (push_bit 10 (GSM_ADD LARc MIC));
        temp1 = s16 (GSM_SUB temp1 (push_bit 1 B));
        temp1 = s16 (GSM_MULT_R INVA temp1)
    in s16 (GSM_ADD temp1 temp1))"

definition decode_steps :: "(int \<times> int \<times> int) list" where
  "decode_steps =
    [(0, -32, 13107), (0, -32, 13107), (2048, -16, 13107), (-2560, -16, 13107),
     (94, -8, 19223), (-1792, -8, 17476), (-341, -4, 31454), (-1144, -4, 29708)]"

definition Decoding_of_the_coded_Log_Area_Ratios :: "int list \<Rightarrow> int list" where
  "Decoding_of_the_coded_Log_Area_Ratios LARc = map2 decode_LAR decode_steps LARc"

definition Coefficients_0_12 :: "int list \<Rightarrow> int list \<Rightarrow> int list" where
  "Coefficients_0_12 LARpp_j_1 LARpp_j =
    map2 (\<lambda>p q. let LARp = s16 (GSM_ADD (SASR p 2) (SASR q 2)) in s16 (GSM_ADD LARp (SASR p 1)))
      LARpp_j_1 LARpp_j"

definition Coefficients_13_26 :: "int list \<Rightarrow> int list \<Rightarrow> int list" where
  "Coefficients_13_26 LARpp_j_1 LARpp_j =
    map2 (\<lambda>p q. s16 (GSM_ADD (SASR p 1) (SASR q 1))) LARpp_j_1 LARpp_j"

definition Coefficients_27_39 :: "int list \<Rightarrow> int list \<Rightarrow> int list" where
  "Coefficients_27_39 LARpp_j_1 LARpp_j =
    map2 (\<lambda>p q. let LARp = s16 (GSM_ADD (SASR p 2) (SASR q 2)) in s16 (GSM_ADD LARp (SASR q 1)))
      LARpp_j_1 LARpp_j"

definition Coefficients_40_159 :: "int list \<Rightarrow> int list" where
  "Coefficients_40_159 LARpp_j = map (\<lambda>q. q) LARpp_j"

definition rp_of_LARp :: "int \<Rightarrow> int" where
  "rp_of_LARp LARp =
    (if LARp < 0
     then let temp = (if LARp = MIN_WORD then MAX_WORD else s16 (- LARp))
          in s16 (- (if temp < 11059 then push_bit 1 temp
                     else if temp < 20070 then temp + 11059
                     else GSM_ADD (SASR temp 2) 26112))
     else let temp = LARp
          in s16 (if temp < 11059 then push_bit 1 temp
                  else if temp < 20070 then temp + 11059
                  else GSM_ADD (SASR temp 2) 26112))"

definition LARp_to_rp :: "int list \<Rightarrow> int list" where
  "LARp_to_rp LARp = map rp_of_LARp LARp"

subsection \<open>Filters\<close>

text \<open>The inner loop of the analysis filter, for stage \<open>i\<close>.\<close>

definition analysis_stage :: "int list \<Rightarrow> nat \<Rightarrow> int list \<times> int \<times> int \<Rightarrow> int list \<times> int \<times> int" where
  "analysis_stage rp i = (\<lambda>(u, di, sav).
    let ui = u ! i;
        rpi = rp ! i;
        u = u[i := sav];
        zzz = s16 (GSM_MULT_R rpi di);
        sav = s16 (GSM_ADD ui zzz);
        zzz = s16 (GSM_MULT_R rpi ui);
        di = s16 (GSM_ADD di zzz)
    in (u, di, sav))"

text \<open>The loop over the samples: from the memory \<open>u\<close> to the new memory and the residual.\<close>

fun Short_term_analysis_filtering :: "int list \<Rightarrow> int list \<Rightarrow> int list \<Rightarrow> int list \<times> int list" where
  "Short_term_analysis_filtering rp u [] = (u, [])"
| "Short_term_analysis_filtering rp u (s # ss) =
     (let (u, di, sav) = fold (analysis_stage rp) [0..<8] (u, s, s);
          (u, ds) = Short_term_analysis_filtering rp u ss
      in (u, di # ds))"

definition synthesis_stage :: "int list \<Rightarrow> nat \<Rightarrow> int list \<times> int \<Rightarrow> int list \<times> int" where
  "synthesis_stage rrp i = (\<lambda>(v, sri).
    let tmp1 = rrp ! i;
        tmp2 = v ! i;
        tmp2 = (if tmp1 = MIN_WORD \<and> tmp2 = MIN_WORD then MAX_WORD
                else s16 (0x0FFFF AND SASR (tmp1 * tmp2 + 16384) 15));
        sri = s16 (GSM_SUB sri tmp2);
        tmp1 = (if tmp1 = MIN_WORD \<and> sri = MIN_WORD then MAX_WORD
                else s16 (0x0FFFF AND SASR (tmp1 * sri + 16384) 15));
        v = v[i + 1 := s16 (GSM_ADD (v ! i) tmp1)]
    in (v, sri))"

fun Short_term_synthesis_filtering :: "int list \<Rightarrow> int list \<Rightarrow> int list \<Rightarrow> int list \<times> int list" where
  "Short_term_synthesis_filtering rrp v [] = (v, [])"
| "Short_term_synthesis_filtering rrp v (w # wt) =
     (let (v, sri) = fold (synthesis_stage rrp) (rev [0..<8]) (v, w);
          v = v[0 := sri];
          (v, sr) = Short_term_synthesis_filtering rrp v wt
      in (v, sri # sr))"

subsection \<open>Frames\<close>

text \<open>The four runs of \<open>FILTER\<close> over a frame, the same in both directions.\<close>

definition filter_frame ::
  "(int list \<Rightarrow> int list \<Rightarrow> int list \<Rightarrow> int list \<times> int list)
    \<Rightarrow> int list \<Rightarrow> int list \<Rightarrow> int list \<Rightarrow> int list \<Rightarrow> int list \<times> int list" where
  "filter_frame FILTER LARpp_j_1 LARpp_j m s =
    (let LARp = LARp_to_rp (Coefficients_0_12 LARpp_j_1 LARpp_j);
         (m, r1) = FILTER LARp m (take 13 s);
         LARp = LARp_to_rp (Coefficients_13_26 LARpp_j_1 LARpp_j);
         (m, r2) = FILTER LARp m (take 14 (drop 13 s));
         LARp = LARp_to_rp (Coefficients_27_39 LARpp_j_1 LARpp_j);
         (m, r3) = FILTER LARp m (take 13 (drop 27 s));
         LARp = LARp_to_rp (Coefficients_40_159 LARpp_j);
         (m, r4) = FILTER LARp m (take 120 (drop 40 s))
     in (m, r1 @ r2 @ r3 @ r4))"

definition Gsm_Short_Term_Analysis_Filter :: "gsm_state \<Rightarrow> int list \<Rightarrow> int list \<Rightarrow> gsm_state \<times> int list" where
  "Gsm_Short_Term_Analysis_Filter S LARc s =
    (let j = S_j S;
         j1 = j XOR 1;
         LARpp_j_1 = S_LARpp S ! j1;
         LARpp_j = Decoding_of_the_coded_Log_Area_Ratios LARc;
         (u, d) = filter_frame Short_term_analysis_filtering LARpp_j_1 LARpp_j (S_u S) s
     in (S\<lparr>S_LARpp := (S_LARpp S)[j := LARpp_j], S_j := j1, S_u := u\<rparr>, d))"

definition Gsm_Short_Term_Synthesis_Filter :: "gsm_state \<Rightarrow> int list \<Rightarrow> int list \<Rightarrow> gsm_state \<times> int list" where
  "Gsm_Short_Term_Synthesis_Filter S LARcr wt =
    (let j = S_j S;
         j1 = j XOR 1;
         LARpp_j_1 = S_LARpp S ! j1;
         LARpp_j = Decoding_of_the_coded_Log_Area_Ratios LARcr;
         (v, s) = filter_frame Short_term_synthesis_filtering LARpp_j_1 LARpp_j (S_v S) wt
     in (S\<lparr>S_LARpp := (S_LARpp S)[j := LARpp_j], S_j := j1, S_v := v\<rparr>, s))"

section \<open>Ranges\<close>

text \<open>A reflection coefficient is never \<open>-32768\<close>, so no product overflows.\<close>

definition is_rp :: "int \<Rightarrow> bool" where
  "is_rp x \<longleftrightarrow> -32767 \<le> x \<and> x \<le> 32767"

lemma is_rp_word: "is_rp x \<Longrightarrow> is_word x" "is_rp x \<Longrightarrow> x \<noteq> MIN_WORD"
  by (auto simp: is_rp_def is_word_def)

lemma rp_of_LARp_range:
  assumes "is_word x"
  shows "is_rp (rp_of_LARp x)"
proof -
  have p: "0 \<le> (if t < 11059 then push_bit 1 t else if t < 20070 then t + 11059 else GSM_ADD (SASR t 2) 26112)
      \<and> (if t < 11059 then push_bit 1 t else if t < 20070 then t + 11059 else GSM_ADD (SASR t 2) 26112) \<le> 32767"
    if "0 \<le> t" "t \<le> 32767" for t
  proof -
    have "0 \<le> SASR t 2" "SASR t 2 \<le> 8191" using that by (auto simp: drop_bit_eq_div)
    then have "is_word (SASR t 2)" unfolding is_word_def by linarith
    then have "GSM_ADD (SASR t 2) 26112 = saturate (SASR t 2 + 26112)"
      by (intro GSM_ADD_saturate) (simp_all add: is_word_def[of 26112])
    moreover have "0 \<le> saturate (y + 26112) \<and> saturate (y + 26112) \<le> 32767" if "0 \<le> y" for y
      using that by (auto simp: saturate_def)
    ultimately show ?thesis using \<open>0 \<le> SASR t 2\<close> that by (simp add: push_bit_eq_mult)
  qed
  have t: "(if x = MIN_WORD then MAX_WORD else s16 (- x)) = min (- x) MAX_WORD" if "x < 0"
    using that assms by (auto simp: is_word_def s16_id)
  show ?thesis
  proof (cases "x < 0")
    case True
    define t where "t = min (- x) MAX_WORD"
    have "0 \<le> t" "t \<le> 32767" using True by (auto simp: t_def)
    note pt = p[OF this]
    with True show ?thesis
      unfolding rp_of_LARp_def t[OF True] Let_def is_rp_def t_def[symmetric] by (simp add: s16_id del: if_split)
  next
    case False
    with assms have "0 \<le> x" "x \<le> 32767" by (auto simp: is_word_def)
    note px = p[OF this]
    with False show ?thesis
      unfolding rp_of_LARp_def Let_def is_rp_def by (simp add: s16_id del: if_split)
  qed
qed

lemma LARp_to_rp_range: "list_all is_word L \<Longrightarrow> list_all is_rp (LARp_to_rp L)"
  by (auto simp: LARp_to_rp_def list_all_iff rp_of_LARp_range)

lemma Decoding_words: "list_all is_word (Decoding_of_the_coded_Log_Area_Ratios L)"
  by (auto simp: Decoding_of_the_coded_Log_Area_Ratios_def decode_LAR_def list_all_iff Let_def)

lemma length_Decoding [simp]: "length L = 8 \<Longrightarrow> length (Decoding_of_the_coded_Log_Area_Ratios L) = 8"
  by (simp add: Decoding_of_the_coded_Log_Area_Ratios_def decode_steps_def)

text \<open>The four coefficient vectors of a frame.\<close>

lemma coefficients_ok:
  assumes "list_all is_word p" "list_all is_word q" "length p = 8" "length q = 8"
  shows "list_all is_rp (LARp_to_rp (Coefficients_0_12 p q)) \<and> length (LARp_to_rp (Coefficients_0_12 p q)) = 8"
    "list_all is_rp (LARp_to_rp (Coefficients_13_26 p q)) \<and> length (LARp_to_rp (Coefficients_13_26 p q)) = 8"
    "list_all is_rp (LARp_to_rp (Coefficients_27_39 p q)) \<and> length (LARp_to_rp (Coefficients_27_39 p q)) = 8"
    "list_all is_rp (LARp_to_rp (Coefficients_40_159 q)) \<and> length (LARp_to_rp (Coefficients_40_159 q)) = 8"
  using assms
  by (auto simp: Coefficients_0_12_def Coefficients_13_26_def Coefficients_27_39_def Coefficients_40_159_def
      Let_def list_all_iff rp_of_LARp_range LARp_to_rp_def)

section \<open>The lattice\<close>

text \<open>
  The forward and backward values of the analysis lattice for one sample \<open>s\<close>, after \<open>i\<close> stages,
  on memory \<open>u\<close>: \<open>lattice rp u s i = (d\<^sub>i, b\<^sub>i)\<close>.
\<close>

fun lattice :: "int list \<Rightarrow> int list \<Rightarrow> int \<Rightarrow> nat \<Rightarrow> int \<times> int" where
  "lattice rp u s 0 = (s, s)"
| "lattice rp u s (Suc i) =
     (let d = fst (lattice rp u s i)
      in (GSM_ADD d (GSM_MULT_R (rp ! i) (u ! i)), GSM_ADD (u ! i) (GSM_MULT_R (rp ! i) d)))"

definition filter_ok :: "int list \<Rightarrow> int list \<Rightarrow> bool" where
  "filter_ok rp u \<longleftrightarrow> length rp = 8 \<and> length u = 8 \<and> list_all is_rp rp \<and> list_all is_word u"

lemma rp_product_word: "is_rp r \<Longrightarrow> is_word x \<Longrightarrow> is_word (GSM_MULT_R r x)"
  using is_rp_word[of r] by (intro GSM_MULT_R_word) auto

lemma lattice_words:
  assumes "filter_ok rp u" "is_word s" "i \<le> 8"
  shows "is_word (fst (lattice rp u s i)) \<and> is_word (snd (lattice rp u s i))"
  using assms(3)
proof (induction i)
  case 0
  with assms(2) show ?case by simp
next
  case (Suc i)
  then have "is_rp (rp ! i)" "is_word (u ! i)" using assms(1) by (auto simp: filter_ok_def list_all_length)
  with Suc show ?case by (simp add: Let_def GSM_ADD_word rp_product_word)
qed

lemma analysis_stages:
  assumes "filter_ok rp u" "is_word s" "i \<le> 8"
  shows "fold (analysis_stage rp) [0..<i] (u, s, s)
    = (map (\<lambda>k. snd (lattice rp u s k)) [0..<i] @ drop i u, lattice rp u s i)"
  using assms(3)
proof (induction i)
  case (Suc i)
  let ?b = "map (\<lambda>k. snd (lattice rp u s k)) [0..<i]"
  obtain d b where db: "lattice rp u s i = (d, b)" by fastforce
  have w: "is_word d" using lattice_words[OF assms(1,2), of i] Suc.prems db by simp
  have r: "is_rp (rp ! i)" "is_word (u ! i)" using assms(1) Suc.prems by (auto simp: filter_ok_def list_all_length)
  have dr: "drop i u = u ! i # drop (Suc i) u"
    using assms(1) Suc.prems by (simp add: filter_ok_def Cons_nth_drop_Suc)
  have n: "(?b @ drop i u) ! i = u ! i" "(?b @ drop i u)[i := b] = ?b @ b # drop (Suc i) u"
    by (simp_all add: dr nth_append list_update_append)
  have "fold (analysis_stage rp) [0..<Suc i] (u, s, s) = analysis_stage rp i (?b @ drop i u, d, b)"
    using Suc by (simp add: db)
  also have "\<dots> = (?b @ b # drop (Suc i) u, lattice rp u s (Suc i))"
    unfolding analysis_stage_def Let_def case_prod_conv n
    using w r by (simp add: db Let_def GSM_ADD_word rp_product_word)
  finally show ?case by (simp add: db)
qed simp

text \<open>The memory after a sample: the backward values of the first eight stages.\<close>

definition next_memory :: "int list \<Rightarrow> int list \<Rightarrow> int \<Rightarrow> int list" where
  "next_memory rp u s = map (\<lambda>k. snd (lattice rp u s k)) [0..<8]"

lemma next_memory_ok: "filter_ok rp u \<Longrightarrow> is_word s \<Longrightarrow> filter_ok rp (next_memory rp u s)"
  using lattice_words[of rp u s] by (auto simp: filter_ok_def next_memory_def list_all_iff simp del: upt.simps)

lemma analysis_sample:
  assumes "filter_ok rp u" "is_word s"
  shows "fold (analysis_stage rp) [0..<8] (u, s, s) = (next_memory rp u s, lattice rp u s 8)"
  using analysis_stages[OF assms, of 8] assms(1) by (simp add: next_memory_def filter_ok_def)

lemma analysis_words:
  assumes "filter_ok rp u" "list_all is_word ss"
  shows "filter_ok rp (fst (Short_term_analysis_filtering rp u ss)) \<and>
    list_all is_word (snd (Short_term_analysis_filtering rp u ss)) \<and>
    length (snd (Short_term_analysis_filtering rp u ss)) = length ss"
  using assms
proof (induction ss arbitrary: u)
  case (Cons s ss)
  obtain d b where db: "lattice rp u s 8 = (d, b)" by fastforce
  with lattice_words[of rp u s 8] Cons.prems have "is_word d" by simp
  with Cons.IH[OF next_memory_ok[of rp u s]] Cons.prems analysis_sample[of rp u s] db show ?case
    by (simp add: case_prod_beta Let_def del: upt_Suc)
qed simp

section \<open>Synthesis\<close>

lemma rounded_product:
  assumes "is_rp r" "is_word x"
  shows "(if r = MIN_WORD \<and> x = MIN_WORD then MAX_WORD else s16 (0x0FFFF AND SASR (r * x + 16384) 15)) = GSM_MULT_R r x"
  using is_rp_word(2)[OF assms(1)] rp_product_word[OF assms]
  by (simp add: s16_and_mask and.commute flip: GSM_MULT_R_def)

lemma synthesis_stage_eq:
  assumes "is_rp (rp ! i)" "is_word (v ! i)"
  shows "synthesis_stage rp i (v, w) =
    (v[i + 1 := GSM_ADD (v ! i) (GSM_MULT_R (rp ! i) (GSM_SUB w (GSM_MULT_R (rp ! i) (v ! i))))],
     GSM_SUB w (GSM_MULT_R (rp ! i) (v ! i)))"
  unfolding synthesis_stage_def Let_def case_prod_conv rounded_product[OF assms]
    s16_is_word[OF GSM_SUB_word] rounded_product[OF assms(1) GSM_SUB_word]
  by (simp add: GSM_SUB_word GSM_ADD_word rp_product_word assms)

lemma synthesis_stages_words:
  assumes "list_all is_rp rp" "length rp = 8" "list_all is_word v" "length v = 9" "\<forall>i\<in>set is. i < 8" "is_word w"
  shows "list_all is_word (fst (fold (synthesis_stage rp) is (v, w))) \<and>
    length (fst (fold (synthesis_stage rp) is (v, w))) = 9 \<and> is_word (snd (fold (synthesis_stage rp) is (v, w)))"
  using assms(3-6)
proof (induction "is" arbitrary: v w)
  case (Cons i "is")
  then have i: "is_rp (rp ! i)" "is_word (v ! i)" using assms(1,2) by (auto simp: list_all_length)
  let ?w = "GSM_SUB w (GSM_MULT_R (rp ! i) (v ! i))"
  have "is_word ?w" "list_all is_word (v[i + 1 := GSM_ADD (v ! i) (GSM_MULT_R (rp ! i) ?w)])"
    using Cons.prems i by (auto intro!: list_all_update GSM_ADD_word rp_product_word GSM_SUB_word)
  with Cons.IH[of "v[i + 1 := GSM_ADD (v ! i) (GSM_MULT_R (rp ! i) ?w)]" ?w] Cons.prems show ?case
    by (simp add: synthesis_stage_eq[OF i])
qed simp

lemma synthesis_words:
  assumes "list_all is_rp rp" "length rp = 8" "list_all is_word v" "length v = 9" "list_all is_word ws"
  shows "list_all is_word (fst (Short_term_synthesis_filtering rp v ws)) \<and>
    length (fst (Short_term_synthesis_filtering rp v ws)) = 9 \<and>
    list_all is_word (snd (Short_term_synthesis_filtering rp v ws)) \<and>
    length (snd (Short_term_synthesis_filtering rp v ws)) = length ws"
  using assms(3-5)
proof (induction ws arbitrary: v)
  case (Cons w ws)
  obtain v' r where f: "fold (synthesis_stage rp) (rev [0..<8]) (v, w) = (v', r)" by fastforce
  with synthesis_stages_words[OF assms(1,2) Cons.prems(1,2), of "rev [0..<8]" w] Cons.prems(3)
  have "list_all is_word v'" "length v' = 9" "is_word r" by (auto simp del: upt.simps)
  with Cons.IH[of "v'[0 := r]"] Cons.prems(3) show ?case
    by (simp add: f list_all_update case_prod_beta Let_def del: upt.simps)
qed simp

text \<open>
  The synthesis lattice runs the stages backwards.  If no forward value saturated on the way in,
  every stage gives back the value it came from.
\<close>

definition unsaturated :: "int list \<Rightarrow> int list \<Rightarrow> int \<Rightarrow> bool" where
  "unsaturated rp u s \<longleftrightarrow> (\<forall>i<8. is_word (fst (lattice rp u s i) + GSM_MULT_R (rp ! i) (u ! i)))"

lemma synthesis_stages:
  assumes "filter_ok rp u" "is_word s" "unsaturated rp u s" "length v = 9" "take 8 v = u" "i \<le> 8"
  shows "fold (synthesis_stage rp) (rev [i..<8]) (v, fst (lattice rp u s 8))
    = (take (Suc i) v @ map (\<lambda>k. snd (lattice rp u s (Suc k))) [i..<8], fst (lattice rp u s i))"
  using assms(6)
proof (induction rule: inc_induct)
  case base
  then show ?case using assms(4) by simp
next
  case (step n)
  let ?B = "map (\<lambda>k. snd (lattice rp u s (Suc k))) [Suc n..<8]"
  define d where "d = fst (lattice rp u s n)"
  define z where "z = GSM_MULT_R (rp ! n) (u ! n)"
  have n: "n < 8" using step by simp
  have r: "is_rp (rp ! n)" "is_word (u ! n)" "v ! n = u ! n"
    using assms(1,5) n by (auto simp: filter_ok_def list_all_length)
  have w: "is_word d" "is_word z" "is_word (d + z)"
    using lattice_words[OF assms(1,2), of n] n assms(3) r
    by (auto simp: d_def z_def unsaturated_def rp_product_word)
  then have s: "GSM_ADD d z = d + z" "GSM_SUB (d + z) z = d"
    by (simp_all add: GSM_ADD_saturate GSM_SUB_saturate)
  have t: "take (Suc (Suc n)) v = take (Suc n) v @ [v ! Suc n]" "n < length (take (Suc (Suc n)) v)"
    using assms(4) n by (simp_all add: take_Suc_conv_app_nth)
  have v: "(take (Suc (Suc n)) v @ ?B) ! n = u ! n"
    "(take (Suc (Suc n)) v @ ?B)[n + 1 := x] = take (Suc n) v @ x # ?B" for x
    using t(2) r(3) assms(4) n by (simp_all add: nth_append t(1) list_update_append)
  have "fold (synthesis_stage rp) (rev [n..<8]) (v, fst (lattice rp u s 8))
      = synthesis_stage rp n (take (Suc (Suc n)) v @ ?B, GSM_ADD d z)"
    using step.IH n by (simp add: upt_conv_Cons[of n] d_def z_def Let_def)
  also have "\<dots> = (take (Suc n) v @ GSM_ADD (u ! n) (GSM_MULT_R (rp ! n) d) # ?B, d)"
    using synthesis_stage_eq[of rp n "take (Suc (Suc n)) v @ ?B" "GSM_ADD d z"] r v s
    by (simp add: z_def[symmetric])
  finally show ?case using n by (simp add: upt_conv_Cons[of n] d_def Let_def)
qed

lemma synthesis_sample:
  assumes "filter_ok rp u" "is_word s" "unsaturated rp u s" "length v = 9" "take 8 v = u"
  obtains v' where "fold (synthesis_stage rp) (rev [0..<8]) (v, fst (lattice rp u s 8)) = (v', s)"
    "length v' = 9" "take 8 (v'[0 := s]) = next_memory rp u s"
proof
  show "fold (synthesis_stage rp) (rev [0..<8]) (v, fst (lattice rp u s 8))
      = (take (Suc 0) v @ map (\<lambda>k. snd (lattice rp u s (Suc k))) [0..<8], s)"
    using synthesis_stages[OF assms, of 0] by (simp del: upt.simps)
  show "length (take (Suc 0) v @ map (\<lambda>k. snd (lattice rp u s (Suc k))) [0..<8]) = 9"
    using assms(4) by simp
  show "take 8 ((take (Suc 0) v @ map (\<lambda>k. snd (lattice rp u s (Suc k))) [0..<8])[0 := s]) = next_memory rp u s"
    using assms(4) by (intro nth_equalityI) (auto simp: next_memory_def nth_append nth_list_update simp del: upt.simps lattice.simps(2) split: nat.splits)
qed

section \<open>Filters that undo each other\<close>

text \<open>A condition on every one of the four segments of a frame, with the memory each starts from.\<close>

definition segments_ok ::
  "(int list \<Rightarrow> int list \<Rightarrow> int list \<Rightarrow> int list \<times> int list) \<Rightarrow> (int list \<Rightarrow> int list \<Rightarrow> int list \<Rightarrow> bool)
    \<Rightarrow> int list \<Rightarrow> int list \<Rightarrow> int list \<Rightarrow> int list \<Rightarrow> bool" where
  "segments_ok F ok p q m s =
    (let r1 = LARp_to_rp (Coefficients_0_12 p q); r2 = LARp_to_rp (Coefficients_13_26 p q);
         r3 = LARp_to_rp (Coefficients_27_39 p q); r4 = LARp_to_rp (Coefficients_40_159 q);
         m1 = fst (F r1 m (take 13 s)); m2 = fst (F r2 m1 (take 14 (drop 13 s)));
         m3 = fst (F r3 m2 (take 13 (drop 27 s)))
     in ok r1 m (take 13 s) \<and> ok r2 m1 (take 14 (drop 13 s)) \<and> ok r3 m2 (take 13 (drop 27 s))
        \<and> ok r4 m3 (take 120 (drop 40 s)))"

text \<open>
  The contract between the two filters of a segment: \<open>R\<close> relates their memories, \<open>ok\<close> is the condition
  under which the second gives back the input of the first.  The contract lifts to whole frames.
\<close>

locale inverse_filters =
  fixes F G :: "int list \<Rightarrow> int list \<Rightarrow> int list \<Rightarrow> int list \<times> int list"
    and R :: "int list \<Rightarrow> int list \<Rightarrow> bool"
    and ok :: "int list \<Rightarrow> int list \<Rightarrow> int list \<Rightarrow> bool"
  assumes inverse: "R m m' \<Longrightarrow> ok r m s \<Longrightarrow> snd (G r m' (snd (F r m s))) = s"
    and related: "R m m' \<Longrightarrow> ok r m s \<Longrightarrow> R (fst (F r m s)) (fst (G r m' (snd (F r m s))))"
    and same_length: "ok r m s \<Longrightarrow> length (snd (F r m s)) = length s"
begin

lemma segment_inverse:
  assumes "R m m'" "ok r m s"
  shows "\<exists>n n' d. F r m s = (n, d) \<and> G r m' d = (n', s) \<and> R n n' \<and> length d = length s"
  using inverse[OF assms] related[OF assms] same_length[OF assms(2)]
  by (metis prod.collapse)

lemma frame_inverse:
  assumes "R m m'" "segments_ok F ok p q m s" "length s = 160"
  shows "\<exists>n n' d. filter_frame F p q m s = (n, d) \<and> filter_frame G p q m' d = (n', s) \<and> R n n' \<and> length d = 160"
proof -
  define r1 r2 r3 r4 where r: "r1 = LARp_to_rp (Coefficients_0_12 p q)" "r2 = LARp_to_rp (Coefficients_13_26 p q)"
    "r3 = LARp_to_rp (Coefficients_27_39 p q)" "r4 = LARp_to_rp (Coefficients_40_159 q)"
  note ok = assms(2)[unfolded segments_ok_def Let_def, folded r]
  obtain n1 k1 d1 where 1: "F r1 m (take 13 s) = (n1, d1)" "G r1 m' d1 = (k1, take 13 s)" "R n1 k1" "length d1 = 13"
    using segment_inverse[OF assms(1), of r1 "take 13 s"] ok assms(3) by auto
  obtain n2 k2 d2 where 2: "F r2 n1 (take 14 (drop 13 s)) = (n2, d2)" "G r2 k1 d2 = (k2, take 14 (drop 13 s))" "R n2 k2" "length d2 = 14"
    using segment_inverse[OF 1(3), of r2 "take 14 (drop 13 s)"] ok assms(3) 1(1) by auto
  obtain n3 k3 d3 where 3: "F r3 n2 (take 13 (drop 27 s)) = (n3, d3)" "G r3 k2 d3 = (k3, take 13 (drop 27 s))" "R n3 k3" "length d3 = 13"
    using segment_inverse[OF 2(3), of r3 "take 13 (drop 27 s)"] ok assms(3) 1(1) 2(1) by auto
  obtain n4 k4 d4 where 4: "F r4 n3 (take 120 (drop 40 s)) = (n4, d4)" "G r4 k3 d4 = (k4, take 120 (drop 40 s))" "R n4 k4" "length d4 = 120"
    using segment_inverse[OF 3(3), of r4 "take 120 (drop 40 s)"] ok assms(3) 1(1) 2(1) 3(1) by auto
  have "take 13 s @ take 14 (drop 13 s) @ take 13 (drop 27 s) @ take 120 (drop 40 s) = s"
    by (rule nth_equalityI) (use assms(3) in \<open>auto simp: nth_append\<close>)
  then have "filter_frame F p q m s = (n4, d1 @ d2 @ d3 @ d4)" "filter_frame G p q m' (d1 @ d2 @ d3 @ d4) = (k4, s)"
    using 1 2 3 4 by (simp_all add: filter_frame_def flip: r)
  then show ?thesis using 1(4) 2(4) 3(4) 4(3,4) by auto
qed

end

text \<open>The lattice filters of the code satisfy the contract.\<close>

fun unsaturated_segment :: "int list \<Rightarrow> int list \<Rightarrow> int list \<Rightarrow> bool" where
  "unsaturated_segment rp u [] \<longleftrightarrow> True"
| "unsaturated_segment rp u (s # ss) \<longleftrightarrow> unsaturated rp u s \<and> unsaturated_segment rp (next_memory rp u s) ss"

definition same_memory :: "int list \<Rightarrow> int list \<Rightarrow> bool" where
  "same_memory u v \<longleftrightarrow> length v = 9 \<and> take 8 v = u"

definition segment_ok :: "int list \<Rightarrow> int list \<Rightarrow> int list \<Rightarrow> bool" where
  "segment_ok rp u ss \<longleftrightarrow> filter_ok rp u \<and> list_all is_word ss \<and> unsaturated_segment rp u ss"

lemma synthesis_inverts_analysis:
  assumes "same_memory u v" "segment_ok rp u ss"
  shows "snd (Short_term_synthesis_filtering rp v (snd (Short_term_analysis_filtering rp u ss))) = ss \<and>
    same_memory (fst (Short_term_analysis_filtering rp u ss))
      (fst (Short_term_synthesis_filtering rp v (snd (Short_term_analysis_filtering rp u ss))))"
  using assms
proof (induction ss arbitrary: u v)
  case (Cons s ss)
  obtain d b where db: "lattice rp u s 8 = (d, b)" by fastforce
  have s: "filter_ok rp u" "is_word s" "unsaturated rp u s" "length v = 9" "take 8 v = u"
    using Cons.prems by (simp_all add: segment_ok_def same_memory_def)
  obtain v' where v': "fold (synthesis_stage rp) (rev [0..<8]) (v, d) = (v', s)" "length v' = 9"
    "take 8 (v'[0 := s]) = next_memory rp u s"
    using synthesis_sample[OF s] db by auto
  have "same_memory (next_memory rp u s) (v'[0 := s])" using v' by (simp add: same_memory_def)
  moreover have "segment_ok rp (next_memory rp u s) ss"
    using Cons.prems next_memory_ok[OF s(1,2)] by (simp add: segment_ok_def)
  ultimately show ?case
    using Cons.IH[of "next_memory rp u s" "v'[0 := s]"] v'(1) analysis_sample[OF s(1,2)] db
    by (simp add: case_prod_beta Let_def del: upt.simps)
qed simp

interpretation lattice: inverse_filters Short_term_analysis_filtering Short_term_synthesis_filtering same_memory segment_ok
  using synthesis_inverts_analysis analysis_words by unfold_locales (auto simp: segment_ok_def)

section \<open>Properties\<close>

text \<open>The part of the state these filters use.\<close>

definition short_term_ok :: "gsm_state \<Rightarrow> bool" where
  "short_term_ok S \<longleftrightarrow> length (S_LARpp S) = 2 \<and> S_j S < 2 \<and>
     (\<forall>L\<in>set (S_LARpp S). length L = 8 \<and> list_all is_word L) \<and>
     length (S_u S) = 8 \<and> list_all is_word (S_u S) \<and> length (S_v S) = 9 \<and> list_all is_word (S_v S)"

lemma xor_1_lt: "(j::nat) < 2 \<Longrightarrow> j XOR 1 < 2"
  by (cases j) (auto simp: less_Suc_eq numeral_2_eq_2)

lemma short_term_LARpp:
  assumes "short_term_ok S"
  shows "length (S_LARpp S ! (S_j S XOR 1)) = 8" "list_all is_word (S_LARpp S ! (S_j S XOR 1))"
proof -
  have "S_LARpp S ! (S_j S XOR 1) \<in> set (S_LARpp S)"
    using assms xor_1_lt[of "S_j S"] by (simp add: short_term_ok_def)
  with assms show "length (S_LARpp S ! (S_j S XOR 1)) = 8" "list_all is_word (S_LARpp S ! (S_j S XOR 1))"
    by (auto simp: short_term_ok_def)
qed

lemma LARpp_update_ok:
  assumes "short_term_ok S" "length L = 8"
  shows "\<forall>K\<in>set ((S_LARpp S)[i := Decoding_of_the_coded_Log_Area_Ratios L]). length K = 8 \<and> list_all is_word K"
  using assms set_update_subset_insert[of "S_LARpp S" i "Decoding_of_the_coded_Log_Area_Ratios L"] Decoding_words
  by (auto simp: short_term_ok_def)

lemma words_slices:
  assumes "list_all is_word s"
  shows "list_all is_word (take n s)" "list_all is_word (take k (drop n s))"
  using assms by (auto simp: list_all_iff dest: in_set_takeD in_set_dropD)

text \<open>One filter keeps an invariant of its memory in every segment, so a frame does.\<close>

lemma filter_frame_invariant:
  assumes F: "\<And>rp m ss. I m \<Longrightarrow> length rp = 8 \<Longrightarrow> list_all is_rp rp \<Longrightarrow> list_all is_word ss \<Longrightarrow>
      I (fst (F rp m ss)) \<and> list_all is_word (snd (F rp m ss)) \<and> length (snd (F rp m ss)) = length ss"
    and "I m" "list_all is_word p" "list_all is_word q" "length p = 8" "length q = 8"
    and s: "list_all is_word s" "length s = 160"
  shows "I (fst (filter_frame F p q m s)) \<and> list_all is_word (snd (filter_frame F p q m s)) \<and>
    length (snd (filter_frame F p q m s)) = 160"
proof -
  note c = coefficients_ok[OF assms(3-6)]
  note w = words_slices[OF s(1)]
  have f: "I m' \<Longrightarrow> length rp = 8 \<and> list_all is_rp rp \<Longrightarrow> list_all is_word ss \<Longrightarrow> F rp m' ss = (n, d) \<Longrightarrow>
      I n \<and> list_all is_word d \<and> length d = length ss" for rp m' ss n d
    using F[of m' rp ss] by simp
  obtain n1 d1 where 1: "F (LARp_to_rp (Coefficients_0_12 p q)) m (take 13 s) = (n1, d1)" by fastforce
  obtain n2 d2 where 2: "F (LARp_to_rp (Coefficients_13_26 p q)) n1 (take 14 (drop 13 s)) = (n2, d2)" by fastforce
  obtain n3 d3 where 3: "F (LARp_to_rp (Coefficients_27_39 p q)) n2 (take 13 (drop 27 s)) = (n3, d3)" by fastforce
  obtain n4 d4 where 4: "F (LARp_to_rp (Coefficients_40_159 q)) n3 (take 120 (drop 40 s)) = (n4, d4)" by fastforce
  have "I n1 \<and> list_all is_word d1 \<and> length d1 = 13" using f[OF assms(2) _ w(1) 1] c(1) s(2) by simp
  moreover from this have "I n2 \<and> list_all is_word d2 \<and> length d2 = 14" using f[OF _ _ w(2) 2] c(2) s(2) by simp
  moreover from this have "I n3 \<and> list_all is_word d3 \<and> length d3 = 13" using f[OF _ _ w(2) 3] c(3) s(2) by simp
  moreover from this have "I n4 \<and> list_all is_word d4 \<and> length d4 = 120" using f[OF _ _ w(2) 4] c(4) s(2) by simp
  moreover have "filter_frame F p q m s = (n4, d1 @ d2 @ d3 @ d4)"
    by (simp only: filter_frame_def Let_def 1 2 3 4 case_prod_conv)
  ultimately show ?thesis by simp
qed

lemma Analysis_Filter_ok:
  assumes "short_term_ok S" "length L = 8" "list_all is_word s" "length s = 160"
  shows "short_term_ok (fst (Gsm_Short_Term_Analysis_Filter S L s)) \<and>
    list_all is_word (snd (Gsm_Short_Term_Analysis_Filter S L s)) \<and>
    length (snd (Gsm_Short_Term_Analysis_Filter S L s)) = 160"
proof -
  have "length (fst (Short_term_analysis_filtering rp m ss)) = 8 \<and> list_all is_word (fst (Short_term_analysis_filtering rp m ss)) \<and>
      list_all is_word (snd (Short_term_analysis_filtering rp m ss)) \<and> length (snd (Short_term_analysis_filtering rp m ss)) = length ss"
    if "length m = 8 \<and> list_all is_word m" "length rp = 8" "list_all is_rp rp" "list_all is_word ss" for rp m ss
    using analysis_words[of rp m ss] that by (simp add: filter_ok_def)
  from filter_frame_invariant[of "\<lambda>m. length m = 8 \<and> list_all is_word m", OF _ _ short_term_LARpp(2)[OF assms(1)]
      Decoding_words short_term_LARpp(1)[OF assms(1)] length_Decoding[OF assms(2)] assms(3,4), of Short_term_analysis_filtering "S_u S"]
    this assms(1) LARpp_update_ok[OF assms(1,2), of "S_j S"] xor_1_lt[of "S_j S"]
  show ?thesis
    by (simp add: Gsm_Short_Term_Analysis_Filter_def Let_def case_prod_beta short_term_ok_def)
qed

lemma Synthesis_Filter_ok:
  assumes "short_term_ok S" "length L = 8" "list_all is_word s" "length s = 160"
  shows "short_term_ok (fst (Gsm_Short_Term_Synthesis_Filter S L s)) \<and>
    list_all is_word (snd (Gsm_Short_Term_Synthesis_Filter S L s)) \<and>
    length (snd (Gsm_Short_Term_Synthesis_Filter S L s)) = 160"
proof -
  have "length (fst (Short_term_synthesis_filtering rp m ss)) = 9 \<and> list_all is_word (fst (Short_term_synthesis_filtering rp m ss)) \<and>
      list_all is_word (snd (Short_term_synthesis_filtering rp m ss)) \<and> length (snd (Short_term_synthesis_filtering rp m ss)) = length ss"
    if "length m = 9 \<and> list_all is_word m" "length rp = 8" "list_all is_rp rp" "list_all is_word ss" for rp m ss
    using synthesis_words[of rp m ss] that by simp
  from filter_frame_invariant[of "\<lambda>m. length m = 9 \<and> list_all is_word m", OF _ _ short_term_LARpp(2)[OF assms(1)]
      Decoding_words short_term_LARpp(1)[OF assms(1)] length_Decoding[OF assms(2)] assms(3,4), of Short_term_synthesis_filtering "S_v S"]
    this assms(1) LARpp_update_ok[OF assms(1,2), of "S_j S"] xor_1_lt[of "S_j S"]
  show ?thesis
    by (simp add: Gsm_Short_Term_Synthesis_Filter_def Let_def case_prod_beta short_term_ok_def)
qed

lemma segments_ok_words:
  assumes "segments_ok Short_term_analysis_filtering unsaturated_segment p q u s"
    "list_all is_word p" "list_all is_word q" "length p = 8" "length q = 8" "list_all is_word s"
    "length u = 8" "list_all is_word u"
  shows "segments_ok Short_term_analysis_filtering segment_ok p q u s"
proof -
  note c = coefficients_ok[OF assms(2-5)]
  note w = words_slices[OF assms(6)]
  define m1 where "m1 = fst (Short_term_analysis_filtering (LARp_to_rp (Coefficients_0_12 p q)) u (take 13 s))"
  define m2 where "m2 = fst (Short_term_analysis_filtering (LARp_to_rp (Coefficients_13_26 p q)) m1 (take 14 (drop 13 s)))"
  define m3 where "m3 = fst (Short_term_analysis_filtering (LARp_to_rp (Coefficients_27_39 p q)) m2 (take 13 (drop 27 s)))"
  have 0: "filter_ok (LARp_to_rp (Coefficients_0_12 p q)) u" using c(1) assms(7,8) by (simp add: filter_ok_def)
  then have "length m1 = 8" "list_all is_word m1"
    using analysis_words[OF 0 w(1)] by (simp_all add: m1_def filter_ok_def)
  then have 1: "filter_ok (LARp_to_rp (Coefficients_13_26 p q)) m1" using c(2) by (simp add: filter_ok_def)
  then have "length m2 = 8" "list_all is_word m2"
    using analysis_words[OF 1 w(2)] by (simp_all add: m2_def filter_ok_def)
  then have 2: "filter_ok (LARp_to_rp (Coefficients_27_39 p q)) m2" using c(3) by (simp add: filter_ok_def)
  then have "length m3 = 8" "list_all is_word m3"
    using analysis_words[OF 2 w(2)] by (simp_all add: m3_def filter_ok_def)
  then have 3: "filter_ok (LARp_to_rp (Coefficients_40_159 q)) m3" using c(4) by (simp add: filter_ok_def)
  from assms(1) 0 1 2 3 w show ?thesis
    by (simp add: segments_ok_def Let_def segment_ok_def flip: m1_def m2_def m3_def)
qed

text \<open>
  C4. The decoder's synthesis filter undoes the coder's analysis filter: from states
  with the same past coefficients and the same lattice memory, synthesis of the
  residual gives back exactly the samples of the frame, and the two states agree again
  afterwards, provided no forward value of the analysis lattice had to be saturated.
\<close>

theorem short_term_synthesis_inverts_analysis:
  assumes "short_term_ok S" "S_LARpp T = S_LARpp S" "S_j T = S_j S" "same_memory (S_u S) (S_v T)"
    "length L = 8" "list_all is_word s" "length s = 160"
    "segments_ok Short_term_analysis_filtering unsaturated_segment
       (S_LARpp S ! (S_j S XOR 1)) (Decoding_of_the_coded_Log_Area_Ratios L) (S_u S) s"
  shows "\<exists>S' T' d. Gsm_Short_Term_Analysis_Filter S L s = (S', d) \<and>
    Gsm_Short_Term_Synthesis_Filter T L d = (T', s) \<and>
    S_LARpp T' = S_LARpp S' \<and> S_j T' = S_j S' \<and> same_memory (S_u S') (S_v T')"
proof -
  have "segments_ok Short_term_analysis_filtering segment_ok
      (S_LARpp S ! (S_j S XOR 1)) (Decoding_of_the_coded_Log_Area_Ratios L) (S_u S) s"
    using segments_ok_words[OF assms(8) short_term_LARpp(2)[OF assms(1)] Decoding_words short_term_LARpp(1)[OF assms(1)]
      length_Decoding[OF assms(5)] assms(6)] assms(1) by (simp add: short_term_ok_def)
  from lattice.frame_inverse[OF assms(4) this assms(7)] show ?thesis
    by (auto simp: Gsm_Short_Term_Analysis_Filter_def Gsm_Short_Term_Synthesis_Filter_def Let_def assms(2,3))
qed

text \<open>Silence never saturates.\<close>

lemma silent_lattice:
  assumes "i \<le> 8"
  shows "lattice rp (replicate 8 0) 0 i = (0, 0)"
  using assms by (induction i) (simp_all add: Let_def GSM_MULT_R_def GSM_ADD_def drop_bit_eq_div)

lemma silent_memory: "next_memory rp (replicate 8 0) 0 = replicate 8 0"
  unfolding next_memory_def by (rule nth_equalityI) (auto simp: silent_lattice simp del: upt.simps)

lemma silent_unsaturated: "unsaturated_segment rp (replicate 8 0) (replicate n 0)"
proof (induction n)
  case (Suc n)
  have "unsaturated rp (replicate 8 0) 0"
    by (auto simp: unsaturated_def silent_lattice GSM_MULT_R_def is_word_def drop_bit_eq_div)
  with Suc show ?case by (simp add: silent_memory)
qed simp

lemma silent_analysis:
  assumes "list_all is_rp rp" "length rp = 8"
  shows "Short_term_analysis_filtering rp (replicate 8 0) (replicate n 0) = (replicate 8 0, replicate n 0)"
proof (induction n)
  case (Suc n)
  have "filter_ok rp (replicate 8 0)" using assms by (simp add: filter_ok_def list_all_iff is_word_def)
  from analysis_sample[OF this, of 0] Suc show ?case
    by (simp add: silent_memory silent_lattice is_word_def del: upt.simps)
qed simp

lemma silent_segments:
  assumes "list_all is_word p" "list_all is_word q" "length p = 8" "length q = 8"
  shows "segments_ok Short_term_analysis_filtering unsaturated_segment p q (replicate 8 0) (replicate 160 0)"
  using coefficients_ok[OF assms] by (simp add: segments_ok_def silent_analysis silent_unsaturated)

theorem short_term_synthesis_inverts_analysis_witness:
  "\<exists>S' T' d. Gsm_Short_Term_Analysis_Filter gsm_initial (replicate 8 3) (replicate 160 0) = (S', d) \<and>
    Gsm_Short_Term_Synthesis_Filter gsm_initial (replicate 8 3) d = (T', replicate 160 0)"
proof -
  have w: "list_all is_word (replicate n 0)" for n by (simp add: list_all_iff is_word_def)
  have ok: "short_term_ok gsm_initial" by (auto simp: short_term_ok_def gsm_initial_def w)
  have "segments_ok Short_term_analysis_filtering unsaturated_segment
       (S_LARpp gsm_initial ! (S_j gsm_initial XOR 1)) (Decoding_of_the_coded_Log_Area_Ratios (replicate 8 3))
       (S_u gsm_initial) (replicate 160 0)"
    using silent_segments[OF short_term_LARpp(2)[OF ok] Decoding_words short_term_LARpp(1)[OF ok], of "replicate 8 3"]
    by (simp add: gsm_initial_def)
  from short_term_synthesis_inverts_analysis[OF ok refl refl _ _ w _ this]
  show ?thesis by (fastforce simp: same_memory_def gsm_initial_def)
qed

end
