(* ===== verification/Gsm_Lpc.thy ===== *)
theory Gsm_Lpc
  imports Gsm_Arith
begin

text \<open>
  \<^verbatim>\<open>src/lpc.c\<close>: autocorrelation with dynamic scaling, the Schur recursion for the reflection
  coefficients, their log area ratios and the quantisation of those to the codes \<open>LARc\<close>.  The
  floating-point variants under \<open>USE_FLOAT_MUL\<close> and \<open>FAST\<close> are not part of the build.
\<close>

unbundle bit_operations_syntax

section \<open>Definitions\<close>

subsection \<open>Autocorrelation\<close>

text \<open>The search for the maximum, shared with the other sections that scan an array this way.\<close>

definition max_abs_step :: "int \<Rightarrow> int \<Rightarrow> int" where
  "max_abs_step x smax = (let temp = s16 (GSM_ABS x) in if temp > smax then temp else smax)"

text \<open>\<open>SCALE(n)\<close> for \<open>n\<close> from 1 to 4; the switch has no other case.\<close>

definition scale_signal :: "int \<Rightarrow> int list \<Rightarrow> int list" where
  "scale_signal n s =
    (if 1 \<le> n \<and> n \<le> 4 then map (\<lambda>x. s16 (GSM_MULT_R x (SASR 16384 (nat (n - 1))))) s else s)"

text \<open>The \<open>STEP\<close>s for sample \<open>i\<close>: \<open>STEP(0)\<close> to \<open>STEP(min i 8)\<close>.\<close>

definition acf_step :: "int list \<Rightarrow> nat \<Rightarrow> int list \<Rightarrow> int list" where
  "acf_step s i L_ACF = map (\<lambda>k. if k \<le> i then L_ACF ! k + s ! i * s ! (i - k) else L_ACF ! k) [0..<9]"

definition Autocorrelation :: "int list \<Rightarrow> (int list \<times> int list) option" where
  "Autocorrelation s = do {
    let smax = fold max_abs_step s 0;
    scalauto \<leftarrow> (if smax = 0 then Some 0
                 else do { c_assert (smax > 0);
                           n \<leftarrow> gsm_norm (push_bit 16 smax);
                           Some (s16 (4 - n)) });
    let s = (if scalauto > 0 then scale_signal scalauto s else s);
    let L_ACF = fold (acf_step s) [0..<160] (replicate 9 0);
    let L_ACF = map (push_bit 1) L_ACF;
    if scalauto > 0
    then do { c_assert (scalauto \<le> 4); Some (map (\<lambda>x. s16 (push_bit (nat scalauto) x)) s, L_ACF) }
    else Some (s, L_ACF) }"

subsection \<open>Reflection coefficients\<close>

definition schur_step :: "int \<Rightarrow> nat \<Rightarrow> int list \<times> int list \<Rightarrow> int list \<times> int list" where
  "schur_step r m = (\<lambda>(P, K).
    let temp = s16 (GSM_MULT_R (K ! m) r);
        P = P[m := s16 (GSM_ADD (P ! (m + 1)) temp)];
        temp = s16 (GSM_MULT_R (P ! (m + 1)) r);
        K = K[m := s16 (GSM_ADD (K ! m) temp)]
    in (P, K))"

text \<open>
  The loop over \<open>n\<close>, counted down: \<open>k + 1\<close> passes are left when \<open>n = 8 - k\<close>.  The early
  return fills the rest of \<open>r\<close> with zeros.
\<close>

fun reflection_loop :: "nat \<Rightarrow> int list \<Rightarrow> int list \<Rightarrow> int list option" where
  "reflection_loop 0 P K = Some []"
| "reflection_loop (Suc k) P K = do {
     let n = 8 - k;
     let temp = s16 (GSM_ABS (P ! 1));
     if P ! 0 < temp then Some (replicate (Suc k) 0)
     else do {
       r \<leftarrow> gsm_div temp (P ! 0);
       c_assert (r \<ge> 0);
       let r = (if P ! 1 > 0 then s16 (- r) else r);
       c_assert (r \<noteq> MIN_WORD);
       if n = 8 then Some [r]
       else do {
         let temp = s16 (GSM_MULT_R (P ! 1) r);
         let P = P[0 := s16 (GSM_ADD (P ! 0) temp)];
         let (P, K) = fold (schur_step r) [1..<9 - n] (P, K);
         rs \<leftarrow> reflection_loop k P K;
         Some (r # rs) } } }"

text \<open>\<open>K[0]\<close> and \<open>K[8]\<close> are never read; they are zero here and uninitialised in C.\<close>

definition Reflection_coefficients :: "int list \<Rightarrow> int list option" where
  "Reflection_coefficients L_ACF = do {
    if L_ACF ! 0 = 0 then Some (replicate 8 0)
    else do {
      temp \<leftarrow> gsm_norm (L_ACF ! 0);
      c_assert (temp \<ge> 0 \<and> temp < 32);
      let ACF = map (\<lambda>i. s16 (SASR (push_bit (nat temp) (L_ACF ! i)) 16)) [0..<9];
      let K = [0] @ map (\<lambda>i. ACF ! i) [1..<8] @ [0];
      let P = ACF;
      reflection_loop 8 P K } }"

subsection \<open>Log area ratios\<close>

definition LAR_of_r :: "int \<Rightarrow> int option" where
  "LAR_of_r r = do {
    let temp = s16 (GSM_ABS r);
    c_assert (temp \<ge> 0);
    temp \<leftarrow> (if temp < 22118 then Some (SASR temp 1)
             else if temp < 31130 then do { c_assert (temp \<ge> 11059); Some (s16 (temp - 11059)) }
             else do { c_assert (temp \<ge> 26112); Some (s16 (push_bit 2 (s16 (temp - 26112)))) });
    let r = (if r < 0 then s16 (- temp) else temp);
    c_assert (r \<noteq> MIN_WORD);
    Some r }"

fun map_opt :: "('a \<Rightarrow> 'b option) \<Rightarrow> 'a list \<Rightarrow> 'b list option" where
  "map_opt f [] = Some []"
| "map_opt f (x # xs) = do { y \<leftarrow> f x; ys \<leftarrow> map_opt f xs; Some (y # ys) }"

definition Transformation_to_Log_Area_Ratios :: "int list \<Rightarrow> int list option" where
  "Transformation_to_Log_Area_Ratios r = map_opt LAR_of_r r"

text \<open>\<open>STEP(A, B, MAC, MIC)\<close>.\<close>

definition quantize_LAR :: "int \<times> int \<times> int \<times> int \<Rightarrow> int \<Rightarrow> int" where
  "quantize_LAR = (\<lambda>(A, B, MAC, MIC) LAR.
    let temp = s16 (GSM_MULT A LAR);
        temp = s16 (GSM_ADD temp B);
        temp = s16 (GSM_ADD temp 256);
        temp = s16 (SASR temp 9)
    in if temp > MAC then MAC - MIC else if temp < MIC then 0 else temp - MIC)"

definition LAR_steps :: "(int \<times> int \<times> int \<times> int) list" where
  "LAR_steps =
    [(20480, 0, 31, -32), (20480, 0, 31, -32), (20480, 2048, 15, -16), (20480, -2560, 15, -16),
     (13964, 94, 7, -8), (15360, -1792, 7, -8), (8534, -341, 3, -4), (9036, -1144, 3, -4)]"

definition Quantization_and_coding :: "int list \<Rightarrow> int list" where
  "Quantization_and_coding LAR = map2 quantize_LAR LAR_steps LAR"

text \<open>Returns the signal, which the scaling changes, and the codes.\<close>

definition Gsm_LPC_Analysis :: "int list \<Rightarrow> (int list \<times> int list) option" where
  "Gsm_LPC_Analysis s = do {
    (s, L_ACF) \<leftarrow> Autocorrelation s;
    r \<leftarrow> Reflection_coefficients L_ACF;
    LAR \<leftarrow> Transformation_to_Log_Area_Ratios r;
    Some (s, Quantization_and_coding LAR) }"

section \<open>Autocorrelation\<close>

text \<open>The maximum of the absolute values, with \<open>-32768\<close> counted as \<open>32767\<close>.\<close>

lemma max_abs_ge:
  assumes "list_all is_word xs"
  shows "a \<le> fold max_abs_step xs a \<and> (\<forall>x\<in>set xs. GSM_ABS x \<le> fold max_abs_step xs a)"
  using assms
proof (induction xs arbitrary: a)
  case (Cons x xs)
  have "GSM_ABS x \<le> max_abs_step x a" "a \<le> max_abs_step x a"
    using Cons.prems by (auto simp: max_abs_step_def Let_def GSM_ABS_range)
  with Cons.IH[of "max_abs_step x a"] Cons.prems show ?case by auto
qed simp

lemma max_abs_le:
  assumes "list_all is_word xs" "0 \<le> a" "a \<le> MAX_WORD"
  shows "0 \<le> fold max_abs_step xs a \<and> fold max_abs_step xs a \<le> MAX_WORD"
  using assms
proof (induction xs arbitrary: a)
  case (Cons x xs)
  have "0 \<le> max_abs_step x a" "max_abs_step x a \<le> MAX_WORD"
    using Cons.prems GSM_ABS_range[of x] by (auto simp: max_abs_step_def Let_def is_word_def)
  with Cons show ?case by simp
qed simp

lemma abs_le_max: "list_all is_word xs \<Longrightarrow> x \<in> set xs \<Longrightarrow> \<bar>x\<bar> \<le> fold max_abs_step xs 0 \<or> x = MIN_WORD \<and> fold max_abs_step xs 0 = MAX_WORD"
  using max_abs_ge[of xs 0] max_abs_le[of xs 0] by (fastforce simp: list_all_iff GSM_ABS_eq is_word_def)

text \<open>The loop over the samples is the autocorrelation sum.\<close>

definition acf :: "int list \<Rightarrow> nat \<Rightarrow> nat \<Rightarrow> int" where
  "acf s n k = (\<Sum>i\<in>{k..<n}. s ! i * s ! (i - k))"

lemma acf_loop: "fold (acf_step s) [0..<n] (replicate 9 0) = map (acf s n) [0..<9]"
proof (induction n)
  case 0
  show ?case by (simp add: acf_def numeral_eq_Suc)
next
  case (Suc n)
  have "acf s (Suc n) k = (if k \<le> n then acf s n k + s ! n * s ! (n - k) else acf s n k)" for k
    by (auto simp: acf_def)
  with Suc show ?case by (simp add: acf_step_def)
qed

text \<open>\<open>SCALE(n)\<close> divides by \<open>2^n\<close> and rounds.\<close>

lemma scale_value:
  assumes "1 \<le> n" "n \<le> 4" "\<bar>x\<bar> \<le> 2048 * 2 ^ nat n"
  shows "\<bar>GSM_MULT_R x (SASR 16384 (nat (n - 1)))\<bar> \<le> 2048"
proof -
  have "n \<in> {1, 2, 3, 4}" using assms(1,2) by auto
  then show ?thesis
    using assms(3) unfolding GSM_MULT_R_def drop_bit_eq_div by (auto simp: abs_le_iff; presburger)
qed

text \<open>The shift that \<open>gsm_norm\<close> yields for the maximum brings every sample to eleven bits.\<close>

lemma scalauto_bound:
  assumes "list_all is_word s" "x \<in> set s" "0 < fold max_abs_step s 0"
  obtains n where "gsm_norm (push_bit 16 (fold max_abs_step s 0)) = Some n" "0 \<le> n" "n \<le> 30"
    "n < 4 \<longrightarrow> \<bar>x\<bar> \<le> 2048 * 2 ^ nat (4 - n)" "4 \<le> n \<longrightarrow> \<bar>x\<bar> < 2048"
proof -
  define m where "m = fold max_abs_step s 0"
  have m: "0 < m" "m \<le> MAX_WORD" using assms max_abs_le[of s 0] by (simp_all add: m_def)
  then have "0 < push_bit 16 m" "push_bit 16 m < 2 ^ 31" by (simp_all add: push_bit_eq_mult)
  then obtain k where k: "gsm_norm (push_bit 16 m) = Some (int k)" "k \<le> 30" "m * 2 ^ 16 * 2 ^ k < 2 ^ 31"
    by (rule gsm_norm_pos) (simp add: push_bit_eq_mult)
  have x: "\<bar>x\<bar> \<le> m \<or> x = MIN_WORD \<and> m = MAX_WORD"
    using abs_le_max[OF assms(1,2)] by (simp add: m_def)
  have mk: "m * 2 ^ k < 2 ^ 15" using k(3) by simp
  have "\<bar>x\<bar> \<le> 2048 * 2 ^ (4 - k)" if "k < 4"
  proof -
    from that have "k \<in> {0, 1, 2, 3}" by auto
    with x mk m show ?thesis by auto
  qed
  moreover have "\<bar>x\<bar> < 2048" if "4 \<le> k"
  proof -
    have "m * 2 ^ 4 \<le> m * 2 ^ k" using that m by (intro mult_left_mono power_increasing) auto
    from le_less_trans[OF this mk] x m show ?thesis by auto
  qed
  ultimately show thesis
    using k m by (intro that[of "int k"]) (auto simp: m_def nat_diff_distrib')
qed

lemma norm_of_max:
  assumes "list_all is_word s" "0 < fold max_abs_step s 0"
  obtains n where "gsm_norm (push_bit 16 (fold max_abs_step s 0)) = Some n" "0 \<le> n" "n \<le> 30"
proof -
  from assms(2) have "s \<noteq> []" by auto
  then have "hd s \<in> set s" by simp
  from scalauto_bound[OF assms(1) this assms(2)] show thesis using that by metis
qed

lemma acf_bound:
  assumes "\<forall>i<160. \<bar>s ! i\<bar> \<le> 2048"
  shows "0 \<le> acf s 160 0" "acf s 160 0 \<le> 671088640"
proof -
  show "0 \<le> acf s 160 0" unfolding acf_def by (intro sum_nonneg) simp
  have "acf s 160 0 \<le> (\<Sum>i\<in>{0..<160::nat}. 4194304)"
    unfolding acf_def
  proof (rule sum_mono)
    fix i :: nat assume "i \<in> {0..<160}"
    then have "\<bar>s ! i\<bar> \<le> 2048" using assms by simp
    from abs_mult_le[OF this this] show "s ! i * s ! (i - 0) \<le> 4194304" by simp
  qed
  then show "acf s 160 0 \<le> 671088640" by simp
qed

text \<open>The scaled signal, as a function of the input.\<close>

definition scaled :: "int list \<Rightarrow> int list" where
  "scaled s = (if fold max_abs_step s 0 = 0 then s
     else scale_signal (4 - the (gsm_norm (push_bit 16 (fold max_abs_step s 0)))) s)"

lemma scaled_bound:
  assumes "list_all is_word s" "x \<in> set (scaled s)"
  shows "\<bar>x\<bar> \<le> 2048"
proof (cases "fold max_abs_step s 0 = 0")
  case True
  with assms(2) abs_le_max[OF assms(1), of x] show ?thesis by (auto simp: scaled_def)
next
  case False
  with max_abs_le[OF assms(1), of 0] have pos: "0 < fold max_abs_step s 0" by simp
  have "\<forall>x\<in>set (scaled s). \<bar>x\<bar> \<le> 2048"
    if n: "gsm_norm (push_bit 16 (fold max_abs_step s 0)) = Some n" for n
  proof -
    have "\<bar>GSM_MULT_R y (SASR 16384 (nat (4 - n - 1)))\<bar> \<le> 2048" if "1 \<le> 4 - n" "4 - n \<le> 4" "y \<in> set s" for y
      by (rule scalauto_bound[OF assms(1) that(3) pos], rule scale_value) (use n that in auto)
    moreover have "\<bar>y\<bar> \<le> 2048" if "\<not> (1 \<le> 4 - n \<and> 4 - n \<le> 4)" "y \<in> set s" for y
      by (rule scalauto_bound[OF assms(1) that(2) pos]) (use n that in auto)
    moreover have "\<bar>s16 z\<bar> \<le> 2048" if "\<bar>z\<bar> \<le> 2048" for z
      using that by (simp add: s16_id)
    ultimately show ?thesis
      using False n by (auto simp: scaled_def scale_signal_def)
  qed
  moreover obtain n where "gsm_norm (push_bit 16 (fold max_abs_step s 0)) = Some n"
    using norm_of_max[OF assms(1) pos] by metis
  ultimately show ?thesis using assms(2) by blast
qed

lemma length_scaled [simp]: "length (scaled s) = length s"
  by (simp add: scaled_def scale_signal_def)

lemma Autocorrelation_result:
  assumes "list_all is_word s"
  obtains s' where "Autocorrelation s = Some (s', map (\<lambda>k. 2 * acf (scaled s) 160 k) [0..<9])"
    "list_all is_word s'" "length s' = length s"
proof (cases "fold max_abs_step s 0 = 0")
  case True
  then have "Autocorrelation s = Some (s, map (\<lambda>k. 2 * acf (scaled s) 160 k) [0..<9])"
    by (simp add: Autocorrelation_def acf_loop scaled_def comp_def push_bit_eq_mult mult.commute del: upt.simps)
  with assms show thesis by (intro that) auto
next
  case False
  with max_abs_le[OF assms, of 0] have pos: "0 < fold max_abs_step s 0" by simp
  then obtain n where n: "gsm_norm (push_bit 16 (fold max_abs_step s 0)) = Some n" "0 \<le> n" "n \<le> 30"
    using norm_of_max[OF assms] by metis
  have sc: "scaled s = (if 4 - n > 0 then scale_signal (4 - n) s else s)"
    using False n by (simp add: scaled_def scale_signal_def)
  have w: "s16 (4 - n) = 4 - n" using n by (simp add: s16_id)
  have A: "Autocorrelation s = Some
     (if 4 - n > 0 then map (\<lambda>x. s16 (push_bit (nat (4 - n)) x)) (scaled s) else scaled s,
      map (\<lambda>k. 2 * acf (scaled s) 160 k) [0..<9])"
    using False pos n unfolding sc
    by (simp add: Autocorrelation_def acf_loop w comp_def push_bit_eq_mult mult.commute Let_def del: upt.simps)
  have B: "list_all is_word (if 4 - n > 0 then map (\<lambda>x. s16 (push_bit (nat (4 - n)) x)) (scaled s) else scaled s)"
    using assms sc by (auto simp: list_all_iff)
  show thesis by (rule that[OF A B]) simp
qed

section \<open>Reflection coefficients\<close>

lemma schur_fold_words:
  assumes "list_all is_word P" "list_all is_word K" "length P = 9" "length K = 9"
  shows "list_all is_word (fst (fold (schur_step r) ms (P, K))) \<and> list_all is_word (snd (fold (schur_step r) ms (P, K)))
    \<and> length (fst (fold (schur_step r) ms (P, K))) = 9 \<and> length (snd (fold (schur_step r) ms (P, K))) = 9"
  using assms
proof (induction ms arbitrary: P K)
  case (Cons m ms)
  obtain P' K' where e: "schur_step r m (P, K) = (P', K')" by fastforce
  then have "list_all is_word P'" "list_all is_word K'" "length P' = 9" "length K' = 9"
    using Cons.prems set_update_subset_insert[of P m] set_update_subset_insert[of K m]
    by (fastforce simp: schur_step_def Let_def list_all_iff)+
  with Cons.IH[of P' K'] show ?case by (simp add: e)
qed simp

text \<open>The recursion aborts for no input: the division is guarded by the comparison before it.\<close>

lemma reflection_loop_total:
  assumes "list_all is_word P" "list_all is_word K" "length P = 9" "length K = 9" "k \<le> 8"
  shows "\<exists>r. reflection_loop k P K = Some r \<and> length r = k \<and> (\<forall>x\<in>set r. -32767 \<le> x \<and> x \<le> 32767)"
  using assms
proof (induction k arbitrary: P K)
  case (Suc k)
  have w: "is_word (P ! 0)" "is_word (P ! 1)" using Suc.prems by (auto simp: list_all_length)
  define t where "t = GSM_ABS (P ! 1)"
  have t: "is_word t" "0 \<le> t" "s16 (GSM_ABS (P ! 1)) = t"
    using w(2) by (simp_all add: t_def GSM_ABS_range GSM_ABS_nonneg)
  show ?case
  proof (cases "P ! 0 < t")
    case True
    then show ?thesis using t by (auto simp: set_replicate_conv_if)
  next
    case False
    then obtain q where q: "gsm_div t (P ! 0) = Some q" "0 \<le> q" "q \<le> 32767"
      using gsm_div_range[of t "P ! 0"] t by auto
    define r where "r = (if P ! 1 > 0 then s16 (- q) else q)"
    have r: "-32767 \<le> r" "r \<le> 32767" using q by (auto simp: r_def s16_id)
    show ?thesis
    proof (cases "k = 0")
      case True
      with False q r t show ?thesis by (auto simp: Let_def r_def)
    next
      case k: False
      define P' where "P' = P[0 := s16 (GSM_ADD (P ! 0) (s16 (GSM_MULT_R (P ! 1) r)))]"
      have P': "list_all is_word P'" "length P' = 9"
        using Suc.prems set_update_subset_insert[of P 0] by (fastforce simp: P'_def list_all_iff)+
      obtain P2 K2 where f: "fold (schur_step r) [1..<Suc k] (P', K) = (P2, K2)" by fastforce
      have "list_all is_word P2" "list_all is_word K2" "length P2 = 9" "length K2 = 9"
        using schur_fold_words[OF P'(1) Suc.prems(2) P'(2) Suc.prems(4), of r "[1..<Suc k]"] f by simp_all
      have n: "9 - (8 - k) = Suc k" "8 - k \<noteq> 8" using Suc.prems(5) k by auto
      from Suc.IH[OF \<open>list_all is_word P2\<close> \<open>list_all is_word K2\<close> \<open>length P2 = 9\<close> \<open>length K2 = 9\<close>] Suc.prems(5)
      obtain rs where rs: "reflection_loop k P2 K2 = Some rs"
        "length rs = k" "\<forall>x\<in>set rs. -32767 \<le> x \<and> x \<le> 32767" by auto
      have "reflection_loop (Suc k) P K = Some (r # rs)"
        unfolding reflection_loop.simps Let_def t(3)
        using False q r k rs(1) f Suc.prems(5) n
        by (simp del: One_nat_def upt_Suc add: P'_def[symmetric] r_def[symmetric])
      with rs r show ?thesis by simp
    qed
  qed
qed simp

lemma Reflection_coefficients_total:
  assumes "length L = 9" "0 \<le> L ! 0" "L ! 0 < 2 ^ 31"
  obtains r where "Reflection_coefficients L = Some r" "length r = 8" "\<forall>x\<in>set r. -32767 \<le> x \<and> x \<le> 32767"
proof (cases "L ! 0 = 0")
  case True
  then show thesis by (intro that[of "replicate 8 0"]) (auto simp: Reflection_coefficients_def)
next
  case False
  with assms have "0 < L ! 0" by simp
  from gsm_norm_pos[OF this assms(3)] obtain k where k: "gsm_norm (L ! 0) = Some (int k)" "k \<le> 30" by metis
  define ACF where "ACF = map (\<lambda>i. s16 (SASR (push_bit k (L ! i)) 16)) [0..<9]"
  have "list_all is_word ACF" "length ACF = 9" "list_all is_word ([0] @ map (\<lambda>i. ACF ! i) [1..<8] @ [0])"
    by (auto simp: ACF_def list_all_iff is_word_def simp del: upt_Suc) (use is_word_s16 is_word_def in auto)
  from reflection_loop_total[OF this(1) this(3) this(2), of 8]
  obtain r where r: "reflection_loop 8 ACF ([0] @ map (\<lambda>i. ACF ! i) [1..<8] @ [0]) = Some r" "length r = 8"
    "\<forall>x\<in>set r. -32767 \<le> x \<and> x \<le> 32767" by auto
  from r(1) False k have "Reflection_coefficients L = Some r"
    by (simp add: Reflection_coefficients_def Let_def del: upt.simps reflection_loop.simps flip: ACF_def)
  with r(2,3) show thesis by (intro that)
qed

section \<open>Log area ratios and their codes\<close>

text \<open>The piecewise linear approximation of the logarithm, without the assertions.\<close>

definition LAR_abs :: "int \<Rightarrow> int" where
  "LAR_abs t = (if t < 22118 then t div 2 else if t < 31130 then t - 11059 else 4 * (t - 26112))"

lemma LAR_of_r_value:
  assumes "-32767 \<le> r" "r \<le> 32767"
  shows "LAR_of_r r = Some (sgn r * LAR_abs \<bar>r\<bar>)" "0 \<le> LAR_abs \<bar>r\<bar>" "LAR_abs \<bar>r\<bar> \<le> 26620"
proof -
  have t: "s16 (GSM_ABS r) = \<bar>r\<bar>" using assms by (auto simp: GSM_ABS_def s16_id)
  show b: "0 \<le> LAR_abs \<bar>r\<bar>" "LAR_abs \<bar>r\<bar> \<le> 26620"
    using assms by (auto simp: LAR_abs_def)
  have "(if \<bar>r\<bar> < 22118 then Some (SASR \<bar>r\<bar> 1)
       else if \<bar>r\<bar> < 31130 then do { c_assert (\<bar>r\<bar> \<ge> 11059); Some (s16 (\<bar>r\<bar> - 11059)) }
       else do { c_assert (\<bar>r\<bar> \<ge> 26112); Some (s16 (push_bit 2 (s16 (\<bar>r\<bar> - 26112)))) }) = Some (LAR_abs \<bar>r\<bar>)"
    using assms by (auto simp: LAR_abs_def drop_bit_eq_div push_bit_eq_mult s16_id)
  then show "LAR_of_r r = Some (sgn r * LAR_abs \<bar>r\<bar>)"
    unfolding LAR_of_r_def t Let_def using b by (auto simp: s16_id sgn_if LAR_abs_def)
qed

lemma map_opt_total:
  assumes "\<And>x. x \<in> set xs \<Longrightarrow> f x = Some (g x)"
  shows "map_opt f xs = Some (map g xs)"
  using assms by (induction xs) auto

lemma quantize_LAR_range:
  assumes "MIC \<le> MAC" "m = MAC - MIC"
  shows "0 \<le> quantize_LAR (A, B, MAC, MIC) x" "quantize_LAR (A, B, MAC, MIC) x \<le> m"
  using assms by (auto simp: quantize_LAR_def Let_def)

text \<open>The largest code of each coefficient: \<open>MAC - MIC\<close>.\<close>

definition LARc_max :: "int list" where
  "LARc_max = [63, 63, 31, 31, 15, 15, 7, 7]"

lemma LARc_max_tables: "LARc_max = map2 (-) gsm_MAC gsm_MIC"
  and LAR_steps_tables: "LAR_steps = map (\<lambda>i. (gsm_A ! i, gsm_B ! i, gsm_MAC ! i, gsm_MIC ! i)) [0..<8]"
  by (simp_all add: LARc_max_def LAR_steps_def gsm_A_def gsm_B_def gsm_MAC_def gsm_MIC_def upt_rec)

lemma Quantization_range:
  assumes "length L = 8"
  shows "list_all2 (\<lambda>m x. 0 \<le> x \<and> x \<le> m) LARc_max (Quantization_and_coding L)"
proof -
  from assms obtain a b c d e f g h where "L = [a, b, c, d, e, f, g, h]"
    by (auto simp: numeral_eq_Suc length_Suc_conv)
  then show ?thesis
    by (simp add: Quantization_and_coding_def LAR_steps_def LARc_max_def quantize_LAR_range)
qed

section \<open>Properties\<close>

lemma LPC_Analysis_total:
  assumes "list_all is_word s" "length s = 160"
  obtains s' c where "Gsm_LPC_Analysis s = Some (s', c)" "list_all is_word s'" "length s' = 160"
    "list_all2 (\<lambda>m x. 0 \<le> x \<and> x \<le> m) LARc_max c"
proof -
  obtain s' where s': "Autocorrelation s = Some (s', map (\<lambda>k. 2 * acf (scaled s) 160 k) [0..<9])"
    "list_all is_word s'" "length s' = length s"
    using Autocorrelation_result[OF assms(1)] by metis
  have "\<forall>i<160. \<bar>scaled s ! i\<bar> \<le> 2048"
    using scaled_bound[OF assms(1)] assms(2) by simp
  from acf_bound[OF this] obtain r where r: "Reflection_coefficients (map (\<lambda>k. 2 * acf (scaled s) 160 k) [0..<9]) = Some r"
    "length r = 8" "\<forall>x\<in>set r. -32767 \<le> x \<and> x \<le> 32767"
    using Reflection_coefficients_total[of "map (\<lambda>k. 2 * acf (scaled s) 160 k) [0..<9]"] by (auto simp del: upt.simps)
  have "Transformation_to_Log_Area_Ratios r = Some (map (\<lambda>x. sgn x * LAR_abs \<bar>x\<bar>) r)"
    unfolding Transformation_to_Log_Area_Ratios_def
    by (rule map_opt_total) (use r(3) LAR_of_r_value in auto)
  then show thesis
    using s' r assms(2) Quantization_range[of "map (\<lambda>x. sgn x * LAR_abs \<bar>x\<bar>) r"]
    by (intro that) (simp_all add: Gsm_LPC_Analysis_def del: upt.simps)
qed

lemma acf_cauchy:
  assumes "k \<le> n"
  shows "\<bar>acf s n k\<bar> \<le> acf s n 0"
proof -
  have t: "2 * \<bar>a * b\<bar> \<le> a * a + b * (b::int)" for a b
    using zero_le_square[of "a + b"] zero_le_square[of "a - b"] by (auto simp: abs_if algebra_simps)
  have "2 * \<bar>acf s n k\<bar> \<le> (\<Sum>i\<in>{k..<n}. 2 * \<bar>s ! i * s ! (i - k)\<bar>)"
    unfolding acf_def sum_distrib_left[symmetric] by (simp add: sum_abs)
  also have "\<dots> \<le> (\<Sum>i\<in>{k..<n}. s ! i * s ! i + s ! (i - k) * s ! (i - k))"
    by (rule sum_mono) (rule t)
  also have "\<dots> = (\<Sum>i\<in>{k..<n}. s ! i * s ! i) + (\<Sum>i\<in>{0..<n - k}. s ! i * s ! i)"
    using sum.shift_bounds_nat_ivl[of "\<lambda>i. s ! (i - k) * s ! (i - k)" 0 k "n - k"] assms
    by (simp add: sum.distrib)
  also have "\<dots> \<le> acf s n 0 + acf s n 0"
    unfolding acf_def by (intro add_mono) (auto intro!: sum_mono2)
  finally show ?thesis by simp
qed

text \<open>
  Autocorrelation is exact: after the dynamic scaling brings every sample to at most eleven
  bits plus sign, the nine sums are the doubled autocorrelations of the scaled signal, none exceeds the
  first in absolute value, and all fit in 31 bits, so that normalising them later cannot overflow.
\<close>

theorem Autocorrelation_exact:
  assumes "list_all is_word s" "length s = 160"
  shows "\<exists>s' L. Autocorrelation s = Some (s', L) \<and> length L = 9 \<and> list_all is_word s' \<and>
    (\<forall>x\<in>set (scaled s). \<bar>x\<bar> \<le> 2048) \<and> 0 \<le> L ! 0 \<and> L ! 0 < 2 ^ 31 \<and>
    (\<forall>k<9. L ! k = 2 * (\<Sum>i\<in>{k..<160}. scaled s ! i * scaled s ! (i - k)) \<and> \<bar>L ! k\<bar> \<le> L ! 0)"
proof -
  obtain s' where s': "Autocorrelation s = Some (s', map (\<lambda>k. 2 * acf (scaled s) 160 k) [0..<9])" "list_all is_word s'"
    using Autocorrelation_result[OF assms(1)] by metis
  have b: "\<forall>x\<in>set (scaled s). \<bar>x\<bar> \<le> 2048" using scaled_bound[OF assms(1)] by blast
  then have "\<forall>i<160. \<bar>scaled s ! i\<bar> \<le> 2048" using assms(2) by simp
  note a = acf_bound[OF this]
  let ?L = "map (\<lambda>k. 2 * acf (scaled s) 160 k) [0..<9]"
  have "?L ! k = 2 * acf (scaled s) 160 k" if "k < 9" for k using that by (simp del: upt.simps)
  then have "\<forall>k<9. ?L ! k = 2 * acf (scaled s) 160 k \<and> \<bar>?L ! k\<bar> \<le> ?L ! 0" "0 \<le> ?L ! 0" "?L ! 0 < 2 ^ 31"
    using acf_cauchy[of _ 160 "scaled s"] a by (auto simp: abs_mult simp del: upt.simps)
  with s' b show ?thesis by (intro exI[of _ s'] exI[of _ ?L]) (simp add: acf_def del: upt.simps)
qed

theorem Autocorrelation_exact_witness:
  "\<exists>s' L. Autocorrelation (replicate 160 1000) = Some (s', L) \<and> L ! 0 < 2 ^ 31 \<and> \<bar>L ! 8\<bar> \<le> L ! 0"
proof -
  have "list_all is_word (replicate 160 1000)" "length (replicate 160 (1000::int)) = 160"
    by (simp_all add: list_all_length is_word_def)
  from Autocorrelation_exact[OF this] obtain s' L where
    "Autocorrelation (replicate 160 1000) = Some (s', L)" "L ! 0 < 2 ^ 31" "\<forall>k<9. \<bar>L ! k\<bar> \<le> L ! 0" by metis
  then show ?thesis by (intro exI[of _ s'] exI[of _ L]) simp
qed

text \<open>
  C28. LPC analysis is total: for every frame of 160 16-bit samples none of its assertions
  fails, neither in the normalisations nor in the Schur recursion's divisions nor in the log area ratios,
  and each of the eight codes is between 0 and \<open>MAC - MIC\<close>.
\<close>

theorem Gsm_LPC_Analysis_total:
  assumes "list_all is_word s" "length s = 160"
  shows "\<exists>s' c. Gsm_LPC_Analysis s = Some (s', c) \<and> list_all is_word s' \<and> length s' = 160 \<and>
    length c = 8 \<and> (\<forall>i<8. 0 \<le> c ! i \<and> c ! i \<le> gsm_MAC ! i - gsm_MIC ! i)"
proof -
  obtain s' c where c: "Gsm_LPC_Analysis s = Some (s', c)" "list_all is_word s'" "length s' = 160"
    "list_all2 (\<lambda>m x. 0 \<le> x \<and> x \<le> m) LARc_max c"
    using LPC_Analysis_total[OF assms] by metis
  have "length gsm_MAC = 8" "length gsm_MIC = 8" by (simp_all add: gsm_MAC_def gsm_MIC_def)
  with c(4) have "length c = 8 \<and> (\<forall>i<8. 0 \<le> c ! i \<and> c ! i \<le> gsm_MAC ! i - gsm_MIC ! i)"
    unfolding LARc_max_tables list_all2_conv_all_nth by simp
  with c show ?thesis by blast
qed

theorem Gsm_LPC_Analysis_total_witness:
  "\<exists>s' c. Gsm_LPC_Analysis (replicate 80 (-32768) @ replicate 80 32767) = Some (s', c) \<and> length c = 8"
proof -
  have "list_all is_word (replicate 80 (-32768) @ replicate 80 32767)" by (auto simp: list_all_iff is_word_def)
  from Gsm_LPC_Analysis_total[OF this] show ?thesis by auto
qed

text \<open>
  The rescaling at the end of the autocorrelation is not the inverse of the scaling at its start: a
  peak of 32760 or more is rounded up to 2048 by the scaling, and shifting that back by four
  overflows the 16-bit sample, which comes out as -32768.
\<close>

theorem Autocorrelation_flips_peak:
  assumes "32760 \<le> x" "x \<le> 32767"
  shows "\<exists>L. Autocorrelation (x # replicate 159 0) = Some (MIN_WORD # replicate 159 0, L)"
proof -
  have z: "fold max_abs_step (replicate n 0) x = x" for n
    using assms by (induction n) (auto simp: max_abs_step_def GSM_ABS_def)
  have m: "fold max_abs_step (x # replicate 159 0) 0 = x"
    using assms z[of 159] by (simp add: max_abs_step_def GSM_ABS_def s16_id)
  have "0 < push_bit 16 x" "push_bit 16 x < 2 ^ 31" using assms by (simp_all add: push_bit_eq_mult)
  then obtain k where k: "gsm_norm (push_bit 16 x) = Some (int k)" "push_bit 16 x * 2 ^ k < 2 ^ 31"
    by (rule gsm_norm_pos)
  have "k = 0"
  proof (rule ccontr)
    assume "k \<noteq> 0"
    then have "push_bit 16 x * 2 ^ 1 \<le> push_bit 16 x * 2 ^ k"
      using assms by (intro mult_left_mono power_increasing) auto
    from le_less_trans[OF this k(2)] assms show False by (simp add: push_bit_eq_mult)
  qed
  have sc: "s16 (GSM_MULT_R x 2048) = 2048" "s16 (GSM_MULT_R 0 2048) = 0"
  proof -
    have "(x * 2048 + 16384) div 32768 = 2048" using assms by (intro int_div_pos_eq[where r = "x * 2048 + 16384 - 2048 * 32768"]) auto
    then show "s16 (GSM_MULT_R x 2048) = 2048" "s16 (GSM_MULT_R 0 2048) = 0"
      by (simp_all add: GSM_MULT_R_def drop_bit_eq_div s16_id)
  qed
  have "scale_signal 4 (x # replicate 159 0) = 2048 # replicate 159 0"
    using sc by (simp add: scale_signal_def drop_bit_eq_div)
  moreover have "s16 (push_bit 4 2048) = MIN_WORD" by (simp add: push_bit_eq_mult signed_take_bit_eq_if_positive signed_take_bit_code)
  ultimately show ?thesis
    using m k(1) \<open>k = 0\<close> assms
    by (simp add: Autocorrelation_def s16_id Let_def del: fold.simps replicate.simps upt.simps)
qed

theorem Autocorrelation_flips_peak_witness:
  "\<exists>L. Autocorrelation (32767 # replicate 159 0) = Some (MIN_WORD # replicate 159 0, L)"
  by (rule Autocorrelation_flips_peak) simp_all

end
