(* ===== verification/Gsm_Rpe.thy ===== *)
theory Gsm_Rpe
  imports Gsm_Lpc
begin

text \<open>
  \<^verbatim>\<open>src/rpe.c\<close>: regular pulse excitation.  The weighting filter, the choice of the grid, the
  adaptive quantisation of its thirteen pulses and their reconstruction, which coder and decoder share.
\<close>

unbundle bit_operations_syntax

section \<open>Definitions\<close>

subsection \<open>Weighting filter\<close>

text \<open>
  \<open>e\<close> is the 50-element array of the caller; after \<open>e -= 5\<close> the index \<open>k + i\<close> starts at its beginning.
\<close>

definition weighted :: "int list \<Rightarrow> nat \<Rightarrow> int" where
  "weighted e k =
    (let L_result = SASR 8192 1;
         L_result = L_result + e ! (k + 0) * -134;
         L_result = L_result + e ! (k + 1) * -374;
         L_result = L_result + e ! (k + 3) * 2054;
         L_result = L_result + e ! (k + 4) * 5741;
         L_result = L_result + e ! (k + 5) * 8192;
         L_result = L_result + e ! (k + 6) * 5741;
         L_result = L_result + e ! (k + 7) * 2054;
         L_result = L_result + e ! (k + 9) * -374;
         L_result = L_result + e ! (k + 10) * -134;
         L_result = SASR L_result 13
     in if L_result < MIN_WORD then MIN_WORD else if L_result > MAX_WORD then MAX_WORD else L_result)"

definition Weighting_filter :: "int list \<Rightarrow> int list" where
  "Weighting_filter e = map (weighted e) [0..<40]"

subsection \<open>Grid selection\<close>

definition grid_step :: "int list \<Rightarrow> nat \<Rightarrow> nat \<Rightarrow> int \<Rightarrow> int" where
  "grid_step x m i L_result = (let L_temp = SASR (x ! (m + 3 * i)) 2 in L_result + L_temp * L_temp)"

definition RPE_grid_selection :: "int list \<Rightarrow> int list \<times> nat" where
  "RPE_grid_selection x =
    (let L_result = fold (grid_step x 0) [1..<13] 0;
         L_common_0_3 = L_result;
         L_result = grid_step x 0 0 L_result;
         L_result = push_bit 1 L_result;
         EM = L_result;
         Mc = 0;
         L_result = push_bit 1 (fold (grid_step x 1) [0..<13] 0);
         (Mc, EM) = (if L_result > EM then (1, L_result) else (Mc, EM));
         L_result = push_bit 1 (fold (grid_step x 2) [0..<13] 0);
         (Mc, EM) = (if L_result > EM then (2, L_result) else (Mc, EM));
         L_result = L_common_0_3;
         L_result = grid_step x 3 12 L_result;
         L_result = push_bit 1 L_result;
         (Mc, EM) = (if L_result > EM then (3, L_result) else (Mc, EM))
     in (map (\<lambda>i. x ! (Mc + 3 * i)) [0..<13], Mc))"

subsection \<open>Quantisation\<close>

text \<open>The \<open>while (mant <= 7)\<close> loop, which ends only for a positive mantissa.\<close>

partial_function (option) exp_mant_loop :: "int \<Rightarrow> int \<Rightarrow> (int \<times> int) option" where
  "exp_mant_loop mant exp =
    (if mant \<le> 7 then exp_mant_loop (s16 (push_bit 1 mant OR 1)) (s16 (exp - 1)) else Some (mant, exp))"

definition APCM_quantization_xmaxc_to_exp_mant :: "int \<Rightarrow> (int \<times> int) option" where
  "APCM_quantization_xmaxc_to_exp_mant xmaxc = do {
    let exp = (if xmaxc > 15 then s16 (SASR xmaxc 3 - 1) else 0);
    let mant = s16 (xmaxc - push_bit 3 exp);
    (exp, mant) \<leftarrow> (if mant = 0 then Some (-4, 7)
      else do { (mant, exp) \<leftarrow> exp_mant_loop mant exp; Some (exp, s16 (mant - 8)) });
    c_assert (exp \<ge> -4 \<and> exp \<le> 6);
    c_assert (mant \<ge> 0 \<and> mant \<le> 7);
    Some (exp, mant) }"

text \<open>The loop over \<open>i\<close> from 0 to 5 that finds the exponent.\<close>

fun apcm_exp_loop :: "nat \<Rightarrow> int \<Rightarrow> bool \<Rightarrow> int \<Rightarrow> int option" where
  "apcm_exp_loop 0 temp itest exp = Some exp"
| "apcm_exp_loop (Suc n) temp itest exp = do {
     let itest = (itest \<or> temp \<le> 0);
     let temp = SASR temp 1;
     c_assert (exp \<le> 5);
     apcm_exp_loop n temp itest (if \<not> itest then exp + 1 else exp) }"

definition apcm_code :: "int \<Rightarrow> int \<Rightarrow> int \<Rightarrow> int option" where
  "apcm_code temp1 temp2 x = do {
    c_assert (temp1 \<ge> 0 \<and> temp1 < 16);
    let temp = s16 (push_bit (nat temp1) x);
    let temp = s16 (GSM_MULT temp temp2);
    let temp = s16 (SASR temp 12);
    Some (s16 (temp + 4)) }"

text \<open>Returns \<open>xMc\<close>, the mantissa, the exponent and \<open>xmaxc\<close>.\<close>

definition APCM_quantization :: "int list \<Rightarrow> (int list \<times> int \<times> int \<times> int) option" where
  "APCM_quantization xM = do {
    let xmax = fold max_abs_step xM 0;
    exp \<leftarrow> apcm_exp_loop 6 (SASR xmax 9) False 0;
    c_assert (exp \<le> 6 \<and> exp \<ge> 0);
    let temp = exp + 5;
    c_assert (temp \<le> 11 \<and> temp \<ge> 0);
    let xmaxc = gsm_add (SASR xmax (nat temp)) (push_bit 3 exp);
    (exp, mant) \<leftarrow> APCM_quantization_xmaxc_to_exp_mant xmaxc;
    c_assert (exp \<le> 4096 \<and> exp \<ge> -4096);
    c_assert (mant \<ge> 0 \<and> mant \<le> 7);
    let temp1 = s16 (6 - exp);
    let temp2 = gsm_NRFAC ! nat mant;
    xMc \<leftarrow> map_opt (apcm_code temp1 temp2) xM;
    Some (xMc, mant, exp, xmaxc) }"

definition apcm_decode :: "int \<Rightarrow> int \<Rightarrow> int \<Rightarrow> int \<Rightarrow> int option" where
  "apcm_decode temp1 temp2 temp3 xMc = do {
    c_assert (xMc \<le> 7 \<and> xMc \<ge> 0);
    let temp = s16 (push_bit 1 xMc - 7);
    c_assert (temp \<le> 7 \<and> temp \<ge> -7);
    let temp = s16 (push_bit 12 temp);
    let temp = s16 (GSM_MULT_R temp1 temp);
    let temp = s16 (GSM_ADD temp temp3);
    Some (gsm_asr temp temp2) }"

definition APCM_inverse_quantization :: "int list \<Rightarrow> int \<Rightarrow> int \<Rightarrow> int list option" where
  "APCM_inverse_quantization xMc mant exp = do {
    c_assert (mant \<ge> 0 \<and> mant \<le> 7);
    let temp1 = gsm_FAC ! nat mant;
    let temp2 = gsm_sub 6 exp;
    let temp3 = gsm_asl 1 (gsm_sub temp2 1);
    map_opt (apcm_decode temp1 temp2 temp3) xMc }"

subsection \<open>Grid positioning\<close>

text \<open>The \<open>do ... while (--i)\<close> of the switch, from its innermost case on.\<close>

fun grid_loop :: "int list \<Rightarrow> int list" where
  "grid_loop [] = []"
| "grid_loop [x] = [x]"
| "grid_loop (x # y # xs) = x # 0 # 0 # grid_loop (y # xs)"

text \<open>The zeros before it depend on the case entered; the last loop pads with \<open>3 - Mc\<close> zeros.\<close>

definition RPE_grid_positioning :: "int \<Rightarrow> int list \<Rightarrow> int list option" where
  "RPE_grid_positioning Mc xMp = do {
    c_assert (0 \<le> Mc \<and> Mc \<le> 3);
    Some ((if Mc = 3 then [0, 0, 0] else if Mc = 2 then [0, 0] else if Mc = 1 then [0] else [])
      @ grid_loop xMp @ replicate (nat (3 - Mc)) 0) }"

subsection \<open>Coder and decoder\<close>

text \<open>The coder overwrites the forty residual samples in the middle of \<open>e\<close> with their reconstruction.\<close>

definition Gsm_RPE_Encoding :: "int list \<Rightarrow> (int list \<times> int \<times> nat \<times> int list) option" where
  "Gsm_RPE_Encoding e = do {
    let x = Weighting_filter e;
    let (xM, Mc) = RPE_grid_selection x;
    (xMc, mant, exp, xmaxc) \<leftarrow> APCM_quantization xM;
    xMp \<leftarrow> APCM_inverse_quantization xMc mant exp;
    ep \<leftarrow> RPE_grid_positioning (int Mc) xMp;
    Some (take 5 e @ ep @ drop 45 e, xmaxc, Mc, xMc) }"

definition Gsm_RPE_Decoding :: "int \<Rightarrow> int \<Rightarrow> int list \<Rightarrow> int list option" where
  "Gsm_RPE_Decoding xmaxcr Mcr xMcr = do {
    (exp, mant) \<leftarrow> APCM_quantization_xmaxc_to_exp_mant xmaxcr;
    xMp \<leftarrow> APCM_inverse_quantization xMcr mant exp;
    RPE_grid_positioning Mcr xMp }"

section \<open>Exponent and mantissa\<close>

declare exp_mant_loop.simps [code]

lemma exp_mant_small:
  "exp_mant_loop 1 e = Some (15, s16 (s16 (s16 (e - 1) - 1) - 1))"
  "exp_mant_loop 2 e = Some (11, s16 (s16 (e - 1) - 1))"
  "exp_mant_loop 3 e = Some (15, s16 (s16 (e - 1) - 1))"
  "exp_mant_loop 4 e = Some (9, s16 (e - 1))"
  "exp_mant_loop 5 e = Some (11, s16 (e - 1))"
  "exp_mant_loop 6 e = Some (13, s16 (e - 1))"
  "exp_mant_loop 7 e = Some (15, s16 (e - 1))"
  "8 \<le> m \<Longrightarrow> exp_mant_loop m e = Some (m, e)"
  by (simp_all add: exp_mant_loop.simps s16_id push_bit_eq_mult)

lemma exp_mant_high:
  assumes "8 \<le> x" "x \<le> 63"
  shows "APCM_quantization_xmaxc_to_exp_mant x = Some (x div 8 - 1, x mod 8)"
proof -
  define h where "h = x div 8"
  have h: "1 \<le> h" "h \<le> 7" "x = 8 * h + x mod 8" "0 \<le> x mod 8" "x mod 8 \<le> 7"
    using assms by (auto simp: h_def)
  have e: "(if x > 15 then s16 (SASR x 3 - 1) else 0) = h - 1"
    using h assms by (auto simp: drop_bit_eq_div s16_id simp flip: h_def)
  have m: "s16 (x - push_bit 3 (h - 1)) = x mod 8 + 8"
    using h by (simp add: push_bit_eq_mult s16_id)
  show ?thesis
    unfolding APCM_quantization_xmaxc_to_exp_mant_def Let_def e m h_def[symmetric]
    using h by (simp add: exp_mant_small(8) s16_id)
qed

lemma exp_mant_low:
  "APCM_quantization_xmaxc_to_exp_mant 0 = Some (-4, 7)"
  "APCM_quantization_xmaxc_to_exp_mant 1 = Some (-3, 7)"
  "APCM_quantization_xmaxc_to_exp_mant 2 = Some (-2, 3)"
  "APCM_quantization_xmaxc_to_exp_mant 3 = Some (-2, 7)"
  "APCM_quantization_xmaxc_to_exp_mant 4 = Some (-1, 1)"
  "APCM_quantization_xmaxc_to_exp_mant 5 = Some (-1, 3)"
  "APCM_quantization_xmaxc_to_exp_mant 6 = Some (-1, 5)"
  "APCM_quantization_xmaxc_to_exp_mant 7 = Some (-1, 7)"
  by (simp_all add: APCM_quantization_xmaxc_to_exp_mant_def exp_mant_small s16_id)

lemma small_cases: "0 \<le> (x::int) \<Longrightarrow> x < 8 \<Longrightarrow> x \<in> {0, 1, 2, 3, 4, 5, 6, 7}"
  by auto

lemma exp_mant_total:
  assumes "0 \<le> x" "x \<le> 63"
  obtains exp mant where "APCM_quantization_xmaxc_to_exp_mant x = Some (exp, mant)"
    "-4 \<le> exp" "exp \<le> 6" "0 \<le> mant" "mant \<le> 7"
proof (cases "x < 8")
  case True
  with small_cases[of x] assms(1) show thesis using that exp_mant_low by auto
next
  case False
  with assms have "8 \<le> x" by simp
  from exp_mant_high[OF this assms(2)] show thesis
    by (rule that) (use \<open>8 \<le> x\<close> assms in auto)
qed

section \<open>The exponent of the maximum\<close>

lemma apcm_exp_loop_done: "exp \<le> 5 \<Longrightarrow> apcm_exp_loop n t True exp = Some exp"
  by (induction n arbitrary: t) simp_all

lemma apcm_exp_loop_value:
  assumes "0 \<le> t" "t < 2 ^ n" "e + int n \<le> 6"
  shows "\<exists>b\<le>n. apcm_exp_loop n t False e = Some (e + int b) \<and> t < 2 ^ b \<and> (b = 0 \<or> 2 ^ b \<le> 2 * t)"
  using assms
proof (induction n arbitrary: t e)
  case (Suc n)
  show ?case
  proof (cases "t \<le> 0")
    case True
    then show ?thesis using Suc.prems by (intro exI[of _ 0]) (simp add: apcm_exp_loop_done)
  next
    case False
    have "0 \<le> t div 2" "t div 2 < 2 ^ n" using Suc.prems by (auto simp: int_div_less_iff)
    with Suc.IH[of "t div 2" "e + 1"] Suc.prems(3) obtain b where b: "b \<le> n"
      "apcm_exp_loop n (t div 2) False (e + 1) = Some (e + 1 + int b)" "t div 2 < 2 ^ b" "b = 0 \<or> 2 ^ b \<le> 2 * (t div 2)"
      by auto
    have "apcm_exp_loop (Suc n) t False e = Some (e + int (Suc b))"
      using False Suc.prems b(2) by (simp add: drop_bit_eq_div add.assoc)
    moreover have "t < 2 ^ Suc b" using b(3) by (simp add: int_div_less_iff mult.commute)
    moreover have "2 ^ Suc b \<le> 2 * t" using b(4) False by auto
    ultimately show ?thesis using b(1) by (intro exI[of _ "Suc b"]) simp
  qed
qed simp

text \<open>
  The code of the maximum determines a bound on it: normalised by the exponent, it is below
  \<open>(9 + mant) / 16\<close> of full scale; and the bound is close, at most an eighth (or 32) above the maximum.
\<close>

lemma xmaxc_bound:
  assumes "0 \<le> xmax" "xmax \<le> MAX_WORD"
  obtains b exp mant where "apcm_exp_loop 6 (SASR xmax 9) False 0 = Some (int b)" "b \<le> 6"
    "0 \<le> xmax div 2 ^ (b + 5) + 8 * int b" "xmax div 2 ^ (b + 5) + 8 * int b \<le> 63"
    "APCM_quantization_xmaxc_to_exp_mant (xmax div 2 ^ (b + 5) + 8 * int b) = Some (exp, mant)"
    "-4 \<le> exp" "exp \<le> 6" "0 \<le> mant" "mant \<le> 7" "xmax * 2 ^ nat (6 - exp) < (9 + mant) * 2048"
    "(9 + mant) * 2048 \<le> (xmax + max 32 (xmax div 8)) * 2 ^ nat (6 - exp)"
proof -
  have "0 \<le> xmax div 2 ^ 9" "xmax div 2 ^ 9 < 2 ^ 6" using assms by (auto simp: int_div_less_iff)
  from apcm_exp_loop_value[OF this, of 0] obtain b where b: "b \<le> 6"
    "apcm_exp_loop 6 (SASR xmax 9) False 0 = Some (int b)" "xmax div 512 < 2 ^ b" "b = 0 \<or> 2 ^ b \<le> 2 * (xmax div 512)"
    by (auto simp: drop_bit_eq_div)
  define h where "h = xmax div 2 ^ (b + 5)"
  have x: "xmax < (h + 1) * 2 ^ (b + 5)" "h * 2 ^ (b + 5) \<le> xmax"
    using int_div_less_iff[of "2 ^ (b + 5)" xmax "h + 1"] int_le_div_iff[of "2 ^ (b + 5)" h xmax]
    by (simp_all add: h_def)
  have "xmax < 2 ^ b * 512" using b(3) by (simp add: int_div_less_iff)
  then have h15: "h < 16" by (simp add: h_def int_div_less_iff power_add mult.commute)
  have h0: "0 \<le> h" using assms by (simp add: h_def pos_imp_zdiv_nonneg_iff)
  have h8: "8 \<le> h" if "b \<noteq> 0"
  proof -
    have "2 ^ b * 256 \<le> xmax" using b(4) that by simp
    then show ?thesis by (simp add: h_def int_le_div_iff power_add mult.commute)
  qed
  show thesis
  proof (cases "8 \<le> h")
    case True
    have "8 \<le> h + 8 * int b" "h + 8 * int b \<le> 63" using True h15 b(1) by auto
    note e = exp_mant_high[OF this]
    have d: "(h + 8 * int b) div 8 = int b + 1" "(h + 8 * int b) mod 8 = h - 8" using True h15 by presburger+
    have "b + 5 + (6 - b) = 11" using b(1) by simp
    then have full: "(h + 1) * 2 ^ (b + 5) * 2 ^ (6 - b) = (h + 1) * 2048" by (simp only: mult.assoc flip: power_add) simp
    have low: "xmax * 2 ^ (6 - b) < (h + 1) * 2048" using x(1) unfolding full[symmetric] by simp
    have "8 * 2 ^ (b + 5) \<le> h * 2 ^ (b + 5)" using True by (intro mult_right_mono) simp_all
    from order_trans[OF this x(2)] have "2 ^ (b + 5) \<le> xmax div 8" by (simp add: int_le_div_iff mult.commute)
    with x(2) have "(h + 1) * 2 ^ (b + 5) \<le> xmax + max 32 (xmax div 8)" by (simp add: distrib_right)
    then have up: "(h + 1) * 2048 \<le> (xmax + max 32 (xmax div 8)) * 2 ^ (6 - b)" unfolding full[symmetric] by simp
    show thesis
      using b(1,2) e[unfolded d] True h15 h0 low up
      by (intro that[of b "int b" "h - 8"]) (simp_all add: nat_diff_distrib' flip: h_def)
  next
    case False
    then have [simp]: "b = 0" using h8 by blast
    from small_cases[OF h0] False have "h \<in> {0, 1, 2, 3, 4, 5, 6, 7}" by simp
    then obtain exp mant where "APCM_quantization_xmaxc_to_exp_mant h = Some (exp, mant)"
      "-4 \<le> exp" "exp \<le> 6" "0 \<le> mant" "mant \<le> 7" "xmax * 2 ^ nat (6 - exp) < (9 + mant) * 2048"
      "(9 + mant) * 2048 \<le> (xmax + 32) * 2 ^ nat (6 - exp)"
      using x by (elim insertE emptyE) (simp_all add: exp_mant_low)
    moreover from this(7) have "(9 + mant) * 2048 \<le> (xmax + max 32 (xmax div 8)) * 2 ^ nat (6 - exp)"
      by (rule order_trans) (intro mult_right_mono, simp_all)
    moreover have "xmax div 32 = h" by (simp add: h_def)
    ultimately show thesis
      using b(2) h0 h15 by (intro that[of 0 exp mant]) simp_all
  qed
qed

section \<open>Codes of the pulses\<close>

text \<open>
  For a normalised pulse \<open>t\<close>, below \<open>(9 + m) / 16\<close> of full scale, the code \<open>c\<close> has three bits and its
  reconstruction is within half a quantisation step of \<open>t\<close>.
\<close>

definition pulse_ok :: "int \<Rightarrow> int \<Rightarrow> bool" where
  "pulse_ok m t \<longleftrightarrow> \<bar>t\<bar> < (9 + m) * 2048 \<or> m = 7 \<and> t = MIN_WORD"

lemma pulse_code:
  assumes "0 \<le> m" "m \<le> 7" "pulse_ok m t" "q = t * gsm_NRFAC ! nat m div 32768" "c = q div 4096"
    "r = (gsm_FAC ! nat m * ((2 * (c + 4) - 7) * 4096) + 16384) div 32768"
  shows "-16384 \<le> q \<and> q < 16384 \<and> -4 \<le> c \<and> c \<le> 3 \<and> \<bar>t - r\<bar> \<le> 256 * (9 + m) + 1"
proof -
  have q: "q * 32768 \<le> t * gsm_NRFAC ! nat m" "t * gsm_NRFAC ! nat m < (q + 1) * 32768"
    using int_le_div_iff[of 32768 q "t * gsm_NRFAC ! nat m"] int_div_less_iff[of 32768 "t * gsm_NRFAC ! nat m" "q + 1"]
    by (simp_all add: assms(4))
  have c: "c * 4096 \<le> q" "q < (c + 1) * 4096"
    using int_le_div_iff[of 4096 c q] int_div_less_iff[of 4096 q "c + 1"] by (simp_all add: assms(5))
  let ?y = "gsm_FAC ! nat m * ((2 * (c + 4) - 7) * 4096) + 16384"
  have r: "r * 32768 \<le> ?y" "?y < (r + 1) * 32768"
    using int_le_div_iff[of 32768 r ?y] int_div_less_iff[of 32768 ?y "r + 1"] by (simp_all add: assms(6))
  have m: "m \<in> {0, 1, 2, 3, 4, 5, 6, 7}" using small_cases[of m] assms(1,2) by simp
  have "-16384 \<le> q \<and> q < 16384"
    using m q assms(3) by (elim insertE emptyE) (auto simp: gsm_NRFAC_def pulse_ok_def)
  moreover from this c have "-4 \<le> c \<and> c \<le> 3" by auto
  moreover have "t - r \<le> 256 * (9 + m) + 1 \<and> r - t \<le> 256 * (9 + m) + 1"
    using m q c r \<open>-4 \<le> c \<and> c \<le> 3\<close> by (elim insertE emptyE) (auto simp: gsm_NRFAC_def gsm_FAC_def)
  ultimately show ?thesis by (simp add: abs_le_iff)
qed

definition coded :: "int \<Rightarrow> nat \<Rightarrow> int \<Rightarrow> int" where
  "coded m k x = (x * 2 ^ k * gsm_NRFAC ! nat m div 32768) div 4096 + 4"

definition decoded :: "int \<Rightarrow> int \<Rightarrow> int" where
  "decoded m c = (gsm_FAC ! nat m * ((2 * c - 7) * 4096) + 16384) div 32768"

definition rounding :: "nat \<Rightarrow> int" where
  "rounding k = (if k = 0 then 0 else 2 ^ (k - 1))"

lemma NRFAC_bounds: "0 \<le> m \<Longrightarrow> m \<le> 7 \<Longrightarrow> 16384 \<le> gsm_NRFAC ! nat m \<and> gsm_NRFAC ! nat m \<le> 29128"
  using small_cases[of m] by (auto simp: gsm_NRFAC_def)

lemma FAC_bounds: "0 \<le> m \<Longrightarrow> m \<le> 7 \<Longrightarrow> 18431 \<le> gsm_FAC ! nat m \<and> gsm_FAC ! nat m \<le> 32767"
  using small_cases[of m] by (auto simp: gsm_FAC_def)

lemma apcm_code_value:
  assumes "k \<le> 10" "0 \<le> m" "m \<le> 7" "pulse_ok m (x * 2 ^ k)"
  shows "apcm_code (int k) (gsm_NRFAC ! nat m) x = Some (coded m k x)" "0 \<le> coded m k x" "coded m k x \<le> 7"
proof -
  define t where "t = x * 2 ^ k"
  define q where "q = t * gsm_NRFAC ! nat m div 32768"
  note c = pulse_code[OF assms(2,3) assms(4)[folded t_def] q_def refl refl]
  have w: "s16 (push_bit k x) = t"
    using assms(2-4) by (auto simp: push_bit_eq_mult t_def pulse_ok_def abs_less_iff intro!: s16_id)
  have g: "s16 (GSM_MULT t (gsm_NRFAC ! nat m)) = q"
    using c by (simp add: GSM_MULT_def drop_bit_eq_div q_def[symmetric] s16_id)
  have d: "s16 (q div 4096) = q div 4096" "s16 (q div 4096 + 4) = q div 4096 + 4"
    using c by (simp_all add: s16_id)
  have "coded m k x = q div 4096 + 4" by (simp add: coded_def q_def t_def)
  with c w g d assms(1) show "apcm_code (int k) (gsm_NRFAC ! nat m) x = Some (coded m k x)"
    "0 \<le> coded m k x" "coded m k x \<le> 7"
    by (simp_all add: apcm_code_def drop_bit_eq_div)
qed

lemma decoded_range:
  assumes "0 \<le> m" "m \<le> 7" "0 \<le> c" "c \<le> 7"
  shows "-28673 \<le> decoded m c" "decoded m c \<le> 28673"
proof -
  have "\<bar>gsm_FAC ! nat m * ((2 * c - 7) * 4096)\<bar> \<le> 32767 * 28672"
    using FAC_bounds[OF assms(1,2)] assms(3,4) by (intro abs_mult_le) auto
  then show "-28673 \<le> decoded m c" "decoded m c \<le> 28673"
    unfolding decoded_def by (simp_all add: int_le_div_iff int_div_less_iff abs_le_iff flip: zle_add1_eq_le)
qed

lemma rounding_value:
  assumes "k \<le> 10"
  shows "gsm_asl 1 (gsm_sub (int k) 1) = rounding k" "0 \<le> rounding k" "rounding k \<le> 512"
proof -
  have "gsm_sub (int k) 1 = int k - 1" using assms by (simp add: gsm_sub_saturate is_word_def)
  moreover have "(2::int) ^ (k - 1) \<le> 2 ^ 9" using assms by (intro power_increasing) auto
  moreover from this have "s16 (2 ^ (k - 1)) = 2 ^ (k - 1)"
    by (intro s16_id) (auto intro: order_trans[OF _ zero_le_power])
  ultimately show "gsm_asl 1 (gsm_sub (int k) 1) = rounding k" "0 \<le> rounding k" "rounding k \<le> 512"
    using assms by (auto simp: rounding_def gsm_asl_def gsm_asr_def push_bit_eq_mult s16_id nat_diff_distrib' drop_bit_eq_div)
qed

lemma apcm_decode_value:
  assumes "k \<le> 10" "0 \<le> m" "m \<le> 7" "0 \<le> c" "c \<le> 7"
  shows "apcm_decode (gsm_FAC ! nat m) (int k) (rounding k) c = Some ((decoded m c + rounding k) div 2 ^ k)"
    "is_word ((decoded m c + rounding k) div 2 ^ k)"
proof -
  note d = decoded_range[OF assms(2-5)]
  note r = rounding_value(2,3)[OF assms(1)]
  have "GSM_MULT_R (gsm_FAC ! nat m) ((2 * c - 7) * 4096) = decoded m c"
    by (simp add: GSM_MULT_R_def drop_bit_eq_div decoded_def)
  then have g: "s16 (GSM_MULT_R (gsm_FAC ! nat m) ((2 * c - 7) * 4096)) = decoded m c"
    using d by (simp add: s16_id)
  have a: "s16 (GSM_ADD (decoded m c) (rounding k)) = decoded m c + rounding k"
    using d r by (simp add: GSM_ADD_saturate is_word_def)
  have p: "(1::int) \<le> 2 ^ k" by simp
  define y where "y = decoded m c + rounding k"
  have y: "-28673 \<le> y" "y \<le> 29185" using d r by (simp_all add: y_def)
  have "-28673 * 2 ^ k \<le> (-28673 :: int)" "(29186::int) \<le> 29186 * 2 ^ k" using p by simp_all
  then have "-28673 \<le> y div 2 ^ k" "y div 2 ^ k < 29186"
    unfolding int_le_div_iff[OF zero_less_power[OF zero_less_numeral]] int_div_less_iff[OF zero_less_power[OF zero_less_numeral]]
    using y by linarith+
  then show w: "is_word ((decoded m c + rounding k) div 2 ^ k)" by (simp add: is_word_def y_def)
  have "s16 (2 * c - 7) = 2 * c - 7" "s16 ((2 * c - 7) * 4096) = (2 * c - 7) * 4096"
    using assms(4,5) by (simp_all add: s16_id)
  with g a w assms show "apcm_decode (gsm_FAC ! nat m) (int k) (rounding k) c = Some ((decoded m c + rounding k) div 2 ^ k)"
    by (simp add: apcm_decode_def push_bit_eq_mult mult.commute[of c] gsm_asr_def drop_bit_eq_div)
qed

lemma pulses_ok:
  assumes "list_all is_word xM" "x \<in> set xM" "0 \<le> m" "m \<le> 7" "fold max_abs_step xM 0 * 2 ^ k < (9 + m) * 2048"
  shows "pulse_ok m (x * 2 ^ k)"
  using abs_le_max[OF assms(1,2)]
proof
  assume "\<bar>x\<bar> \<le> fold max_abs_step xM 0"
  then have "\<bar>x\<bar> * 2 ^ k \<le> fold max_abs_step xM 0 * 2 ^ k" by simp
  from le_less_trans[OF this assms(5)] show ?thesis by (simp add: pulse_ok_def abs_mult)
next
  assume a: "x = MIN_WORD \<and> fold max_abs_step xM 0 = MAX_WORD"
  have "k = 0"
  proof (rule ccontr)
    assume "k \<noteq> 0"
    then have "(2::int) ^ 1 \<le> 2 ^ k" by (intro power_increasing) auto
    with a assms(4,5) show False by auto
  qed
  with a assms show ?thesis by (auto simp: pulse_ok_def)
qed

text \<open>Quantisation in closed form.\<close>

lemma APCM_quantization_value:
  assumes "list_all is_word xM"
  obtains k mant xmaxc where "k \<le> 10" "0 \<le> mant" "mant \<le> 7" "0 \<le> xmaxc" "xmaxc \<le> 63"
    "APCM_quantization_xmaxc_to_exp_mant xmaxc = Some (6 - int k, mant)"
    "APCM_quantization xM = Some (map (coded mant k) xM, mant, 6 - int k, xmaxc)"
    "\<And>x. x \<in> set xM \<Longrightarrow> pulse_ok mant (x * 2 ^ k)"
    "(9 + mant) * 2048 \<le> (fold max_abs_step xM 0 + max 32 (fold max_abs_step xM 0 div 8)) * 2 ^ k"
proof -
  define xmax where "xmax = fold max_abs_step xM 0"
  have "0 \<le> xmax" "xmax \<le> MAX_WORD" using max_abs_le[OF assms, of 0] by (simp_all add: xmax_def)
  then obtain b exp mant where b: "apcm_exp_loop 6 (SASR xmax 9) False 0 = Some (int b)" "b \<le> 6"
    "0 \<le> xmax div 2 ^ (b + 5) + 8 * int b" "xmax div 2 ^ (b + 5) + 8 * int b \<le> 63"
    "APCM_quantization_xmaxc_to_exp_mant (xmax div 2 ^ (b + 5) + 8 * int b) = Some (exp, mant)"
    and e: "-4 \<le> exp" "exp \<le> 6" "0 \<le> mant" "mant \<le> 7" "xmax * 2 ^ nat (6 - exp) < (9 + mant) * 2048"
      "(9 + mant) * 2048 \<le> (xmax + max 32 (xmax div 8)) * 2 ^ nat (6 - exp)"
    by (rule xmaxc_bound)
  define xmaxc where "xmaxc = xmax div 2 ^ (b + 5) + 8 * int b"
  define k where "k = nat (6 - exp)"
  have k: "k \<le> 10" "exp = 6 - int k" using e by (simp_all add: k_def)
  have p: "pulse_ok mant (x * 2 ^ k)" if "x \<in> set xM" for x
    using pulses_ok[OF assms that e(3,4)] e(5) by (simp add: k_def xmax_def)
  have "map_opt (apcm_code (int k) (gsm_NRFAC ! nat mant)) xM = Some (map (coded mant k) xM)"
    by (rule map_opt_total) (use p k(1) e apcm_code_value(1) in blast)
  moreover have "gsm_add (SASR xmax (nat (int b + 5))) (push_bit 3 (int b)) = xmaxc"
    using b(3,4) by (simp add: gsm_add_saturate drop_bit_eq_div push_bit_eq_mult xmaxc_def is_word_def nat_add_distrib mult.commute)
  moreover have "s16 (6 - exp) = int k" using k by (simp add: s16_id)
  ultimately have "APCM_quantization xM = Some (map (coded mant k) xM, mant, 6 - int k, xmaxc)"
    using b(1,2,5) e k unfolding APCM_quantization_def Let_def xmax_def[symmetric]
    by (simp flip: xmaxc_def)
  moreover have "(9 + mant) * 2048 \<le> (fold max_abs_step xM 0 + max 32 (fold max_abs_step xM 0 div 8)) * 2 ^ k"
    using e(6) unfolding xmax_def k_def .
  ultimately show thesis using p k e(3,4) b(3-5) by (intro that[of k mant xmaxc]) (simp_all flip: xmaxc_def)
qed

lemma APCM_inverse_value:
  assumes "k \<le> 10" "0 \<le> m" "m \<le> 7" "\<forall>c\<in>set cs. 0 \<le> c \<and> c \<le> 7"
  shows "APCM_inverse_quantization cs m (6 - int k) = Some (map (\<lambda>c. (decoded m c + rounding k) div 2 ^ k) cs)"
proof -
  have "gsm_sub 6 (6 - int k) = int k" using assms(1) by (simp add: gsm_sub_saturate is_word_def)
  moreover have "map_opt (apcm_decode (gsm_FAC ! nat m) (int k) (rounding k)) cs
      = Some (map (\<lambda>c. (decoded m c + rounding k) div 2 ^ k) cs)"
    by (rule map_opt_total) (use assms apcm_decode_value(1) in blast)
  ultimately show ?thesis
    using assms rounding_value(1)[OF assms(1)] by (simp add: APCM_inverse_quantization_def)
qed

text \<open>The reconstruction of one pulse is within half a step, and half a unit from the last shift.\<close>

lemma pulse_error:
  assumes "k \<le> 10" "0 \<le> m" "m \<le> 7" "pulse_ok m (x * 2 ^ k)"
  shows "2 * (2 ^ k * \<bar>x - (decoded m (coded m k x) + rounding k) div 2 ^ k\<bar>) \<le> 2 * (256 * (9 + m) + 1) + 2 ^ k"
proof -
  define r where "r = decoded m (coded m k x)"
  have r: "\<bar>x * 2 ^ k - r\<bar> \<le> 256 * (9 + m) + 1"
    using pulse_code[OF assms(2-4) refl refl refl] by (simp add: r_def decoded_def coded_def)
  define p where "p = (r + rounding k) div 2 ^ k"
  have p: "p * 2 ^ k \<le> r + rounding k" "r + rounding k < (p + 1) * 2 ^ k"
    using int_le_div_iff[of "2 ^ k" p "r + rounding k"] int_div_less_iff[of "2 ^ k" "r + rounding k" "p + 1"]
    by (simp_all add: p_def)
  have h: "2 * rounding k = (if k = 0 then 0 else 2 ^ k)"
    by (simp add: rounding_def power_eq_if[of 2 k])
  have "2 * \<bar>p * 2 ^ k - r\<bar> \<le> 2 ^ k"
  proof (cases "k = 0")
    case True
    with p h show ?thesis by simp
  next
    case False
    with h have "2 * rounding k = 2 ^ k" by simp
    moreover have "2 * \<bar>Q - r\<bar> \<le> K" if "Q \<le> r + h" "r + h < Q + K" "2 * h = K" for Q h K :: int
      using that by (auto simp: abs_if)
    ultimately show ?thesis using p by (simp add: distrib_right)
  qed
  moreover have "2 * \<bar>X - Q\<bar> \<le> 2 * A + K" if "\<bar>X - r\<bar> \<le> A" "2 * \<bar>Q - r\<bar> \<le> K" for X Q A K :: int
    using that by (auto simp: abs_if split: if_splits)
  ultimately have "2 * \<bar>x * 2 ^ k - p * 2 ^ k\<bar> \<le> 2 * (256 * (9 + m) + 1) + 2 ^ k" using r by blast
  moreover have "2 ^ k * \<bar>x - p\<bar> = \<bar>x * 2 ^ k - p * 2 ^ k\<bar>"
    by (simp add: left_diff_distrib[symmetric] abs_mult mult.commute)
  ultimately show ?thesis by (simp add: p_def r_def)
qed

section \<open>Grids\<close>

lemma length_grid_loop: "xs \<noteq> [] \<Longrightarrow> length (grid_loop xs) = 3 * length xs - 2"
  by (induction xs rule: grid_loop.induct) auto

lemma grid_loop_nth:
  "j < length (grid_loop xs) \<Longrightarrow> grid_loop xs ! j = (if j mod 3 = 0 then xs ! (j div 3) else 0)"
proof (induction xs arbitrary: j rule: grid_loop.induct)
  case (3 x y xs)
  show ?case
  proof (cases "j < 3")
    case True
    then have "j = 0 \<or> j = 1 \<or> j = 2" by auto
    then show ?thesis by (elim disjE) simp_all
  next
    case False
    define k where "k = j - 3"
    have k: "j = Suc (Suc (Suc k))" "j mod 3 = k mod 3" "j div 3 = Suc (k div 3)"
      using False unfolding k_def by presburger+
    from k(1) "3.prems" have "k < length (grid_loop (y # xs))" by simp
    from "3.IH"[OF this] show ?thesis unfolding k(2,3) by (simp add: k(1))
  qed
qed auto

lemma grid_loop_words: "list_all is_word xs \<Longrightarrow> list_all is_word (grid_loop xs)"
  by (induction xs rule: grid_loop.induct) (auto simp: is_word_def)

lemma grid_positioning_value:
  assumes "m \<le> 3" "length xMp = 13"
  obtains ep where "RPE_grid_positioning (int m) xMp = Some ep" "length ep = 40"
    "\<And>j. j < 40 \<Longrightarrow> ep ! j = (if m \<le> j \<and> (j - m) mod 3 = 0 \<and> j - m < 39 then xMp ! ((j - m) div 3) else 0)"
    "list_all is_word xMp \<Longrightarrow> list_all is_word ep"
proof -
  define z where "z = (if int m = 3 then [0, 0, 0] else if int m = 2 then [0, 0] else if int m = 1 then [0] else [] :: int list)"
  have z: "z = replicate m 0" using assms(1) by (auto simp: z_def numeral_eq_Suc le_Suc_eq)
  let ?ep = "replicate m 0 @ grid_loop xMp @ replicate (3 - m) 0"
  have l: "length (grid_loop xMp) = 37" using length_grid_loop[of xMp] assms(2) by fastforce
  have r: "RPE_grid_positioning (int m) xMp = Some ?ep"
    using assms(1) unfolding RPE_grid_positioning_def z_def[symmetric] z by (simp add: nat_diff_distrib')
  have n: "?ep ! j = (if m \<le> j \<and> (j - m) mod 3 = 0 \<and> j - m < 39 then xMp ! ((j - m) div 3) else 0)" if "j < 40" for j
  proof -
    consider "j < m" | "m \<le> j" "j - m < 37" | "37 \<le> j - m" "j - m < 39" | "39 \<le> j - m" by linarith
    then show ?thesis
    proof cases
      case 3
      then have "(j - m) mod 3 \<noteq> 0" by presburger
      with 3 that l assms(1) show ?thesis by (simp add: nth_append)
    next
      case 4
      with that l assms(1) show ?thesis by (simp add: nth_append)
    qed (use that l assms(1) in \<open>simp_all add: nth_append grid_loop_nth\<close>)
  qed
  show thesis
    by (rule that[OF r]) (use l n assms(1) in \<open>auto simp: grid_loop_words list_all_append list_all_iff[of _ "replicate _ _"] is_word_def\<close>)
qed

lemma grid_step_eq: "grid_step x m i L = L + (SASR (x ! (m + 3 * i)) 2)\<^sup>2"
  by (simp add: grid_step_def Let_def power2_eq_square)

lemma grid_fold: "a \<le> b \<Longrightarrow> fold (grid_step x m) [a..<b] L = L + (\<Sum>i\<in>{a..<b}. (SASR (x ! (m + 3 * i)) 2)\<^sup>2)"
proof (induction b)
  case (Suc b)
  show ?case
  proof (cases "a = Suc b")
    case False
    with Suc show ?thesis by (simp add: grid_step_eq)
  qed simp
qed simp

text \<open>Twice the energy of a grid of the downscaled signal, as the reference loop of the source computes it.\<close>

definition grid_energy :: "int list \<Rightarrow> nat \<Rightarrow> int" where
  "grid_energy x m = 2 * (\<Sum>i\<in>{0..<13}. (SASR (x ! (m + 3 * i)) 2)\<^sup>2)"

lemma grid_energies:
  "push_bit 1 (grid_step x 0 0 (fold (grid_step x 0) [1..<13] 0)) = grid_energy x 0"
  "push_bit 1 (fold (grid_step x m) [0..<13] 0) = grid_energy x m"
  "push_bit 1 (grid_step x 3 12 (fold (grid_step x 0) [1..<13] 0)) = grid_energy x 3"
proof -
  let ?f = "\<lambda>i. (SASR (x ! (3 * i)) 2)\<^sup>2"
  have "(\<Sum>i\<in>{0..<13}. ?f i) = ?f 0 + (\<Sum>i\<in>{1..<13}. ?f i)"
    by (simp add: sum.atLeast_Suc_lessThan)
  then show "push_bit 1 (grid_step x 0 0 (fold (grid_step x 0) [1..<13] 0)) = grid_energy x 0"
    unfolding grid_fold[of 1 13, OF one_le_numeral] grid_step_eq grid_energy_def
    by (simp add: push_bit_eq_mult)
  show "push_bit 1 (fold (grid_step x m) [0..<13] 0) = grid_energy x m"
    unfolding grid_fold[of 0 13, OF le0] grid_energy_def by (simp add: push_bit_eq_mult)
  have "(\<Sum>i\<in>{0..<12}. (SASR (x ! (3 + 3 * i)) 2)\<^sup>2) = (\<Sum>i\<in>{1..<13}. ?f i)"
    using sum.shift_bounds_Suc_ivl[of ?f 0 12] by (simp add: numeral_eq_Suc)
  moreover have "{0..<13::nat} = insert 12 {0..<12}" by auto
  ultimately show "push_bit 1 (grid_step x 3 12 (fold (grid_step x 0) [1..<13] 0)) = grid_energy x 3"
    unfolding grid_fold[of 1 13, OF one_le_numeral] grid_step_eq grid_energy_def
    by (simp add: push_bit_eq_mult)
qed

lemma grid_selection_value:
  "RPE_grid_selection x =
    (let E = grid_energy x;
         (M1, E1) = (if E 1 > E 0 then (1, E 1) else (0, E 0));
         (M2, E2) = (if E 2 > E1 then (2, E 2) else (M1, E1));
         (M3, E3) = (if E 3 > E2 then (3, E 3) else (M2, E2))
     in (map (\<lambda>i. x ! (M3 + 3 * i)) [0..<13], M3))"
  unfolding RPE_grid_selection_def Let_def grid_energies ..

section \<open>Coder and decoder\<close>

lemma weighted_word: "is_word (weighted e k)"
  unfolding weighted_def Let_def is_word_def by simp

lemma grid_selection_words:
  assumes "list_all is_word x" "length x = 40"
  shows "list_all is_word (fst (RPE_grid_selection x))" "length (fst (RPE_grid_selection x)) = 13"
    "snd (RPE_grid_selection x) \<le> 3"
proof -
  show m: "snd (RPE_grid_selection x) \<le> 3" by (simp add: grid_selection_value Let_def)
  have e: "fst (RPE_grid_selection x) = map (\<lambda>i. x ! (snd (RPE_grid_selection x) + 3 * i)) [0..<13]"
    by (simp add: grid_selection_value Let_def case_prod_beta)
  show "length (fst (RPE_grid_selection x)) = 13" by (subst e) simp
  show "list_all is_word (fst (RPE_grid_selection x))"
    using assms m by (subst e) (auto simp: list_all_iff simp del: upt.simps intro!: nth_mem)
qed

text \<open>The coder's pulses, their codes and their reconstruction, for a residual in \<open>e\<close>.\<close>

lemma RPE_Encoding_value:
  assumes "length e = 50" "list_all is_word e"
  obtains ep xmaxc Mc xMc where "Gsm_RPE_Encoding e = Some (take 5 e @ ep @ drop 45 e, xmaxc, Mc, xMc)"
    "Gsm_RPE_Decoding xmaxc (int Mc) xMc = Some ep" "length ep = 40" "list_all is_word ep"
    "0 \<le> xmaxc" "xmaxc \<le> 63" "Mc \<le> 3" "length xMc = 13" "\<forall>c\<in>set xMc. 0 \<le> c \<and> c \<le> 7"
proof -
  let ?x = "Weighting_filter e"
  have x: "list_all is_word ?x" "length ?x = 40"
    by (auto simp: Weighting_filter_def list_all_iff weighted_word simp del: upt.simps)
  obtain xM Mc where s: "RPE_grid_selection ?x = (xM, Mc)" by fastforce
  with grid_selection_words[OF x] have xM: "list_all is_word xM" "length xM = 13" "Mc \<le> 3" by simp_all
  obtain k mant xmaxc where q: "k \<le> 10" "0 \<le> mant" "mant \<le> 7" "0 \<le> xmaxc" "xmaxc \<le> 63"
    "APCM_quantization_xmaxc_to_exp_mant xmaxc = Some (6 - int k, mant)"
    "APCM_quantization xM = Some (map (coded mant k) xM, mant, 6 - int k, xmaxc)"
    "\<And>x. x \<in> set xM \<Longrightarrow> pulse_ok mant (x * 2 ^ k)"
    using APCM_quantization_value[OF xM(1)] by metis
  have c: "\<forall>c\<in>set (map (coded mant k) xM). 0 \<le> c \<and> c \<le> 7"
    using apcm_code_value(2,3)[OF q(1-3) q(8)] by auto
  note inv = APCM_inverse_value[OF q(1-3) c]
  let ?xMp = "map (\<lambda>c. (decoded mant c + rounding k) div 2 ^ k) (map (coded mant k) xM)"
  have w: "list_all is_word ?xMp"
    using apcm_decode_value(2)[OF q(1-3)] c by (auto simp: list_all_iff)
  obtain ep where ep: "RPE_grid_positioning (int Mc) ?xMp = Some ep" "length ep = 40" "list_all is_word ep"
    using grid_positioning_value[of Mc ?xMp] xM(2,3) w by auto
  show thesis
  proof (rule that[of ep xmaxc Mc "map (coded mant k) xM"])
    show "Gsm_RPE_Encoding e = Some (take 5 e @ ep @ drop 45 e, xmaxc, Mc, map (coded mant k) xM)"
      by (simp only: Gsm_RPE_Encoding_def Let_def s case_prod_conv q(7) bind.bind_lunit inv ep(1))
    show "Gsm_RPE_Decoding xmaxc (int Mc) (map (coded mant k) xM) = Some ep"
      by (simp only: Gsm_RPE_Decoding_def q(6) bind.bind_lunit case_prod_conv inv ep(1))
  qed (use ep q c xM in auto)
qed

lemma RPE_Decoding_total:
  assumes "0 \<le> xmaxc" "xmaxc \<le> 63" "0 \<le> Mc" "Mc \<le> 3" "length xMc = 13" "\<forall>c\<in>set xMc. 0 \<le> c \<and> c \<le> 7"
  obtains erp where "Gsm_RPE_Decoding xmaxc Mc xMc = Some erp" "length erp = 40" "list_all is_word erp"
proof -
  obtain exp mant where em: "APCM_quantization_xmaxc_to_exp_mant xmaxc = Some (exp, mant)"
    "-4 \<le> exp" "exp \<le> 6" "0 \<le> mant" "mant \<le> 7" by (rule exp_mant_total[OF assms(1,2)])
  define k where "k = nat (6 - exp)"
  have k: "k \<le> 10" "exp = 6 - int k" using em by (simp_all add: k_def)
  note inv = APCM_inverse_value[OF k(1) em(4,5) assms(6)]
  let ?xMp = "map (\<lambda>c. (decoded mant c + rounding k) div 2 ^ k) xMc"
  have w: "list_all is_word ?xMp"
    using apcm_decode_value(2)[OF k(1) em(4,5)] assms(6) by (auto simp: list_all_iff)
  have nM: "nat Mc \<le> 3" using assms(3,4) by simp
  obtain ep where "RPE_grid_positioning (int (nat Mc)) ?xMp = Some ep" "length ep = 40" "list_all is_word ep"
    using grid_positioning_value[OF nM, of ?xMp] assms(5) w by (metis length_map)
  with assms(3) em(1) k(2) inv show thesis
    by (intro that[of ep]) (simp_all add: Gsm_RPE_Decoding_def)
qed

section \<open>Properties\<close>

text \<open>
  C13. The RPE coder never trips an assertion and its codes fit the frame: for every 16-bit residual,
  \<open>xmaxc\<close> has six bits, the grid two and each pulse three; and what the decoder
  makes of these codes is exactly what the coder put into \<open>e\<close> for its own use.
\<close>

theorem Gsm_RPE_roundtrip:
  assumes "length e = 50" "list_all is_word e"
  shows "\<exists>e' xmaxc Mc xMc. Gsm_RPE_Encoding e = Some (e', xmaxc, Mc, xMc) \<and>
    Gsm_RPE_Decoding xmaxc (int Mc) xMc = Some (take 40 (drop 5 e')) \<and>
    take 5 e' = take 5 e \<and> drop 45 e' = drop 45 e \<and> length e' = 50 \<and> list_all is_word e' \<and>
    0 \<le> xmaxc \<and> xmaxc < 64 \<and> Mc < 4 \<and> length xMc = 13 \<and> (\<forall>c\<in>set xMc. 0 \<le> c \<and> c < 8)"
proof -
  obtain ep xmaxc Mc xMc where r: "Gsm_RPE_Encoding e = Some (take 5 e @ ep @ drop 45 e, xmaxc, Mc, xMc)"
    "Gsm_RPE_Decoding xmaxc (int Mc) xMc = Some ep" "length ep = 40" "list_all is_word ep"
    "0 \<le> xmaxc" "xmaxc \<le> 63" "Mc \<le> 3" "length xMc = 13" "\<forall>c\<in>set xMc. 0 \<le> c \<and> c \<le> 7"
    by (rule RPE_Encoding_value[OF assms])
  have "list_all is_word (take 5 e)" "list_all is_word (drop 45 e)"
    using assms(2) by (auto simp: list_all_iff dest: in_set_takeD in_set_dropD)
  with r assms(1) show ?thesis
    by (intro exI[of _ "take 5 e @ ep @ drop 45 e"] exI[of _ xmaxc] exI[of _ Mc] exI[of _ xMc]) auto
qed

theorem Gsm_RPE_roundtrip_witness:
  "\<exists>e' xmaxc Mc xMc. Gsm_RPE_Encoding (replicate 25 (-32768) @ replicate 25 32767) = Some (e', xmaxc, Mc, xMc) \<and>
    Gsm_RPE_Decoding xmaxc (int Mc) xMc = Some (take 40 (drop 5 e'))"
proof -
  have "list_all is_word (replicate 25 (-32768) @ replicate 25 32767)" by (auto simp: list_all_iff is_word_def)
  from Gsm_RPE_roundtrip[OF _ this] show ?thesis by fastforce
qed

lemma block_max_le:
  assumes "list_all is_word xs" "0 \<le> a" "a \<le> m" "\<forall>x\<in>set xs. \<bar>x\<bar> \<le> m"
  shows "fold max_abs_step xs a \<le> m"
  using assms
proof (induction xs arbitrary: a)
  case (Cons x xs)
  have "GSM_ABS x \<le> \<bar>x\<bar>" "0 \<le> GSM_ABS x" "GSM_ABS x \<le> MAX_WORD" using Cons.prems(1) by (auto simp: GSM_ABS_eq is_word_def)
  then have "0 \<le> max_abs_step x a" "max_abs_step x a \<le> m"
    using Cons.prems(2-4) by (auto simp: max_abs_step_def Let_def s16_id)
  with Cons show ?case by simp
qed simp

text \<open>
  C30. Quantisation error: if no pulse of a block exceeds \<open>m\<close> in size, every pulse is reconstructed to within an eighth of
  \<open>m + max 32 (m div 8)\<close>, plus one and a half for the rounding of the shifts.  So the error follows the loudest pulse of the
  block, down to blocks of a few units.  The exponent and the mantissa the coder used are those the decoder derives from
  \<open>xmaxc\<close>.
\<close>

theorem APCM_quantization_error:
  assumes "list_all is_word xM" "\<forall>x\<in>set xM. \<bar>x\<bar> \<le> m"
  shows "\<exists>xMc mant exp xmaxc xMp. APCM_quantization xM = Some (xMc, mant, exp, xmaxc) \<and>
    APCM_quantization_xmaxc_to_exp_mant xmaxc = Some (exp, mant) \<and>
    APCM_inverse_quantization xMc mant exp = Some xMp \<and> length xMp = length xM \<and>
    (\<forall>i<length xM. 8 * \<bar>xM ! i - xMp ! i\<bar> \<le> m + max 32 (m div 8) + 12)"
proof -
  let ?X = "fold max_abs_step xM 0"
  obtain k mant xmaxc where q: "k \<le> 10" "0 \<le> mant" "mant \<le> 7"
    "APCM_quantization_xmaxc_to_exp_mant xmaxc = Some (6 - int k, mant)"
    "APCM_quantization xM = Some (map (coded mant k) xM, mant, 6 - int k, xmaxc)"
    "\<And>x. x \<in> set xM \<Longrightarrow> pulse_ok mant (x * 2 ^ k)" "(9 + mant) * 2048 \<le> (?X + max 32 (?X div 8)) * 2 ^ k"
    using APCM_quantization_value[OF assms(1)] by metis
  have "\<forall>c\<in>set (map (coded mant k) xM). 0 \<le> c \<and> c \<le> 7"
    using apcm_code_value(2,3)[OF q(1-3) q(6)] by auto
  note inv = APCM_inverse_value[OF q(1-3) this]
  have "8 * \<bar>x - (decoded mant (coded mant k x) + rounding k) div 2 ^ k\<bar> \<le> m + max 32 (m div 8) + 12" if x: "x \<in> set xM" for x
  proof -
    define E where "E = \<bar>x - (decoded mant (coded mant k x) + rounding k) div 2 ^ k\<bar>"
    have "?X \<le> m" using block_max_le[OF assms(1) _ _ assms(2), of 0] assms(2) x by fastforce
    then have "?X + max 32 (?X div 8) \<le> m + max 32 (m div 8)" by (intro add_mono max.mono zdiv_mono1) simp_all
    then have X: "(9 + mant) * 2048 \<le> (m + max 32 (m div 8)) * 2 ^ k" using q(7) by (meson mult_right_mono order_trans zero_le_numeral zero_le_power)
    have "2 * (2 ^ k * E) \<le> 2 * (256 * (9 + mant) + 1) + 2 ^ k" unfolding E_def by (rule pulse_error[OF q(1-3) q(6)[OF x]])
    moreover have "(1::int) \<le> 2 ^ k" by simp
    moreover have "8 * P \<le> Y + 12 * K" if "2 * P \<le> 2 * (256 * M + 1) + K" "1 \<le> K" "M * 2048 \<le> Y" for P K M Y :: int
    proof -
      have "4 * (2 * P) \<le> 4 * (2 * (256 * M + 1) + K)" using that(1) by (intro mult_left_mono) simp_all
      then have "8 * P \<le> M * 2048 + (8 + 4 * K)" by (simp only: distrib_left)
      also have "\<dots> \<le> Y + 12 * K" using that(2,3) by (intro add_mono) simp_all
      finally show ?thesis .
    qed
    ultimately have "8 * (2 ^ k * E) \<le> (m + max 32 (m div 8)) * 2 ^ k + 12 * 2 ^ k" using X by blast
    then have "(8 * E) * 2 ^ k \<le> (m + max 32 (m div 8) + 12) * 2 ^ k" by (simp only: distrib_right mult.assoc mult.commute[of _ E])
    then show ?thesis by (simp add: E_def)
  qed
  then show ?thesis using q(4,5) inv
    by (intro exI[of _ "map (coded mant k) xM"] exI[of _ mant] exI[of _ "6 - int k"] exI[of _ xmaxc]
        exI[of _ "map (\<lambda>c. (decoded mant c + rounding k) div 2 ^ k) (map (coded mant k) xM)"]) simp
qed

theorem APCM_quantization_error_witness:
  "\<exists>xMc mant exp xmaxc xMp. APCM_quantization [10, -12, 3] = Some (xMc, mant, exp, xmaxc) \<and>
    APCM_inverse_quantization xMc mant exp = Some xMp \<and> length xMp = 3 \<and> 8 * \<bar>-12 - xMp ! 1\<bar> \<le> 56"
proof -
  have "list_all is_word [10, -12, 3]" "\<forall>x\<in>set [10, -12, 3]. \<bar>x :: int\<bar> \<le> 12" by (simp_all add: is_word_def)
  from APCM_quantization_error[OF this] obtain xMc mant exp xmaxc xMp where
    "APCM_quantization [10, -12, 3] = Some (xMc, mant, exp, xmaxc)" "APCM_inverse_quantization xMc mant exp = Some xMp" "length xMp = 3"
    "\<forall>i<3. 8 * \<bar>[10, -12, 3] ! i - xMp ! i\<bar> \<le> 56" by auto
  moreover from this(4) have "8 * \<bar>[10, -12, 3] ! 1 - xMp ! 1\<bar> \<le> 56" by (rule allE[of _ 1]) simp
  ultimately show ?thesis by auto
qed

text \<open>
  Grid selection and positioning: the chosen grid is the first of greatest energy among the four
  (the optimised code with its shared partial sum agrees with the plain loop of the comment), the thirteen
  samples are those of that grid, and positioning puts thirteen values back on the grid and zeros elsewhere.
\<close>

theorem RPE_grid:
  assumes "length xMp = 13"
  shows "\<exists>xM Mc ep. RPE_grid_selection x = (xM, Mc) \<and> Mc \<le> 3 \<and>
    (\<forall>m\<le>3. grid_energy x m \<le> grid_energy x Mc) \<and> (\<forall>m<Mc. grid_energy x m < grid_energy x Mc) \<and>
    (\<forall>i<13. xM ! i = x ! (Mc + 3 * i)) \<and>
    RPE_grid_positioning (int Mc) xMp = Some ep \<and> length ep = 40 \<and>
    (\<forall>i<13. ep ! (Mc + 3 * i) = xMp ! i) \<and>
    (\<forall>j<40. (\<forall>i<13. j \<noteq> Mc + 3 * i) \<longrightarrow> ep ! j = 0)"
proof -
  obtain xM Mc where s: "RPE_grid_selection x = (xM, Mc)" by fastforce
  note v = s[unfolded grid_selection_value Let_def]
  have M: "Mc \<le> 3" and xM: "\<forall>i<13. xM ! i = x ! (Mc + 3 * i)"
    using v by (auto simp: case_prod_beta simp del: upt.simps)
  have E: "\<forall>m\<le>3. grid_energy x m \<le> grid_energy x Mc" "\<forall>m<Mc. grid_energy x m < grid_energy x Mc"
    using v by (auto simp: le_Suc_eq numeral_3_eq_3 numeral_2_eq_2 less_Suc_eq split: if_splits)
  obtain ep where ep: "RPE_grid_positioning (int Mc) xMp = Some ep" "length ep = 40"
    "\<And>j. j < 40 \<Longrightarrow> ep ! j = (if Mc \<le> j \<and> (j - Mc) mod 3 = 0 \<and> j - Mc < 39 then xMp ! ((j - Mc) div 3) else 0)"
    using grid_positioning_value[OF M assms] by metis
  have "ep ! (Mc + 3 * i) = xMp ! i" if "i < 13" for i using ep(3)[of "Mc + 3 * i"] M that by simp
  moreover have "ep ! j = 0" if "j < 40" "\<forall>i<13. j \<noteq> Mc + 3 * i" for j
  proof (rule ccontr)
    assume "ep ! j \<noteq> 0"
    with ep(3)[OF that(1)] have "Mc \<le> j" "(j - Mc) mod 3 = 0" "j - Mc < 39" by (auto split: if_splits)
    then have "j = Mc + 3 * ((j - Mc) div 3)" "(j - Mc) div 3 < 13" by auto
    with that(2) show False by blast
  qed
  ultimately show ?thesis using s M xM E ep by blast
qed

theorem RPE_grid_witness:
  "\<exists>xM Mc ep. RPE_grid_selection (replicate 40 8) = (xM, Mc) \<and> Mc \<le> 3 \<and>
    RPE_grid_positioning (int Mc) (replicate 13 5) = Some ep \<and> length ep = 40"
  using RPE_grid[of "replicate 13 5" "replicate 40 8"] by fastforce

end
