(* ===== verification/Gsm_Long_Term.thy ===== *)
theory Gsm_Long_Term
  imports Gsm_Lpc
begin

text \<open>
  \<^verbatim>\<open>src/long_term.c\<close>: the long term predictor.  The coder searches the lag and gain that best predict
  a sub-segment of forty samples from the last 120 reconstructed ones; the decoder applies them.  The
  pointers \<open>dp\<close>, \<open>dpp\<close> and \<open>drp\<close> of the source all point into the array \<open>dp0\<close> of the state; here they are
  that array and an offset \<open>p\<close>, so that \<open>dp[k - Nc]\<close> is the element \<open>p + k - Nc\<close>.
  The \<open>USE_FLOAT_MUL\<close> variants are not part of the build.
\<close>

unbundle bit_operations_syntax

section \<open>Definitions\<close>

subsection \<open>Coder\<close>

text \<open>\<open>STEP(0)\<close> to \<open>STEP(39)\<close>, summed in \<open>L_result\<close>.\<close>

definition cross_correlation :: "int list \<Rightarrow> int list \<Rightarrow> nat \<Rightarrow> nat \<Rightarrow> int" where
  "cross_correlation wt dp0 p lambda = fold (\<lambda>k L_result. L_result + wt ! k * dp0 ! (p + k - lambda)) [0..<40] 0"

definition lag_step :: "int list \<Rightarrow> int list \<Rightarrow> nat \<Rightarrow> nat \<Rightarrow> nat \<times> int \<Rightarrow> nat \<times> int" where
  "lag_step wt dp0 p lambda = (\<lambda>(Nc, L_max).
    let L_result = cross_correlation wt dp0 p lambda
    in if L_result > L_max then (lambda, L_result) else (Nc, L_max))"

definition lag_power :: "int list \<Rightarrow> nat \<Rightarrow> nat \<Rightarrow> int" where
  "lag_power dp0 p Nc =
    fold (\<lambda>k L_power. let L_temp = SASR (dp0 ! (p + k - Nc)) 3 in L_power + L_temp * L_temp) [0..<40] 0"

text \<open>The loop over \<open>bc\<close> that codes the gain: it stops at the first decision level not exceeded.\<close>

definition code_gain :: "int \<Rightarrow> int \<Rightarrow> int" where
  "code_gain R S =
    (if R \<le> gsm_mult S (gsm_DLB ! 0) then 0
     else if R \<le> gsm_mult S (gsm_DLB ! 1) then 1
     else if R \<le> gsm_mult S (gsm_DLB ! 2) then 2
     else 3)"

definition Calculation_of_the_LTP_parameters :: "int list \<Rightarrow> int list \<Rightarrow> nat \<Rightarrow> (int \<times> nat) option" where
  "Calculation_of_the_LTP_parameters d dp0 p = do {
    let dmax = fold max_abs_step d 0;
    temp \<leftarrow> (if dmax = 0 then Some 0
             else do { c_assert (dmax > 0); gsm_norm (push_bit 16 dmax) });
    let scal = (if temp > 6 then 0 else s16 (6 - temp));
    c_assert (scal \<ge> 0);
    let wt = map (\<lambda>x. s16 (SASR x (nat scal))) d;
    let (Nc, L_max) = fold (lag_step wt dp0 p) [40..<121] (40, 0);
    let L_max = push_bit 1 L_max;
    c_assert (scal \<le> 100 \<and> scal \<ge> -100);
    let L_max = SASR L_max (nat (6 - scal));
    c_assert (Nc \<le> 120 \<and> Nc \<ge> 40);
    let L_power = push_bit 1 (lag_power dp0 p Nc);
    if L_max \<le> 0 then Some (0, Nc)
    else if L_max \<ge> L_power then Some (3, Nc)
    else do {
      temp \<leftarrow> gsm_norm L_power;
      let R = s16 (SASR (push_bit (nat temp) L_max) 16);
      let S = s16 (SASR (push_bit (nat temp) L_power) 16);
      Some (code_gain R S, Nc) } }"

text \<open>
  One pass of \<open>STEP(BP)\<close>: the estimate goes to \<open>dpp[k]\<close>, which is the element \<open>p + k\<close> of \<open>dp0\<close>, and the
  residual to \<open>e[k]\<close>, the element \<open>5 + k\<close> of the caller's array.
\<close>

definition ltp_step :: "int \<Rightarrow> nat \<Rightarrow> nat \<Rightarrow> int list \<Rightarrow> nat \<Rightarrow> int list \<times> int list \<Rightarrow> int list \<times> int list" where
  "ltp_step BP Nc p d k = (\<lambda>(dp0, e).
    let dp0 = dp0[p + k := s16 (GSM_MULT_R BP (dp0 ! (p + k - Nc)))];
        e = e[5 + k := s16 (GSM_SUB (d ! k) (dp0 ! (p + k)))]
    in (dp0, e))"

definition Long_term_analysis_filtering ::
  "int \<Rightarrow> nat \<Rightarrow> nat \<Rightarrow> int list \<Rightarrow> int list \<times> int list \<Rightarrow> int list \<times> int list" where
  "Long_term_analysis_filtering bc Nc p d s =
    (if bc = 0 then fold (ltp_step 3277 Nc p d) [0..<40] s
     else if bc = 1 then fold (ltp_step 11469 Nc p d) [0..<40] s
     else if bc = 2 then fold (ltp_step 21299 Nc p d) [0..<40] s
     else if bc = 3 then fold (ltp_step 32767 Nc p d) [0..<40] s
     else s)"

text \<open>
  Returns the arrays \<open>dp0\<close> and \<open>e\<close>, the lag and the gain code.  The assertions at the start of the function are that its pointers are not
  null; here they are never null, since its only caller passes addresses inside arrays.
\<close>

definition Gsm_Long_Term_Predictor ::
  "int list \<Rightarrow> nat \<Rightarrow> int list \<Rightarrow> int list \<Rightarrow> (int list \<times> int list \<times> nat \<times> int) option" where
  "Gsm_Long_Term_Predictor d p dp0 e = do {
    (bc, Nc) \<leftarrow> Calculation_of_the_LTP_parameters d dp0 p;
    let (dp0, e) = Long_term_analysis_filtering bc Nc p d (dp0, e);
    Some (dp0, e, Nc, bc) }"

subsection \<open>Decoder\<close>

definition synthesis_step :: "int \<Rightarrow> nat \<Rightarrow> int list \<Rightarrow> nat \<Rightarrow> int list \<Rightarrow> int list" where
  "synthesis_step brp Nr erp k dp0 =
    (let drpp = s16 (GSM_MULT_R brp (dp0 ! (120 + k - Nr)))
     in dp0[120 + k := s16 (GSM_ADD (erp ! k) drpp)])"

text \<open>\<open>drp\<close> is \<open>dp0 + 120\<close>.\<close>

definition Gsm_Long_Term_Synthesis_Filtering :: "gsm_state \<Rightarrow> int \<Rightarrow> int \<Rightarrow> int list \<Rightarrow> gsm_state option" where
  "Gsm_Long_Term_Synthesis_Filtering S Ncr bcr erp = do {
    let Nr = (if Ncr < 40 \<or> Ncr > 120 then S_nrp S else Ncr);
    c_assert (Nr \<ge> 40 \<and> Nr \<le> 120);
    let brp = gsm_QLB ! nat bcr;
    c_assert (brp \<noteq> MIN_WORD);
    let dp0 = fold (synthesis_step brp (nat Nr) erp) [0..<40] (S_dp0 S);
    let dp0 = fold (\<lambda>k dp0. dp0[k := dp0 ! (k + 40)]) [0..<120] dp0;
    Some (S\<lparr>S_nrp := Nr, S_dp0 := dp0\<rparr>) }"

section \<open>The search for the lag\<close>

lemma cross_correlation_sum: "cross_correlation wt dp0 p lambda = (\<Sum>k\<in>{0..<40}. wt ! k * dp0 ! (p + k - lambda))"
proof -
  have "fold (\<lambda>k L. L + f k) [0..<n] 0 = (\<Sum>k\<in>{0..<n}. f k)" for f :: "nat \<Rightarrow> int" and n
    by (induction n) simp_all
  then show ?thesis by (simp add: cross_correlation_def)
qed

lemma lag_power_sum: "lag_power dp0 p Nc = (\<Sum>k\<in>{0..<40}. (SASR (dp0 ! (p + k - Nc)) 3)\<^sup>2)"
proof -
  have "fold (\<lambda>k L. let t = f k in L + t * t) [0..<n] 0 = (\<Sum>k\<in>{0..<n}. (f k)\<^sup>2)" for f :: "nat \<Rightarrow> int" and n
    by (induction n) (simp_all add: power2_eq_square Let_def)
  then show ?thesis by (simp add: lag_power_def)
qed

text \<open>The loop finds the first lag of greatest correlation, or 40 if none is positive.\<close>

lemma lag_search:
  assumes "40 \<le> n"
  shows "\<exists>Nc L. fold (lag_step wt dp0 p) [40..<n] (40, 0) = (Nc, L) \<and> 40 \<le> Nc \<and> (Nc < n \<or> Nc = 40) \<and> 0 \<le> L \<and>
    (\<forall>l\<in>{40..<n}. cross_correlation wt dp0 p l \<le> L) \<and>
    (L = 0 \<and> Nc = 40 \<or> 0 < L \<and> L = cross_correlation wt dp0 p Nc \<and> (\<forall>l\<in>{40..<Nc}. cross_correlation wt dp0 p l < L))"
  using assms
proof (induction n rule: nat_induct_at_least)
  case base
  show ?case by simp
next
  case (Suc n)
  then obtain Nc L where f: "fold (lag_step wt dp0 p) [40..<n] (40, 0) = (Nc, L)" "40 \<le> Nc" "Nc < n \<or> Nc = 40" "0 \<le> L"
    "\<forall>l\<in>{40..<n}. cross_correlation wt dp0 p l \<le> L"
    "L = 0 \<and> Nc = 40 \<or> 0 < L \<and> L = cross_correlation wt dp0 p Nc \<and> (\<forall>l\<in>{40..<Nc}. cross_correlation wt dp0 p l < L)"
    by blast
  let ?c = "cross_correlation wt dp0 p n"
  have s: "fold (lag_step wt dp0 p) [40..<Suc n] (40, 0) = (if ?c > L then (n, ?c) else (Nc, L))"
    using f(1) Suc.hyps by (simp add: lag_step_def)
  have d: "{40..<Suc n} = insert n {40..<n}" using Suc.hyps by auto
  show ?case
  proof (cases "?c > L")
    case True
    then have "\<forall>l\<in>{40..<n}. cross_correlation wt dp0 p l < ?c" using f(5) by fastforce
    with True s f(4) Suc.hyps d show ?thesis by (auto simp: less_imp_le)
  next
    case False
    with s f d show ?thesis by auto
  qed
qed

lemma lag_power_bound:
  assumes "list_all is_word dp0" "p \<le> length dp0" "120 \<le> p" "40 \<le> Nc" "Nc \<le> 120"
  shows "0 \<le> lag_power dp0 p Nc" "lag_power dp0 p Nc \<le> 671088640"
proof -
  show "0 \<le> lag_power dp0 p Nc" unfolding lag_power_sum by (intro sum_nonneg) simp
  have "lag_power dp0 p Nc \<le> (\<Sum>k\<in>{0..<40::nat}. 16777216)"
    unfolding lag_power_sum
  proof (rule sum_mono)
    fix k :: nat assume "k \<in> {0..<40}"
    then have "is_word (dp0 ! (p + k - Nc))" using assms by (auto simp: list_all_length)
    then have "\<bar>SASR (dp0 ! (p + k - Nc)) 3\<bar> \<le> 4096"
      unfolding is_word_def drop_bit_eq_div abs_le_iff by auto
    from abs_mult_le[OF this this] show "(SASR (dp0 ! (p + k - Nc)) 3)\<^sup>2 \<le> 16777216"
      by (simp add: power2_eq_square)
  qed
  then show "lag_power dp0 p Nc \<le> 671088640" by simp
qed

lemma is_word_SASR:
  assumes "is_word x" shows "is_word (SASR x n)"
proof -
  define K :: int where "K = 2 ^ n"
  have K: "1 \<le> K" by (simp add: K_def)
  have "-32768 * K \<le> x" "x < 32768 * K" using assms K unfolding is_word_def by linarith+
  with K have "-32768 \<le> x div K" "x div K < 32768"
    by (simp_all only: int_le_div_iff int_div_less_iff)
  then show ?thesis by (simp add: is_word_def drop_bit_eq_div K_def)
qed

text \<open>
  How far a sub-segment is shifted down before it is correlated: as little as brings its loudest sample (with \<open>-32768\<close> counted as
  \<open>32767\<close>) below 512.
\<close>

definition segment_scale :: "int list \<Rightarrow> nat \<Rightarrow> bool" where
  "segment_scale d s \<longleftrightarrow> (\<forall>x\<in>set d. min \<bar>x\<bar> MAX_WORD < 2 ^ (9 + s)) \<and> (s = 0 \<or> (\<exists>x\<in>set d. 2 ^ (8 + s) \<le> \<bar>x\<bar>))"

lemma max_abs_attained: "list_all is_word xs \<Longrightarrow> fold max_abs_step xs a = a \<or> (\<exists>x\<in>set xs. fold max_abs_step xs a = GSM_ABS x)"
proof (induction xs arbitrary: a)
  case (Cons x xs)
  then have "max_abs_step x a = a \<or> max_abs_step x a = GSM_ABS x" by (simp add: max_abs_step_def Let_def GSM_ABS_range)
  with Cons.IH[of "max_abs_step x a"] Cons.prems show ?case by auto
qed simp

lemma scale_of_max:
  assumes "list_all is_word d" "0 < fold max_abs_step d 0" "2 ^ 14 \<le> fold max_abs_step d 0 * 2 ^ k" "fold max_abs_step d 0 * 2 ^ k < 2 ^ 15"
  shows "segment_scale d (6 - k)"
proof -
  define m where "m = fold max_abs_step d 0"
  note m = assms(2-4)[folded m_def]
  have le: "min \<bar>x\<bar> MAX_WORD \<le> m" if "x \<in> set d" for x
    using max_abs_ge[OF assms(1), of 0] that assms(1) by (auto simp: m_def list_all_iff GSM_ABS_eq)
  have "m * 2 ^ min k 6 \<le> m * 2 ^ k" using m(1) by (intro mult_left_mono power_increasing) simp_all
  also have "\<dots> < 2 ^ 15" by (rule m(3))
  also have "15 = (9 + (6 - k)) + min k 6" by simp
  finally have lt: "m < 2 ^ (9 + (6 - k))" unfolding power_add[of _ _ "min k 6"] by (simp add: mult_less_cancel_right)
  have ge: "2 ^ (8 + (6 - k)) \<le> m" if "k < 6"
  proof -
    have "2 ^ (8 + (6 - k)) * 2 ^ k = (2 :: int) ^ 14" using that by (simp flip: power_add)
    then show ?thesis using m(2) by (metis mult_le_cancel_right_pos zero_less_numeral zero_less_power)
  qed
  obtain x where x: "x \<in> set d" "m = GSM_ABS x" using max_abs_attained[OF assms(1), of 0] m(1) by (auto simp: m_def)
  then have "m \<le> \<bar>x\<bar>" using assms(1) by (auto simp: list_all_iff GSM_ABS_eq)
  then show ?thesis unfolding segment_scale_def using le lt ge x(1) by (meson le_less_trans not_less order_trans diff_is_0_eq)
qed

lemma ltp_scaling:
  assumes "list_all is_word d"
  obtains temp s where "(if fold max_abs_step d 0 = 0 then Some 0
      else do { c_assert (fold max_abs_step d 0 > 0); gsm_norm (push_bit 16 (fold max_abs_step d 0)) }) = Some temp"
    "0 \<le> temp" "segment_scale d s" "map (\<lambda>x. SASR x (nat (if temp > 6 then 0 else s16 (6 - temp)))) d = map (\<lambda>x. SASR x s) d"
proof (cases "fold max_abs_step d 0 = 0")
  case True
  then have z: "\<forall>x\<in>set d. x = 0" using max_abs_ge[OF assms, of 0] assms by (fastforce simp: list_all_iff GSM_ABS_eq)
  have "min \<bar>x\<bar> MAX_WORD < 2 ^ (9 + 0)" if "x \<in> set d" for x using bspec[OF z that] by simp
  then have c: "segment_scale d 0" by (simp add: segment_scale_def)
  have e: "map (\<lambda>x. SASR x i) d = map (\<lambda>x. SASR x j) d" for i j
    by (rule map_cong[OF refl]) (drule bspec[OF z], simp)
  show thesis by (rule that[OF _ order_refl c e]) (simp add: True)
next
  case False
  define m where "m = fold max_abs_step d 0"
  have m: "0 < m" "m \<le> MAX_WORD" using max_abs_le[OF assms, of 0] False by (simp_all add: m_def)
  then have "0 < push_bit 16 m" "push_bit 16 m < 2 ^ 31" by (simp_all add: push_bit_eq_mult)
  then obtain k where k: "gsm_norm (push_bit 16 m) = Some (int k)" "2 ^ 14 \<le> m * 2 ^ k" "m * 2 ^ k < 2 ^ 15"
    by (rule gsm_norm_pos) (simp add: push_bit_eq_mult)
  have "nat (if int k > 6 then 0 else s16 (6 - int k)) = 6 - k" by (auto simp: s16_id nat_diff_distrib')
  then show thesis using scale_of_max[OF assms, folded m_def, OF m(1) k(2,3)] False m(1) k(1)
    by (intro that[of "int k" "6 - k"]) (simp_all flip: m_def)
qed

text \<open>No assertion of the parameter search fails, and the lag is the first best one.\<close>

lemma LTP_parameters_total:
  assumes "list_all is_word d" "list_all is_word dp0" "p \<le> length dp0" "120 \<le> p"
  obtains bc Nc s where "Calculation_of_the_LTP_parameters d dp0 p = Some (bc, Nc)"
    "0 \<le> bc" "bc \<le> 3" "40 \<le> Nc" "Nc \<le> 120" "segment_scale d s"
    "\<forall>l\<in>{40..<121}. cross_correlation (map (\<lambda>x. SASR x s) d) dp0 p l \<le> max 0 (cross_correlation (map (\<lambda>x. SASR x s) d) dp0 p Nc)"
    "\<forall>l\<in>{40..<Nc}. cross_correlation (map (\<lambda>x. SASR x s) d) dp0 p l < cross_correlation (map (\<lambda>x. SASR x s) d) dp0 p Nc"
    "(\<forall>l\<in>{40..<121}. cross_correlation (map (\<lambda>x. SASR x s) d) dp0 p l \<le> 0) \<longrightarrow> Nc = 40 \<and> bc = 0"
proof -
  define dmax where "dmax = fold max_abs_step d 0"
  obtain temp s where temp: "(if dmax = 0 then Some 0 else do { c_assert (dmax > 0); gsm_norm (push_bit 16 dmax) }) = Some temp"
    "0 \<le> temp" and s: "segment_scale d s" "map (\<lambda>x. SASR x (nat (if temp > 6 then 0 else s16 (6 - temp)))) d = map (\<lambda>x. SASR x s) d"
    using ltp_scaling[OF assms(1)] unfolding dmax_def by metis
  define scal where "scal = (if temp > 6 then 0 else s16 (6 - temp))"
  have scal: "0 \<le> scal" "scal \<le> 6" using temp(2) by (auto simp: scal_def s16_id)
  define wt where "wt = map (\<lambda>x. s16 (SASR x (nat scal))) d"
  have wt: "wt = map (\<lambda>x. SASR x s) d"
    unfolding s(2)[symmetric] scal_def[symmetric] using assms(1) is_word_SASR by (auto simp: wt_def list_all_iff)
  obtain Nc L where N: "fold (lag_step wt dp0 p) [40..<121] (40, 0) = (Nc, L)" "40 \<le> Nc" "Nc \<le> 120"
    and opt: "\<forall>l\<in>{40..<121}. cross_correlation wt dp0 p l \<le> max 0 (cross_correlation wt dp0 p Nc)"
      "\<forall>l\<in>{40..<Nc}. cross_correlation wt dp0 p l < cross_correlation wt dp0 p Nc"
      "(\<forall>l\<in>{40..<121}. cross_correlation wt dp0 p l \<le> 0) \<longrightarrow> Nc = 40 \<and> L = 0"
  proof -
    obtain Nc L where l: "fold (lag_step wt dp0 p) [40..<121] (40, 0) = (Nc, L)" "40 \<le> Nc" "Nc \<le> 120"
      "\<forall>l\<in>{40..<121}. cross_correlation wt dp0 p l \<le> L"
      "L = 0 \<and> Nc = 40 \<or> 0 < L \<and> L = cross_correlation wt dp0 p Nc \<and> (\<forall>l\<in>{40..<Nc}. cross_correlation wt dp0 p l < L)"
      using lag_search[of 121 wt dp0 p] by auto
    have N: "Nc \<in> {40..<121}" using l(2,3) by simp
    from l(5) show thesis
    proof
      assume "L = 0 \<and> Nc = 40"
      then show thesis using l by (intro that[OF l(1-3)]) auto
    next
      assume L: "0 < L \<and> L = cross_correlation wt dp0 p Nc \<and> (\<forall>l\<in>{40..<Nc}. cross_correlation wt dp0 p l < L)"
      then have "\<not> (\<forall>l\<in>{40..<121}. cross_correlation wt dp0 p l \<le> 0)" using N not_less by metis
      with L l(4) show thesis by (intro that[OF l(1-3)]) auto
    qed
  qed
  note opt = opt[unfolded wt]
  define M where "M = SASR (push_bit 1 L) (nat (6 - scal))"
  define P where "P = push_bit 1 (lag_power dp0 p Nc)"
  have P: "P < 2 ^ 31" using lag_power_bound[OF assms(2-4) N(2,3)] by (simp add: P_def push_bit_eq_mult)
  have e: "Calculation_of_the_LTP_parameters d dp0 p =
      (if M \<le> 0 then Some (0, Nc) else if M \<ge> P then Some (3, Nc)
       else do { temp \<leftarrow> gsm_norm P;
                 Some (code_gain (s16 (SASR (push_bit (nat temp) M) 16)) (s16 (SASR (push_bit (nat temp) P) 16)), Nc) })"
    unfolding Calculation_of_the_LTP_parameters_def Let_def dmax_def[symmetric] temp(1) bind.bind_lunit scal_def[symmetric]
      wt_def[symmetric] N(1) case_prod_conv M_def[symmetric] P_def[symmetric]
    using scal N by simp
  have pos: "L \<noteq> 0" if "0 < M" using that by (auto simp: M_def)
  have "\<exists>bc. Calculation_of_the_LTP_parameters d dp0 p = Some (bc, Nc) \<and> 0 \<le> bc \<and> bc \<le> 3 \<and> (L = 0 \<longrightarrow> bc = 0)"
  proof (cases "M \<le> 0 \<or> M \<ge> P")
    case True
    then show ?thesis using e pos by (auto split: if_splits)
  next
    case False
    then have "0 < P" by simp
    from gsm_norm_pos[OF this P] obtain k where "gsm_norm P = Some (int k)" by metis
    with False e pos show ?thesis by (auto simp: code_gain_def)
  qed
  then show thesis using that[OF _ _ _ N(2,3) s(1) opt(1,2)] opt(3) by blast
qed

section \<open>The filters in closed form\<close>

definition estimate :: "int \<Rightarrow> nat \<Rightarrow> nat \<Rightarrow> int list \<Rightarrow> nat \<Rightarrow> int" where
  "estimate BP Nc p dp0 k = GSM_MULT_R BP (dp0 ! (p + k - Nc))"

lemma estimate_word:
  assumes "list_all is_word dp0" "p \<le> length dp0" "120 \<le> p" "40 \<le> Nc" "Nc \<le> 120" "k < 40" "0 < BP" "BP \<le> 32767"
  shows "is_word (estimate BP Nc p dp0 k)"
  unfolding estimate_def using assms
  by (intro GSM_MULT_R_word) (auto simp: list_all_length is_word_def[of BP])

text \<open>The estimate is written where the next sub-segment will be, behind everything it reads.\<close>

lemma ltp_steps:
  assumes "list_all is_word dp0" "p + 40 \<le> length dp0" "120 \<le> p" "40 \<le> Nc" "Nc \<le> 120" "0 < BP" "BP \<le> 32767"
    "length e = 50" "n \<le> 40"
  shows "fold (ltp_step BP Nc p d) [0..<n] (dp0, e) =
    (write_at p (map (estimate BP Nc p dp0) [0..<n]) dp0,
     write_at 5 (map (\<lambda>k. GSM_SUB (d ! k) (estimate BP Nc p dp0 k)) [0..<n]) e)"
  using assms(9)
proof (induction n)
  case (Suc n)
  let ?D = "write_at p (map (estimate BP Nc p dp0) [0..<n]) dp0"
  let ?E = "write_at 5 (map (\<lambda>k. GSM_SUB (d ! k) (estimate BP Nc p dp0 k)) [0..<n]) e"
  have w: "is_word (estimate BP Nc p dp0 n)"
    using assms Suc.prems by (intro estimate_word) auto
  have r: "?D ! (p + n - Nc) = dp0 ! (p + n - Nc)"
    using assms Suc.prems by (subst nth_write_at) auto
  then have g: "GSM_MULT_R BP (?D ! (p + n - Nc)) = estimate BP Nc p dp0 n" by (simp add: estimate_def)
  have D: "?D[p + n := estimate BP Nc p dp0 n] = write_at p (map (estimate BP Nc p dp0) [0..<Suc n]) dp0"
    using write_at_snoc[of p "map (estimate BP Nc p dp0) [0..<n]" dp0] assms(2) Suc.prems by simp
  have E: "?E[5 + n := v] = write_at 5 (map (\<lambda>k. GSM_SUB (d ! k) (estimate BP Nc p dp0 k)) [0..<n] @ [v]) e" for v
    using write_at_snoc[of 5 "map (\<lambda>k. GSM_SUB (d ! k) (estimate BP Nc p dp0 k)) [0..<n]" e v] assms(8) Suc.prems by simp
  have "fold (ltp_step BP Nc p d) [0..<Suc n] (dp0, e) = ltp_step BP Nc p d n (?D, ?E)"
    using Suc by simp
  also have "\<dots> = (?D[p + n := estimate BP Nc p dp0 n], ?E[5 + n := GSM_SUB (d ! n) (estimate BP Nc p dp0 n)])"
    using w assms(2) Suc.prems
    by (simp add: ltp_step_def g GSM_SUB_word)
  also have "\<dots> = (write_at p (map (estimate BP Nc p dp0) [0..<Suc n]) dp0,
      write_at 5 (map (\<lambda>k. GSM_SUB (d ! k) (estimate BP Nc p dp0 k)) [0..<Suc n]) e)"
    by (simp only: D E upt_Suc_append[OF le0] map_append list.map)
  finally show ?case .
qed simp

lemma analysis_by_table:
  assumes "0 \<le> bc" "bc \<le> 3"
  shows "Long_term_analysis_filtering bc Nc p d s = fold (ltp_step (gsm_QLB ! nat bc) Nc p d) [0..<40] s"
    "0 < gsm_QLB ! nat bc" "gsm_QLB ! nat bc \<le> 32767"
proof -
  have "bc \<in> {0, 1, 2, 3}" using assms by auto
  then show "Long_term_analysis_filtering bc Nc p d s = fold (ltp_step (gsm_QLB ! nat bc) Nc p d) [0..<40] s"
    "0 < gsm_QLB ! nat bc" "gsm_QLB ! nat bc \<le> 32767"
    by (auto simp: Long_term_analysis_filtering_def gsm_QLB_def simp del: upt.simps)
qed

lemma Predictor_value:
  assumes "list_all is_word d" "list_all is_word dp0" "p + 40 \<le> length dp0" "120 \<le> p" "length e = 50"
  obtains Nc bc where "40 \<le> Nc" "Nc \<le> 120" "0 \<le> bc" "bc \<le> 3"
    "Gsm_Long_Term_Predictor d p dp0 e = Some
      (write_at p (map (estimate (gsm_QLB ! nat bc) Nc p dp0) [0..<40]) dp0,
       write_at 5 (map (\<lambda>k. GSM_SUB (d ! k) (estimate (gsm_QLB ! nat bc) Nc p dp0 k)) [0..<40]) e, Nc, bc)"
proof -
  obtain bc Nc where c: "Calculation_of_the_LTP_parameters d dp0 p = Some (bc, Nc)"
    "0 \<le> bc" "bc \<le> 3" "40 \<le> Nc" "Nc \<le> 120"
    by (rule LTP_parameters_total[OF assms(1,2) _ assms(4)]) (use assms(3) in simp_all)
  note t = analysis_by_table[OF c(2,3)]
  show thesis
    by (rule that[OF c(4,5,2,3)])
      (simp only: Gsm_Long_Term_Predictor_def c(1) bind.bind_lunit case_prod_conv Let_def t(1)
        ltp_steps[OF assms(2-4) c(4,5) t(2,3) assms(5) le_refl])
qed

text \<open>The decoder: the new samples, then the shift of the history by forty.\<close>

lemma synthesis_steps:
  assumes "list_all is_word dp0" "length dp0 = 280" "40 \<le> Nr" "Nr \<le> 120" "0 < brp" "brp \<le> 32767"
    "list_all is_word erp" "length erp = 40" "n \<le> 40"
  shows "fold (synthesis_step brp Nr erp) [0..<n] dp0 =
    write_at 120 (map (\<lambda>k. GSM_ADD (erp ! k) (estimate brp Nr 120 dp0 k)) [0..<n]) dp0"
  using assms(9)
proof (induction n)
  case (Suc n)
  let ?D = "write_at 120 (map (\<lambda>k. GSM_ADD (erp ! k) (estimate brp Nr 120 dp0 k)) [0..<n]) dp0"
  have w: "is_word (estimate brp Nr 120 dp0 n)" using assms Suc.prems by (intro estimate_word) auto
  have "?D ! (120 + n - Nr) = dp0 ! (120 + n - Nr)" using assms Suc.prems by (subst nth_write_at) auto
  then have g: "GSM_MULT_R brp (?D ! (120 + n - Nr)) = estimate brp Nr 120 dp0 n" by (simp add: estimate_def)
  have "is_word (erp ! n)" using assms(7,8) Suc.prems by (simp add: list_all_length)
  then have "synthesis_step brp Nr erp n ?D = ?D[120 + n := GSM_ADD (erp ! n) (estimate brp Nr 120 dp0 n)]"
    using w by (simp add: synthesis_step_def g GSM_ADD_word)
  moreover have "fold (synthesis_step brp Nr erp) [0..<Suc n] dp0 = synthesis_step brp Nr erp n ?D"
    using Suc by simp
  ultimately have "fold (synthesis_step brp Nr erp) [0..<Suc n] dp0 = ?D[120 + n := GSM_ADD (erp ! n) (estimate brp Nr 120 dp0 n)]"
    by simp
  also have "\<dots> = write_at 120 (map (\<lambda>k. GSM_ADD (erp ! k) (estimate brp Nr 120 dp0 k)) [0..<Suc n]) dp0"
    using write_at_snoc[of 120 "map (\<lambda>k. GSM_ADD (erp ! k) (estimate brp Nr 120 dp0 k)) [0..<n]" dp0] assms(2) Suc.prems by simp
  finally show ?case .
qed simp

lemma shift_down:
  assumes "n + 40 \<le> length xs"
  shows "fold (\<lambda>k ys. ys[k := ys ! (k + 40)]) [0..<n] xs = write_at 0 (map (\<lambda>k. xs ! (k + 40)) [0..<n]) xs"
  using assms
proof (induction n)
  case (Suc n)
  let ?D = "write_at 0 (map (\<lambda>k. xs ! (k + 40)) [0..<n]) xs"
  have "?D ! (n + 40) = xs ! (n + 40)" using Suc.prems by (subst nth_write_at) auto
  with Suc write_at_snoc[of 0 "map (\<lambda>k. xs ! (k + 40)) [0..<n]" xs "xs ! (n + 40)"] show ?case by simp
qed simp

text \<open>The forty samples both sides reconstruct from a history of 120, the lag, the gain and the pulses.\<close>

definition reconstruct :: "int list \<Rightarrow> nat \<Rightarrow> int \<Rightarrow> int list \<Rightarrow> int list" where
  "reconstruct h N bc ep = map (\<lambda>k. GSM_ADD (ep ! k) (GSM_MULT_R (gsm_QLB ! nat bc) (h ! (120 + k - N)))) [0..<40]"

lemma length_reconstruct [simp]: "length (reconstruct h N bc ep) = 40"
  by (simp add: reconstruct_def)

lemma reconstruct_words:
  assumes "list_all is_word h" "length h = 120" "40 \<le> N" "N \<le> 120" "0 \<le> bc" "bc \<le> 3" "list_all is_word ep" "length ep = 40"
  shows "list_all is_word (reconstruct h N bc ep)"
  using assms estimate_word[of h 120 N _ "gsm_QLB ! nat bc"] analysis_by_table(2,3)[OF assms(5,6)]
  by (auto simp: reconstruct_def list_all_length GSM_ADD_word estimate_def simp del: upt.simps)

lemma Synthesis_Filtering_value:
  assumes "list_all is_word (S_dp0 S)" "length (S_dp0 S) = 280" "40 \<le> S_nrp S" "S_nrp S \<le> 120"
    "0 \<le> bcr" "bcr \<le> 3" "list_all is_word erp" "length erp = 40"
    "Nr = (if Ncr < 40 \<or> Ncr > 120 then S_nrp S else Ncr)"
  obtains S' where "Gsm_Long_Term_Synthesis_Filtering S Ncr bcr erp = Some S'"
    "S' = S\<lparr>S_nrp := Nr, S_dp0 := S_dp0 S'\<rparr>" "40 \<le> Nr" "Nr \<le> 120"
    "length (S_dp0 S') = 280" "list_all is_word (S_dp0 S')"
    "take 120 (S_dp0 S') = drop 40 (take 120 (S_dp0 S)) @ reconstruct (take 120 (S_dp0 S)) (nat Nr) bcr erp"
    "take 40 (drop 120 (S_dp0 S')) = reconstruct (take 120 (S_dp0 S)) (nat Nr) bcr erp"
proof -
  let ?r = "reconstruct (take 120 (S_dp0 S)) (nat Nr) bcr erp"
  have N: "40 \<le> Nr" "Nr \<le> 120" using assms(3,4,9) by (auto split: if_splits)
  note q = analysis_by_table(2,3)[OF assms(5,6)]
  have r: "map (\<lambda>k. GSM_ADD (erp ! k) (estimate (gsm_QLB ! nat bcr) (nat Nr) 120 (S_dp0 S) k)) [0..<40] = ?r"
    using N by (auto simp: reconstruct_def estimate_def simp del: upt.simps)
  define D where "D = write_at 120 ?r (S_dp0 S)"
  have D: "fold (synthesis_step (gsm_QLB ! nat bcr) (nat Nr) erp) [0..<40] (S_dp0 S) = D"
    using synthesis_steps[OF assms(1,2) _ _ q assms(7,8) le_refl, of "nat Nr"] N by (simp add: D_def r)
  have lD: "length D = 280" using assms(2) by (simp add: D_def)
  define E where "E = write_at 0 (map (\<lambda>k. D ! (k + 40)) [0..<120]) D"
  have E: "fold (\<lambda>k ys. ys[k := ys ! (k + 40)]) [0..<120] D = E"
    using shift_down[of 120 D] lD by (simp add: E_def)
  have "list_all is_word ?r" using assms N
    by (intro reconstruct_words) (auto simp: list_all_iff dest: in_set_takeD)
  with assms(1) have wD: "list_all is_word D" by (simp add: D_def list_all_write_at)
  then have wE: "list_all is_word E"
    unfolding E_def using lD by (intro list_all_write_at) (auto simp: list_all_length)
  have lE: "length E = 280" using lD by (simp add: E_def)
  have nD: "D ! i = (if 120 \<le> i \<and> i < 160 then ?r ! (i - 120) else S_dp0 S ! i)" if "i < 280" for i
    using that assms(2) by (simp add: D_def nth_write_at)
  have nE: "E ! i = (if i < 120 then D ! (i + 40) else D ! i)" if "i < 280" for i
    using that lD by (simp add: E_def nth_write_at)
  have t1: "take 120 E = drop 40 (take 120 (S_dp0 S)) @ ?r"
    by (rule nth_equalityI) (use lE assms(2) in \<open>auto simp: nE nD nth_append add.commute\<close>)
  have t2: "take 40 (drop 120 E) = ?r"
    by (rule nth_equalityI) (use lE in \<open>auto simp: nE nD\<close>)
  have "Gsm_Long_Term_Synthesis_Filtering S Ncr bcr erp = Some (S\<lparr>S_nrp := Nr, S_dp0 := E\<rparr>)"
    unfolding Gsm_Long_Term_Synthesis_Filtering_def Let_def assms(9)[symmetric] D E using N q by simp
  then show thesis using N lE wE t1 t2 by (intro that[of "S\<lparr>S_nrp := Nr, S_dp0 := E\<rparr>"]) simp_all
qed

section \<open>Properties\<close>

text \<open>
  C31. The lag search is total and optimal.  For any 16-bit residual and history no assertion fails, the lag is between 40 and 120 and
  the gain code has two bits.  The correlation is that of the history with the sub-segment shifted down by the amount its loudest
  sample asks for (not at all when it is below 512).  If some lag in the range correlates positively, the one chosen is the first
  of greatest correlation; otherwise the lag is 40 and the gain code 0.
\<close>

theorem LTP_lag_optimal:
  assumes "list_all is_word d" "list_all is_word dp0" "p \<le> length dp0" "120 \<le> p"
  shows "\<exists>bc Nc s. Calculation_of_the_LTP_parameters d dp0 p = Some (bc, Nc) \<and>
    0 \<le> bc \<and> bc \<le> 3 \<and> 40 \<le> Nc \<and> Nc \<le> 120 \<and> segment_scale d s \<and>
    (\<forall>l. 40 \<le> l \<and> l \<le> 120 \<longrightarrow>
      cross_correlation (map (\<lambda>x. SASR x s) d) dp0 p l \<le> max 0 (cross_correlation (map (\<lambda>x. SASR x s) d) dp0 p Nc)) \<and>
    (\<forall>l. 40 \<le> l \<and> l < Nc \<longrightarrow>
      cross_correlation (map (\<lambda>x. SASR x s) d) dp0 p l < cross_correlation (map (\<lambda>x. SASR x s) d) dp0 p Nc) \<and>
    ((\<forall>l. 40 \<le> l \<and> l \<le> 120 \<longrightarrow> cross_correlation (map (\<lambda>x. SASR x s) d) dp0 p l \<le> 0) \<longrightarrow> Nc = 40 \<and> bc = 0)"
proof -
  obtain bc Nc s where "Calculation_of_the_LTP_parameters d dp0 p = Some (bc, Nc)"
    "0 \<le> bc" "bc \<le> 3" "40 \<le> Nc" "Nc \<le> 120" "segment_scale d s"
    "\<forall>l\<in>{40..<121}. cross_correlation (map (\<lambda>x. SASR x s) d) dp0 p l \<le> max 0 (cross_correlation (map (\<lambda>x. SASR x s) d) dp0 p Nc)"
    "\<forall>l\<in>{40..<Nc}. cross_correlation (map (\<lambda>x. SASR x s) d) dp0 p l < cross_correlation (map (\<lambda>x. SASR x s) d) dp0 p Nc"
    "(\<forall>l\<in>{40..<121}. cross_correlation (map (\<lambda>x. SASR x s) d) dp0 p l \<le> 0) \<longrightarrow> Nc = 40 \<and> bc = 0"
    by (rule LTP_parameters_total[OF assms])
  moreover have "l \<in> {40..<121} \<longleftrightarrow> 40 \<le> l \<and> l \<le> 120" for l :: nat by auto
  ultimately show ?thesis by (intro exI[of _ bc] exI[of _ Nc] exI[of _ s]) (simp add: Ball_def)
qed

theorem LTP_lag_optimal_witness:
  "\<exists>bc Nc s. Calculation_of_the_LTP_parameters (replicate 40 700) (replicate 280 9) 120 = Some (bc, Nc) \<and> 40 \<le> Nc \<and> Nc \<le> 120 \<and>
    segment_scale (replicate 40 700) s"
proof -
  have "list_all is_word (replicate n x)" if "is_word x" for n x using that by (simp add: list_all_iff)
  from LTP_lag_optimal[OF this this, of 700 9 120 280 40] show ?thesis by (auto simp: is_word_def)
qed

end
