(* ===== verification/Gsm_Codec.thy ===== *)
theory Gsm_Codec
  imports Lockstep Gsm_Frame Gsm_Preprocess Gsm_Short_Term Gsm_Rpe Gsm_Long_Term
begin

text \<open>
  The codec as a whole: \<open>Gsm_Coder\<close> of \<^verbatim>\<open>src/code.c\<close>, \<open>Gsm_Decoder\<close> of \<^verbatim>\<open>src/decode.c\<close>, and the entry
  points \<open>gsm_encode\<close> and \<open>gsm_decode\<close>.  The static array \<open>e\<close> of the coder is an argument and a result.
\<close>

unbundle bit_operations_syntax

section \<open>Definitions\<close>

subsection \<open>Coder\<close>

text \<open>What one pass of the loop of \<open>Gsm_Coder\<close> writes to \<open>Nc\<close>, \<open>bc\<close>, \<open>Mc\<close>, \<open>xmaxc\<close> and \<open>xMc\<close>.\<close>

record sub_segment =
  sg_Nc :: int
  sg_bc :: int
  sg_Mc :: int
  sg_xmaxc :: int
  sg_xMc :: "int list"

text \<open>\<open>dp\<close> and \<open>dpp\<close> are the same pointer, the offset \<open>p\<close> into \<open>dp0\<close>.\<close>

definition update_residual :: "nat \<Rightarrow> int list \<Rightarrow> int list \<Rightarrow> int list" where
  "update_residual p e dp0 =
    fold (\<lambda>i dp0. dp0[p + i := s16 (GSM_ADD (e ! (5 + i)) (dp0 ! (p + i)))]) [0..<40] dp0"

definition coder_segment ::
  "int list \<Rightarrow> nat \<Rightarrow> int list \<Rightarrow> int list \<Rightarrow> (int list \<times> int list \<times> sub_segment) option" where
  "coder_segment so k dp0 e = do {
    let p = 120 + 40 * k;
    (dp0, e, n, b) \<leftarrow> Gsm_Long_Term_Predictor (take 40 (drop (40 * k) so)) p dp0 e;
    (e, xm, M, x) \<leftarrow> Gsm_RPE_Encoding e;
    let dp0 = update_residual p e dp0;
    Some (dp0, e, \<lparr>sg_Nc = int n, sg_bc = b, sg_Mc = int M, sg_xmaxc = xm, sg_xMc = x\<rparr>) }"

fun coder_loop ::
  "nat list \<Rightarrow> int list \<Rightarrow> int list \<Rightarrow> int list \<Rightarrow> (int list \<times> int list \<times> sub_segment list) option" where
  "coder_loop [] so dp0 e = Some (dp0, e, [])"
| "coder_loop (k # ks) so dp0 e = do {
     (dp0, e, g) \<leftarrow> coder_segment so k dp0 e;
     (dp0, e, gs) \<leftarrow> coder_loop ks so dp0 e;
     Some (dp0, e, g # gs) }"

definition params_of :: "int list \<Rightarrow> sub_segment list \<Rightarrow> gsm_params" where
  "params_of L gs = \<lparr>LARc = L, Nc = map sg_Nc gs, bc = map sg_bc gs, Mc = map sg_Mc gs,
     xmaxc = map sg_xmaxc gs, xmc = concat (map sg_xMc gs)\<rparr>"

definition Gsm_Coder :: "gsm_state \<Rightarrow> int list \<Rightarrow> int list \<Rightarrow> (gsm_state \<times> int list \<times> gsm_params) option" where
  "Gsm_Coder S e s = do {
    (S, so) \<leftarrow> Gsm_Preprocess S s;
    (so, L) \<leftarrow> Gsm_LPC_Analysis so;
    let (S, so) = Gsm_Short_Term_Analysis_Filter S L so;
    (dp0, e, gs) \<leftarrow> coder_loop [0..<4] so (S_dp0 S) e;
    let dp0 = take 120 (drop 160 dp0) @ drop 120 dp0;
    Some (S\<lparr>S_dp0 := dp0\<rparr>, e, params_of L gs) }"

definition gsm_encode :: "gsm_state \<Rightarrow> int list \<Rightarrow> int list \<Rightarrow> (gsm_state \<times> int list \<times> u8 list) option" where
  "gsm_encode S e source = do {
    (S, e, p) \<leftarrow> Gsm_Coder S e source;
    Some (S, e, gsm_pack p) }"

subsection \<open>Decoder\<close>

text \<open>One sample of \<open>Postprocessing\<close>: the new \<open>msr\<close> and the output.\<close>

definition post_step :: "int \<Rightarrow> int \<Rightarrow> int \<times> int" where
  "post_step msr s =
    (let tmp = s16 (GSM_MULT_R msr 28180);
         msr = s16 (GSM_ADD s tmp)
     in (msr, s16 (GSM_ADD msr msr AND 0xFFF8)))"

fun post_loop :: "int \<Rightarrow> int list \<Rightarrow> int \<times> int list" where
  "post_loop msr [] = (msr, [])"
| "post_loop msr (s # ss) =
    (let (msr, x) = post_step msr s; (msr, xs) = post_loop msr ss in (msr, x # xs))"

definition Postprocessing :: "gsm_state \<Rightarrow> int list \<Rightarrow> gsm_state \<times> int list" where
  "Postprocessing S s = (let (msr, s) = post_loop (S_msr S) s in (S\<lparr>S_msr := msr\<rparr>, s))"

text \<open>\<open>drp\<close> is \<open>dp0 + 120\<close>, read after the synthesis of each sub-segment.\<close>

fun decoder_loop :: "nat list \<Rightarrow> gsm_params \<Rightarrow> gsm_state \<Rightarrow> (gsm_state \<times> int list) option" where
  "decoder_loop [] p S = Some (S, [])"
| "decoder_loop (j # js) p S = do {
     erp \<leftarrow> Gsm_RPE_Decoding (xmaxc p ! j) (Mc p ! j) (take 13 (drop (13 * j) (xmc p)));
     S \<leftarrow> Gsm_Long_Term_Synthesis_Filtering S (Nc p ! j) (bc p ! j) erp;
     let wt = take 40 (drop 120 (S_dp0 S));
     (S, rest) \<leftarrow> decoder_loop js p S;
     Some (S, wt @ rest) }"

definition Gsm_Decoder :: "gsm_state \<Rightarrow> gsm_params \<Rightarrow> (gsm_state \<times> int list) option" where
  "Gsm_Decoder S p = do {
    (S, wt) \<leftarrow> decoder_loop [0..<4] p S;
    let (S, s) = Gsm_Short_Term_Synthesis_Filter S (LARc p) wt;
    Some (Postprocessing S s) }"

text \<open>\<open>Bad_magic\<close> is the return value -1, which leaves the state alone; \<open>None\<close> a failed assertion.\<close>

datatype decode_result = Bad_magic | Decoded gsm_state "int list"

definition gsm_decode :: "gsm_state \<Rightarrow> u8 list \<Rightarrow> decode_result option" where
  "gsm_decode S c =
    (case gsm_unpack c of
       None \<Rightarrow> Some Bad_magic
     | Some p \<Rightarrow> map_option (\<lambda>(S, s). Decoded S s) (Gsm_Decoder S p))"

section \<open>One sub-segment\<close>

definition words :: "nat \<Rightarrow> int list \<Rightarrow> bool" where
  "words n xs \<longleftrightarrow> length xs = n \<and> list_all is_word xs"

lemma words_write_at: "words n xs \<Longrightarrow> list_all is_word ys \<Longrightarrow> p + length ys \<le> n \<Longrightarrow> words n (write_at p ys xs)"
  by (auto simp: words_def list_all_write_at)

lemma words_window: "words n xs \<Longrightarrow> m + k \<le> n \<Longrightarrow> words k (take k (drop m xs))"
  by (auto simp: words_def list_all_iff dest: in_set_takeD in_set_dropD)

text \<open>What a receiver may rely on in the codes of a sub-segment sent by the coder.\<close>

definition sub_ok :: "sub_segment \<Rightarrow> bool" where
  "sub_ok g \<longleftrightarrow> 40 \<le> sg_Nc g \<and> sg_Nc g \<le> 120 \<and> 0 \<le> sg_bc g \<and> sg_bc g \<le> 3 \<and> 0 \<le> sg_Mc g \<and> sg_Mc g \<le> 3 \<and>
    0 \<le> sg_xmaxc g \<and> sg_xmaxc g \<le> 63 \<and> length (sg_xMc g) = 13 \<and> (\<forall>c\<in>set (sg_xMc g). 0 \<le> c \<and> c \<le> 7)"

text \<open>The pulses a sub-segment stands for, and the residual both sides rebuild from a history of 120 samples.\<close>

definition pulses :: "sub_segment \<Rightarrow> int list" where
  "pulses g = (case Gsm_RPE_Decoding (sg_xmaxc g) (sg_Mc g) (sg_xMc g) of Some ep \<Rightarrow> ep | None \<Rightarrow> [])"

definition rebuild1 :: "int list \<Rightarrow> sub_segment \<Rightarrow> int list" where
  "rebuild1 h g = reconstruct h (nat (sg_Nc g)) (sg_bc g) (pulses g)"

fun rebuild :: "int list \<Rightarrow> sub_segment list \<Rightarrow> int list" where
  "rebuild h [] = []"
| "rebuild h (g # gs) = rebuild1 h g @ rebuild (drop 40 h @ rebuild1 h g) gs"

lemma length_rebuild1 [simp]: "length (rebuild1 h g) = 40"
  by (simp add: rebuild1_def)

lemma length_rebuild [simp]: "length (rebuild h gs) = 40 * length gs"
  by (induction h gs rule: rebuild.induct) simp_all

lemma sub_pulses:
  assumes "sub_ok g"
  shows "Gsm_RPE_Decoding (sg_xmaxc g) (sg_Mc g) (sg_xMc g) = Some (pulses g)" "words 40 (pulses g)"
proof -
  obtain erp where "Gsm_RPE_Decoding (sg_xmaxc g) (sg_Mc g) (sg_xMc g) = Some erp" "length erp = 40" "list_all is_word erp"
    using RPE_Decoding_total[of "sg_xmaxc g" "sg_Mc g" "sg_xMc g"] assms unfolding sub_ok_def by metis
  then show "Gsm_RPE_Decoding (sg_xmaxc g) (sg_Mc g) (sg_xMc g) = Some (pulses g)" "words 40 (pulses g)"
    by (simp_all add: pulses_def words_def)
qed

lemma rebuild1_words: "sub_ok g \<Longrightarrow> words 120 h \<Longrightarrow> words 40 (rebuild1 h g)"
  using reconstruct_words[of h "nat (sg_Nc g)" "sg_bc g" "pulses g"] sub_pulses(2)[of g]
  by (simp add: rebuild1_def words_def sub_ok_def nat_le_iff le_nat_iff)

lemma update_residual_value:
  assumes "words 280 dp0" "words 50 e" "p + 40 \<le> 280" "n \<le> 40"
  shows "fold (\<lambda>i dp0. dp0[p + i := s16 (GSM_ADD (e ! (5 + i)) (dp0 ! (p + i)))]) [0..<n] dp0
    = write_at p (map (\<lambda>i. GSM_ADD (e ! (5 + i)) (dp0 ! (p + i))) [0..<n]) dp0"
  using assms(4)
proof (induction n)
  case (Suc n)
  let ?v = "GSM_ADD (e ! (5 + n)) (dp0 ! (p + n))"
  let ?D = "write_at p (map (\<lambda>i. GSM_ADD (e ! (5 + i)) (dp0 ! (p + i))) [0..<n]) dp0"
  have r: "?D ! (p + n) = dp0 ! (p + n)" using assms Suc.prems by (subst nth_write_at) (auto simp: words_def)
  have "is_word ?v" using assms Suc.prems by (intro GSM_ADD_word) (auto simp: words_def list_all_length)
  then have "fold (\<lambda>i dp0. dp0[p + i := s16 (GSM_ADD (e ! (5 + i)) (dp0 ! (p + i)))]) [0..<Suc n] dp0 = ?D[p + n := ?v]"
    using Suc r by simp
  also have "\<dots> = write_at p (map (\<lambda>i. GSM_ADD (e ! (5 + i)) (dp0 ! (p + i))) [0..<Suc n]) dp0"
    using write_at_snoc[of p "map (\<lambda>i. GSM_ADD (e ! (5 + i)) (dp0 ! (p + i))) [0..<n]" dp0 ?v] assms Suc.prems
    by (simp add: words_def)
  finally show ?case .
qed simp

lemma coder_segment_value:
  assumes so: "words 160 so" and dp0: "words 280 dp0" and e: "words 50 e" and k: "k < 4"
  obtains g e' where "sub_ok g" "words 50 e'"
    "coder_segment so k dp0 e = Some (write_at (120 + 40 * k) (rebuild1 (take 120 (drop (40 * k) dp0)) g) dp0, e', g)"
proof -
  let ?d = "take 40 (drop (40 * k) so)"
  define p where "p = 120 + 40 * k"
  define h where "h = take 120 (drop (40 * k) dp0)"
  have h: "words 120 h" unfolding h_def by (rule words_window[OF dp0]) (use k in simp)
  have d: "list_all is_word ?d" "length ?d = 40" using words_window[OF so, of "40 * k" 40] k by (auto simp: words_def)
  obtain n b where n: "40 \<le> n" "n \<le> 120" "0 \<le> b" "b \<le> 3"
    and P: "Gsm_Long_Term_Predictor ?d p dp0 e = Some
      (write_at p (map (estimate (gsm_QLB ! nat b) n p dp0) [0..<40]) dp0,
       write_at 5 (map (\<lambda>k. GSM_SUB (?d ! k) (estimate (gsm_QLB ! nat b) n p dp0 k)) [0..<40]) e, n, b)"
    by (rule Predictor_value[of ?d dp0 p e]) (use d(1) dp0 e k in \<open>auto simp: words_def p_def\<close>)
  define E where "E = write_at 5 (map (\<lambda>k. GSM_SUB (?d ! k) (estimate (gsm_QLB ! nat b) n p dp0 k)) [0..<40]) e"
  define D where "D = write_at p (map (estimate (gsm_QLB ! nat b) n p dp0) [0..<40]) dp0"
  have est: "is_word (estimate (gsm_QLB ! nat b) n p dp0 i)" if "i < 40" for i
    using dp0 k n that analysis_by_table(2,3)[OF n(3,4)] by (intro estimate_word) (auto simp: words_def p_def)
  have E: "words 50 E" unfolding E_def
    using d est by (intro words_write_at[OF e]) (auto simp: list_all_length GSM_SUB_word simp del: upt.simps)
  have D: "words 280 D" unfolding D_def
    using est k by (intro words_write_at[OF dp0]) (auto simp: list_all_length p_def simp del: upt.simps)
  obtain ep xm M x where R: "Gsm_RPE_Encoding E = Some (take 5 E @ ep @ drop 45 E, xm, M, x)"
    "Gsm_RPE_Decoding xm (int M) x = Some ep" "length ep = 40" "list_all is_word ep"
    "0 \<le> xm" "xm \<le> 63" "M \<le> 3" "length x = 13" "\<forall>c\<in>set x. 0 \<le> c \<and> c \<le> 7"
    by (rule RPE_Encoding_value[of E]) (use E in \<open>simp_all add: words_def\<close>)
  define E' where "E' = take 5 E @ ep @ drop 45 E"
  have E': "words 50 E'" using E R(3,4)
    by (auto simp: words_def E'_def list_all_iff dest: in_set_takeD in_set_dropD)
  define g where "g = \<lparr>sg_Nc = int n, sg_bc = b, sg_Mc = int M, sg_xmaxc = xm, sg_xMc = x\<rparr>"
  have g: "sub_ok g" using n R by (simp add: sub_ok_def g_def)
  have "update_residual p E' D = write_at p (map (\<lambda>i. GSM_ADD (E' ! (5 + i)) (D ! (p + i))) [0..<40]) D"
    unfolding update_residual_def using D E' k by (intro update_residual_value) (auto simp: p_def)
  also have "map (\<lambda>i. GSM_ADD (E' ! (5 + i)) (D ! (p + i))) [0..<40] = rebuild1 h g"
  proof -
    have "E' ! (5 + i) = ep ! i" if "i < 40" for i
      using that E R(3) by (simp add: E'_def words_def nth_append)
    moreover have "D ! (p + i) = estimate (gsm_QLB ! nat b) n p dp0 i" if "i < 40" for i
      using that dp0 k by (simp add: D_def words_def nth_write_at p_def)
    moreover have "h ! (120 + i - n) = dp0 ! (p + i - n)" if "i < 40" for i
      using that dp0 k n by (simp add: h_def words_def p_def add.commute add.left_commute)
    ultimately show ?thesis using R(2)
      by (auto simp: rebuild1_def reconstruct_def pulses_def g_def estimate_def simp del: upt.simps)
  qed
  also have "write_at p (rebuild1 h g) D = write_at p (rebuild1 h g) dp0"
    using dp0 k by (simp add: D_def write_at_def words_def p_def)
  finally have U: "update_residual p E' D = write_at p (rebuild1 h g) dp0" .
  have "coder_segment so k dp0 e = Some (write_at p (rebuild1 h g) dp0, E', g)"
    unfolding coder_segment_def Let_def p_def[symmetric] P E_def[symmetric] D_def[symmetric]
    by (simp add: R(1) E'_def[symmetric] U g_def)
  with g E' show thesis using that by (simp add: p_def h_def)
qed

text \<open>
  The loop of the coder: behind the history it leaves exactly what \<open>rebuild\<close> makes of the
  codes it sends.
\<close>

lemma window_write_at:
  assumes "length xs = 280" "m + 160 \<le> 280" "length r = 40"
  shows "take 120 (drop (m + 40) (write_at (m + 120) r xs)) = drop 40 (take 120 (drop m xs)) @ r"
    "take 160 (drop m (write_at (m + 120) r xs)) = take 120 (drop m xs) @ r"
  using assms by (auto simp: list_eq_iff_nth_eq nth_write_at nth_append add.assoc)

lemma coder_loop_value:
  assumes "words 160 so" "words 280 dp0" "words 50 e" "k + n \<le> 4"
  shows "\<exists>dp0' e' gs. coder_loop [k..<k + n] so dp0 e = Some (dp0', e', gs) \<and> words 280 dp0' \<and> words 50 e' \<and>
    length gs = n \<and> list_all sub_ok gs \<and> take (120 + 40 * k) dp0' = take (120 + 40 * k) dp0 \<and>
    take (40 * n) (drop (120 + 40 * k) dp0') = rebuild (take 120 (drop (40 * k) dp0)) gs"
  using assms
proof (induction n arbitrary: k dp0 e)
  case (Suc n)
  let ?h = "take 120 (drop (40 * k) dp0)"
  obtain g e1 where g: "sub_ok g" "words 50 e1"
    "coder_segment so k dp0 e = Some (write_at (120 + 40 * k) (rebuild1 ?h g) dp0, e1, g)"
    by (rule coder_segment_value[OF Suc.prems(1-3), of k]) (use Suc.prems(4) in auto)
  define D where "D = write_at (120 + 40 * k) (rebuild1 ?h g) dp0"
  have h: "words 120 ?h" by (rule words_window[OF Suc.prems(2)]) (use Suc.prems(4) in simp)
  have r: "list_all is_word (rebuild1 ?h g)" using rebuild1_words[OF g(1) h] by (simp add: words_def)
  have D: "words 280 D" unfolding D_def using Suc.prems(4) by (intro words_write_at[OF Suc.prems(2)] r) simp
  have l: "length dp0 = 280" "length D = 280" using Suc.prems(2) D by (simp_all add: words_def)
  obtain dp0' e' gs where i: "coder_loop [Suc k..<Suc k + n] so D e1 = Some (dp0', e', gs)" "words 280 dp0'" "words 50 e'"
    "length gs = n" "list_all sub_ok gs" "take (120 + 40 * Suc k) dp0' = take (120 + 40 * Suc k) D"
    "take (40 * n) (drop (120 + 40 * Suc k) dp0') = rebuild (take 120 (drop (40 * Suc k) D)) gs"
    using Suc.IH[OF Suc.prems(1) D g(2), of "Suc k"] Suc.prems(4) by auto
  have w: "take 120 (drop (40 * Suc k) D) = drop 40 ?h @ rebuild1 ?h g"
    using window_write_at(1)[of dp0 "40 * k" "rebuild1 ?h g"] l(1) Suc.prems(4) by (simp add: D_def add.commute)
  have "take (40 * Suc n) (drop (120 + 40 * k) dp0')
      = take 40 (drop (120 + 40 * k) dp0') @ take (40 * n) (drop (120 + 40 * Suc k) dp0')"
    using take_add[of 40 "40 * n" "drop (120 + 40 * k) dp0'"] by (simp add: add.commute add.left_commute)
  also have "take 40 (drop (120 + 40 * k) dp0') = take 40 (drop (120 + 40 * k) D)"
    using arg_cong[OF i(6), of "drop (120 + 40 * k)"] by (simp add: drop_take)
  also have "\<dots> = rebuild1 ?h g"
    using take_write_at[of "120 + 40 * k" dp0 "rebuild1 ?h g"] l(1) Suc.prems(4) by (simp add: D_def)
  finally have t: "take (40 * Suc n) (drop (120 + 40 * k) dp0') = rebuild ?h (g # gs)"
    by (simp only: i(7) w rebuild.simps)
  have "take (120 + 40 * k) dp0' = take (120 + 40 * k) D"
    using arg_cong[OF i(6), of "take (120 + 40 * k)"] by (simp add: min_def)
  then have "take (120 + 40 * k) dp0' = take (120 + 40 * k) dp0"
    using l(1) Suc.prems(4) by (simp add: D_def write_at_def)
  moreover have "coder_loop [k..<k + Suc n] so dp0 e = Some (dp0', e', g # gs)"
    using i(1) g(3) by (simp add: upt_conv_Cons D_def del: upt.simps)
  ultimately show ?case using i g t by auto
qed simp

section \<open>The coder\<close>

text \<open>The invariant of the state; every function of the codec may rely on it.\<close>

definition gsm_ok :: "gsm_state \<Rightarrow> bool" where
  "gsm_ok S \<longleftrightarrow> words 280 (S_dp0 S) \<and> pre_ok (S_z1 S, S_L_z2 S, S_mp S) \<and> short_term_ok S \<and>
     40 \<le> S_nrp S \<and> S_nrp S \<le> 120 \<and> is_word (S_msr S)"

lemma words_replicate [simp]: "words n (replicate n 0)"
  by (simp add: words_def list_all_iff is_word_def)

lemma gsm_initial_ok: "gsm_ok gsm_initial"
  by (auto simp: gsm_ok_def gsm_initial_def pre_ok_def short_term_ok_def is_word_def words_def list_all_iff)

lemma analysis_state:
  "fst (Gsm_Short_Term_Analysis_Filter S L s) =
    S\<lparr>S_LARpp := (S_LARpp S)[S_j S := Decoding_of_the_coded_Log_Area_Ratios L], S_j := S_j S XOR 1,
      S_u := S_u (fst (Gsm_Short_Term_Analysis_Filter S L s))\<rparr>"
  by (simp add: Gsm_Short_Term_Analysis_Filter_def Let_def case_prod_beta)

lemma synthesis_state:
  "fst (Gsm_Short_Term_Synthesis_Filter S L s) =
    S\<lparr>S_LARpp := (S_LARpp S)[S_j S := Decoding_of_the_coded_Log_Area_Ratios L], S_j := S_j S XOR 1,
      S_v := S_v (fst (Gsm_Short_Term_Synthesis_Filter S L s))\<rparr>"
  by (simp add: Gsm_Short_Term_Synthesis_Filter_def Let_def case_prod_beta)

lemma coder_value:
  assumes S: "gsm_ok S" and e: "words 50 e" and s: "words 160 s"
  shows "\<exists>S' e' L gs. Gsm_Coder S e s = Some (S', e', params_of L gs) \<and> gsm_ok S' \<and> words 50 e' \<and>
    list_all2 (\<lambda>m x. 0 \<le> x \<and> x \<le> m) LARc_max L \<and> length gs = 4 \<and> list_all sub_ok gs \<and>
    take 120 (S_dp0 S') = drop 40 (rebuild (take 120 (S_dp0 S)) gs) \<and>
    S_LARpp S' = (S_LARpp S)[S_j S := Decoding_of_the_coded_Log_Area_Ratios L] \<and> S_j S' = S_j S XOR 1"
proof -
  have s': "list_all is_word s" "length s = 160" using s by (simp_all add: words_def)
  obtain so z1 L_z2 mp where P: "Gsm_Preprocess S s = Some (S\<lparr>S_z1 := z1, S_L_z2 := L_z2, S_mp := mp\<rparr>, so)"
    "pre_ok (z1, L_z2, mp)" "list_all is_word so" "length so = length s"
    by (rule Gsm_Preprocess_exact[of S s]) (use S s' in \<open>auto simp: gsm_ok_def\<close>)
  define S1 where "S1 = S\<lparr>S_z1 := z1, S_L_z2 := L_z2, S_mp := mp\<rparr>"
  have S1: "gsm_ok S1" "S_LARpp S1 = S_LARpp S" "S_j S1 = S_j S" "S_dp0 S1 = S_dp0 S"
    using S P(2) by (auto simp: gsm_ok_def S1_def short_term_ok_def)
  obtain so' L where A: "Gsm_LPC_Analysis so = Some (so', L)" "list_all is_word so'" "length so' = 160"
    "list_all2 (\<lambda>m x. 0 \<le> x \<and> x \<le> m) LARc_max L"
    by (rule LPC_Analysis_total[OF P(3)]) (use P(4) s' in simp_all)
  have L: "length L = 8" using list_all2_lengthD[OF A(4)] by (simp add: LARc_max_def)
  obtain S2 d where F: "Gsm_Short_Term_Analysis_Filter S1 L so' = (S2, d)" by fastforce
  have "short_term_ok S2 \<and> list_all is_word d \<and> length d = 160"
    using Analysis_Filter_ok[OF _ L A(2,3), of S1] S1(1) F by (simp add: gsm_ok_def)
  then have d: "words 160 d" "short_term_ok S2" by (simp_all add: words_def)
  have "S2 = S1\<lparr>S_LARpp := (S_LARpp S1)[S_j S1 := Decoding_of_the_coded_Log_Area_Ratios L], S_j := S_j S1 XOR 1, S_u := S_u S2\<rparr>"
    using analysis_state[of S1 L so'] F by simp
  then have S2: "S_dp0 S2 = S_dp0 S" "S_z1 S2 = z1" "S_L_z2 S2 = L_z2" "S_mp S2 = mp" "S_nrp S2 = S_nrp S" "S_msr S2 = S_msr S"
    "S_LARpp S2 = (S_LARpp S)[S_j S := Decoding_of_the_coded_Log_Area_Ratios L]" "S_j S2 = S_j S XOR 1"
    by (metis S1_def S1(2-4) gsm_state.simps gsm_state.surjective gsm_state.update_convs gsm_state.select_convs)+
  have w: "words 280 (S_dp0 S2)" using S by (simp add: S2 gsm_ok_def)
  obtain dp0' e' gs where C: "coder_loop [0..<0 + 4] d (S_dp0 S2) e = Some (dp0', e', gs)" "words 280 dp0'" "words 50 e'"
    "length gs = 4" "list_all sub_ok gs" "take (40 * 4) (drop (120 + 40 * 0) dp0') = rebuild (take 120 (drop (40 * 0) (S_dp0 S2))) gs"
    using coder_loop_value[OF d(1) w e, of 0 4] by auto
  define D where "D = take 120 (drop 160 dp0') @ drop 120 dp0'"
  have D: "words 280 D" using C(2) by (auto simp: D_def words_def list_all_iff dest: in_set_takeD in_set_dropD)
  have "take 120 D = drop 40 (take 160 (drop 120 dp0'))"
    using C(2) by (simp add: D_def words_def drop_take)
  then have t: "take 120 D = drop 40 (rebuild (take 120 (S_dp0 S)) gs)" using C(6) by (simp add: S2)
  have "Gsm_Coder S e s = Some (S2\<lparr>S_dp0 := D\<rparr>, e', params_of L gs)"
    using C(1) by (simp add: Gsm_Coder_def P(1) S1_def[symmetric] A(1) F D_def del: upt.simps)
  moreover have "gsm_ok (S2\<lparr>S_dp0 := D\<rparr>)"
    using S P(2) D d(2) S2 by (simp add: gsm_ok_def short_term_ok_def)
  ultimately show ?thesis using A(4) C t S2 by auto
qed

section \<open>The decoder\<close>

text \<open>The codes of sub-segment \<open>j\<close> of a frame.\<close>

definition sub_of :: "gsm_params \<Rightarrow> nat \<Rightarrow> sub_segment" where
  "sub_of p j = \<lparr>sg_Nc = Nc p ! j, sg_bc = bc p ! j, sg_Mc = Mc p ! j, sg_xmaxc = xmaxc p ! j,
     sg_xMc = take 13 (drop (13 * j) (xmc p))\<rparr>"

lemma sub_of_ok:
  assumes "params_ok p" "j < 4" "40 \<le> n" "n \<le> 120"
  shows "sub_ok ((sub_of p j)\<lparr>sg_Nc := n\<rparr>)"
proof -
  have "\<forall>c\<in>set (take 13 (drop (13 * j) (xmc p))). 0 \<le> c \<and> c \<le> 7"
    using assms(1) by (force simp: params_ok_def list_all_iff fits_def dest!: in_set_takeD in_set_dropD)
  moreover have "fits 2 (bc p ! j)" "fits 2 (Mc p ! j)" "fits 6 (xmaxc p ! j)" "length (xmc p) = 52"
    using assms(1,2) by (simp_all add: params_ok_def list_all_length)
  ultimately show ?thesis using assms(2-4) by (simp add: fits_def sub_ok_def sub_of_def)
qed

lemma decoder_loop_value:
  assumes "params_ok p" "words 280 (S_dp0 S)" "40 \<le> S_nrp S" "S_nrp S \<le> 120" "k + n \<le> 4"
  shows "\<exists>S' wt. decoder_loop [k..<k + n] p S = Some (S', wt) \<and> words (40 * n) wt \<and>
    S' = S\<lparr>S_nrp := S_nrp S', S_dp0 := S_dp0 S'\<rparr> \<and> words 280 (S_dp0 S') \<and> 40 \<le> S_nrp S' \<and> S_nrp S' \<le> 120 \<and>
    take 120 (S_dp0 S') = drop (40 * n) (take 120 (S_dp0 S) @ wt) \<and>
    ((\<forall>j. k \<le> j \<and> j < k + n \<longrightarrow> 40 \<le> Nc p ! j \<and> Nc p ! j \<le> 120) \<longrightarrow>
      wt = rebuild (take 120 (S_dp0 S)) (map (sub_of p) [k..<k + n]))"
  using assms
proof (induction n arbitrary: k S)
  case 0
  then show ?case by (simp add: words_def)
next
  case (Suc n)
  define N where "N = (if Nc p ! k < 40 \<or> Nc p ! k > 120 then S_nrp S else Nc p ! k)"
  define g where "g = (sub_of p k)\<lparr>sg_Nc := N\<rparr>"
  have N: "40 \<le> N" "N \<le> 120" using Suc.prems(3,4) by (auto simp: N_def)
  have g: "sub_ok g" unfolding g_def using Suc.prems N by (intro sub_of_ok) auto
  note ep = sub_pulses[OF g]
  have gs: "sg_xmaxc g = xmaxc p ! k" "sg_Mc g = Mc p ! k" "sg_xMc g = take 13 (drop (13 * k) (xmc p))"
    "sg_bc g = bc p ! k" "sg_Nc g = N" by (simp_all add: g_def sub_of_def)
  obtain S1 where F: "Gsm_Long_Term_Synthesis_Filtering S (Nc p ! k) (bc p ! k) (pulses g) = Some S1"
    and S1: "S1 = S\<lparr>S_nrp := N, S_dp0 := S_dp0 S1\<rparr>" "length (S_dp0 S1) = 280" "list_all is_word (S_dp0 S1)"
    and t: "take 120 (S_dp0 S1) = drop 40 (take 120 (S_dp0 S)) @ rebuild1 (take 120 (S_dp0 S)) g"
      "take 40 (drop 120 (S_dp0 S1)) = rebuild1 (take 120 (S_dp0 S)) g"
    by (rule Synthesis_Filtering_value[of S "bc p ! k" "pulses g" N "Nc p ! k"])
      (use Suc.prems g ep(2) in \<open>auto simp: N_def words_def rebuild1_def gs[unfolded N_def] sub_ok_def\<close>)
  have n1: "S_nrp S1 = N" by (subst S1(1)) simp
  have "words 280 (S_dp0 S1)" using S1 by (simp add: words_def)
  from Suc.IH[OF Suc.prems(1) this, of "Suc k"] obtain S' wt where
    i: "decoder_loop [Suc k..<Suc k + n] p S1 = Some (S', wt)" "words (40 * n) wt"
      "S' = S1\<lparr>S_nrp := S_nrp S', S_dp0 := S_dp0 S'\<rparr>" "words 280 (S_dp0 S')" "40 \<le> S_nrp S'" "S_nrp S' \<le> 120"
      "take 120 (S_dp0 S') = drop (40 * n) (take 120 (S_dp0 S1) @ wt)"
    and ir: "(\<forall>j. Suc k \<le> j \<and> j < Suc k + n \<longrightarrow> 40 \<le> Nc p ! j \<and> Nc p ! j \<le> 120) \<longrightarrow>
      wt = rebuild (take 120 (S_dp0 S1)) (map (sub_of p) [Suc k..<Suc k + n])"
    using N n1 Suc.prems(5) by auto
  let ?r = "rebuild1 (take 120 (S_dp0 S)) g"
  have h: "words 120 (take 120 (S_dp0 S))" using words_window[OF Suc.prems(2), of 0 120] by simp
  have "decoder_loop [k..<k + Suc n] p S = Some (S', ?r @ wt)"
    using ep(1) F i(1) t(2) by (simp add: gs upt_conv_Cons del: upt.simps)
  moreover have "words (40 * Suc n) (?r @ wt)" using rebuild1_words[OF g h] i(2) by (simp add: words_def)
  moreover have "S' = S\<lparr>S_nrp := S_nrp S', S_dp0 := S_dp0 S'\<rparr>" by (subst i(3), subst S1(1)) simp
  moreover have "take 120 (S_dp0 S') = drop (40 * Suc n) (take 120 (S_dp0 S) @ ?r @ wt)"
    unfolding i(7) t(1) using h by (simp add: words_def add.commute)
  moreover have "?r @ wt = rebuild (take 120 (S_dp0 S)) (map (sub_of p) [k..<k + Suc n])"
    if "\<forall>j. k \<le> j \<and> j < k + Suc n \<longrightarrow> 40 \<le> Nc p ! j \<and> Nc p ! j \<le> 120"
  proof -
    have "N = Nc p ! k" using that by (auto simp: N_def)
    then have "g = sub_of p k" by (simp add: g_def sub_of_def)
    moreover have "wt = rebuild (take 120 (S_dp0 S1)) (map (sub_of p) [Suc k..<Suc k + n])" using ir that by simp
    ultimately show ?thesis by (simp add: upt_conv_Cons t(1) del: upt.simps)
  qed
  ultimately show ?case using i(4-6) by blast
qed

text \<open>Each output sample is the doubled, saturated de-emphasised sample with its low three bits cleared.\<close>

lemma truncation:
  assumes "is_word x"
  shows "s16 (x AND 0xFFF8) = 8 * (x div 8)"
proof -
  have m: "(0xFFF8::int) = push_bit 3 (mask 13)" by (simp add: mask_eq_exp_minus_1 push_bit_eq_mult)
  have "s16 (x AND 0xFFF8) = push_bit 3 (drop_bit 3 (s16 x))"
    unfolding m by (rule bit_eqI) (auto simp: bit_simps min_def)
  then show ?thesis using assms by (simp add: push_bit_eq_mult drop_bit_eq_div)
qed

lemma post_step_value:
  assumes "is_word msr" "is_word s"
  obtains m where "is_word m" "post_step msr s = (m, 8 * (saturate (2 * m) div 8))" "is_word (8 * (saturate (2 * m) div 8))"
proof -
  define m where "m = GSM_ADD s (GSM_MULT_R msr 28180)"
  have r: "is_word (GSM_MULT_R msr 28180)" using assms(1) by (intro GSM_MULT_R_word) (simp_all add: is_word_def)
  then have m: "is_word m" unfolding m_def using assms(2) by (intro GSM_ADD_word)
  have "GSM_ADD m m = saturate (2 * m)" using m GSM_ADD_saturate[of m m] by simp
  moreover have "is_word (saturate (2 * m))" by (auto simp: saturate_def is_word_def)
  ultimately have "post_step msr s = (m, 8 * (saturate (2 * m) div 8))"
    using r m by (simp add: post_step_def m_def[symmetric] truncation)
  moreover have "is_word (8 * (saturate (2 * m) div 8))"
    using truncation[of "saturate (2 * m)"] is_word_s16 \<open>is_word (saturate (2 * m))\<close> by metis
  ultimately show thesis using that m by blast
qed

lemma post_loop_value:
  assumes "is_word msr" "list_all is_word s"
  shows "is_word (fst (post_loop msr s)) \<and> length (snd (post_loop msr s)) = length s \<and>
    list_all (\<lambda>x. is_word x \<and> 8 dvd x) (snd (post_loop msr s))"
  using assms
proof (induction s arbitrary: msr)
  case (Cons x s)
  obtain m where "is_word m" "post_step msr x = (m, 8 * (saturate (2 * m) div 8))" "is_word (8 * (saturate (2 * m) div 8))"
    by (rule post_step_value[of msr x]) (use Cons.prems in auto)
  with Cons.IH[of m] Cons.prems show ?case by (simp add: Let_def case_prod_beta)
qed simp

lemma decoder_value:
  assumes T: "gsm_ok T" and p: "params_ok p"
  shows "\<exists>T' s. Gsm_Decoder T p = Some (T', s) \<and> gsm_ok T' \<and> length s = 160 \<and> list_all (\<lambda>x. is_word x \<and> 8 dvd x) s \<and>
    S_LARpp T' = (S_LARpp T)[S_j T := Decoding_of_the_coded_Log_Area_Ratios (LARc p)] \<and> S_j T' = S_j T XOR 1 \<and>
    ((\<forall>j<4. 40 \<le> Nc p ! j \<and> Nc p ! j \<le> 120) \<longrightarrow>
      take 120 (S_dp0 T') = drop 40 (rebuild (take 120 (S_dp0 T)) (map (sub_of p) [0..<4])))"
proof -
  obtain T1 wt where D: "decoder_loop [0..<0 + 4] p T = Some (T1, wt)" "words (40 * 4) wt"
    "T1 = T\<lparr>S_nrp := S_nrp T1, S_dp0 := S_dp0 T1\<rparr>" "words 280 (S_dp0 T1)" "40 \<le> S_nrp T1" "S_nrp T1 \<le> 120"
    "take 120 (S_dp0 T1) = drop (40 * 4) (take 120 (S_dp0 T) @ wt)"
    "(\<forall>j. 0 \<le> j \<and> j < 0 + 4 \<longrightarrow> 40 \<le> Nc p ! j \<and> Nc p ! j \<le> 120) \<longrightarrow>
      wt = rebuild (take 120 (S_dp0 T)) (map (sub_of p) [0..<0 + 4])"
    using decoder_loop_value[OF p, of T 0 4] T by (auto simp: gsm_ok_def simp del: upt.simps)
  have eqs: "S_LARpp T1 = S_LARpp T" "S_j T1 = S_j T" "S_u T1 = S_u T" "S_v T1 = S_v T" "S_z1 T1 = S_z1 T"
    "S_L_z2 T1 = S_L_z2 T" "S_mp T1 = S_mp T" "S_msr T1 = S_msr T" by (subst D(3); simp)+
  have st: "short_term_ok T1" using T by (simp add: gsm_ok_def short_term_ok_def eqs)
  have L: "length (LARc p) = 8" using p by (auto simp: params_ok_def LARc_sizes_def dest: list_all2_lengthD)
  have wt: "list_all is_word wt" "length wt = 160" using D(2) by (simp_all add: words_def)
  obtain T2 s where F: "Gsm_Short_Term_Synthesis_Filter T1 (LARc p) wt = (T2, s)" by fastforce
  with Synthesis_Filter_ok[OF st L wt] have s: "short_term_ok T2" "list_all is_word s" "length s = 160" by simp_all
  have "T2 = T1\<lparr>S_LARpp := (S_LARpp T1)[S_j T1 := Decoding_of_the_coded_Log_Area_Ratios (LARc p)], S_j := S_j T1 XOR 1, S_v := S_v T2\<rparr>"
    using synthesis_state[of T1 "LARc p" wt] F by simp
  note T2 = this
  have eq2: "S_dp0 T2 = S_dp0 T1" "S_z1 T2 = S_z1 T" "S_L_z2 T2 = S_L_z2 T" "S_mp T2 = S_mp T" "S_nrp T2 = S_nrp T1"
    "S_msr T2 = S_msr T" "S_j T2 = S_j T XOR 1"
    "S_LARpp T2 = (S_LARpp T)[S_j T := Decoding_of_the_coded_Log_Area_Ratios (LARc p)]" by (subst T2; simp add: eqs)+
  obtain m s' where P: "post_loop (S_msr T2) s = (m, s')" by fastforce
  have m: "is_word m" "length s' = 160" "list_all (\<lambda>x. is_word x \<and> 8 dvd x) s'"
    using post_loop_value[of "S_msr T2" s, unfolded P] s T eq2(6) by (simp_all add: gsm_ok_def)
  have "Gsm_Decoder T p = Some (T2\<lparr>S_msr := m\<rparr>, s')"
    using D(1) by (simp add: Gsm_Decoder_def F Postprocessing_def P del: upt.simps)
  moreover have "gsm_ok (T2\<lparr>S_msr := m\<rparr>)"
    using T s(1) m(1) D(4-6) by (simp add: gsm_ok_def short_term_ok_def eq2)
  moreover have "take 120 (S_dp0 T1) = drop 40 (rebuild (take 120 (S_dp0 T)) (map (sub_of p) [0..<4]))"
    if "\<forall>j<4. 40 \<le> Nc p ! j \<and> Nc p ! j \<le> 120"
  proof -
    have "length (take 120 (S_dp0 T)) = 120" using T by (simp add: gsm_ok_def words_def)
    then show ?thesis using D(7,8) that by (simp del: upt.simps)
  qed
  ultimately show ?thesis using m by (auto simp: eq2 simp del: upt.simps)
qed

section \<open>Both sides in step\<close>

text \<open>The parts of the two states that must agree: the reconstructed residual and the past coefficients.\<close>

definition in_sync :: "gsm_state \<Rightarrow> gsm_state \<Rightarrow> bool" where
  "in_sync S T \<longleftrightarrow> take 120 (S_dp0 S) = take 120 (S_dp0 T) \<and> S_LARpp S = S_LARpp T \<and> S_j S = S_j T"

lemma concat_window:
  assumes "\<forall>x\<in>set xs. length x = n" "j < length xs"
  shows "take n (drop (n * j) (concat xs)) = xs ! j"
  using assms
proof (induction xs arbitrary: j)
  case (Cons x xs)
  then show ?case by (cases j) auto
qed simp

lemma sub_of_params:
  assumes "list_all sub_ok gs"
  shows "map (sub_of (params_of L gs)) [0..<length gs] = gs"
proof (rule nth_equalityI)
  fix j assume j: "j < length (map (sub_of (params_of L gs)) [0..<length gs])"
  have "\<forall>x\<in>set (map sg_xMc gs). length x = 13" using assms by (auto simp: list_all_iff sub_ok_def)
  from concat_window[OF this, of j] j show "map (sub_of (params_of L gs)) [0..<length gs] ! j = gs ! j"
    by (simp add: sub_of_def params_of_def)
qed simp

lemma params_of_ok:
  assumes "list_all2 (\<lambda>m x. 0 \<le> x \<and> x \<le> m) LARc_max L" "list_all sub_ok gs" "length gs = 4"
  shows "params_ok (params_of L gs)"
proof -
  have "length L = 8 \<and> (\<forall>i<8. 0 \<le> L ! i \<and> L ! i \<le> LARc_max ! i)"
    using assms(1) by (simp add: list_all2_conv_all_nth LARc_max_def)
  moreover have "\<forall>i<8. LARc_max ! i < 2 ^ (LARc_sizes ! i)"
    unfolding LARc_max_def LARc_sizes_def by (simp add: All_less_Suc numeral_eq_Suc)
  ultimately have "list_all2 fits LARc_sizes L"
    by (fastforce simp: list_all2_conv_all_nth fits_def)
  moreover have "length (concat (map sg_xMc gs)) = 52"
  proof -
    have "\<forall>g\<in>set gs. length (sg_xMc g) = 13" using assms(2) by (auto simp: list_all_iff sub_ok_def)
    then have "length (concat (map sg_xMc gs)) = 13 * length gs" by (induction gs) auto
    with assms(3) show ?thesis by simp
  qed
  ultimately show ?thesis using assms(2,3)
    by (force simp: params_ok_def params_of_def list_all_iff fits_def sub_ok_def)
qed

text \<open>One frame through both sides.\<close>

lemma frame_step:
  assumes "gsm_ok S" "gsm_ok T" "in_sync S T" "words 50 e" "words 160 s"
  shows "\<exists>S' e' c T' s'. gsm_encode S e s = Some (S', e', c) \<and> gsm_decode T c = Some (Decoded T' s') \<and>
    gsm_ok S' \<and> gsm_ok T' \<and> in_sync S' T' \<and> words 50 e' \<and> length c = 33 \<and>
    length s' = 160 \<and> list_all (\<lambda>x. is_word x \<and> 8 dvd x) s'"
proof -
  obtain S' e' L gs where C: "Gsm_Coder S e s = Some (S', e', params_of L gs)" "gsm_ok S'" "words 50 e'"
    "list_all2 (\<lambda>m x. 0 \<le> x \<and> x \<le> m) LARc_max L" "length gs = 4" "list_all sub_ok gs"
    "take 120 (S_dp0 S') = drop 40 (rebuild (take 120 (S_dp0 S)) gs)"
    "S_LARpp S' = (S_LARpp S)[S_j S := Decoding_of_the_coded_Log_Area_Ratios L]" "S_j S' = S_j S XOR 1"
    using coder_value[OF assms(1,4,5)] by blast
  let ?p = "params_of L gs"
  have p: "params_ok ?p" by (rule params_of_ok[OF C(4,6,5)])
  have gs: "map (sub_of ?p) [0..<4] = gs" using sub_of_params[OF C(6), of L] C(5) by simp
  have N: "\<forall>j<4. 40 \<le> Nc ?p ! j \<and> Nc ?p ! j \<le> 120"
    using C(5,6) by (simp add: params_of_def list_all_length sub_ok_def)
  have L: "LARc ?p = L" by (simp add: params_of_def)
  obtain T' s' where D: "Gsm_Decoder T ?p = Some (T', s')" "gsm_ok T'" "length s' = 160"
    "list_all (\<lambda>x. is_word x \<and> 8 dvd x) s'"
    "S_LARpp T' = (S_LARpp T)[S_j T := Decoding_of_the_coded_Log_Area_Ratios L]" "S_j T' = S_j T XOR 1"
    "take 120 (S_dp0 T') = drop 40 (rebuild (take 120 (S_dp0 T)) gs)"
    using decoder_value[OF assms(2) p] N unfolding gs L by blast
  have "in_sync S' T'" using assms(3) C(7-9) D(5-7) by (simp add: in_sync_def)
  moreover have "gsm_decode T (gsm_pack ?p) = Some (Decoded T' s')"
    by (simp add: gsm_decode_def unpack_pack[OF p] D(1))
  moreover have "gsm_encode S e s = Some (S', e', gsm_pack ?p)" by (simp add: gsm_encode_def C(1))
  ultimately show ?thesis using C(2,3) D(2-4)
    by (intro exI[of _ S'] exI[of _ e'] exI[of _ "gsm_pack ?p"] exI[of _ T'] exI[of _ s']) (simp add: gsm_pack_def)
qed

text \<open>The two entry points as functions of a state and a block.\<close>

definition frame_encoder :: "gsm_state \<times> int list \<Rightarrow> int list \<Rightarrow> ((gsm_state \<times> int list) \<times> u8 list) option" where
  "frame_encoder = (\<lambda>(S, e) s. map_option (\<lambda>(S, e, c). ((S, e), c)) (gsm_encode S e s))"

definition frame_decoder :: "gsm_state \<Rightarrow> u8 list \<Rightarrow> (gsm_state \<times> int list) option" where
  "frame_decoder T c = (case gsm_decode T c of Some (Decoded T' s) \<Rightarrow> Some (T', s) | _ \<Rightarrow> None)"

definition states_in_sync :: "gsm_state \<times> int list \<Rightarrow> gsm_state \<Rightarrow> bool" where
  "states_in_sync = (\<lambda>(S, e) T. gsm_ok S \<and> gsm_ok T \<and> in_sync S T \<and> words 50 e)"

definition frame_good :: "int list \<Rightarrow> u8 list \<Rightarrow> int list \<Rightarrow> bool" where
  "frame_good s c s' \<longleftrightarrow> length c = 33 \<and> length s' = 160 \<and> list_all (\<lambda>x. is_word x \<and> 8 dvd x) s'"

interpretation gsm_stream: lockstep frame_encoder frame_decoder "words 160" states_in_sync frame_good
proof
  fix Se T s assume "states_in_sync Se T" "words 160 s"
  moreover obtain S e where Se: "Se = (S, e)" by fastforce
  ultimately obtain S' e' c T' s' where "gsm_encode S e s = Some (S', e', c)" "gsm_decode T c = Some (Decoded T' s')"
    "gsm_ok S'" "gsm_ok T'" "in_sync S' T'" "words 50 e'" "length c = 33" "length s' = 160" "list_all (\<lambda>x. is_word x \<and> 8 dvd x) s'"
    using frame_step[of S T e s] by (auto simp: states_in_sync_def)
  then show "\<exists>Se' c T' s'. frame_encoder Se s = Some (Se', c) \<and> frame_decoder T c = Some (T', s') \<and>
      states_in_sync Se' T' \<and> frame_good s c s'"
    by (intro exI[of _ "(S', e')"] exI[of _ c] exI[of _ T'] exI[of _ s'])
      (simp add: frame_encoder_def frame_decoder_def states_in_sync_def frame_good_def Se)
qed

section \<open>Any sequence of calls\<close>

text \<open>
  The library as a program sees it: the handles created so far, and the static array of the coder, which
  all handles share.  One step is one call on one handle; a call that aborts has no step.
\<close>

inductive api_step :: "gsm_state list \<times> int list \<Rightarrow> gsm_state list \<times> int list \<Rightarrow> bool" where
  create: "gsm_create mem = Some S \<Longrightarrow> api_step (hs, e) (S # hs, e)"
| destroy: "i < length hs \<Longrightarrow> api_step (hs, e) (take i hs @ drop (Suc i) hs, e)"
| option_call: "i < length hs \<Longrightarrow> gsm_option (hs ! i) opt val = (S, r) \<Longrightarrow> api_step (hs, e) (hs[i := S], e)"
| encode: "i < length hs \<Longrightarrow> words 160 s \<Longrightarrow> gsm_encode (hs ! i) e s = Some (S, e', c) \<Longrightarrow> api_step (hs, e) (hs[i := S], e')"
| decode: "i < length hs \<Longrightarrow> length c = 33 \<Longrightarrow> gsm_decode (hs ! i) c = Some (Decoded S s) \<Longrightarrow> api_step (hs, e) (hs[i := S], e)"
| decode_bad: "i < length hs \<Longrightarrow> length c = 33 \<Longrightarrow> gsm_decode (hs ! i) c = Some Bad_magic \<Longrightarrow> api_step (hs, e) (hs, e)"

definition api_start :: "gsm_state list \<times> int list" where
  "api_start = ([], replicate 50 0)"

definition api_ok :: "gsm_state list \<times> int list \<Rightarrow> bool" where
  "api_ok = (\<lambda>(hs, e). list_all gsm_ok hs \<and> words 50 e)"

lemma gsm_option_ok: "gsm_ok S \<Longrightarrow> gsm_ok (fst (gsm_option S opt val))"
  by (auto simp: gsm_option_def gsm_ok_def short_term_ok_def split: option.splits)

lemma encode_keeps:
  assumes "gsm_ok S" "words 50 e" "words 160 s"
  shows "\<exists>S' e' c. gsm_encode S e s = Some (S', e', c) \<and> gsm_ok S' \<and> words 50 e'"
  using coder_value[OF assms] by (auto simp: gsm_encode_def)

lemma decode_any:
  assumes "gsm_ok S"
  shows "gsm_decode S c = Some Bad_magic \<and> gsm_unpack c = None \<or>
    (\<exists>S' s. gsm_decode S c = Some (Decoded S' s) \<and> gsm_ok S' \<and> length s = 160 \<and> gsm_unpack c \<noteq> None)"
proof (cases "gsm_unpack c")
  case (Some p)
  with decoder_value[OF assms unpack_ok[OF Some]] show ?thesis by (auto simp: gsm_decode_def)
qed (simp add: gsm_decode_def)

lemma decode_keeps:
  assumes "gsm_ok S"
  shows "gsm_decode S c = Some Bad_magic \<or> (\<exists>S' s. gsm_decode S c = Some (Decoded S' s) \<and> gsm_ok S')"
  using decode_any[OF assms, of c] by auto

lemma list_all_list_update: "list_all P xs \<Longrightarrow> P x \<Longrightarrow> list_all P (xs[i := x])"
  using set_update_subset_insert[of xs i x] by (auto simp: list_all_iff)

lemma api_step_ok:
  assumes "api_step w w'" "api_ok w"
  shows "api_ok w'"
  using assms
proof cases
  case create
  then show ?thesis using assms(2) gsm_initial_ok by (auto simp: api_ok_def gsm_create_def split: if_splits)
next
  case destroy
  then show ?thesis using assms(2) by (auto simp: api_ok_def list_all_iff dest: in_set_takeD in_set_dropD)
next
  case (option_call i hs opt val S r e)
  then have "gsm_ok S" using assms(2) gsm_option_ok[of "hs ! i" opt val] by (simp add: api_ok_def list_all_length)
  then show ?thesis using option_call assms(2) by (simp add: api_ok_def list_all_list_update)
next
  case (encode i hs s e S e' c)
  then have "gsm_ok S" "words 50 e'"
    using assms(2) encode_keeps[of "hs ! i" e s] by (auto simp: api_ok_def list_all_length)
  then show ?thesis using encode assms(2) by (simp add: api_ok_def list_all_list_update)
next
  case (decode i hs c S s e)
  then have "gsm_ok S" using assms(2) decode_keeps[of "hs ! i" c] by (auto simp: api_ok_def list_all_length)
  then show ?thesis using decode assms(2) by (simp add: api_ok_def list_all_list_update)
qed (use assms(2) in simp)

lemma api_reachable_ok: "api_step\<^sup>*\<^sup>* api_start w \<Longrightarrow> api_ok w"
proof (induction rule: rtranclp_induct)
  case base
  show ?case by (simp add: api_start_def api_ok_def)
qed (rule api_step_ok)

section \<open>Properties\<close>

text \<open>
  C1. The coder cannot fail and keeps its decoder in step: from states that satisfy the invariant and
  agree on the reconstructed residual and the past coefficients, coding any frame of 160 16-bit
  samples passes every assertion and gives 33 bytes; decoding those passes every assertion and
  gives 160 samples, multiples of 8; and the new states satisfy the invariant and agree again.
\<close>

theorem gsm_frame_in_sync:
  assumes "gsm_ok S" "gsm_ok T" "in_sync S T" "words 50 e" "words 160 s"
  shows "\<exists>S' e' c T' s'. gsm_encode S e s = Some (S', e', c) \<and> length c = 33 \<and> gsm_ok S' \<and> words 50 e' \<and>
    gsm_decode T c = Some (Decoded T' s') \<and> gsm_ok T' \<and> length s' = 160 \<and> (\<forall>x\<in>set s'. is_word x \<and> 8 dvd x) \<and>
    in_sync S' T'"
  using frame_step[OF assms] unfolding list_all_iff by blast

theorem gsm_frame_in_sync_witness:
  "\<exists>S' e' c T' s'. gsm_encode gsm_initial (replicate 50 0) (replicate 160 0) = Some (S', e', c) \<and>
    gsm_decode gsm_initial c = Some (Decoded T' s') \<and> in_sync S' T'"
  using gsm_frame_in_sync[OF gsm_initial_ok gsm_initial_ok _ words_replicate words_replicate]
  by (force simp: in_sync_def)

text \<open>
  C2. The decoder is safe on hostile input: whatever 33 bytes arrive in whatever reachable state,
  either the magic nibble is wrong and the call reports it, or no assertion fails, the
  invariant is kept and the output is 160 16-bit samples, multiples of 8.
\<close>

theorem gsm_decode_any_frame:
  assumes "gsm_ok T" "length c = 33"
  shows "(uint (c ! 0) div 16 \<noteq> 0xD \<longrightarrow> gsm_decode T c = Some Bad_magic) \<and>
    (uint (c ! 0) div 16 = 0xD \<longrightarrow> (\<exists>T' s. gsm_decode T c = Some (Decoded T' s) \<and> gsm_ok T' \<and>
       length s = 160 \<and> (\<forall>x\<in>set s. is_word x \<and> 8 dvd x)))"
proof (intro conjI impI)
  assume "uint (c ! 0) div 16 \<noteq> 0xD"
  then show "gsm_decode T c = Some Bad_magic"
    by (simp add: gsm_decode_def gsm_unpack_def magic_test GSM_MAGIC_def)
next
  assume "uint (c ! 0) div 16 = 0xD"
  then obtain p where p: "gsm_unpack c = Some p" by (simp add: gsm_unpack_def magic_test GSM_MAGIC_def Let_def)
  from decoder_value[OF assms(1) unpack_ok[OF p]]
  show "\<exists>T' s. gsm_decode T c = Some (Decoded T' s) \<and> gsm_ok T' \<and> length s = 160 \<and> (\<forall>x\<in>set s. is_word x \<and> 8 dvd x)"
    unfolding list_all_iff by (force simp: gsm_decode_def p)
qed

theorem gsm_decode_any_frame_witness:
  "gsm_decode gsm_initial (replicate 33 0) = Some Bad_magic \<and>
   (\<exists>T' s. gsm_decode gsm_initial (0xDF # replicate 32 0xFF) = Some (Decoded T' s) \<and> length s = 160)"
  using gsm_decode_any_frame[OF gsm_initial_ok, of "replicate 33 0"]
    gsm_decode_any_frame[OF gsm_initial_ok, of "0xDF # replicate 32 0xFF"] by auto

text \<open>
  C10. No sequence of calls of the library can abort: after any interleaving of creations, destructions,
  option, coding and decoding calls on any number of handles (which share the coder's static
  array), every handle satisfies the invariant, coding any 160 samples on it returns, and decoding
  any 33 bytes on it returns.
\<close>

theorem gsm_calls_never_abort:
  assumes "api_step\<^sup>*\<^sup>* api_start (hs, e)" "h \<in> set hs"
  shows "gsm_ok h \<and> (\<forall>s. words 160 s \<longrightarrow> gsm_encode h e s \<noteq> None) \<and> (\<forall>c. length c = 33 \<longrightarrow> gsm_decode h c \<noteq> None)"
proof -
  from api_reachable_ok[OF assms(1)] assms(2) have "gsm_ok h" "words 50 e" by (auto simp: api_ok_def list_all_iff)
  then show ?thesis using encode_keeps[of h e] decode_keeps[of h] by fastforce
qed

theorem gsm_calls_never_abort_witness:
  "gsm_encode gsm_initial (replicate 50 0) (replicate 160 32767) \<noteq> None"
proof -
  have "api_step\<^sup>*\<^sup>* api_start ([gsm_initial], replicate 50 0)"
    using api_step.create[of True gsm_initial "[]" "replicate 50 0"] by (auto simp: api_start_def gsm_create_def)
  from gsm_calls_never_abort[OF this, of gsm_initial] show ?thesis
    by (auto simp: words_def list_all_iff is_word_def)
qed

end
