(* ===== verification/Toast_Law.thy ===== *)
theory Toast_Law
  imports Gsm_Arith
begin

text \<open>
  \<^verbatim>\<open>toast_ulaw.c\<close> and \<^verbatim>\<open>toast_alaw.c\<close>: the tables that convert 8-bit companded samples to 16-bit
  linear ones and back.  The long tables \<open>s2u\<close> (8192 entries) and \<open>s2a\<close> (4096 entries) are written as runs
  of equal neighbours, each run a length and a value, in pieces of at most 150 source lines.
\<close>

unbundle bit_operations_syntax

section \<open>Definitions\<close>

definition expand :: "(int \<times> int) list \<Rightarrow> int list" where
  "expand rs = concat (map (\<lambda>(n, v). replicate (nat n) v) rs)"

definition u2s_rows :: "int list list" where
  "u2s_rows =
    [[33280, 34308, 35336, 36364, 37393, 38421, 39449, 40477, 41505, 42534, 43562, 44590, 45618, 46647, 47675, 48703],
     [49474, 49988, 50503, 51017, 51531, 52045, 52559, 53073, 53587, 54101, 54616, 55130, 55644, 56158, 56672, 57186],
     [57572, 57829, 58086, 58343, 58600, 58857, 59114, 59371, 59628, 59885, 60142, 60399, 60656, 60913, 61171, 61428],
     [61620, 61749, 61877, 62006, 62134, 62263, 62392, 62520, 62649, 62777, 62906, 63034, 63163, 63291, 63420, 63548],
     [63645, 63709, 63773, 63838, 63902, 63966, 64030, 64095, 64159, 64223, 64287, 64352, 64416, 64480, 64544, 64609],
     [64657, 64689, 64721, 64753, 64785, 64818, 64850, 64882, 64914, 64946, 64978, 65010, 65042, 65075, 65107, 65139],
     [65163, 65179, 65195, 65211, 65227, 65243, 65259, 65275, 65291, 65308, 65324, 65340, 65356, 65372, 65388, 65404],
     [65416, 65424, 65432, 65440, 65448, 65456, 65464, 65472, 65480, 65488, 65496, 65504, 65512, 65520, 65528, 0],
     [32256, 31228, 30200, 29172, 28143, 27115, 26087, 25059, 24031, 23002, 21974, 20946, 19918, 18889, 17861, 16833],
     [16062, 15548, 15033, 14519, 14005, 13491, 12977, 12463, 11949, 11435, 10920, 10406, 9892, 9378, 8864, 8350],
     [7964, 7707, 7450, 7193, 6936, 6679, 6422, 6165, 5908, 5651, 5394, 5137, 4880, 4623, 4365, 4108],
     [3916, 3787, 3659, 3530, 3402, 3273, 3144, 3016, 2887, 2759, 2630, 2502, 2373, 2245, 2116, 1988],
     [1891, 1827, 1763, 1698, 1634, 1570, 1506, 1441, 1377, 1313, 1249, 1184, 1120, 1056, 992, 927],
     [879, 847, 815, 783, 751, 718, 686, 654, 622, 590, 558, 526, 494, 461, 429, 397],
     [373, 357, 341, 325, 309, 293, 277, 261, 245, 228, 212, 196, 180, 164, 148, 132],
     [120, 112, 104, 96, 88, 80, 72, 64, 56, 48, 40, 32, 24, 16, 8, 0]]"

definition u2s :: "int list" where
  "u2s = concat u2s_rows"

definition s2u_1 :: "(int \<times> int) list" where
  "s2u_1 =
    [(1,255), (1,254), (1,253), (1,252), (1,251), (1,250), (1,249), (1,248), (1,247), (1,246), (1,245),
     (1,244), (1,243), (1,242), (1,241), (1,240), (2,239), (2,238), (2,237), (2,236), (2,235), (2,234),
     (2,233), (2,232), (2,231), (2,230), (2,229), (2,228), (2,227), (2,226), (2,225), (2,224), (4,223),
     (4,222), (4,221), (4,220), (4,219), (4,218), (4,217), (4,216), (4,215), (4,214), (4,213), (4,212),
     (4,211), (4,210), (4,209), (4,208), (8,207), (8,206), (8,205), (8,204), (8,203), (8,202), (8,201),
     (8,200), (8,199), (8,198), (8,197), (8,196), (9,195), (8,194), (8,193), (8,192), (16,191),
     (16,190), (16,189), (16,188), (16,187), (16,186), (16,185), (16,184), (16,183), (16,182), (16,181),
     (16,180), (16,179), (17,178), (16,177), (16,176), (32,175), (32,174), (32,173), (32,172), (32,171),
     (32,170), (33,169), (32,168), (32,167), (32,166), (32,165), (32,164), (32,163), (33,162), (32,161),
     (32,160), (64,159), (64,158), (65,157), (64,156), (64,155), (64,154), (65,153), (64,152), (64,151),
     (64,150), (65,149), (64,148), (64,147), (64,146), (65,145), (64,144), (129,143), (81,142)]"

definition s2u_2 :: "(int \<times> int) list" where
  "s2u_2 =
    [(47,142), (129,141), (128,140), (129,139), (128,138), (129,137), (128,136), (129,135), (128,134),
     (129,133), (128,132), (129,131), (128,130), (129,129), (128,128), (128,0), (129,1), (128,2),
     (19,3)]"

definition s2u_3 :: "(int \<times> int) list" where
  "s2u_3 =
    [(110,3), (128,4), (129,5), (128,6), (129,7), (129,8), (128,9), (129,10), (128,11), (129,12),
     (128,13), (129,14), (128,15), (64,16), (65,17), (64,18), (64,19), (65,20), (64,21), (64,22),
     (64,23), (65,24), (19,25)]"

definition s2u_4 :: "(int \<times> int) list" where
  "s2u_4 =
    [(45,25), (64,26), (64,27), (65,28), (64,29), (64,30), (64,31), (33,32), (32,33), (32,34), (32,35),
     (32,36), (32,37), (32,38), (33,39), (32,40), (32,41), (32,42), (32,43), (32,44), (32,45), (32,46),
     (33,47), (16,48), (16,49), (16,50), (16,51), (16,52), (16,53), (16,54), (16,55), (16,56), (16,57),
     (16,58), (16,59), (16,60), (17,61), (16,62), (16,63), (8,64), (8,65), (8,66), (8,67), (8,68),
     (8,69), (8,70), (8,71), (8,72), (8,73), (8,74), (8,75), (8,76), (8,77), (8,78), (8,79), (4,80),
     (4,81), (4,82), (4,83), (4,84), (4,85), (4,86), (4,87), (4,88), (4,89), (4,90), (4,91), (4,92),
     (4,93), (4,94), (4,95), (2,96), (2,97), (2,98), (2,99), (2,100), (2,101), (2,102), (2,103),
     (3,104), (2,105), (2,106), (2,107), (2,108), (2,109), (2,110), (2,111), (1,112), (1,113), (1,114),
     (1,115), (1,116), (1,117), (1,118), (1,119), (1,120), (1,121), (1,122), (1,123), (1,124), (1,125),
     (1,126)]"

definition s2u :: "int list" where
  "s2u = expand (s2u_1 @ s2u_2 @ s2u_3 @ s2u_4)"

definition U2S :: "int \<Rightarrow> int" where
  "U2S x = u2s ! nat (take_bit 8 x)"

definition S2U :: "int \<Rightarrow> int" where
  "S2U x = s2u ! nat (drop_bit 3 (take_bit 16 x))"

definition a2s_rows :: "int list list" where
  "a2s_rows =
    [[5120, 60160, 320, 65200, 20480, 44032, 1280, 64192, 2560, 62848, 64, 65456, 10240, 54784, 640, 64864],
     [7168, 58112, 448, 65072, 28672, 35840, 1792, 63680, 3584, 61824, 192, 65328, 14336, 50688, 896, 64608],
     [4096, 61184, 256, 65264, 16384, 48128, 1024, 64448, 2048, 63360, 0, 65520, 8192, 56832, 512, 64992],
     [6144, 59136, 384, 65136, 24576, 39936, 1536, 63936, 3072, 62336, 128, 65392, 12288, 52736, 768, 64736],
     [5632, 59648, 352, 65168, 22528, 41984, 1408, 64064, 2816, 62592, 96, 65424, 11264, 53760, 704, 64800],
     [7680, 57600, 480, 65040, 30720, 33792, 1920, 63552, 3840, 61568, 224, 65296, 15360, 49664, 960, 64544],
     [4608, 60672, 288, 65232, 18432, 46080, 1152, 64320, 2304, 63104, 32, 65488, 9216, 55808, 576, 64928],
     [6656, 58624, 416, 65104, 26624, 37888, 1664, 63808, 3328, 62080, 160, 65360, 13312, 51712, 832, 64672],
     [5376, 59904, 336, 65184, 21504, 43008, 1344, 64128, 2688, 62720, 80, 65440, 10752, 54272, 672, 64832],
     [7424, 57856, 464, 65056, 29696, 34816, 1856, 63616, 3712, 61696, 208, 65312, 14848, 50176, 928, 64576],
     [4352, 60928, 272, 65248, 17408, 47104, 1088, 64384, 2176, 63232, 16, 65504, 8704, 56320, 544, 64960],
     [6400, 58880, 400, 65120, 25600, 38912, 1600, 63872, 3200, 62208, 144, 65376, 12800, 52224, 800, 64704],
     [5888, 59392, 368, 65152, 23552, 40960, 1472, 64000, 2944, 62464, 112, 65408, 11776, 53248, 736, 64768],
     [7936, 57344, 496, 65024, 31744, 32768, 1984, 63488, 3968, 61440, 240, 65280, 15872, 49152, 992, 64512],
     [4864, 60416, 304, 65216, 19456, 45056, 1216, 64256, 2432, 62976, 48, 65472, 9728, 55296, 608, 64896],
     [6912, 58368, 432, 65088, 27648, 36864, 1728, 63744, 3456, 61952, 176, 65344, 13824, 51200, 864, 64640]]"

definition a2s :: "int list" where
  "a2s = concat a2s_rows"

definition s2a_1 :: "(int \<times> int) list" where
  "s2a_1 =
    [(1,170), (1,42), (1,234), (1,106), (1,138), (1,10), (1,202), (1,74), (1,186), (1,58), (1,250),
     (1,122), (1,154), (1,26), (1,218), (1,90), (1,162), (1,34), (1,226), (1,98), (1,130), (1,2),
     (1,194), (1,66), (1,178), (1,50), (1,242), (1,114), (1,146), (1,18), (1,210), (1,82), (1,174),
     (2,46), (2,238), (2,110), (2,142), (2,14), (2,206), (2,78), (2,190), (2,62), (2,254), (2,126),
     (2,158), (2,30), (2,222), (2,94), (2,166), (4,38), (4,230), (4,102), (4,134), (4,6), (4,198),
     (4,70), (4,182), (4,54), (4,246), (4,118), (4,150), (4,22), (4,214), (4,86), (4,168), (8,40),
     (8,232), (8,104), (8,136), (8,8), (8,200), (8,72), (8,184), (8,56), (8,248), (8,120), (8,152),
     (8,24), (8,216), (8,88), (8,160), (16,32), (16,224), (16,96), (16,128), (16,0), (16,192), (16,64),
     (16,176), (16,48), (16,240), (16,112), (16,144), (16,16), (16,208), (16,80), (16,172), (32,44),
     (32,236), (32,108), (32,140), (32,12), (32,204), (32,76), (32,188), (32,60), (32,252), (32,124),
     (32,156), (32,28), (32,220), (32,92), (32,164), (64,36), (64,228), (64,100), (64,132), (64,4),
     (64,196), (64,68), (64,180), (64,52), (64,244), (64,116), (64,148), (64,20), (64,212), (64,84),
     (64,85), (64,213), (64,21), (64,149), (64,117), (64,245), (15,53)]"

definition s2a_2 :: "(int \<times> int) list" where
  "s2a_2 =
    [(49,53), (64,181), (64,69), (64,197), (64,5), (64,133), (64,101), (64,229), (64,37), (64,165),
     (64,93), (32,221), (32,29), (32,157), (32,125), (32,253), (32,61), (32,189), (32,77), (32,205),
     (32,13), (32,141), (32,109), (32,237), (32,45), (32,173), (32,81), (16,209), (16,17), (16,145),
     (16,113), (16,241), (16,49), (16,177), (16,65), (16,193), (16,1), (16,129), (16,97), (16,225),
     (16,33), (16,161), (16,89), (8,217), (8,25), (8,153), (8,121), (8,249), (8,57), (8,185), (8,73),
     (8,201), (8,9), (8,137), (8,105), (8,233), (8,41), (8,169), (8,87), (4,215), (4,23), (4,151),
     (4,119), (4,247), (4,55), (4,183), (4,71), (4,199), (4,7), (4,135), (4,103), (4,231), (4,39),
     (4,167), (4,95), (2,223), (2,31), (2,159), (2,127), (2,255), (2,63), (2,191), (2,79), (2,207),
     (2,15), (2,143), (2,111), (2,239), (2,47), (2,175), (2,83), (1,211), (1,19), (1,147), (1,115),
     (1,243), (1,51), (1,179), (1,67), (1,195), (1,3), (1,131), (1,99), (1,227), (1,35), (1,163),
     (1,91), (1,219), (1,27), (1,155), (1,123), (1,251), (1,59), (1,187), (1,75), (1,203), (1,11),
     (1,139), (1,107), (1,235), (1,43), (1,171)]"

definition s2a :: "int list" where
  "s2a = expand (s2a_1 @ s2a_2)"

definition A2S :: "int \<Rightarrow> int" where
  "A2S x = a2s ! nat (take_bit 8 x)"

definition S2A :: "int \<Rightarrow> int" where
  "S2A x = s2a ! nat (drop_bit 4 (take_bit 16 x))"

section \<open>Reading a table of runs\<close>

text \<open>The runs with the index at which each starts.\<close>

fun spans :: "int \<Rightarrow> (int \<times> int) list \<Rightarrow> (int \<times> int \<times> int) list" where
  "spans k [] = []"
| "spans k ((n, v) # rs) = (k, n, v) # spans (k + n) rs"

fun inth :: "'a list \<Rightarrow> int \<Rightarrow> 'a" where
  "inth [] i = undefined"
| "inth (x # xs) i = (if i = 0 then x else inth xs (i - 1))"

definition lookup16 :: "'a list list \<Rightarrow> int \<Rightarrow> 'a" where
  "lookup16 rows i = inth (inth rows (i div 16)) (i mod 16)"

lemma inth_nth: "0 \<le> i \<Longrightarrow> nat i < length xs \<Longrightarrow> xs ! nat i = inth xs i"
proof (induction xs arbitrary: i)
  case (Cons x xs)
  show ?case
  proof (cases "i = 0")
    case False
    then have "nat i = Suc (nat (i - 1))" using Cons.prems(1) by simp
    with Cons.IH[of "i - 1"] Cons.prems False show ?thesis by simp
  qed simp
qed simp

definition runs_ok :: "(int \<times> int) list \<Rightarrow> bool" where
  "runs_ok rs \<longleftrightarrow> list_all (\<lambda>(n, v). 0 < n) rs"

lemma expand_Cons: "expand ((n, v) # rs) = replicate (nat n) v @ expand rs"
  by (simp add: expand_def)

lemma expand_span:
  assumes "runs_ok rs" "(a, n, v) \<in> set (spans k rs)" "a \<le> i" "i < a + n"
  shows "k \<le> i" "expand rs ! nat (i - k) = v"
proof -
  have "k \<le> i \<and> expand rs ! nat (i - k) = v"
    using assms
  proof (induction rs arbitrary: k)
    case (Cons r rs)
    obtain m w where r: "r = (m, w)" by fastforce
    have m: "0 < m" "runs_ok rs" using Cons.prems(1) by (simp_all add: runs_ok_def r)
    show ?case
    proof (cases "(a, n, v) = (k, m, w)")
      case True
      then show ?thesis using Cons.prems(3,4) by (simp add: r expand_Cons nth_append nat_less_iff)
    next
      case False
      with Cons.prems(2) have "(a, n, v) \<in> set (spans (k + m) rs)" by (auto simp: r)
      from Cons.IH[OF m(2) this Cons.prems(3,4)] m(1)
      show ?thesis by (auto simp: r expand_Cons nth_append nat_less_iff nat_diff_distrib' diff_diff_eq
          simp flip: nat_diff_distrib)
    qed
  qed simp
  then show "k \<le> i" "expand rs ! nat (i - k) = v" by simp_all
qed

text \<open>A run that the pieces split in two is one run of the table.\<close>

fun merge :: "(int \<times> int) list \<Rightarrow> (int \<times> int) list" where
  "merge [] = []"
| "merge [r] = [r]"
| "merge ((n, v) # (m, w) # rs) = (if v = w then merge ((n + m, v) # rs) else (n, v) # merge ((m, w) # rs))"

lemma runs_ok_Cons [simp]: "runs_ok [] \<longleftrightarrow> True" "runs_ok ((n, v) # rs) \<longleftrightarrow> 0 < n \<and> runs_ok rs"
  by (simp_all add: runs_ok_def)

lemma expand_merge:
  assumes "runs_ok rs"
  shows "runs_ok (merge rs) \<and> expand (merge rs) = expand rs"
  using assms
proof (induction rs rule: merge.induct)
  case (3 n v m w rs)
  then show ?case by (auto simp: expand_Cons nat_add_distrib replicate_add)
qed auto

definition s2u_runs :: "(int \<times> int) list" where
  "s2u_runs = merge (s2u_1 @ s2u_2 @ s2u_3 @ s2u_4)"

definition s2a_runs :: "(int \<times> int) list" where
  "s2a_runs = merge (s2a_1 @ s2a_2)"

lemma s2u_expand: "runs_ok s2u_runs" "s2u = expand s2u_runs"
proof -
  have "runs_ok (s2u_1 @ s2u_2 @ s2u_3 @ s2u_4)" by code_simp
  from expand_merge[OF this] show "runs_ok s2u_runs" "s2u = expand s2u_runs"
    by (simp_all add: s2u_runs_def s2u_def)
qed

lemma s2a_expand: "runs_ok s2a_runs" "s2a = expand s2a_runs"
proof -
  have "runs_ok (s2a_1 @ s2a_2)" by code_simp
  from expand_merge[OF this] show "runs_ok s2a_runs" "s2a = expand s2a_runs"
    by (simp_all add: s2a_runs_def s2a_def)
qed

section \<open>A decoding table beside its coding table\<close>

lemma spans_values: "snd ` set rs = (\<lambda>(a, n, v). v) ` set (spans k rs)"
  by (induction k rs rule: spans.induct) auto

lemma spans_cover:
  assumes "runs_ok rs" "k \<le> i" "i < k + sum_list (map fst rs)"
  shows "\<exists>a n v. (a, n, v) \<in> set (spans k rs) \<and> a \<le> i \<and> i < a + n"
  using assms
proof (induction k rs rule: spans.induct)
  case (2 k n v rs)
  show ?case
  proof (cases "i < k + n")
    case True
    with 2 show ?thesis by auto
  next
    case False
    with 2 obtain b m w where "(b, m, w) \<in> set (spans (k + n) rs)" "b \<le> i" "i < b + m" by (force simp: add.assoc)
    then show ?thesis by auto
  qed
qed simp

text \<open>
  The interface of a companding table pair: \<open>rs\<close> are the runs of the coding table, indexed by the sample
  without its low \<open>w\<close> bits, \<open>rows\<close> the decoding table; the run of code \<open>v\<close> contains the sample that \<open>f v\<close>
  decodes to.
\<close>

locale compander =
  fixes rs :: "(int \<times> int) list" and rows :: "int list list" and w :: nat and f :: "int \<Rightarrow> int"
  assumes positive: "runs_ok rs"
    and in_span: "list_all (\<lambda>(a, n, v). a * 2 ^ w \<le> lookup16 rows (f v) \<and> lookup16 rows (f v) < (a + n) * 2 ^ w \<and>
      lookup16 rows (f v) < 65536) (spans 0 rs)"
begin

lemma code_of_sample:
  assumes "v \<in> snd ` set rs"
  shows "expand rs ! nat (drop_bit w (take_bit 16 (lookup16 rows (f v)))) = v"
proof -
  let ?y = "lookup16 rows (f v)"
  obtain a n where s: "(a, n, v) \<in> set (spans 0 rs)" using assms spans_values[of rs 0] by auto
  with in_span have y: "a * 2 ^ w \<le> ?y" "?y < (a + n) * 2 ^ w" "?y < 65536" by (auto simp: list_all_iff)
  then have "a \<le> ?y div 2 ^ w" "?y div 2 ^ w < a + n" by (simp_all add: int_le_div_iff int_div_less_iff)
  note e = expand_span[OF positive s this]
  from e(1) have "0 \<le> ?y" by (simp add: int_le_div_iff)
  then have "take_bit 16 ?y = ?y" using y(3) by (simp add: take_bit_int_eq_self)
  with e(2) show ?thesis by (simp add: drop_bit_eq_div)
qed

lemma span_of_sample:
  assumes "0 \<le> x" "x < 65536" "65536 \<le> sum_list (map fst rs) * 2 ^ w"
  obtains a n where "(a, n, expand rs ! nat (drop_bit w (take_bit 16 x))) \<in> set (spans 0 rs)" "a * 2 ^ w \<le> x" "x < (a + n) * 2 ^ w"
proof -
  have "0 \<le> x div 2 ^ w" "x div 2 ^ w < 0 + sum_list (map fst rs)"
    using assms by (simp_all add: int_le_div_iff int_div_less_iff)
  from spans_cover[OF positive this] obtain a n v where s: "(a, n, v) \<in> set (spans 0 rs)" "a \<le> x div 2 ^ w" "x div 2 ^ w < a + n"
    by blast
  have "take_bit 16 x = x" using assms(1,2) by (simp add: take_bit_int_eq_self)
  with expand_span(2)[OF positive s] s show thesis
    by (intro that[of a n]) (simp_all add: drop_bit_eq_div int_le_div_iff int_div_less_iff)
qed

end

lemma concat_rows:
  assumes "\<forall>r\<in>set rows. length r = 16" "0 \<le> i" "i < 16 * int (length rows)"
  shows "concat rows ! nat i = lookup16 rows i"
  using assms
proof (induction rows arbitrary: i)
  case (Cons r rows)
  show ?case
  proof (cases "i < 16")
    case True
    then show ?thesis using Cons.prems inth_nth[of i r] by (simp add: lookup16_def nth_append nat_less_iff div_pos_pos_trivial mod_pos_pos_trivial)
  next
    case False
    define j where "j = i - 16"
    have j: "i = j + 16" "0 \<le> j" "j < 16 * int (length rows)" using False Cons.prems(3) by (simp_all add: j_def)
    have "i div 16 = j div 16 + 1" "i mod 16 = j mod 16" "0 \<le> j div 16" unfolding j(1) using j(2) by simp_all
    then have "lookup16 (r # rows) i = lookup16 rows j" by (simp add: lookup16_def)
    moreover have "concat (r # rows) ! nat i = concat rows ! nat j"
      using Cons.prems(1) j(2) by (simp add: nth_append j(1) nat_add_distrib)
    ultimately show ?thesis using Cons.IH[of j] Cons.prems(1) j by simp
  qed
qed simp

lemma U2S_lookup: "0 \<le> c \<Longrightarrow> c < 256 \<Longrightarrow> U2S c = lookup16 u2s_rows c"
  unfolding U2S_def u2s_def by (subst concat_rows[symmetric]) (simp_all add: u2s_rows_def take_bit_int_eq_self)

lemma A2S_lookup: "0 \<le> c \<Longrightarrow> c < 256 \<Longrightarrow> A2S c = lookup16 a2s_rows c"
  unfolding A2S_def a2s_def by (subst concat_rows[symmetric]) (simp_all add: a2s_rows_def take_bit_int_eq_self)

text \<open>The A-law tables disagree in the most significant bit of the code.\<close>

definition flip7 :: "int \<Rightarrow> int" where
  "flip7 v = (if v < 128 then v + 128 else v - 128)"

lemma u2s_spans: "list_all (\<lambda>(a, n, v). a * 2 ^ 3 \<le> lookup16 u2s_rows (id v) \<and> lookup16 u2s_rows (id v) < (a + n) * 2 ^ 3 \<and>
   lookup16 u2s_rows (id v) < 65536) (spans 0 s2u_runs)"
  by code_simp

lemma a2s_spans: "list_all (\<lambda>(a, n, v). a * 2 ^ 4 \<le> lookup16 a2s_rows (flip7 v) \<and> lookup16 a2s_rows (flip7 v) < (a + n) * 2 ^ 4 \<and>
   lookup16 a2s_rows (flip7 v) < 65536) (spans 0 s2a_runs)"
  by code_simp

interpretation ulaw: compander s2u_runs u2s_rows 3 id
  by unfold_locales (rule s2u_expand(1), rule u2s_spans)

interpretation alaw: compander s2a_runs a2s_rows 4 flip7
  by unfold_locales (rule s2a_expand(1), rule a2s_spans)

lemma s2u_values: "map snd s2u_runs = rev [128..255] @ [0..126]"
  by code_simp

lemma s2u_codes: "snd ` set s2u_runs = {128..255} \<union> {0..126}"
proof -
  have "set (map snd s2u_runs) = {128..255} \<union> {0..126}"
    unfolding s2u_values by (simp only: set_append set_rev set_upto)
  then show ?thesis by simp
qed

lemma s2a_values: "sort (map snd s2a_runs) = [0..255]"
  by code_simp

section \<open>Properties\<close>

lemma U2S_S2U_value:
  assumes "c \<in> snd ` set s2u_runs" "0 \<le> c" "c < 256"
  shows "S2U (U2S c) = c"
  using ulaw.code_of_sample[OF assms(1)] by (simp add: S2U_def s2u_expand(2) U2S_lookup[OF assms(2,3)])

text \<open>
  The u-law tables fit together: coding a decoded code gives the code back, for all 256 codes but
  one, the negative zero \<open>0177\<close>, which comes back as the positive zero \<open>0377\<close>.
\<close>

theorem ulaw_roundtrip:
  assumes "0 \<le> c" "c < 256"
  shows "S2U (U2S c) = (if c = 127 then 255 else c)"
proof (cases "c = 127")
  case True
  have "U2S 127 = 0" "U2S 255 = 0" by (simp_all add: U2S_lookup lookup16_def u2s_rows_def)
  moreover have "255 \<in> snd ` set s2u_runs" unfolding s2u_codes by simp
  ultimately show ?thesis using U2S_S2U_value[of 255] True by simp
next
  case False
  have "c \<in> snd ` set s2u_runs" using assms False unfolding s2u_codes by auto
  with False assms show ?thesis by (simp add: U2S_S2U_value)
qed

theorem ulaw_roundtrip_witness: "S2U (U2S 127) = 255 \<and> S2U (U2S 0) = 0"
  using ulaw_roundtrip[of 127] ulaw_roundtrip[of 0] by simp

definition signed16 :: "int \<Rightarrow> int" where
  "signed16 x = (if x < 32768 then x else x - 65536)"

lemma s16_signed16:
  assumes "0 \<le> z" "z < 65536"
  shows "s16 z = signed16 z"
proof (cases "z < 32768")
  case True
  then show ?thesis using assms by (simp add: signed16_def s16_id)
next
  case False
  have "s16 z = s16 (z - 65536)"
    by (rule signed_take_bit_eq_iff_take_bit_eq[THEN iffD2]) (simp add: take_bit_eq_mod)
  then show ?thesis using assms False by (simp add: signed16_def s16_id)
qed

definition near :: "int \<Rightarrow> int \<Rightarrow> bool" where
  "near y x \<longleftrightarrow> 16 * \<bar>y - x\<bar> \<le> \<bar>x\<bar> + 132"

text \<open>The error is convex in the sample, so the ends of a run decide.\<close>

lemma near_between:
  assumes "near y lo" "near y hi" "lo \<le> x" "x \<le> hi" "0 \<le> lo \<or> hi < 0"
  shows "near y x"
  using assms unfolding near_def by (auto simp: abs_if split: if_splits)

lemma ulaw_ends: "list_all (\<lambda>(a, n, v).
    (let y = signed16 (lookup16 u2s_rows v); lo = signed16 (a * 8); hi = signed16 ((a + n) * 8 - 1)
     in near y lo \<and> near y hi \<and> lo \<le> hi \<and> (0 \<le> lo \<or> hi < 0) \<and> 0 \<le> v \<and> v < 256 \<and> 0 \<le> a \<and> a + n \<le> 8192 \<and>
      0 \<le> lookup16 u2s_rows v \<and> lookup16 u2s_rows v < 65536)) (spans 0 s2u_runs)"
  by code_simp

lemma s2u_total: "sum_list (map fst s2u_runs) = 8192"
  by code_simp

text \<open>
  u-law companding loses little: decoding the code of any 16-bit sample gives a sample
  within a sixteenth of its magnitude, plus 8 for the smallest ones.
\<close>

theorem ulaw_error:
  assumes "is_word x"
  shows "16 * \<bar>s16 (U2S (S2U x)) - x\<bar> \<le> \<bar>x\<bar> + 132"
proof -
  define z where "z = take_bit 16 x"
  have z: "0 \<le> z" "z < 65536" using take_bit_int_less_exp[of 16 x] by (simp_all add: z_def)
  have "s16 x = s16 z" by (simp add: z_def signed_take_bit_take_bit)
  then have x: "x = signed16 z" using assms s16_signed16[OF z] by simp
  let ?v = "S2U x"
  have v: "expand s2u_runs ! nat (drop_bit 3 (take_bit 16 z)) = ?v" by (simp add: S2U_def s2u_expand(2) z_def)
  obtain a n where s: "(a, n, ?v) \<in> set (spans 0 s2u_runs)" "a * 8 \<le> z" "z < (a + n) * 8"
    using ulaw.span_of_sample[OF z] unfolding v by (auto simp: s2u_total)
  let ?lo = "signed16 (a * 8)" and ?hi = "signed16 ((a + n) * 8 - 1)"
  have e: "near (signed16 (lookup16 u2s_rows ?v)) ?lo" "near (signed16 (lookup16 u2s_rows ?v)) ?hi" "?lo \<le> ?hi" "0 \<le> ?lo \<or> ?hi < 0"
    "0 \<le> ?v" "?v < 256" "0 \<le> a" "a + n \<le> 8192" "0 \<le> lookup16 u2s_rows ?v" "lookup16 u2s_rows ?v < 65536"
    using s(1) ulaw_ends by (auto simp: list_all_iff Let_def)
  have "?lo \<le> x" "x \<le> ?hi" using s(2,3) e(3,4,7,8) x unfolding signed16_def by (auto split: if_splits)
  from near_between[OF e(1,2) this e(4)] show ?thesis
    by (simp add: near_def U2S_lookup[OF e(5,6)] s16_signed16[OF e(9,10)])
qed

theorem ulaw_error_witness: "16 * \<bar>s16 (U2S (S2U (-12345))) - (-12345)\<bar> \<le> \<bar>-12345\<bar> + 132"
  by (rule ulaw_error) (simp add: is_word_def)

text \<open>
  The A-law tables do not fit together: coding a decoded code always gives another code, the one
  with the most significant bit flipped.
\<close>

theorem alaw_tables_disagree:
  assumes "0 \<le> c" "c < 256"
  shows "S2A (A2S c) = c XOR 128 \<and> S2A (A2S c) \<noteq> c"
proof -
  have "list_all (\<lambda>c. flip7 (flip7 c) = c \<and> flip7 c = c XOR 128 \<and> flip7 c \<noteq> c \<and> 0 \<le> flip7 c \<and> flip7 c < 256) [0..255]"
    by code_simp
  moreover have "c \<in> {0..255}" using assms by simp
  ultimately have f: "flip7 (flip7 c) = c" "flip7 c = c XOR 128" "flip7 c \<noteq> c" "0 \<le> flip7 c" "flip7 c < 256"
    unfolding list_all_iff set_upto by blast+
  have "set (sort (map snd s2a_runs)) = {0..255}" unfolding s2a_values by (rule set_upto)
  then have "flip7 c \<in> snd ` set s2a_runs" using f(4,5) by auto
  from alaw.code_of_sample[OF this] have "S2A (A2S c) = flip7 c"
    by (simp add: S2A_def s2a_expand(2) A2S_lookup[OF assms] f(1))
  with f show ?thesis by simp
qed

theorem alaw_tables_disagree_witness: "S2A (A2S 42) = 170"
proof -
  have "(42 :: int) XOR 128 = 170" by code_simp
  with alaw_tables_disagree[of 42] show ?thesis by simp
qed

text \<open>
  A-law coding flips the sign of the loudest positive samples: each sample from 31760 to 32767 is
  coded as \<open>85\<close>, which decodes to -31744.
\<close>

theorem alaw_flips_peak:
  assumes "31760 \<le> x" "x \<le> 32767"
  shows "S2A x = 85 \<and> s16 (A2S (S2A x)) = -31744"
proof -
  have s: "(1985, 64, 85) \<in> set (spans 0 s2a_runs)" by code_simp
  have "1985 \<le> x div 16" "x div 16 < 1985 + 64" using assms by (simp_all add: int_le_div_iff int_div_less_iff)
  from expand_span(2)[OF s2a_expand(1) s this] have "S2A x = 85"
    using assms by (simp add: S2A_def s2a_expand(2) take_bit_int_eq_self drop_bit_eq_div)
  moreover have "A2S 85 = 33792" by (simp add: A2S_lookup lookup16_def a2s_rows_def)
  ultimately show ?thesis by (simp add: s16_signed16 signed16_def)
qed

theorem alaw_flips_peak_witness: "S2A 32767 = 85 \<and> s16 (A2S (S2A 32767)) = -31744"
  by (rule alaw_flips_peak) simp_all

end
