(* ===== verification/Toast.thy ===== *)
theory Toast
  imports Gsm_Codec Toast_Law
begin

text \<open>
  The program \<open>toast\<close> over byte streams: the sample formats of \<^verbatim>\<open>toast_ulaw.c\<close>, \<^verbatim>\<open>toast_alaw.c\<close>,
  \<^verbatim>\<open>toast_lin.c\<close> and \<^verbatim>\<open>toast_audio.c\<close>, and the coding and decoding loops of \<^verbatim>\<open>toast.c\<close>.

  A file open for reading is its contents, a position, whether a read at the end reports an
  error, and whether it can seek; a file open for writing is what was written and the room left on the device.
\<close>

unbundle bit_operations_syntax

section \<open>Definitions\<close>

subsection \<open>Standard input and output\<close>

record istream =
  i_data :: "u8 list"
  i_pos :: nat
  i_err :: bool
  i_seek :: bool

record ostream =
  o_data :: "u8 list"
  o_room :: nat

text \<open>\<open>None\<close> is \<open>EOF\<close>.\<close>

definition fgetc :: "istream \<Rightarrow> u8 option \<times> istream" where
  "fgetc f = (if i_pos f < length (i_data f) then (Some (i_data f ! i_pos f), f\<lparr>i_pos := i_pos f + 1\<rparr>) else (None, f))"

text \<open>\<open>fread\<close> of up to \<open>n\<close> bytes.\<close>

definition fread :: "nat \<Rightarrow> istream \<Rightarrow> u8 list \<times> istream" where
  "fread n f = (let bs = take n (drop (i_pos f) (i_data f)) in (bs, f\<lparr>i_pos := i_pos f + length bs\<rparr>))"

text \<open>Writing a run of bytes one after the other, until the device is full; the first result says whether all were written.\<close>

definition fputs_bytes :: "u8 list \<Rightarrow> ostream \<Rightarrow> bool \<times> ostream" where
  "fputs_bytes bs f =
    (let w = take (o_room f) bs
     in (length bs \<le> o_room f, f\<lparr>o_data := o_data f @ w, o_room := o_room f - length w\<rparr>))"

subsection \<open>Sample formats\<close>

text \<open>The functions the pointers \<open>input\<close> and \<open>output\<close> may point to.\<close>

datatype law = ulaw_fn | alaw_fn | linear_fn

fun getc_loop :: "(int \<Rightarrow> int) \<Rightarrow> nat \<Rightarrow> istream \<Rightarrow> int list \<times> bool \<times> istream" where
  "getc_loop conv 0 f = ([], False, f)"
| "getc_loop conv (Suc n) f =
    (case fgetc f of
       (None, f) \<Rightarrow> ([], True, f)
     | (Some c, f) \<Rightarrow> (let (buf, eof, f) = getc_loop conv n f in (s16 (conv (uint c)) # buf, eof, f)))"

text \<open>The count the function returns, the samples it stored and the stream.\<close>

definition law_input :: "(int \<Rightarrow> int) \<Rightarrow> istream \<Rightarrow> int \<times> int list \<times> istream" where
  "law_input conv f =
    (let (buf, eof, f) = getc_loop conv 160 f
     in if eof \<and> i_err f then (-1, buf, f) else (int (length buf), buf, f))"

definition ulaw_input :: "istream \<Rightarrow> int \<times> int list \<times> istream" where
  "ulaw_input = law_input U2S"

definition alaw_input :: "istream \<Rightarrow> int \<times> int list \<times> istream" where
  "alaw_input = law_input A2S"

fun le_samples :: "u8 list \<Rightarrow> int list" where
  "le_samples [] = []"
| "le_samples [a] = []"
| "le_samples (a # b # bs) = s16 (uint a + 256 * uint b) # le_samples bs"

definition linear_input :: "istream \<Rightarrow> int \<times> int list \<times> istream" where
  "linear_input f = (let (bs, f) = fread 320 f; buf = le_samples bs in (int (length buf), buf, f))"

definition ulaw_output :: "int list \<Rightarrow> ostream \<Rightarrow> bool \<times> ostream" where
  "ulaw_output buf = fputs_bytes (map (\<lambda>x. word_of_int (S2U x)) buf)"

definition alaw_output :: "int list \<Rightarrow> ostream \<Rightarrow> bool \<times> ostream" where
  "alaw_output buf = fputs_bytes (map (\<lambda>x. word_of_int (S2A x)) buf)"

definition linear_output :: "int list \<Rightarrow> ostream \<Rightarrow> bool \<times> ostream" where
  "linear_output buf = fputs_bytes (concat (map (\<lambda>x. [word_of_int x, word_of_int (drop_bit 8 x)]) buf))"

fun input_via :: "law \<Rightarrow> istream \<Rightarrow> int \<times> int list \<times> istream" where
  "input_via ulaw_fn = ulaw_input"
| "input_via alaw_fn = alaw_input"
| "input_via linear_fn = linear_input"

fun output_via :: "law \<Rightarrow> int list \<Rightarrow> ostream \<Rightarrow> bool \<times> ostream" where
  "output_via ulaw_fn = ulaw_output"
| "output_via alaw_fn = alaw_output"
| "output_via linear_fn = linear_output"

subsection \<open>The Sun audio header\<close>

definition put_u32 :: "64 word \<Rightarrow> ostream \<Rightarrow> bool \<times> ostream" where
  "put_u32 u = fputs_bytes [ucast (drop_bit 24 u AND 0xFF), ucast (drop_bit 16 u AND 0xFF),
     ucast (drop_bit 8 u AND 0xFF), ucast (u AND 0xFF)]"

definition get_u32 :: "istream \<Rightarrow> (64 word \<times> istream) option" where
  "get_u32 f =
    (case fgetc f of (None, f) \<Rightarrow> None | (Some a, f) \<Rightarrow>
     (case fgetc f of (None, f) \<Rightarrow> None | (Some b, f) \<Rightarrow>
     (case fgetc f of (None, f) \<Rightarrow> None | (Some c, f) \<Rightarrow>
     (case fgetc f of (None, f) \<Rightarrow> None | (Some d, f) \<Rightarrow>
        Some (push_bit 8 (push_bit 8 (push_bit 8 (ucast a) OR ucast b) OR ucast c) OR ucast d, f)))))"

text \<open>\<open>fseek\<close> from the current position.\<close>

definition fseek_cur :: "istream \<Rightarrow> int \<Rightarrow> istream option" where
  "fseek_cur f off = (if i_seek f \<and> 0 \<le> int (i_pos f) + off then Some (f\<lparr>i_pos := nat (int (i_pos f) + off)\<rparr>) else None)"

definition expect :: "char \<Rightarrow> istream \<Rightarrow> istream option" where
  "expect ch f = (case fgetc f of (Some c, f) \<Rightarrow> (if c = of_char ch then Some f else None) | (None, f) \<Rightarrow> None)"

text \<open>\<open>None\<close> is the return value -1; otherwise the new value of the pointer \<open>input\<close> and the stream.\<close>

definition audio_init_input :: "istream \<Rightarrow> (law \<times> istream) option" where
  "audio_init_input f = do {
    f \<leftarrow> expect (CHR ''.'') f;
    f \<leftarrow> expect (CHR ''s'') f;
    f \<leftarrow> expect (CHR ''n'') f;
    f \<leftarrow> expect (CHR ''d'') f;
    (len, f) \<leftarrow> get_u32 f;
    (enc, f) \<leftarrow> get_u32 f;
    (enc, f) \<leftarrow> get_u32 f;
    f \<leftarrow> fseek_cur f (sint (len - 16));
    Some (if enc = 1 then ulaw_fn else if enc = 2 then alaw_fn else if enc = 3 then linear_fn else ulaw_fn, f) }"

fun put_all :: "64 word list \<Rightarrow> ostream \<Rightarrow> bool \<times> ostream" where
  "put_all [] f = (True, f)"
| "put_all (u # us) f = (case put_u32 u f of (False, f) \<Rightarrow> (False, f) | (True, f) \<Rightarrow> put_all us f)"

definition audio_init_output :: "ostream \<Rightarrow> bool \<times> ostream" where
  "audio_init_output f =
    (case fputs_bytes (map of_char ''.snd'') f of
       (False, f) \<Rightarrow> (False, f)
     | (True, f) \<Rightarrow> put_all [32, NOT 0, 1, 8000, 1, 0, 0] f)"

subsection \<open>The coding and decoding loops\<close>

text \<open>What is left to read, and the samples a format makes of bytes.\<close>

definition rest :: "istream \<Rightarrow> u8 list" where
  "rest f = drop (i_pos f) (i_data f)"

fun width :: "law \<Rightarrow> nat" where
  "width linear_fn = 2"
| "width _ = 1"

fun samples :: "law \<Rightarrow> u8 list \<Rightarrow> int list" where
  "samples ulaw_fn bs = map (\<lambda>c. s16 (U2S (uint c))) bs"
| "samples alaw_fn bs = map (\<lambda>c. s16 (A2S (uint c))) bs"
| "samples linear_fn bs = le_samples bs"

lemma rest_advance [simp]: "rest (f\<lparr>i_pos := i_pos f + n\<rparr>) = drop n (rest f)"
  by (simp add: rest_def add.commute)

lemma getc_loop_value:
  "getc_loop conv n f =
    (map (\<lambda>c. s16 (conv (uint c))) (take n (rest f)), length (rest f) < n, f\<lparr>i_pos := i_pos f + length (take n (rest f))\<rparr>)"
proof (induction n arbitrary: f)
  case (Suc n)
  show ?case
  proof (cases "i_pos f < length (i_data f)")
    case True
    then have r: "rest f = i_data f ! i_pos f # rest (f\<lparr>i_pos := i_pos f + 1\<rparr>)" "rest f = i_data f ! i_pos f # drop (Suc (i_pos f)) (i_data f)"
      by (simp_all add: rest_def Cons_nth_drop_Suc)
    have "fgetc f = (Some (i_data f ! i_pos f), f\<lparr>i_pos := i_pos f + 1\<rparr>)" using True by (simp add: fgetc_def)
    then show ?thesis by (simp add: Suc r(2) del: rest_advance) (simp add: rest_def min_def)
  next
    case False
    then show ?thesis by (simp add: fgetc_def rest_def)
  qed
qed simp

lemma le_samples_length: "length (le_samples bs) = length bs div 2"
  by (induction bs rule: le_samples.induct) auto

lemma input_via_value:
  "input_via law f =
    (let bs = take (160 * width law) (rest f)
     in (if law \<noteq> linear_fn \<and> length (rest f) < 160 \<and> i_err f then -1 else int (length (samples law bs)),
         samples law bs, f\<lparr>i_pos := i_pos f + length bs\<rparr>))"
  by (cases law)
    (simp_all add: ulaw_input_def alaw_input_def law_input_def linear_input_def getc_loop_value fread_def Let_def rest_def)

lemma samples_length: "length (samples law bs) = length bs div width law"
  by (cases law) (simp_all add: le_samples_length)

lemma samples_words: "list_all is_word (samples law bs)"
proof -
  have "list_all is_word (le_samples bs)" by (induction bs rule: le_samples.induct) simp_all
  then show ?thesis by (cases law) (simp_all add: list_all_iff)
qed

text \<open>
  The loop of \<open>process_encode\<close>: the return value, the output and the coder's static array.
  \<open>None\<close> is a failed assertion.
\<close>

lemma input_via_progress:
  assumes "input_via law f = (cc, s, f')" "0 < cc"
  shows "length (rest f') < length (rest f)" "length s = nat cc" "cc \<le> 160" "list_all is_word s"
proof -
  let ?bs = "take (160 * width law) (rest f)"
  have v: "cc = int (length (samples law ?bs))" "s = samples law ?bs" "f' = f\<lparr>i_pos := i_pos f + length ?bs\<rparr>"
    using assms by (auto simp: input_via_value Let_def split: if_splits)
  have w: "width law = 1 \<or> width law = 2" by (cases law) simp_all
  have n: "0 < length ?bs div width law" using assms(2) v(1) by (simp add: samples_length)
  then have "0 < length ?bs" by (cases "length ?bs = 0") auto
  then show "length (rest f') < length (rest f)" unfolding v(3) rest_advance by auto
  show "length s = nat cc" "list_all is_word s" by (simp_all add: v samples_words)
  have "length ?bs \<le> 160 * width law" by simp
  then have "length ?bs div width law \<le> 160" using w by auto
  then show "cc \<le> 160" by (simp add: v(1) samples_length)
qed

function encode_loop ::
  "law \<Rightarrow> gsm_state \<Rightarrow> int list \<Rightarrow> istream \<Rightarrow> ostream \<Rightarrow> (int \<times> ostream \<times> int list) option" where
  "encode_loop law r e fin fout =
    (case input_via law fin of (cc, s, fin') \<Rightarrow>
       if cc > 0 then
         (let s = (if cc < 160 then s @ replicate (nat (160 - cc)) 0 else s)
          in case gsm_encode r e s of
               None \<Rightarrow> None
             | Some (r, e, d) \<Rightarrow>
                 (case fputs_bytes d fout of
                    (False, fout) \<Rightarrow> Some (-1, fout, e)
                  | (True, fout) \<Rightarrow> encode_loop law r e fin' fout))
       else if cc < 0 then Some (-1, fout, e)
       else Some (0, fout, e))"
  by pat_completeness auto
termination
  by (relation "measure (\<lambda>(law, r, e, fin, fout). length (rest fin))") (auto dest: input_via_progress(1)[OF sym])

definition process_encode ::
  "bool \<Rightarrow> int \<Rightarrow> int \<Rightarrow> law \<Rightarrow> int list \<Rightarrow> istream \<Rightarrow> ostream \<Rightarrow> (int \<times> ostream \<times> int list) option" where
  "process_encode mem f_fast f_verbose law e fin fout =
    (case gsm_create mem of
       None \<Rightarrow> Some (-1, fout, e)
     | Some r \<Rightarrow>
         (let (r, _) = gsm_option r 2 (Some f_fast);
              (r, _) = gsm_option r 1 (Some f_verbose)
          in encode_loop law r e fin fout))"

text \<open>\<open>process_decode\<close>: the read count is never negative, so the test after the loop never succeeds.\<close>

function decode_loop :: "law \<Rightarrow> gsm_state \<Rightarrow> istream \<Rightarrow> ostream \<Rightarrow> (int \<times> ostream) option" where
  "decode_loop law r fin fout =
    (case fread 33 fin of (s, fin') \<Rightarrow>
       if length s > 0 then
         (if length s \<noteq> 33 then Some (-1, fout)
          else case gsm_decode r s of
                 None \<Rightarrow> None
               | Some Bad_magic \<Rightarrow> Some (-1, fout)
               | Some (Decoded r d) \<Rightarrow>
                   (case output_via law d fout of
                      (False, fout) \<Rightarrow> Some (-1, fout)
                    | (True, fout) \<Rightarrow> decode_loop law r fin' fout))
       else Some (0, fout))"
  by pat_completeness auto
termination
  by (relation "measure (\<lambda>(law, r, fin, fout). length (rest fin))")
    (auto simp: fread_def Let_def rest_def)

definition process_decode ::
  "bool \<Rightarrow> int \<Rightarrow> int \<Rightarrow> law \<Rightarrow> istream \<Rightarrow> ostream \<Rightarrow> (int \<times> ostream) option" where
  "process_decode mem f_fast f_verbose law fin fout =
    (case gsm_create mem of
       None \<Rightarrow> Some (-1, fout)
     | Some r \<Rightarrow>
         (let (r, _) = gsm_option r 2 (Some f_fast);
              (r, _) = gsm_option r 1 (Some f_verbose)
          in decode_loop law r fin fout))"

declare encode_loop.simps [simp del] decode_loop.simps [simp del]

section \<open>The loops as runs of the codec\<close>

text \<open>The frames of a list of samples, the last one filled up with silence.\<close>

function blocks :: "int list \<Rightarrow> int list list" where
  "blocks xs = (if xs = [] then [] else (take 160 xs @ replicate (160 - length xs) 0) # blocks (drop 160 xs))"
  by pat_completeness auto
termination
  by (relation "measure length") auto

declare blocks.simps [simp del]

lemma length_blocks: "length (blocks xs) = (length xs + 159) div 160"
proof (induction xs rule: blocks.induct)
  case (1 xs)
  show ?case
  proof (cases "160 \<le> length xs")
    case True
    then have "(length xs + 159) div 160 = Suc ((length xs - 160 + 159) div 160)"
      using div_add_self2[of 160 "length xs - 160 + 159"] by simp
    moreover have "length (blocks xs) = Suc (length (blocks (drop 160 xs)))" using True by (subst blocks.simps) auto
    moreover have "xs \<noteq> []" using True by auto
    ultimately show ?thesis using 1 by simp
  next
    case False
    then have "blocks (drop 160 xs) = []" by (subst blocks.simps) simp
    with False show ?thesis by (subst blocks.simps) (cases xs; auto simp: Let_def)
  qed
qed

lemma blocks_words:
  assumes "list_all is_word xs"
  shows "list_all (words 160) (blocks xs)"
  using assms
proof (induction xs rule: blocks.induct)
  case (1 xs)
  have "list_all is_word (drop 160 xs)" "list_all is_word (take 160 xs)"
    using 1(2) by (auto simp: list_all_iff dest: in_set_dropD in_set_takeD)
  moreover have "list_all is_word (replicate n 0)" for n by (simp add: list_all_iff is_word_def)
  ultimately show ?case using 1(1) by (subst blocks.simps) (auto simp: words_def[of _ "_ @ _"])
qed

lemma le_samples_take: "le_samples (take (2 * n) bs) = take n (le_samples bs)"
proof (induction bs arbitrary: n rule: le_samples.induct)
  case (2 a)
  then show ?case by (cases n) simp_all
next
  case (3 a b bs)
  then show ?case by (cases n) simp_all
qed simp

lemma le_samples_drop: "le_samples (drop (2 * n) bs) = drop n (le_samples bs)"
proof (induction bs arbitrary: n rule: le_samples.induct)
  case (2 a)
  then show ?case by (cases n) simp_all
next
  case (3 a b bs)
  then show ?case by (cases n) simp_all
qed simp

lemma samples_take:
  "samples law (take (n * width law) bs) = take n (samples law bs)"
  "samples law (drop (n * width law) bs) = drop n (samples law bs)"
  using le_samples_take[of n bs] le_samples_drop[of n bs] by (cases law; simp add: take_map drop_map mult.commute)+

lemma input_block:
  assumes "law = linear_fn \<or> \<not> i_err f" "xs = samples law (rest f)" "input_via law f = (cc, s, f')"
  shows "cc = int (min 160 (length xs))" "s = take 160 xs" "samples law (rest f') = drop 160 xs" "i_err f' = i_err f"
proof -
  have "length (rest f) \<le> 160 * width law \<Longrightarrow> drop (length (rest f)) (rest f) = drop (160 * width law) (rest f)" by simp
  then have d: "drop (length (take (160 * width law) (rest f))) (rest f) = drop (160 * width law) (rest f)"
    by (cases "length (rest f) \<le> 160 * width law") (auto simp: min_def)
  have "cc = int (length (samples law (take (160 * width law) (rest f))))" "s = samples law (take (160 * width law) (rest f))"
    "f' = f\<lparr>i_pos := i_pos f + length (take (160 * width law) (rest f))\<rparr>"
    using assms(1,3) by (auto simp: input_via_value Let_def)
  note v = this
  show "cc = int (min 160 (length xs))" unfolding v(1) assms(2) samples_take length_take by (simp only: min.commute)
  show "s = take 160 xs" unfolding v(2) assms(2) samples_take ..
  show "samples law (rest f') = drop 160 xs" unfolding v(3) rest_advance d assms(2) samples_take ..
  show "i_err f' = i_err f" by (simp add: v(3))
qed

lemma fputs_room:
  "length bs \<le> o_room f \<Longrightarrow> fputs_bytes bs f = (True, f\<lparr>o_data := o_data f @ bs, o_room := o_room f - length bs\<rparr>)"
  by (simp add: fputs_bytes_def)

lemma encode_loop_run:
  assumes "gsm_ok r" "words 50 e" "law = linear_fn \<or> \<not> i_err fin"
    "33 * length (blocks (samples law (rest fin))) \<le> o_room fout"
  shows "\<exists>r' e' cs fout'. run frame_encoder (r, e) (blocks (samples law (rest fin))) = Some ((r', e'), cs) \<and>
    encode_loop law r e fin fout = Some (0, fout', e') \<and> o_data fout' = o_data fout @ concat cs"
  using assms
proof (induction law r e fin fout rule: encode_loop.induct)
  case (1 law r e fin fout)
  let ?xs = "samples law (rest fin)"
  obtain cc s fin' where i: "input_via law fin = (cc, s, fin')" by (metis prod_cases3)
  note b = input_block[OF "1.prems"(3) refl i]
  show ?case
  proof (cases "?xs = []")
    case True
    then show ?thesis using b by (simp add: encode_loop.simps[of law r e fin] i blocks.simps)
  next
    case False
    define s' where "s' = take 160 ?xs @ replicate (160 - length ?xs) 0"
    have s': "(if cc < 160 then s @ replicate (nat (160 - cc)) 0 else s) = s'" "0 < cc"
      using False by (auto simp: b s'_def)
    have bl: "blocks ?xs = s' # blocks (drop 160 ?xs)" using False by (subst blocks.simps) (simp add: s'_def)
    then have "words 160 s'" using blocks_words[OF samples_words[of law "rest fin"]] by simp
    then obtain r1 e1 c where c: "gsm_encode r e s' = Some (r1, e1, c)" "gsm_ok r1" "words 50 e1" "length c = 33"
      using frame_step[OF "1.prems"(1) "1.prems"(1) _ "1.prems"(2)] by (force simp: in_sync_def)
    define f1 where "f1 = fout\<lparr>o_data := o_data fout @ c, o_room := o_room fout - 33\<rparr>"
    have p: "fputs_bytes c fout = (True, f1)" using "1.prems"(4) c(4) by (simp add: fputs_room f1_def bl)
    have IH: "\<exists>r' e' cs fout'. run frame_encoder (r1, e1) (blocks (samples law (rest fin'))) = Some ((r', e'), cs) \<and>
        encode_loop law r1 e1 fin' f1 = Some (0, fout', e') \<and> o_data fout' = o_data f1 @ concat cs"
      by (rule "1.IH"[OF i[symmetric] refl s'(2) refl _ refl refl _ _ c(2,3)])
        (use s'(1) c(1) p[symmetric] "1.prems"(3,4) b(3,4) bl in \<open>simp_all add: f1_def\<close>)
    then show ?thesis unfolding bl
      by (auto simp: encode_loop.simps[of law r e fin] i s' Let_def c(1) p b(3) frame_encoder_def f1_def)
  qed
qed

text \<open>Whatever the room and the errors, a coder that reports success has written all the frames, and has seen no read error unless it reads linear samples.\<close>

lemma fputs_success: "fputs_bytes bs f = (True, f') \<Longrightarrow> length (o_data f') = length (o_data f) + length bs"
  by (auto simp: fputs_bytes_def Let_def)

lemma gsm_encode_length: "gsm_encode r e s = Some (r', e', c) \<Longrightarrow> length c = 33"
  by (auto simp: gsm_encode_def gsm_pack_def split: bind_splits)

lemma encode_loop_count:
  assumes "encode_loop law r e fin fout = Some (0, fout', e')"
  shows "(law = linear_fn \<or> \<not> i_err fin) \<and> length (o_data fout') = length (o_data fout) + 33 * length (blocks (samples law (rest fin)))"
  using assms
proof (induction law r e fin fout rule: encode_loop.induct)
  case (1 law r e fin fout)
  let ?xs = "samples law (rest fin)"
  obtain cc s fin' where i: "input_via law fin = (cc, s, fin')" by (metis prod_cases3)
  note prem = "1.prems"[unfolded encode_loop.simps[of law r e fin] i case_prod_conv Let_def]
  show ?case
  proof (cases "0 < cc")
    case True
    obtain r1 e1 c f1 where c: "gsm_encode r e (if cc < 160 then s @ replicate (nat (160 - cc)) 0 else s) = Some (r1, e1, c)"
      "fputs_bytes c fout = (True, f1)" "encode_loop law r1 e1 fin' f1 = Some (0, fout', e')"
      using prem True by (auto split: option.splits prod.splits bool.splits)
    from "1.IH"[OF i[symmetric] refl True refl c(1) refl refl c(2)[symmetric] _ c(3)]
    have IH: "law = linear_fn \<or> \<not> i_err fin'" "length (o_data fout') = length (o_data f1) + 33 * length (blocks (samples law (rest fin')))"
      by simp_all
    have "i_err fin' = i_err fin" using i by (auto simp: input_via_value Let_def)
    with IH(1) have ok: "law = linear_fn \<or> \<not> i_err fin" by simp
    note b = input_block[OF ok refl i]
    have "?xs \<noteq> []" using True b(1) by auto
    then have "length (blocks ?xs) = Suc (length (blocks (samples law (rest fin'))))" unfolding b(3) by (subst blocks.simps) simp
    then show ?thesis using ok IH(2) fputs_success[OF c(2)] gsm_encode_length[OF c(1)] by simp
  next
    case False
    then have z: "cc = 0" "fout' = fout" using prem by (auto split: if_splits)
    have "law = linear_fn \<or> width law = 1" by (cases law) simp_all
    then have ok: "law = linear_fn \<or> \<not> i_err fin" using i z(1) by (auto simp: input_via_value Let_def samples_length split: if_splits)
    have "?xs = []" using input_block(1)[OF ok refl i] z(1) by (simp add: min_def split: if_splits)
    then show ?thesis using ok z(2) by (simp add: blocks.simps)
  qed
qed

fun out_bytes :: "law \<Rightarrow> int list \<Rightarrow> u8 list" where
  "out_bytes ulaw_fn buf = map (\<lambda>x. word_of_int (S2U x)) buf"
| "out_bytes alaw_fn buf = map (\<lambda>x. word_of_int (S2A x)) buf"
| "out_bytes linear_fn buf = concat (map (\<lambda>x. [word_of_int x, word_of_int (drop_bit 8 x)]) buf)"

lemma output_via_bytes: "output_via law buf f = fputs_bytes (out_bytes law buf) f"
  by (cases law) (simp_all add: ulaw_output_def alaw_output_def linear_output_def)

lemma length_out_bytes: "length (out_bytes law buf) = width law * length buf"
proof -
  have "length (concat (map (\<lambda>x. [f x, g x]) buf)) = 2 * length buf" for f g :: "int \<Rightarrow> u8" by (induction buf) simp_all
  then show ?thesis by (cases law) simp_all
qed

lemma fread_rest: "fread n f = (take n (rest f), f\<lparr>i_pos := i_pos f + length (take n (rest f))\<rparr>)"
  by (simp add: fread_def rest_def Let_def)

lemma decode_loop_run:
  assumes "run frame_decoder r cs = Some (r', ss)" "list_all (\<lambda>c. length c = 33) cs" "list_all (\<lambda>s. length s = 160) ss"
    "rest fin = concat cs" "160 * width law * length cs \<le> o_room fout"
  shows "\<exists>fout'. decode_loop law r fin fout = Some (0, fout') \<and> o_data fout' = o_data fout @ concat (map (out_bytes law) ss)"
  using assms
proof (induction cs arbitrary: r ss fin fout)
  case Nil
  then show ?case by (simp add: decode_loop.simps[of law _ fin] fread_rest)
next
  case (Cons c cs)
  obtain r1 s ss1 where d: "frame_decoder r c = Some (r1, s)" "run frame_decoder r1 cs = Some (r', ss1)" "ss = s # ss1"
    using Cons.prems(1) by (auto split: bind_splits)
  have g: "gsm_decode r c = Some (Decoded r1 s)"
    using d(1) by (auto simp: frame_decoder_def split: option.splits decode_result.splits)
  have l: "length c = 33" "length s = 160" using Cons.prems(2,3) d(3) by simp_all
  define f1 where "f1 = fout\<lparr>o_data := o_data fout @ out_bytes law s, o_room := o_room fout - 160 * width law\<rparr>"
  have o: "output_via law s fout = (True, f1)"
    using Cons.prems(5) l(2) by (simp add: output_via_bytes fputs_room length_out_bytes f1_def algebra_simps)
  define g1 where "g1 = fin\<lparr>i_pos := i_pos fin + 33\<rparr>"
  have g1: "rest g1 = concat cs" "fread 33 fin = (c, g1)" using Cons.prems(4) l(1) by (simp_all add: g1_def fread_rest)
  have "\<exists>fout'. decode_loop law r1 g1 f1 = Some (0, fout') \<and> o_data fout' = o_data f1 @ concat (map (out_bytes law) ss1)"
    by (rule Cons.IH[OF d(2)]) (use Cons.prems(2,3,5) d(3) g1(1) in \<open>simp_all add: f1_def algebra_simps\<close>)
  then show ?case using l(1) by (auto simp: decode_loop.simps[of law r fin] g1(2) g o d(3) f1_def)
qed

definition coder_start :: "int \<Rightarrow> int \<Rightarrow> gsm_state" where
  "coder_start f_fast f_verbose = gsm_initial\<lparr>S_verbose := s8 f_verbose\<rparr>"

lemma coder_start_ok: "gsm_ok (coder_start a b)" "in_sync (coder_start a b) (coder_start c d)"
  using gsm_initial_ok by (simp_all add: coder_start_def gsm_ok_def short_term_ok_def in_sync_def)

lemma process_encode_start:
  "process_encode True f_fast f_verbose law e fin fout = encode_loop law (coder_start f_fast f_verbose) e fin fout"
  by (simp add: process_encode_def gsm_create_def gsm_option_def coder_start_def)

lemma process_decode_start:
  "process_decode True f_fast f_verbose law fin fout = decode_loop law (coder_start f_fast f_verbose) fin fout"
  by (simp add: process_decode_def gsm_create_def gsm_option_def coder_start_def)

text \<open>Any bytes at all can be decoded without an assertion failing.\<close>

lemma decode_loop_total:
  assumes "gsm_ok r"
  shows "\<exists>rc fout' n. decode_loop law r fin fout = Some (rc, fout') \<and> (rc = 0 \<or> rc = -1) \<and>
    (rc = 0 \<longrightarrow> length (rest fin) = 33 * n \<and> (\<forall>k<n. uint (rest fin ! (33 * k)) div 16 = 0xD) \<and>
      length (o_data fout') = length (o_data fout) + 160 * width law * n)"
  using assms
proof (induction law r fin fout rule: decode_loop.induct)
  case (1 law r fin fout)
  let ?s = "take 33 (rest fin)"
  obtain fin' where f: "fread 33 fin = (?s, fin')" "rest fin' = drop (length ?s) (rest fin)" by (simp add: fread_rest)
  show ?case
  proof (cases "length ?s = 33")
    case False
    then have "decode_loop law r fin fout = Some (if rest fin = [] then 0 else -1, fout)"
      by (auto simp: decode_loop.simps[of law r fin] f(1))
    then show ?thesis by (intro exI[of _ "if rest fin = [] then 0 else -1"] exI[of _ fout] exI[of _ 0]) simp
  next
    case True
    note l = True
    have ne: "rest fin \<noteq> []" using l by auto
    show ?thesis
    proof (cases "gsm_decode r ?s = Some Bad_magic")
      case True
      then have "decode_loop law r fin fout = Some (-1, fout)" using l ne by (simp add: decode_loop.simps[of law r fin] f(1))
      then show ?thesis by simp
    next
      case False
      then obtain r1 d where d: "gsm_decode r ?s = Some (Decoded r1 d)" "gsm_ok r1" "length d = 160" "gsm_unpack ?s \<noteq> None"
        using decode_any[OF "1.prems", of ?s] by auto
      obtain b f1 where o: "output_via law d fout = (b, f1)" by fastforce
      show ?thesis
      proof (cases b)
        case False
        with o have "decode_loop law r fin fout = Some (-1, f1)" using l ne d by (simp add: decode_loop.simps[of law r fin] f(1))
        then show ?thesis by simp
      next
        case True
        with o have o: "output_via law d fout = (True, f1)" by simp
        have lo: "length (o_data f1) = length (o_data fout) + 160 * width law"
          using o d(3) by (auto simp: output_via_bytes fputs_bytes_def length_out_bytes Let_def)
        obtain rc f2 n where IH: "decode_loop law r1 fin' f1 = Some (rc, f2)" "rc = 0 \<or> rc = -1"
          "rc = 0 \<longrightarrow> length (rest fin') = 33 * n \<and> (\<forall>k<n. uint (rest fin' ! (33 * k)) div 16 = 0xD) \<and>
            length (o_data f2) = length (o_data f1) + 160 * width law * n"
          using "1.IH"[OF f(1)[symmetric] _ _ d(1) refl o[symmetric] refl d(2)] l ne by (simp del: length_take add: ne) blast
        have e: "decode_loop law r fin fout = Some (rc, f2)" using l ne d(1) o IH(1) by (simp add: decode_loop.simps[of law r fin] f(1))
        have m: "uint (rest fin ! 0) div 16 = 0xD"
          using d(4) l by (auto simp: gsm_unpack_def magic_test GSM_MAGIC_def split: if_splits)
        have "\<forall>k<Suc n. uint (rest fin ! (33 * k)) div 16 = 0xD" if "rc = 0"
        proof (intro allI impI)
          fix k assume "k < Suc n"
          then show "uint (rest fin ! (33 * k)) div 16 = 0xD"
            using m IH(3) that l by (cases k) (auto simp: f(2))
        qed
        then show ?thesis using e IH(2,3) l lo
          by (intro exI[of _ rc] exI[of _ f2] exI[of _ "Suc n"]) (auto simp: f(2))
      qed
    qed
  qed
qed

section \<open>Properties\<close>

text \<open>A file with the given contents, opened for reading.\<close>

definition opened :: "u8 list \<Rightarrow> istream" where
  "opened bs = \<lparr>i_data = bs, i_pos = 0, i_err = False, i_seek = True\<rparr>"

lemma rest_opened [simp]: "rest (opened bs) = bs"
  by (simp add: rest_def opened_def)

text \<open>
  C3. \<open>toast\<close> and \<open>untoast\<close> fit together on streams of any length: coding \<open>m\<close> samples in
  any of the formats returns 0 and writes 33 bytes for each of the \<open>n = \<lceil>m / 160\<rceil>\<close> frames, and
  decoding those bytes returns 0 and writes 160 samples for each frame; no assertion fails on the way.
\<close>

theorem toast_untoast:
  assumes "words 50 e" "law = linear_fn \<or> \<not> i_err fin" "n = (length (samples law (rest fin)) + 159) div 160"
    "33 * n \<le> o_room fout" "o_data fout = []" "160 * width law * n \<le> o_room dst"
  shows "\<exists>code e' dst'. process_encode True f_fast f_verbose law e fin fout = Some (0, code, e') \<and> words 50 e' \<and>
    length (o_data code) = 33 * n \<and>
    process_decode True d_fast d_verbose law (opened (o_data code)) dst = Some (0, dst') \<and>
    length (o_data dst') = length (o_data dst) + 160 * width law * n"
proof -
  let ?r = "coder_start f_fast f_verbose" and ?t = "coder_start d_fast d_verbose"
  let ?b = "blocks (samples law (rest fin))"
  have n: "length ?b = n" by (simp add: length_blocks assms(3))
  have y: "states_in_sync (?r, e) ?t" using coder_start_ok assms(1) by (simp add: states_in_sync_def)
  obtain w cs T ss where R: "run frame_encoder (?r, e) ?b = Some (w, cs)" "run frame_decoder ?t cs = Some (T, ss)"
    "states_in_sync w T" "length cs = length ?b" "length ss = length ?b" "\<forall>i<length ?b. frame_good (?b ! i) (cs ! i) (ss ! i)"
    using gsm_stream.stream[OF y blocks_words[OF samples_words]] by blast
  obtain e' code where E: "snd w = e'" "process_encode True f_fast f_verbose law e fin fout = Some (0, code, e')" "o_data code = concat cs"
    using encode_loop_run[OF coder_start_ok(1) assms(1,2), of fout f_fast f_verbose] R(1) assms(4,5) n
    by (auto simp: process_encode_start)
  have good: "list_all (\<lambda>c. length c = 33) cs" "list_all (\<lambda>s. length s = 160) ss"
    using R(4-6) by (simp_all add: list_all_length frame_good_def)
  obtain dst' where D: "process_decode True d_fast d_verbose law (opened (o_data code)) dst = Some (0, dst')"
    "o_data dst' = o_data dst @ concat (map (out_bytes law) ss)"
    using decode_loop_run[OF R(2) good, of "opened (o_data code)" law dst] assms(6) E(3) R(4) n
    by (auto simp: process_decode_start)
  have "length (concat xs) = k * length xs" if "list_all (\<lambda>x. length x = k) xs" for xs :: "u8 list list" and k
    using that by (induction xs) auto
  from this[OF good(1)] this[of "160 * width law" "map (out_bytes law) ss"] good(2)
  have "length (o_data code) = 33 * n" "length (o_data dst') = length (o_data dst) + 160 * width law * n"
    using E(3) D(2) R(4,5) n by (simp_all add: list_all_iff length_out_bytes mult.commute)
  moreover have "words 50 e'" using R(3) E(1) by (auto simp: states_in_sync_def)
  ultimately show ?thesis using E(2) D(1) by blast
qed

theorem toast_untoast_witness:
  "\<exists>code e' dst'. process_encode True 0 0 ulaw_fn (replicate 50 0) (opened (replicate 161 0)) \<lparr>o_data = [], o_room = 66\<rparr> = Some (0, code, e') \<and>
    process_decode True 0 0 ulaw_fn (opened (o_data code)) \<lparr>o_data = [], o_room = 320\<rparr> = Some (0, dst') \<and>
    length (o_data dst') = 320"
proof -
  let ?o = "\<lparr>o_data = [], o_room = 66\<rparr>" and ?d = "\<lparr>o_data = [], o_room = 320\<rparr>"
  have w: "words 50 (replicate 50 0)" by (rule words_replicate)
  have "2 = (length (samples ulaw_fn (rest (opened (replicate 161 0)))) + 159) div 160" by simp
  from toast_untoast[OF w _ this, of ?o ?d 0 0 0 0] show ?thesis by (simp add: opened_def) blast
qed

text \<open>
  C32. \<open>untoast\<close> is safe on any file: decoding arbitrary bytes never fails an assertion; it returns 0
  or -1, and it returns 0 only when the file is a whole number of 33-byte frames that all carry the magic
  nibble, each of which has been written out as 160 samples.
\<close>

theorem untoast_any_file:
  "\<exists>rc dst' n. process_decode True f_fast f_verbose law fin dst = Some (rc, dst') \<and> (rc = 0 \<or> rc = -1) \<and>
    (rc = 0 \<longrightarrow> length (rest fin) = 33 * n \<and> (\<forall>k<n. uint (rest fin ! (33 * k)) div 16 = 0xD) \<and>
      length (o_data dst') = length (o_data dst) + 160 * width law * n)"
  unfolding process_decode_start by (rule decode_loop_total[OF coder_start_ok(1)])

theorem untoast_any_file_witness:
  "\<exists>dst'. process_decode True 0 0 ulaw_fn (opened (replicate 34 0xDD)) \<lparr>o_data = [], o_room = 320\<rparr> = Some (-1, dst')"
proof -
  have "33 * n \<noteq> (34 :: nat)" for n by presburger
  with untoast_any_file[of 0 0 ulaw_fn "opened (replicate 34 0xDD)" "\<lparr>o_data = [], o_room = 320\<rparr>"] show ?thesis by auto
qed

definition u32_bytes :: "64 word \<Rightarrow> u8 list" where
  "u32_bytes u = [ucast (drop_bit 24 u AND 0xFF), ucast (drop_bit 16 u AND 0xFF), ucast (drop_bit 8 u AND 0xFF), ucast (u AND 0xFF)]"

lemma put_all_room:
  assumes "4 * length us \<le> o_room f"
  shows "put_all us f = (True, f\<lparr>o_data := o_data f @ concat (map u32_bytes us), o_room := o_room f - 4 * length us\<rparr>)"
  using assms
proof (induction us arbitrary: f)
  case (Cons u us)
  have "put_u32 u f = (True, f\<lparr>o_data := o_data f @ u32_bytes u, o_room := o_room f - 4\<rparr>)"
    using Cons.prems by (simp add: put_u32_def fputs_room u32_bytes_def)
  with Cons show ?case by simp
qed simp

lemma put_all_success: "put_all us f = (True, f') \<Longrightarrow> length (o_data f') = length (o_data f) + 4 * length us"
  by (induction us arbitrary: f) (auto simp: put_u32_def dest!: fputs_success split: prod.splits bool.splits)

lemma audio_output_success: "audio_init_output f = (True, f') \<Longrightarrow> length (o_data f') = length (o_data f) + 32"
  by (auto simp: audio_init_output_def simp del: put_all.simps dest!: fputs_success put_all_success split: prod.splits bool.splits)

lemma fgetc_err: "fgetc f = (r, f') \<Longrightarrow> i_err f' = i_err f"
  by (auto simp: fgetc_def split: if_splits)

lemma audio_input_err: "audio_init_input f = Some (law, f') \<Longrightarrow> i_err f' = i_err f"
  by (auto simp: audio_init_input_def expect_def get_u32_def fseek_cur_def dest!: fgetc_err split: bind_splits option.splits prod.splits if_splits)

text \<open>
  The Sun audio header survives: with 32 bytes of room the header is written, and reading a file that
  starts with it selects u-law and leaves the stream right behind the header, at the samples.
\<close>

theorem audio_header_roundtrip:
  assumes "32 \<le> o_room f" "o_data f = []"
  shows "\<exists>f'. audio_init_output f = (True, f') \<and> length (o_data f') = 32 \<and>
    (\<exists>g. audio_init_input (opened (o_data f' @ bs)) = Some (ulaw_fn, g) \<and> rest g = bs)"
proof -
  let ?h = "[0x2E, 0x73, 0x6E, 0x64, 0, 0, 0, 32, 0xFF, 0xFF, 0xFF, 0xFF, 0, 0, 0, 1, 0, 0, 0x1F, 0x40, 0, 0, 0, 1, 0, 0, 0, 0, 0, 0, 0, 0] :: u8 list"
  have "audio_init_output f = (True, f\<lparr>o_data := ?h, o_room := o_room f - 32\<rparr>)"
    using assms by (simp add: audio_init_output_def fputs_room put_all_room u32_bytes_def mask_eq_exp_minus_1 del: put_all.simps)
  moreover have "audio_init_input (opened (?h @ bs)) = Some (ulaw_fn, opened (?h @ bs)\<lparr>i_pos := 32\<rparr>)"
    by (simp add: audio_init_input_def expect_def get_u32_def fgetc_def opened_def fseek_cur_def)
  ultimately show ?thesis by (simp add: rest_def opened_def)
qed

theorem audio_header_roundtrip_witness:
  "\<exists>f' g. audio_init_output \<lparr>o_data = [], o_room = 32\<rparr> = (True, f') \<and> audio_init_input (opened (o_data f' @ [7])) = Some (ulaw_fn, g)"
  using audio_header_roundtrip[of "\<lparr>o_data = [], o_room = 32\<rparr>" "[7]"] by auto

lemma linear_input_err: "input_via linear_fn (f\<lparr>i_err := b\<rparr>) = (case input_via linear_fn f of (cc, s, f') \<Rightarrow> (cc, s, f'\<lparr>i_err := b\<rparr>))"
  by (simp add: linear_input_def fread_def Let_def)

lemma encode_loop_err: "encode_loop linear_fn r e (fin\<lparr>i_err := b\<rparr>) fout = encode_loop linear_fn r e fin fout"
proof (induction "linear_fn" r e fin fout rule: encode_loop.induct)
  case (1 r e fin fout)
  obtain cc s fin' where i: "input_via linear_fn fin = (cc, s, fin')" by (metis prod_cases3)
  have j: "input_via linear_fn (fin\<lparr>i_err := b\<rparr>) = (cc, s, fin'\<lparr>i_err := b\<rparr>)" by (simp only: linear_input_err i case_prod_conv)
  show ?case
    unfolding encode_loop.simps[of linear_fn r e fin] encode_loop.simps[of linear_fn r e "fin\<lparr>i_err := b\<rparr>"] i j case_prod_conv Let_def
    using "1.hyps"[OF i[symmetric] refl _ refl] by (auto split: option.splits prod.splits bool.splits simp del: input_via.simps)
qed

lemma decode_loop_err: "decode_loop law r (fin\<lparr>i_err := b\<rparr>) fout = decode_loop law r fin fout"
proof (induction law r fin fout rule: decode_loop.induct)
  case (1 law r fin fout)
  obtain s fin' where i: "fread 33 fin = (s, fin')" by fastforce
  have j: "fread 33 (fin\<lparr>i_err := b\<rparr>) = (s, fin'\<lparr>i_err := b\<rparr>)" using i by (auto simp: fread_def Let_def)
  show ?case
    unfolding decode_loop.simps[of law r fin] decode_loop.simps[of law r "fin\<lparr>i_err := b\<rparr>"] i j case_prod_conv
    using "1.IH"[OF i[symmetric]] by (auto split: option.splits prod.splits bool.splits decode_result.splits)
qed

text \<open>
  Read errors of the input go unnoticed where the data is read with \<open>fread\<close>: coding linear samples and
  decoding give the same return value and output whether the end of the data is the end of the
  file or a read error.
\<close>

theorem read_errors_ignored:
  "process_encode mem f_fast f_verbose linear_fn e (fin\<lparr>i_err := True\<rparr>) fout
     = process_encode mem f_fast f_verbose linear_fn e (fin\<lparr>i_err := False\<rparr>) fout \<and>
   process_decode mem f_fast f_verbose law (fin\<lparr>i_err := True\<rparr>) dst
     = process_decode mem f_fast f_verbose law (fin\<lparr>i_err := False\<rparr>) dst"
  by (simp add: process_encode_def process_decode_def encode_loop_err decode_loop_err case_prod_beta split: option.split)

end
