(* ===== verification/Toast_File.thy ===== *)
theory Toast_File
  imports Toast
begin

text \<open>
  The rest of \<^verbatim>\<open>toast.c\<close>: the names of input and output files, the choice of the format, the
  options, and \<open>process\<close>, which codes or decodes one file, cleans up after an error and deletes the
  source after a success.

  The operating system is an argument: a file system (a map from names to files), and the answers its calls
  give (which names may be read, created or deleted, how much room there is, what the user replies).
\<close>

section \<open>Definitions\<close>

subsection \<open>Names\<close>

definition endname :: "string \<Rightarrow> string" where
  "endname name =
    (let t = rev (takeWhile (\<lambda>c. c \<noteq> CHR ''/'') (rev name))
     in if CHR ''/'' \<in> set name \<and> t \<noteq> [] then t else name)"

text \<open>The position of the suffix, if there is one.\<close>

definition suffix :: "string \<Rightarrow> string \<Rightarrow> nat option" where
  "suffix name suf =
    (if suf = [] \<or> length name \<le> length suf then None
     else if drop (length name - length suf) name = suf then Some (length name - length suf) else None)"

definition normalname :: "string \<Rightarrow> string \<Rightarrow> string \<Rightarrow> string" where
  "normalname name want old =
    (case suffix name old of
       Some s \<Rightarrow> take s name @ want
     | None \<Rightarrow> if want \<noteq> [] \<and> suffix name want = None then name @ want else name)"

definition SUFFIX_TOASTED :: string where
  "SUFFIX_TOASTED = ''.gsm''"

definition plainname :: "string \<Rightarrow> string" where
  "plainname name = normalname name [] SUFFIX_TOASTED"

definition codename :: "string \<Rightarrow> string" where
  "codename name = normalname name SUFFIX_TOASTED []"

text \<open>\<open>limit\<close> is \<open>max_filename_length\<close>, 0 when the system has none.\<close>

definition length_okay :: "nat \<Rightarrow> string \<Rightarrow> bool" where
  "length_okay limit name \<longleftrightarrow> \<not> (limit > 0 \<and> length (endname name) > limit)"

subsection \<open>Formats\<close>

datatype init_fn = generic_init | audio_init

record fmtdesc =
  fmt_name :: string
  fmt_longname :: string
  fmt_suffix :: string
  fmt_init_input :: init_fn
  fmt_init_output :: init_fn
  fmt_input :: law
  fmt_output :: law

definition f_audio :: fmtdesc where
  "f_audio = \<lparr>fmt_name = ''audio'', fmt_longname = ''8 kHz, 8 bit u-law encoding with Sun audio header'', fmt_suffix = ''.au'',
     fmt_init_input = audio_init, fmt_init_output = audio_init, fmt_input = ulaw_fn, fmt_output = ulaw_fn\<rparr>"

definition f_ulaw :: fmtdesc where
  "f_ulaw = \<lparr>fmt_name = ''u-law'', fmt_longname = ''plain 8 kHz, 8 bit u-law encoding'', fmt_suffix = ''.u'',
     fmt_init_input = generic_init, fmt_init_output = generic_init, fmt_input = ulaw_fn, fmt_output = ulaw_fn\<rparr>"

definition f_alaw :: fmtdesc where
  "f_alaw = \<lparr>fmt_name = ''A-law'', fmt_longname = ''8 kHz, 8 bit A-law encoding'', fmt_suffix = ''.A'',
     fmt_init_input = generic_init, fmt_init_output = generic_init, fmt_input = alaw_fn, fmt_output = alaw_fn\<rparr>"

definition f_linear :: fmtdesc where
  "f_linear = \<lparr>fmt_name = ''linear'', fmt_longname = ''16 bit (13 significant) signed 8 kHz signal'', fmt_suffix = ''.l'',
     fmt_init_input = generic_init, fmt_init_output = generic_init, fmt_input = linear_fn, fmt_output = linear_fn\<rparr>"

definition alldescs :: "fmtdesc list" where
  "alldescs = [f_audio, f_alaw, f_ulaw, f_linear]"

definition grok_format :: "string \<Rightarrow> fmtdesc option" where
  "grok_format name = find (\<lambda>f. fmt_suffix f \<noteq> [] \<and> suffix (plainname name) (fmt_suffix f) \<noteq> None) alldescs"

subsection \<open>Options\<close>

record flags =
  f_decode :: bool
  f_cat :: bool
  f_force :: bool
  f_precious :: bool
  f_fast :: int
  f_verbose :: int
  f_format :: "fmtdesc option"

definition no_flags :: flags where
  "no_flags = \<lparr>f_decode = False, f_cat = False, f_force = False, f_precious = False, f_fast = 0, f_verbose = 0, f_format = None\<rparr>"

definition parse_argv0 :: "string option \<Rightarrow> flags \<Rightarrow> flags" where
  "parse_argv0 av0 fl =
    (let av0 = endname (case av0 of None \<Rightarrow> ''toast'' | Some a \<Rightarrow> a);
         fl = (if take 2 av0 = ''un'' then fl\<lparr>f_decode := True\<rparr> else fl)
     in if length av0 \<ge> 3 \<and> drop (length av0 - 3) av0 = ''cat'' then fl\<lparr>f_cat := True, f_decode := True\<rparr> else fl)"

text \<open>\<open>Inl\<close> is a call of \<open>exit\<close>.\<close>

definition set_format :: "fmtdesc \<Rightarrow> flags \<Rightarrow> int + flags" where
  "set_format f fl = (case f_format fl of Some g \<Rightarrow> if g \<noteq> f then Inl 1 else Inr (fl\<lparr>f_format := Some f\<rparr>)
     | None \<Rightarrow> Inr (fl\<lparr>f_format := Some f\<rparr>))"

definition option_case :: "char \<Rightarrow> flags \<Rightarrow> int + flags" where
  "option_case opt fl =
    (if opt = CHR ''d'' then Inr (fl\<lparr>f_decode := True\<rparr>)
     else if opt = CHR ''f'' then Inr (fl\<lparr>f_force := True\<rparr>)
     else if opt = CHR ''c'' then Inr (fl\<lparr>f_cat := True\<rparr>)
     else if opt = CHR ''p'' then Inr (fl\<lparr>f_precious := True\<rparr>)
     else if opt = CHR ''F'' then Inr (fl\<lparr>f_fast := 1\<rparr>)
     else if opt = CHR ''V'' then Inr (fl\<lparr>f_verbose := 1\<rparr>)
     else if opt = CHR ''u'' then set_format f_ulaw fl
     else if opt = CHR ''l'' then set_format f_linear fl
     else if opt = CHR ''a'' then set_format f_alaw fl
     else if opt = CHR ''s'' then set_format f_audio fl
     else if opt = CHR ''v'' then Inl 0
     else if opt = CHR ''h'' then Inl 0
     else Inl 1)"

fun option_loop :: "string \<Rightarrow> flags \<Rightarrow> int + flags" where
  "option_loop [] fl = Inr (fl\<lparr>f_precious := f_precious fl \<or> f_cat fl\<rparr>)"
| "option_loop (opt # opts) fl = (case option_case opt fl of Inl x \<Rightarrow> Inl x | Inr fl \<Rightarrow> option_loop opts fl)"

subsection \<open>Files\<close>

text \<open>Different names are different files: hard and symbolic links between them are not represented, only the count of links is.\<close>

record inode =
  content :: "u8 list"
  st_nlink :: nat
  is_regular :: bool
  read_err :: bool

record env =
  can_read :: "string \<Rightarrow> bool"
  can_create :: "string \<Rightarrow> bool"
  can_unlink :: "string \<Rightarrow> bool"
  disk_room :: nat
  is_tty :: bool
  reply :: char
  name_max :: nat
  mem_ok :: bool
  flush_ok :: bool
  close_ok :: bool

record world =
  files :: "string \<Rightarrow> inode option"
  w_stdin :: istream
  w_stdout :: ostream
  static_e :: "int list"

definition open_stream :: "inode \<Rightarrow> istream" where
  "open_stream f = \<lparr>i_data = content f, i_pos = 0, i_err = read_err f, i_seek = True\<rparr>"

definition okay_as_input :: "flags \<Rightarrow> inode \<Rightarrow> bool" where
  "okay_as_input fl st \<longleftrightarrow> is_regular st \<and> \<not> (st_nlink st > 1 \<and> \<not> f_cat fl \<and> \<not> f_precious fl)"

definition ok_to_replace :: "flags \<Rightarrow> env \<Rightarrow> bool" where
  "ok_to_replace fl en \<longleftrightarrow> f_force fl \<or> (is_tty en \<and> reply en = CHR ''y'')"

text \<open>\<open>inname\<close> (\<open>None\<close> for the standard input), the open stream and the format; \<open>None\<close> is the return value 0.\<close>

definition open_input :: "flags \<Rightarrow> env \<Rightarrow> string option \<Rightarrow> world \<Rightarrow> (string option \<times> istream \<times> fmtdesc) option" where
  "open_input fl en name w =
    (case name of
       None \<Rightarrow> Some (None, w_stdin w, case f_format fl of Some f \<Rightarrow> f | None \<Rightarrow> f_ulaw)
     | Some n \<Rightarrow>
         if \<not> f_decode fl \<and> \<not> f_cat fl \<and> suffix n SUFFIX_TOASTED \<noteq> None then None
         else let inname = (if f_decode fl then codename n else n)
              in case files w inname of
                   None \<Rightarrow> None
                 | Some st \<Rightarrow>
                     if \<not> can_read en inname \<or> \<not> okay_as_input fl st then None
                     else Some (Some inname, open_stream st,
                        case f_format fl of Some f \<Rightarrow> f
                          | None \<Rightarrow> (case grok_format inname of Some f \<Rightarrow> f | None \<Rightarrow> f_ulaw)))"

text \<open>A new file, or an existing one emptied.\<close>

definition fresh :: inode where
  "fresh = \<lparr>content = [], st_nlink = 1, is_regular = True, read_err = False\<rparr>"

definition open_output :: "flags \<Rightarrow> env \<Rightarrow> string option \<Rightarrow> world \<Rightarrow> (string option \<times> ostream) option \<times> world" where
  "open_output fl en name w =
    (case name of
       None \<Rightarrow> (Some (None, w_stdout w), w)
     | Some n \<Rightarrow>
         if f_cat fl then (Some (None, w_stdout w), w)
         else let outname = (if f_decode fl then plainname n else codename n);
                  out = \<lparr>o_data = [], o_room = disk_room en\<rparr>
              in if \<not> length_okay (name_max en) outname then (None, w)
                 else case files w outname of
                   None \<Rightarrow> if can_create en outname then (Some (Some outname, out), w\<lparr>files := (files w)(outname \<mapsto> fresh)\<rparr>) else (None, w)
                 | Some st \<Rightarrow>
                     if ok_to_replace fl en \<and> can_create en outname
                     then (Some (Some outname, out), w\<lparr>files := (files w)(outname \<mapsto> st\<lparr>content := []\<rparr>)\<rparr>)
                     else (None, w))"

text \<open>What was written so far, on its way to the file or to the standard output.\<close>

definition flush_to :: "string option \<Rightarrow> ostream \<Rightarrow> world \<Rightarrow> world" where
  "flush_to outname out w =
    (case outname of
       None \<Rightarrow> w\<lparr>w_stdout := out\<rparr>
     | Some o' \<Rightarrow> w\<lparr>files := (files w)(o' := map_option (\<lambda>f. f\<lparr>content := o_data out\<rparr>) (files w o'))\<rparr>)"

text \<open>The label \<open>err\<close>: the output file is closed and deleted.\<close>

definition err :: "env \<Rightarrow> string option \<Rightarrow> world \<Rightarrow> world" where
  "err en outname w =
    (case outname of
       None \<Rightarrow> w
     | Some o' \<Rightarrow> if can_unlink en o' then w\<lparr>files := (files w)(o' := None)\<rparr> else w)"

definition init_output :: "init_fn \<Rightarrow> ostream \<Rightarrow> bool \<times> ostream" where
  "init_output i out = (case i of generic_init \<Rightarrow> (True, out) | audio_init \<Rightarrow> audio_init_output out)"

definition init_input :: "init_fn \<Rightarrow> law \<Rightarrow> istream \<Rightarrow> (law \<times> istream) option" where
  "init_input i law fin = (case i of generic_init \<Rightarrow> Some (law, fin) | audio_init \<Rightarrow> audio_init_input fin)"

text \<open>The header and the loop: the return value, the output and the coder's static array.\<close>

definition convert :: "flags \<Rightarrow> env \<Rightarrow> fmtdesc \<Rightarrow> int list \<Rightarrow> istream \<Rightarrow> ostream \<Rightarrow> (int \<times> ostream \<times> int list) option" where
  "convert fl en fmt e fin out =
    (if f_decode fl then
       (case init_output (fmt_init_output fmt) out of
          (False, out) \<Rightarrow> Some (-1, out, e)
        | (True, out) \<Rightarrow> map_option (\<lambda>(rc, out). (rc, out, e))
            (process_decode (mem_ok en) (f_fast fl) (f_verbose fl) (fmt_output fmt) fin out))
     else
       (case init_input (fmt_init_input fmt) (fmt_input fmt) fin of
          None \<Rightarrow> Some (-1, out, e)
        | Some (law, fin) \<Rightarrow> process_encode (mem_ok en) (f_fast fl) (f_verbose fl) law e fin out))"

text \<open>Signals that interrupt the conversion and allocations of names that fail are left out.\<close>

definition process :: "flags \<Rightarrow> env \<Rightarrow> string option \<Rightarrow> world \<Rightarrow> (int \<times> world) option" where
  "process fl en name w =
    (case open_input fl en name w of
       None \<Rightarrow> Some (-1, w)
     | Some (inname, fin, fmt) \<Rightarrow>
        (case open_output fl en name w of
           (None, w) \<Rightarrow> Some (-1, w)
         | (Some (outname, out), w) \<Rightarrow>
            (case convert fl en fmt (static_e w) fin out of
               None \<Rightarrow> None
             | Some (rc, out, e) \<Rightarrow>
                 let w = flush_to outname out (w\<lparr>static_e := e\<rparr>)
                 in if rc \<noteq> 0 then Some (-1, err en outname w)
                    else if \<not> flush_ok en then Some (-1, err en outname w)
                    else if outname \<noteq> None \<and> \<not> close_ok en then Some (-1, err en outname w)
                    else case inname of
                           None \<Rightarrow> Some (0, w)
                         | Some i \<Rightarrow>
                             if \<not> f_cat fl \<and> \<not> f_precious fl
                             then Some (-1, if can_unlink en i then w\<lparr>files := (files w)(i := None)\<rparr> else w)
                             else Some (0, w))))"

fun process_all :: "flags \<Rightarrow> env \<Rightarrow> string list \<Rightarrow> world \<Rightarrow> world option" where
  "process_all fl en [] w = Some w"
| "process_all fl en (n # ns) w = (case process fl en (Some n) w of None \<Rightarrow> None | Some (_, w) \<Rightarrow> process_all fl en ns w)"

text \<open>
  \<open>main\<close> on the program name, the options \<open>getopt\<close> delivers and the remaining arguments: the exit status
  and the world.
\<close>

definition toast_main :: "env \<Rightarrow> string option \<Rightarrow> string \<Rightarrow> string list \<Rightarrow> world \<Rightarrow> (int \<times> world) option" where
  "toast_main en av0 opts args w =
    (case option_loop opts (parse_argv0 av0 no_flags) of
       Inl x \<Rightarrow> Some (x, w)
     | Inr fl \<Rightarrow>
         if args = [] then map_option (\<lambda>(_, w). (0, w)) (process fl en None w)
         else map_option (\<lambda>w. (0, w)) (process_all fl en args w))"

section \<open>Names\<close>

lemma suffix_append: "name \<noteq> [] \<Longrightarrow> suf \<noteq> [] \<Longrightarrow> suffix (name @ suf) suf = Some (length name)"
  by (cases name) (auto simp: suffix_def)

lemma suffix_SomeD: "suffix name suf = Some k \<Longrightarrow> name = take k name @ suf \<and> k < length name \<and> 0 < k"
  unfolding suffix_def by (metis append_take_drop_id diff_less length_0_conv length_greater_0_conv not_le option.distinct(1) option.sel order_less_imp_le zero_less_diff order.strict_trans)

lemma codename_cases:
  "codename n = (if suffix n SUFFIX_TOASTED = None then n @ SUFFIX_TOASTED else n)"
  by (simp add: codename_def normalname_def suffix_def SUFFIX_TOASTED_def)

lemma plainname_cases:
  "plainname n = (case suffix n SUFFIX_TOASTED of None \<Rightarrow> n | Some k \<Rightarrow> take k n)"
  by (simp add: plainname_def normalname_def split: option.split)

lemma code_not_plain: "codename n \<noteq> plainname n"
proof (cases "suffix n SUFFIX_TOASTED")
  case (Some k)
  then have "length (take k n) < length n" using suffix_SomeD[OF Some] by simp
  then have "n \<noteq> take k n" by (metis less_irrefl)
  with Some show ?thesis by (auto simp: codename_cases plainname_cases)
qed (simp add: codename_cases plainname_cases SUFFIX_TOASTED_def)

lemma plain_of_code:
  assumes "n \<noteq> []" "suffix n SUFFIX_TOASTED = None"
  shows "plainname (codename n) = n" "codename n = n @ SUFFIX_TOASTED"
  using assms suffix_append[of n SUFFIX_TOASTED] by (simp_all add: codename_cases plainname_cases SUFFIX_TOASTED_def)

section \<open>One file\<close>

definition in_name :: "flags \<Rightarrow> string \<Rightarrow> string" where
  "in_name fl n = (if f_decode fl then codename n else n)"

definition out_name :: "flags \<Rightarrow> string \<Rightarrow> string" where
  "out_name fl n = (if f_decode fl then plainname n else codename n)"

definition the_format :: "string \<Rightarrow> fmtdesc" where
  "the_format n = (case grok_format n of Some f \<Rightarrow> f | None \<Rightarrow> f_ulaw)"

definition chosen_format :: "flags \<Rightarrow> string \<Rightarrow> fmtdesc" where
  "chosen_format fl n = (case f_format fl of Some f \<Rightarrow> f | None \<Rightarrow> the_format (in_name fl n))"

lemma open_input_some:
  assumes "open_input fl en (Some n) w = Some (inname, fin, fmt)"
  obtains st where "inname = Some (in_name fl n)" "files w (in_name fl n) = Some st" "fin = open_stream st"
    "f_decode fl \<or> f_cat fl \<or> suffix n SUFFIX_TOASTED = None" "fmt = chosen_format fl n"
  using assms by (auto simp: open_input_def in_name_def Let_def chosen_format_def the_format_def split: if_splits option.splits)

lemma names_differ:
  assumes "f_decode fl \<or> suffix n SUFFIX_TOASTED = None"
  shows "in_name fl n \<noteq> out_name fl n"
  using assms code_not_plain[of n]
  by (auto simp: in_name_def out_name_def codename_cases SUFFIX_TOASTED_def split: if_splits)

text \<open>Opening the output touches no other file, and neither do writing it and deleting it.\<close>

lemma open_output_files:
  assumes "open_output fl en (Some n) w = (r, w')" "x \<noteq> out_name fl n"
  shows "files w' x = files w x"
  using assms by (auto simp: open_output_def out_name_def Let_def split: if_splits option.splits)

lemma open_output_some:
  assumes "open_output fl en (Some n) w = (Some (outname, out), w')"
  shows "static_e w' = static_e w"
    "outname = None \<and> f_cat fl \<and> w' = w \<or>
     outname = Some (out_name fl n) \<and> \<not> f_cat fl \<and> out = \<lparr>o_data = [], o_room = disk_room en\<rparr> \<and> files w' (out_name fl n) \<noteq> None"
  using assms by (auto simp: open_output_def out_name_def Let_def split: if_splits option.splits)

lemma flush_to_files:
  "outname = None \<or> outname = Some o' \<Longrightarrow> x \<noteq> o' \<Longrightarrow> files (flush_to outname out w) x = files w x"
  "files w o' = Some f \<Longrightarrow> files (flush_to (Some o') out w) o' = Some (f\<lparr>content := o_data out\<rparr>)"
  by (auto simp: flush_to_def)

lemma err_files: "outname = None \<or> outname = Some o' \<Longrightarrow> x \<noteq> o' \<Longrightarrow> files (err en outname w) x = files w x"
  by (auto simp: err_def)

text \<open>How \<open>process\<close> can end once both files are open.\<close>

lemma process_opened:
  assumes "process fl en (Some n) w = Some (rc, w')"
    "open_input fl en (Some n) w = Some (Some i, fin, fmt)" "open_output fl en (Some n) w = (Some (outname, out), w1)"
  obtains rc1 out1 e1 w2 where "convert fl en fmt (static_e w1) fin out = Some (rc1, out1, e1)"
    "w2 = flush_to outname out1 (w1\<lparr>static_e := e1\<rparr>)"
    "(rc, w') = (if rc1 \<noteq> 0 \<or> \<not> flush_ok en \<or> (outname \<noteq> None \<and> \<not> close_ok en) then (-1, err en outname w2)
      else if \<not> f_cat fl \<and> \<not> f_precious fl then (-1, if can_unlink en i then w2\<lparr>files := (files w2)(i := None)\<rparr> else w2)
      else (0, w2))"
proof -
  obtain rc1 out1 e1 where c: "convert fl en fmt (static_e w1) fin out = Some (rc1, out1, e1)"
    using assms by (auto simp: process_def split: option.splits)
  show thesis
    by (rule that[OF c refl]) (use assms(1) in \<open>auto simp: process_def assms(2,3) c Let_def split: if_splits\<close>)
qed

lemma process_cases:
  assumes "process fl en (Some n) w = Some (rc, w')" "files w (in_name fl n) = Some st"
  obtains (kept) "files w' (in_name fl n) = Some st" "\<forall>x. x \<noteq> in_name fl n \<and> x \<noteq> out_name fl n \<longrightarrow> files w' x = files w x"
  | (moved) out e g where "convert fl en (chosen_format fl n) (static_e w) (open_stream st) \<lparr>o_data = [], o_room = disk_room en\<rparr> = Some (0, out, e)"
      "files w' (out_name fl n) = Some g" "content g = o_data out" "files w' (in_name fl n) = None" "\<not> f_cat fl" "\<not> f_precious fl"
      "\<forall>x. x \<noteq> in_name fl n \<and> x \<noteq> out_name fl n \<longrightarrow> files w' x = files w x"
proof (cases "open_input fl en (Some n) w")
  case None
  then show thesis using assms by (intro kept) (auto simp: process_def)
next
  case (Some a)
  obtain inname fin fmt where a: "a = (inname, fin, fmt)" by (cases a) auto
  obtain i: "inname = Some (in_name fl n)" "fin = open_stream st" "f_decode fl \<or> f_cat fl \<or> suffix n SUFFIX_TOASTED = None"
    "fmt = chosen_format fl n"
    by (rule open_input_some[OF Some[unfolded a]]) (use assms(2) in auto)
  note I = Some[unfolded a i(1)]
  obtain r w1 where o: "open_output fl en (Some n) w = (r, w1)" by fastforce
  show thesis
  proof (cases r)
    case None
    have "w1 = w" using o None by (auto simp: open_output_def Let_def split: if_splits option.splits)
    with assms I o None show thesis by (intro kept) (auto simp: process_def)
  next
    case (Some b)
    obtain outname out where b: "b = (outname, out)" by fastforce
    note o = o[unfolded Some b]
    obtain rc1 out1 e1 w2 where c: "convert fl en fmt (static_e w1) fin out = Some (rc1, out1, e1)"
      and w2: "w2 = flush_to outname out1 (w1\<lparr>static_e := e1\<rparr>)"
      and p: "(rc, w') = (if rc1 \<noteq> 0 \<or> \<not> flush_ok en \<or> (outname \<noteq> None \<and> \<not> close_ok en) then (-1, err en outname w2)
        else if \<not> f_cat fl \<and> \<not> f_precious fl then (-1, if can_unlink en (in_name fl n) then w2\<lparr>files := (files w2)(in_name fl n := None)\<rparr> else w2)
        else (0, w2))" by (rule process_opened[OF assms(1) I o])
    note on = open_output_some[OF o]
    show thesis
    proof (cases "f_cat fl")
      case True
      then have "files w2 = files w" "outname = None" using on w2 by (auto simp: flush_to_def)
      with p True assms(2) show thesis by (intro kept) (auto simp: err_def split: if_splits)
    next
      case False
      then have d: "outname = Some (out_name fl n)" "out = \<lparr>o_data = [], o_room = disk_room en\<rparr>" using on by auto
      from on(2) False obtain g where g: "files w1 (out_name fl n) = Some g" by auto
      have ne: "in_name fl n \<noteq> out_name fl n" using False i(3) by (intro names_differ) auto
      have f2: "files w2 x = files w x" if "x \<noteq> out_name fl n" for x
        using open_output_files[OF o that] that by (simp add: w2 d(1) flush_to_def)
      have g2: "files w2 (out_name fl n) = Some (g\<lparr>content := o_data out1\<rparr>)" using g by (simp add: w2 d(1) flush_to_def)
      show thesis
      proof (cases "rc1 \<noteq> 0 \<or> \<not> flush_ok en \<or> \<not> close_ok en")
        case True
        then have "w' = err en (Some (out_name fl n)) w2" using p d(1) by auto
        with f2 ne assms(2) show thesis by (intro kept) (auto simp: err_def)
      next
        case ok: False
        show thesis
        proof (cases "f_precious fl \<or> \<not> can_unlink en (in_name fl n)")
          case True
          then have "w' = w2" using p ok False by (auto split: if_splits)
          with f2 ne assms(2) show thesis by (intro kept) auto
        next
          case pr: False
          then have w': "w' = w2\<lparr>files := (files w2)(in_name fl n := None)\<rparr>" using p ok False by auto
          have "convert fl en (chosen_format fl n) (static_e w) (open_stream st) \<lparr>o_data = [], o_room = disk_room en\<rparr> = Some (0, out1, e1)"
            using c on(1) i(2,4) d(2) ok by simp
          then show thesis using ne g2 f2 pr False by (intro moved[of out1 e1 "g\<lparr>content := o_data out1\<rparr>"]) (auto simp: w')
        qed
      qed
    qed
  qed
qed

section \<open>Complete conversions\<close>

text \<open>
  How long the output of a complete conversion of a file is: 33 bytes for every frame of 160 of the samples that can be read (behind
  the header of an audio file), or the header, if the format has one, and 160 samples for every one of the valid frames that
  are the whole file.
\<close>

definition complete_length :: "flags \<Rightarrow> fmtdesc \<Rightarrow> inode \<Rightarrow> nat \<Rightarrow> bool" where
  "complete_length fl fmt st m \<longleftrightarrow>
    (if f_decode fl then
       (\<exists>k. length (content st) = 33 * k \<and> (\<forall>i<k. uint (content st ! (33 * i)) div 16 = 0xD) \<and>
         m = (if fmt_init_output fmt = audio_init then 32 else 0) + 160 * width (fmt_output fmt) * k)
     else
       (\<exists>law fin. init_input (fmt_init_input fmt) (fmt_input fmt) (open_stream st) = Some (law, fin) \<and>
         (read_err st \<longrightarrow> law = linear_fn) \<and> m = 33 * ((length (samples law (rest fin)) + 159) div 160)))"

lemma convert_complete:
  assumes "convert fl en fmt e (open_stream st) \<lparr>o_data = [], o_room = room\<rparr> = Some (0, out, e')"
  shows "complete_length fl fmt st (length (o_data out))"
proof (cases "f_decode fl")
  case True
  obtain f1 where f1: "init_output (fmt_init_output fmt) \<lparr>o_data = [], o_room = room\<rparr> = (True, f1)"
    "process_decode (mem_ok en) (f_fast fl) (f_verbose fl) (fmt_output fmt) (open_stream st) f1 = Some (0, out)"
    using assms True by (auto simp: convert_def split: prod.splits bool.splits)
  have h: "length (o_data f1) = (if fmt_init_output fmt = audio_init then 32 else 0)"
    using f1(1) audio_output_success by (cases "fmt_init_output fmt") (fastforce simp: init_output_def)+
  have "mem_ok en" using f1(2) by (auto simp: process_decode_def gsm_create_def split: if_splits)
  with f1(2) have "decode_loop (fmt_output fmt) (coder_start (f_fast fl) (f_verbose fl)) (open_stream st) f1 = Some (0, out)"
    by (simp add: process_decode_start)
  with decode_loop_total[OF coder_start_ok(1), of "fmt_output fmt" "f_fast fl" "f_verbose fl" "open_stream st" f1]
  obtain k where "length (rest (open_stream st)) = 33 * k" "\<forall>i<k. uint (rest (open_stream st) ! (33 * i)) div 16 = 0xD"
    "length (o_data out) = length (o_data f1) + 160 * width (fmt_output fmt) * k" by auto
  then show ?thesis using True h by (auto simp: complete_length_def rest_def open_stream_def)
next
  case False
  obtain law fin where f: "init_input (fmt_init_input fmt) (fmt_input fmt) (open_stream st) = Some (law, fin)"
    "process_encode (mem_ok en) (f_fast fl) (f_verbose fl) law e fin \<lparr>o_data = [], o_room = room\<rparr> = Some (0, out, e')"
    using assms False by (auto simp: convert_def split: option.splits)
  have "i_err fin = read_err st"
    using f(1) audio_input_err[of "open_stream st" law fin] by (cases "fmt_init_input fmt") (auto simp: init_input_def open_stream_def)
  moreover have "mem_ok en" using f(2) by (auto simp: process_encode_def gsm_create_def split: if_splits)
  ultimately show ?thesis
    using f encode_loop_count[of law "coder_start (f_fast fl) (f_verbose fl)" e fin _ out e'] False
    by (auto simp: process_encode_start length_blocks complete_length_def)
qed

section \<open>Properties\<close>

text \<open>
  C18. The source is deleted only after a successful conversion: whatever the options, the environment and the input,
  \<open>process\<close> either leaves the source file exactly as it was, or it deletes it when neither \<open>-c\<close> nor \<open>-p\<close> is given, the
  conversion has returned 0, and the output file holds the complete conversion of the bytes that could be read (33 bytes for every 160
  samples, or 160 samples for every frame); u-law and A-law input that ends in a read error is never deleted.  No third
  file changes.  Different names are different files here: links between them are not represented, and a read error of
  linear or coded input, which the program takes for the end of the file, is not noticed.
\<close>

theorem toast_keeps_source:
  assumes "process fl en (Some n) w = Some (rc, w')" "files w (in_name fl n) = Some st"
  shows "(files w' (in_name fl n) = Some st \<or>
      files w' (in_name fl n) = None \<and> \<not> f_cat fl \<and> \<not> f_precious fl \<and>
      (\<exists>out e g. convert fl en (chosen_format fl n) (static_e w) (open_stream st) \<lparr>o_data = [], o_room = disk_room en\<rparr> = Some (0, out, e) \<and>
         files w' (out_name fl n) = Some g \<and> content g = o_data out \<and> complete_length fl (chosen_format fl n) st (length (content g)))) \<and>
    (\<forall>x. x \<noteq> in_name fl n \<and> x \<noteq> out_name fl n \<longrightarrow> files w' x = files w x)"
  using assms
proof (cases rule: process_cases)
  case kept
  then show ?thesis by simp
next
  case (moved out e g)
  from convert_complete[OF moved(1)] moved show ?thesis by metis
qed

definition calm :: env where
  "calm = \<lparr>can_read = \<lambda>_. True, can_create = \<lambda>_. True, can_unlink = \<lambda>_. True, disk_room = 640, is_tty = False,
     reply = CHR ''n'', name_max = 0, mem_ok = True, flush_ok = True, close_ok = True\<rparr>"

definition one_file :: "string \<Rightarrow> u8 list \<Rightarrow> world" where
  "one_file n bs = \<lparr>files = [n \<mapsto> fresh\<lparr>content := bs\<rparr>], w_stdin = opened [], w_stdout = \<lparr>o_data = [], o_room = 0\<rparr>,
     static_e = replicate 50 0\<rparr>"

text \<open>A file with a bad frame stays, and the output file is gone again.\<close>

theorem toast_keeps_source_witness:
  "\<exists>w'. process (no_flags\<lparr>f_decode := True, f_precious := True\<rparr>) calm (Some ''a'') (one_file ''a.gsm'' (replicate 33 0)) = Some (-1, w') \<and>
    files w' ''a.gsm'' = Some (fresh\<lparr>content := replicate 33 0\<rparr>)"
proof -
  let ?fl = "no_flags\<lparr>f_decode := True, f_precious := True\<rparr>" and ?w = "one_file ''a.gsm'' (replicate 33 0)"
  let ?f = "fresh\<lparr>content := replicate 33 0\<rparr>" and ?o = "\<lparr>o_data = [], o_room = 640\<rparr>"
  have n: "codename ''a'' = ''a.gsm''" "plainname ''a'' = ''a''"
    by (simp_all add: codename_cases plainname_cases suffix_def SUFFIX_TOASTED_def)
  have g: "grok_format ''a.gsm'' = None" by (simp add: grok_format_def alldescs_def f_audio_def f_alaw_def f_ulaw_def f_linear_def
      plainname_cases suffix_def SUFFIX_TOASTED_def)
  have oi: "open_input ?fl calm (Some ''a'') ?w = Some (Some ''a.gsm'', open_stream ?f, f_ulaw)"
    by (simp add: open_input_def no_flags_def n g one_file_def calm_def okay_as_input_def fresh_def)
  have oo: "open_output ?fl calm (Some ''a'') ?w = (Some (Some ''a'', ?o), ?w\<lparr>files := (files ?w)(''a'' \<mapsto> fresh)\<rparr>)"
    by (simp add: open_output_def no_flags_def n one_file_def calm_def length_okay_def Let_def)
  have "gsm_decode r (replicate 33 0) = Some Bad_magic" for r
    by (simp add: gsm_decode_def gsm_unpack_def magic_test GSM_MAGIC_def)
  then have "process_decode True 0 0 ulaw_fn (open_stream ?f) ?o = Some (-1, ?o)"
    unfolding process_decode_start decode_loop.simps[of _ _ "open_stream ?f"] by (simp add: fread_def open_stream_def fresh_def Let_def)
  then have "convert ?fl calm f_ulaw (replicate 50 0) (open_stream ?f) ?o = Some (-1, ?o, replicate 50 0)"
    by (simp add: convert_def init_output_def f_ulaw_def calm_def no_flags_def)
  then obtain w' where p: "process ?fl calm (Some ''a'') ?w = Some (-1, w')"
    by (simp add: process_def oi oo) (simp add: one_file_def)
  have "files ?w (in_name ?fl ''a'') = Some ?f" by (simp add: in_name_def no_flags_def n one_file_def)
  from toast_keeps_source[OF p this, THEN conjunct1] have "files w' ''a.gsm'' = Some ?f"
    by (simp add: in_name_def no_flags_def n)
  with p show ?thesis by blast
qed

text \<open>A name and a file on which \<open>toast\<close> works undisturbed.\<close>

definition good_env :: "env \<Rightarrow> bool" where
  "good_env en \<longleftrightarrow> mem_ok en \<and> flush_ok en \<and> close_ok en \<and> name_max en = 0 \<and>
     (\<forall>x. can_read en x \<and> can_create en x \<and> can_unlink en x)"

definition plain_format :: "string \<Rightarrow> law \<Rightarrow> bool" where
  "plain_format n law \<longleftrightarrow> (case grok_format n of None \<Rightarrow> law = ulaw_fn
     | Some f \<Rightarrow> f \<noteq> f_audio \<and> fmt_input f = law)"

lemma grok_format_cases: "grok_format n = Some f \<Longrightarrow> f = f_audio \<or> f = f_alaw \<or> f = f_ulaw \<or> f = f_linear"
  by (auto simp: grok_format_def alldescs_def find_Some_iff nth_Cons' split: if_splits)

lemma grok_code:
  assumes "n \<noteq> []" "suffix n SUFFIX_TOASTED = None"
  shows "grok_format (codename n) = grok_format n"
  using plain_of_code[OF assms] assms(2) by (simp add: grok_format_def plainname_cases[of n])

lemma plain_format_convert:
  assumes "plain_format n law"
  shows "fmt_init_input (the_format n) = generic_init" "fmt_init_output (the_format n) = generic_init"
    "fmt_input (the_format n) = law" "fmt_output (the_format n) = law"
proof -
  have "the_format n = f_alaw \<or> the_format n = f_ulaw \<or> the_format n = f_linear" "fmt_input (the_format n) = law"
    using assms grok_format_cases[of n]
    by (auto simp: plain_format_def the_format_def f_ulaw_def[THEN arg_cong, of fmt_input] split: option.splits)
  then show "fmt_init_input (the_format n) = generic_init" "fmt_init_output (the_format n) = generic_init"
    "fmt_input (the_format n) = law" "fmt_output (the_format n) = law"
    by (auto simp: f_alaw_def f_ulaw_def f_linear_def)
qed

text \<open>
  C20. A round trip through the file system: in an environment where everything can be opened, written and deleted, \<open>toast\<close> on a
  regular, readable file with one link and a name that lacks the suffix and does not select the format with a header (\<^verbatim>\<open>.au\<close>)
  replaces the file by one with the suffix and 33 bytes per frame of 160 samples; \<open>toast -d\<close> on the same name then replaces that by a
  file of the old name with 160 samples per frame.  On both occasions \<open>process\<close> returns -1, as it does after an error: the jump to
  \<open>err\<close> behind the deletion of the source is taken whether the deletion failed or not.
\<close>

theorem toast_files_roundtrip:
  assumes "good_env en" "n \<noteq> []" "suffix n SUFFIX_TOASTED = None" "plain_format n law" "words 50 (static_e w)"
    "files w n = Some st" "is_regular st" "st_nlink st \<le> 1" "\<not> read_err st" "files w (codename n) = None"
    "k = (length (samples law (content st)) + 159) div 160" "320 * k \<le> disk_room en"
  shows "\<exists>w1 w2 g h. process no_flags en (Some n) w = Some (-1, w1) \<and>
    files w1 n = None \<and> files w1 (codename n) = Some g \<and> length (content g) = 33 * k \<and>
    process (no_flags\<lparr>f_decode := True\<rparr>) en (Some n) w1 = Some (-1, w2) \<and>
    files w2 (codename n) = None \<and> files w2 n = Some h \<and> length (content h) = 160 * width law * k"
proof -
  let ?fl = "no_flags\<lparr>f_decode := True\<rparr>" and ?o = "\<lparr>o_data = [], o_room = disk_room en\<rparr>"
  let ?fin = "open_stream st"
  have en: "mem_ok en" "flush_ok en" "close_ok en" "name_max en = 0" "can_read en x" "can_create en x" "can_unlink en x" for x
    using assms(1) by (simp_all add: good_env_def)
  note names = plain_of_code[OF assms(2,3)]
  have ne: "codename n \<noteq> n" by (simp add: names(2) SUFFIX_TOASTED_def)
  have pn: "plainname n = n" by (simp add: plainname_cases assms(3))
  note fmt = plain_format_convert[OF assms(4)]
  have w12: "width law = 1 \<or> width law = 2" by (cases law) simp_all
  have r: "rest ?fin = content st" "\<not> i_err ?fin" using assms(9) by (simp_all add: rest_def open_stream_def)
  have "160 * width law * k \<le> disk_room en" "33 * k \<le> disk_room en" using assms(12) w12 by auto
  then obtain code e' dst' where T: "process_encode True 0 0 law (static_e w) ?fin ?o = Some (0, code, e')" "words 50 e'"
    "length (o_data code) = 33 * k" "process_decode True 0 0 law (opened (o_data code)) ?o = Some (0, dst')"
    "length (o_data dst') = 160 * width law * k"
    using toast_untoast[OF assms(5), of law ?fin k ?o ?o 0 0 0 0] r assms(11) by auto
  have oi: "open_input no_flags en (Some n) w = Some (Some n, ?fin, the_format n)"
    using assms(3,6-8) en by (simp add: open_input_def no_flags_def okay_as_input_def the_format_def)
  have oo: "open_output no_flags en (Some n) w = (Some (Some (codename n), ?o), w\<lparr>files := (files w)(codename n \<mapsto> fresh)\<rparr>)"
    using assms(10) en by (simp add: open_output_def no_flags_def length_okay_def Let_def)
  define w1 where "w1 = w\<lparr>static_e := e', files := (files w)(codename n \<mapsto> fresh\<lparr>content := o_data code\<rparr>, n := None)\<rparr>"
  have p1: "process no_flags en (Some n) w = Some (-1, w1)"
    using T(1) en ne unfolding process_def oi oo
    by (simp add: convert_def no_flags_def init_input_def fmt flush_to_def w1_def)
  have ri: "open_stream (fresh\<lparr>content := o_data code\<rparr>) = opened (o_data code)"
    by (simp add: open_stream_def opened_def fresh_def)
  have di: "open_input ?fl en (Some n) w1 = Some (Some (codename n), opened (o_data code), the_format n)"
    using en ne by (simp add: open_input_def no_flags_def w1_def ri okay_as_input_def grok_code[OF assms(2,3)] the_format_def Let_def)
      (simp add: fresh_def)
  have do: "open_output ?fl en (Some n) w1 = (Some (Some n, ?o), w1\<lparr>files := (files w1)(n \<mapsto> fresh)\<rparr>)"
    using en by (simp add: open_output_def no_flags_def pn w1_def length_okay_def Let_def)
  define w2 where "w2 = w1\<lparr>files := (files w1)(n \<mapsto> fresh\<lparr>content := o_data dst'\<rparr>, codename n := None)\<rparr>"
  have p2: "process ?fl en (Some n) w1 = Some (-1, w2)"
    using T(4) en ne unfolding process_def di do
    by (simp add: convert_def no_flags_def init_output_def fmt flush_to_def w2_def)
  show ?thesis
    using p1 p2 T(3,5) ne by (intro exI[of _ w1] exI[of _ w2] exI[of _ "fresh\<lparr>content := o_data code\<rparr>"] exI[of _ "fresh\<lparr>content := o_data dst'\<rparr>"])
      (simp add: w1_def w2_def)
qed

theorem toast_files_roundtrip_witness:
  "\<exists>w1 w2 h. process no_flags calm (Some ''a.l'') (one_file ''a.l'' (replicate 322 0)) = Some (-1, w1) \<and>
    process (no_flags\<lparr>f_decode := True\<rparr>) calm (Some ''a.l'') w1 = Some (-1, w2) \<and>
    files w2 ''a.l'' = Some h \<and> length (content h) = 640"
proof -
  let ?w = "one_file ''a.l'' (replicate 322 0)"
  have n: "suffix ''a.l'' SUFFIX_TOASTED = None" "codename ''a.l'' = ''a.l.gsm''"
    by (simp_all add: codename_cases suffix_def SUFFIX_TOASTED_def)
  have f: "plain_format ''a.l'' linear_fn"
    by (simp add: plain_format_def grok_format_def alldescs_def f_audio_def f_alaw_def f_ulaw_def f_linear_def
        plainname_cases suffix_def SUFFIX_TOASTED_def)
  have s: "(2 :: nat) = (length (samples linear_fn (content (fresh\<lparr>content := replicate 322 0\<rparr>))) + 159) div 160"
    by (simp add: le_samples_length)
  have "good_env calm" by (simp add: good_env_def calm_def)
  from toast_files_roundtrip[OF this _ n(1) f, of ?w "fresh\<lparr>content := replicate 322 0\<rparr>" 2] s n(2) show ?thesis
    by (simp add: one_file_def fresh_def calm_def) blast
qed

lemma option_case_cat: "option_case opt fl = Inr fl' \<Longrightarrow> f_cat fl \<or> opt = CHR ''c'' \<Longrightarrow> f_cat fl'"
  by (auto simp: option_case_def set_format_def split: if_splits option.splits)

lemma option_loop_cat:
  "option_loop opts fl = Inr fl' \<Longrightarrow> f_cat fl \<or> CHR ''c'' \<in> set opts \<Longrightarrow> f_cat fl' \<and> f_precious fl'"
proof (induction opts fl rule: option_loop.induct)
  case (2 opt opts fl)
  then show ?case by (auto split: sum.splits dest: option_case_cat)
qed auto

lemma process_cat:
  assumes "process fl en name w = Some (rc, w')" "f_cat fl"
  shows "files w' = files w"
proof -
  have "open_output fl en name w = (Some (None, w_stdout w), w)" using assms(2) by (simp add: open_output_def split: option.split)
  then show ?thesis using assms
    by (auto simp: process_def flush_to_def err_def Let_def split: option.splits if_splits)
qed

lemma process_all_cat: "process_all fl en ns w = Some w' \<Longrightarrow> f_cat fl \<Longrightarrow> files w' = files w"
proof (induction fl en ns w rule: process_all.induct)
  case (2 fl en n ns w)
  then show ?case by (auto split: option.splits dest: process_cat)
qed simp

text \<open>
  With the option \<open>-c\<close> no file is created, changed or deleted, whatever the other options and the
  arguments: the output goes to the standard output and the sources stay.
\<close>

theorem toast_cat_is_pure:
  assumes "toast_main en av0 opts args w = Some (rc, w')" "CHR ''c'' \<in> set opts"
  shows "files w' = files w"
proof (cases "option_loop opts (parse_argv0 av0 no_flags)")
  case (Inl x)
  then show ?thesis using assms(1) by (simp add: toast_main_def)
next
  case (Inr fl)
  then have c: "f_cat fl" using option_loop_cat assms(2) by blast
  show ?thesis
  proof (cases "args = []")
    case True
    with assms(1) Inr obtain r where "process fl en None w = Some (r, w')" by (auto simp: toast_main_def)
    from process_cat[OF this c] show ?thesis .
  next
    case False
    with assms(1) Inr have "process_all fl en args w = Some w'" by (auto simp: toast_main_def)
    from process_all_cat[OF this c] show ?thesis .
  qed
qed

theorem toast_cat_is_pure_witness:
  "\<exists>w'. toast_main calm None ''cul'' [] (one_file ''a'' [1]) = Some (1, w') \<and> files w' = files (one_file ''a'' [1])"
proof -
  have "f_ulaw \<noteq> f_linear" by (simp add: f_ulaw_def f_linear_def)
  then have "toast_main calm None ''cul'' [] (one_file ''a'' [1]) = Some (1, one_file ''a'' [1])"
    by (simp add: toast_main_def option_case_def set_format_def parse_argv0_def endname_def no_flags_def)
  with toast_cat_is_pure[OF this] show ?thesis by simp
qed

end
