(* ===== verification/Blowfish.thy ===== *)
theory Blowfish
  imports Blowfish_Tables Lockstep
begin

text \<open>
  \<^verbatim>\<open>security/blowfish\<close>: the block cipher (\<^verbatim>\<open>bf_enc.c\<close>, with the index variant of the macro \<open>BF_ENC\<close>), the key
  schedule (\<^verbatim>\<open>bf_skey.c\<close>), and their correctness: the code computes
  the published cipher on 32-bit words, and decryption undoes encryption under every key.

  \<open>BF_LONG\<close> is \<open>unsigned long\<close>, 64 bits here, although the cipher works on 32-bit halves; the sum in \<open>BF_ENC\<close> is cut
  to 32 bits, the index \<open>R >> 24\<close> is not.  A read outside an array is \<open>None\<close>.
\<close>

unbundle bit_operations_syntax

section \<open>Definitions\<close>

subsection \<open>Bytes and words\<close>

type_synonym BF_LONG = "64 word"

definition n2l :: "u8 list \<Rightarrow> BF_LONG" where
  "n2l c = push_bit 24 (ucast (c ! 0)) OR push_bit 16 (ucast (c ! 1)) OR push_bit 8 (ucast (c ! 2)) OR ucast (c ! 3)"

definition l2n :: "BF_LONG \<Rightarrow> u8 list" where
  "l2n l = [ucast (drop_bit 24 l AND 0xff), ucast (drop_bit 16 l AND 0xff), ucast (drop_bit 8 l AND 0xff), ucast (l AND 0xff)]"

text \<open>\<open>n2ln\<close>: the cases of the switch fall through, so byte \<open>i\<close> is read when \<open>i < n\<close>.\<close>

definition n2ln :: "u8 list \<Rightarrow> nat \<Rightarrow> BF_LONG \<times> BF_LONG" where
  "n2ln c n =
    (let b = (\<lambda>i. if i < n then ucast (c ! i) else 0)
     in (push_bit 24 (b 0) OR push_bit 16 (b 1) OR push_bit 8 (b 2) OR b 3,
         push_bit 24 (b 4) OR push_bit 16 (b 5) OR push_bit 8 (b 6) OR b 7))"

definition l2nn :: "BF_LONG \<Rightarrow> BF_LONG \<Rightarrow> nat \<Rightarrow> u8 list" where
  "l2nn l1 l2 n = take n (l2n l1 @ l2n l2)"

subsection \<open>The block cipher\<close>

record BF_KEY =
  bf_P :: "BF_LONG list"
  bf_S :: "BF_LONG list"

definition fetch :: "'a list \<Rightarrow> nat \<Rightarrow> 'a option" where
  "fetch xs i = (if i < length xs then Some (xs ! i) else None)"

definition BF_ENC :: "BF_LONG \<Rightarrow> BF_LONG \<Rightarrow> BF_LONG list \<Rightarrow> BF_LONG \<Rightarrow> BF_LONG option" where
  "BF_ENC LL R S P = do {
    let LL = LL XOR P;
    a \<leftarrow> fetch S (unat (drop_bit 24 R));
    b \<leftarrow> fetch S (0x100 + unat (drop_bit 16 R AND 0xff));
    c \<leftarrow> fetch S (0x200 + unat (drop_bit 8 R AND 0xff));
    d \<leftarrow> fetch S (0x300 + unat (R AND 0xff));
    Some (LL XOR ((((a + b) XOR c) + d) AND 0xffffffff)) }"

definition BF_ROUNDS :: nat where
  "BF_ROUNDS = 16"

definition BF_encrypt :: "BF_LONG \<times> BF_LONG \<Rightarrow> BF_KEY \<Rightarrow> bool \<Rightarrow> (BF_LONG \<times> BF_LONG) option" where
  "BF_encrypt data key enc = do {
    let p = (\<lambda>i. bf_P key ! i);
    let s = bf_S key;
    let l = fst data;
    let r = snd data;
    (l, r) \<leftarrow>
      (if enc then do {
        let l = l XOR p 0;
        r \<leftarrow> BF_ENC r l s (p 1);
        l \<leftarrow> BF_ENC l r s (p 2);
        r \<leftarrow> BF_ENC r l s (p 3);
        l \<leftarrow> BF_ENC l r s (p 4);
        r \<leftarrow> BF_ENC r l s (p 5);
        l \<leftarrow> BF_ENC l r s (p 6);
        r \<leftarrow> BF_ENC r l s (p 7);
        l \<leftarrow> BF_ENC l r s (p 8);
        r \<leftarrow> BF_ENC r l s (p 9);
        l \<leftarrow> BF_ENC l r s (p 10);
        r \<leftarrow> BF_ENC r l s (p 11);
        l \<leftarrow> BF_ENC l r s (p 12);
        r \<leftarrow> BF_ENC r l s (p 13);
        l \<leftarrow> BF_ENC l r s (p 14);
        r \<leftarrow> BF_ENC r l s (p 15);
        l \<leftarrow> BF_ENC l r s (p 16);
        let r = r XOR p (BF_ROUNDS + 1);
        Some (l, r) }
      else do {
        let l = l XOR p (BF_ROUNDS + 1);
        r \<leftarrow> BF_ENC r l s (p 16);
        l \<leftarrow> BF_ENC l r s (p 15);
        r \<leftarrow> BF_ENC r l s (p 14);
        l \<leftarrow> BF_ENC l r s (p 13);
        r \<leftarrow> BF_ENC r l s (p 12);
        l \<leftarrow> BF_ENC l r s (p 11);
        r \<leftarrow> BF_ENC r l s (p 10);
        l \<leftarrow> BF_ENC l r s (p 9);
        r \<leftarrow> BF_ENC r l s (p 8);
        l \<leftarrow> BF_ENC l r s (p 7);
        r \<leftarrow> BF_ENC r l s (p 6);
        l \<leftarrow> BF_ENC l r s (p 5);
        r \<leftarrow> BF_ENC r l s (p 4);
        l \<leftarrow> BF_ENC l r s (p 3);
        r \<leftarrow> BF_ENC r l s (p 2);
        l \<leftarrow> BF_ENC l r s (p 1);
        let r = r XOR p 0;
        Some (l, r) });
    Some (r AND 0xffffffff, l AND 0xffffffff) }"

subsection \<open>The key schedule\<close>

definition bf_init :: BF_KEY where
  "bf_init = \<lparr>bf_P = bf_init_P, bf_S = bf_init_S1 @ bf_init_S2\<rparr>"

text \<open>One read of the key through the pointer \<open>d\<close>, an index into \<open>data\<close>, which starts over at \<open>end\<close>.\<close>

definition key_byte :: "u8 list \<Rightarrow> nat \<Rightarrow> BF_LONG \<times> nat \<Rightarrow> (BF_LONG \<times> nat) option" where
  "key_byte data len = (\<lambda>(ri, d). do {
    b \<leftarrow> fetch data d;
    let d = d + 1;
    Some (push_bit 8 ri OR ucast b, if d \<ge> len then 0 else d) })"

fun xor_key :: "u8 list \<Rightarrow> nat \<Rightarrow> nat list \<Rightarrow> nat \<Rightarrow> BF_LONG list \<Rightarrow> BF_LONG list option" where
  "xor_key data len [] d p = Some p"
| "xor_key data len (i # is) d p = do {
     (ri, d) \<leftarrow> key_byte data len (0, d);
     (ri, d) \<leftarrow> key_byte data len (ri, d);
     (ri, d) \<leftarrow> key_byte data len (ri, d);
     (ri, d) \<leftarrow> key_byte data len (ri, d);
     xor_key data len is d (p[i := p ! i XOR ri]) }"

text \<open>The two loops that replace the subkeys; the indices are those of the even steps.\<close>

fun fill_P :: "nat list \<Rightarrow> BF_LONG \<times> BF_LONG \<Rightarrow> BF_KEY \<Rightarrow> ((BF_LONG \<times> BF_LONG) \<times> BF_KEY) option" where
  "fill_P [] inp key = Some (inp, key)"
| "fill_P (i # is) inp key = do {
     inp \<leftarrow> BF_encrypt inp key True;
     fill_P is inp (key\<lparr>bf_P := (bf_P key)[i := fst inp, i + 1 := snd inp]\<rparr>) }"

fun fill_S :: "nat list \<Rightarrow> BF_LONG \<times> BF_LONG \<Rightarrow> BF_KEY \<Rightarrow> BF_KEY option" where
  "fill_S [] inp key = Some key"
| "fill_S (i # is) inp key = do {
     inp \<leftarrow> BF_encrypt inp key True;
     fill_S is inp (key\<lparr>bf_S := (bf_S key)[i := fst inp, i + 1 := snd inp]\<rparr>) }"

text \<open>A negative length, with which \<open>end\<close> would point before the key, is left out.\<close>

definition BF_set_key :: "nat \<Rightarrow> u8 list \<Rightarrow> BF_KEY option" where
  "BF_set_key len data = do {
    let key = bf_init;
    let len = (if len > (BF_ROUNDS + 2) * 4 then (BF_ROUNDS + 2) * 4 else len);
    p \<leftarrow> xor_key data len [0..<BF_ROUNDS + 2] 0 (bf_P key);
    let key = key\<lparr>bf_P := p\<rparr>;
    (inp, key) \<leftarrow> fill_P (map (\<lambda>k. 2 * k) [0..<9]) (0, 0) key;
    fill_S (map (\<lambda>k. 2 * k) [0..<512]) inp key }"

section \<open>Specification\<close>

subsection \<open>The published cipher\<close>

text \<open>
  Blowfish on 32-bit words: sixteen rounds that mix a subkey into the left half, add \<open>F\<close> of it to the right half and exchange
  the halves, then the last exchange undone and two more subkeys.
\<close>

definition bf_F :: "32 word list \<Rightarrow> 32 word \<Rightarrow> 32 word" where
  "bf_F S x = ((S ! unat (drop_bit 24 x) + S ! (0x100 + unat (drop_bit 16 x AND 0xff)))
     XOR S ! (0x200 + unat (drop_bit 8 x AND 0xff))) + S ! (0x300 + unat (x AND 0xff))"

fun bf_rounds :: "(32 word \<Rightarrow> 32 word) \<Rightarrow> 32 word list \<Rightarrow> 32 word \<times> 32 word \<Rightarrow> 32 word \<times> 32 word" where
  "bf_rounds F [] (L, R) = (L, R)"
| "bf_rounds F (p # ps) (L, R) = (let L = L XOR p in bf_rounds F ps (R XOR F L, L))"

definition blowfish :: "(32 word \<Rightarrow> 32 word) \<Rightarrow> 32 word list \<Rightarrow> 32 word \<times> 32 word \<Rightarrow> 32 word \<times> 32 word" where
  "blowfish F P z = (let (L, R) = bf_rounds F (take 16 P) z in (R XOR P ! 17, L XOR P ! 16))"

text \<open>The same rounds with the subkey mixed in one round early, as the code has them.\<close>

fun feistel :: "(32 word \<Rightarrow> 32 word) \<Rightarrow> 32 word list \<Rightarrow> 32 word \<times> 32 word \<Rightarrow> 32 word \<times> 32 word" where
  "feistel F [] z = z"
| "feistel F (p # ps) (L, R) = feistel F ps (R XOR p XOR F L, L)"

fun enc_chain :: "BF_LONG list \<Rightarrow> BF_LONG list \<Rightarrow> BF_LONG \<times> BF_LONG \<Rightarrow> (BF_LONG \<times> BF_LONG) option" where
  "enc_chain s [] (l, r) = Some (l, r)"
| "enc_chain s (p # ps) (l, r) = do { r \<leftarrow> BF_ENC r l s p; enc_chain s ps (r, l) }"

subsection \<open>Well-formed keys\<close>

definition bf_small :: "BF_LONG \<Rightarrow> bool" where
  "bf_small x \<longleftrightarrow> x < 0x100000000"

definition key_ok :: "BF_KEY \<Rightarrow> bool" where
  "key_ok ks \<longleftrightarrow> length (bf_P ks) = 18 \<and> length (bf_S ks) = 1024 \<and>
     list_all bf_small (bf_P ks) \<and> list_all bf_small (bf_S ks)"

text \<open>A well-formed key is the image of two lists of 32-bit words.\<close>

definition P32 :: "BF_KEY \<Rightarrow> 32 word list" where
  "P32 ks = map ucast (bf_P ks)"

definition S32 :: "BF_KEY \<Rightarrow> 32 word list" where
  "S32 ks = map ucast (bf_S ks)"

definition up :: "32 word \<times> 32 word \<Rightarrow> BF_LONG \<times> BF_LONG" where
  "up = map_prod ucast ucast"

text \<open>The four key bytes that go into subkey \<open>i\<close>: the key is read cyclically.\<close>

definition key_word :: "u8 list \<Rightarrow> nat \<Rightarrow> nat \<Rightarrow> BF_LONG" where
  "key_word data len i = n2l (map (\<lambda>j. data ! ((4 * i + j) mod max 1 len)) [0..<4])"

section \<open>Words of 32 bits inside words of 64\<close>

lemma ucast_ucast_low: "ucast (ucast (x :: BF_LONG) :: 32 word) = take_bit 32 x"
  by (rule bit_word_eqI) (simp add: bit_simps)

lemma mask32: "x AND 0xffffffff = take_bit 32 (x :: BF_LONG)"
proof -
  have "(0xffffffff :: BF_LONG) = mask 32" by (simp add: mask_eq_exp_minus_1)
  then show ?thesis by (simp add: take_bit_eq_mask)
qed

lemma ucast_up_down: "ucast (ucast (a :: 32 word) :: BF_LONG) = a"
  by (rule bit_word_eqI) (simp add: bit_simps)

lemma ucast_add: "(ucast (x + y :: BF_LONG) :: 32 word) = ucast x + ucast y"
proof -
  have "unat (ucast (x + y) :: 32 word) = unat (ucast x + ucast y :: 32 word)"
    by (simp add: unsigned_ucast_eq unat_word_ariths take_bit_eq_mod mod_mod_cancel mod_add_eq)
  then show ?thesis by (rule word_unat_eq_iff[THEN iffD2])
qed

lemma ucast_xor: "(ucast (x XOR y :: BF_LONG) :: 32 word) = ucast x XOR ucast y"
  by (rule bit_word_eqI) (simp add: bit_simps)

lemma sum_low: "(((ucast a + ucast b) XOR ucast c) + ucast d) AND 0xffffffff = (ucast (((a + b) XOR c) + d :: 32 word) :: BF_LONG)"
  unfolding mask32 ucast_ucast_low[symmetric] ucast_add ucast_xor ucast_up_down ..

lemma unat_up: "unat (ucast (b :: 32 word) :: BF_LONG) = unat b"
proof -
  have "unat b < 2 ^ 64" using unsigned_less[of b, where ?'a = nat] by simp
  then show ?thesis by (simp add: unsigned_ucast_eq take_bit_nat_eq_self)
qed

lemma index_ucast:
  "unat (drop_bit n (ucast b :: BF_LONG)) = unat (drop_bit n (b :: 32 word))"
  "unat (drop_bit n (ucast b :: BF_LONG) AND 0xff) = unat (drop_bit n b AND 0xff)"
  "unat ((ucast b :: BF_LONG) AND 0xff) = unat (b AND 0xff)"
  by (simp_all add: unsigned_and_eq unat_drop_bit_eq unat_up)

lemma small_ucast: "(x :: BF_LONG) < 0x100000000 \<Longrightarrow> ucast (ucast x :: 32 word) = x"
proof -
  assume "x < 0x100000000"
  then have "unat x < 2 ^ 32" by (simp add: word_less_nat_alt)
  then have "unat (ucast (ucast x :: 32 word) :: BF_LONG) = unat x"
    by (simp only: unat_up) (simp add: unsigned_ucast_eq take_bit_nat_eq_self)
  then show ?thesis by (rule word_unat_eq_iff[THEN iffD2])
qed

lemma byte_mask: "x AND 0xff = take_bit 8 (x :: BF_LONG)"
proof -
  have "(0xff :: BF_LONG) = mask 8" by (simp add: mask_eq_exp_minus_1)
  then show ?thesis by (simp add: take_bit_eq_mask)
qed

lemma l2n_n2l: "l2n (n2l c) = [c ! 0, c ! 1, c ! 2, c ! 3]"
  unfolding n2l_def l2n_def byte_mask list.inject
  by (intro conjI; (simp only: simp_thms)?; (rule bit_word_eqI)?)
    (auto simp: bit_simps dest: bit_imp_le_length)

lemma n2l_l2n: "n2l (l2n (ucast (w :: 32 word)) @ c) = ucast w"
proof (rule bit_word_eqI)
  fix n assume "n < LENGTH(64)"
  consider "n < 8" | "8 \<le> n" "n < 16" | "16 \<le> n" "n < 24" | "24 \<le> n" "n < 32" | "32 \<le> n" by linarith
  then show "bit (n2l (l2n (ucast w) @ c)) n = bit (ucast w :: BF_LONG) n"
    by cases (auto simp: n2l_def l2n_def bit_simps byte_mask dest: bit_imp_le_length)
qed

section \<open>The block cipher\<close>

lemma feistel_append: "feistel F (ps @ qs) z = feistel F qs (feistel F ps z)"
  by (induction F ps z rule: feistel.induct) auto

lemma feistel_rev: "feistel F (rev ps) (prod.swap (feistel F ps z)) = prod.swap z"
proof (induction F ps z rule: feistel.induct)
  case (2 F p ps L R)
  then show ?case by (simp add: feistel_append xor.assoc)
qed simp

lemma rounds_feistel:
  "bf_rounds F (p # ps) (L, R) = (let (L', R') = feistel F (ps @ [q]) (L XOR p, R) in (L' XOR q, R'))"
  by (induction ps arbitrary: p L R) (simp_all add: Let_def ac_simps)

lemma split_P:
  assumes "length P = 18"
  obtains a ps b c where "P = a # ps @ [b, c]" "length ps = 15"
proof
  show "P = P ! 0 # take 15 (drop 1 P) @ [P ! 16, P ! 17]"
  proof (rule nth_equalityI)
    fix i assume "i < length P"
    then have "i = 0 \<or> (1 \<le> i \<and> i < 16) \<or> i = 16 \<or> i = 17" using assms by linarith
    then show "P ! i = (P ! 0 # take 15 (drop 1 P) @ [P ! 16, P ! 17]) ! i"
      using assms by (auto simp: nth_append nth_Cons')
  qed (simp add: assms)
  show "length (take 15 (drop 1 P)) = 15" by (simp add: assms)
qed

lemma blowfish_feistel:
  assumes "length P = 18"
  shows "blowfish F P (l, r) = (let (L, R) = feistel F (take 16 (tl P)) (l XOR P ! 0, r) in (R XOR P ! 17, L))"
proof -
  obtain a ps b c where P: "P = a # ps @ [b, c]" "length ps = 15" using assms by (rule split_P)
  have t: "take 16 P = a # ps" "take 16 (tl P) = ps @ [b]" "P ! 0 = a" "P ! 16 = b" "P ! 17 = c"
    using P(2) by (simp_all add: P(1) nth_append)
  show ?thesis
    unfolding blowfish_def t rounds_feistel[where q = b] by (simp add: Let_def case_prod_beta xor.assoc)
qed

lemma rev_parts:
  assumes "length P = 18"
  shows "take 16 (tl (rev P)) = rev (take 16 (tl P))" "rev P ! 0 = P ! 17" "rev P ! 17 = P ! 0"
proof -
  obtain a ps b c where P: "P = a # ps @ [b, c]" "length ps = 15" using assms by (rule split_P)
  show "take 16 (tl (rev P)) = rev (take 16 (tl P))" "rev P ! 0 = P ! 17" "rev P ! 17 = P ! 0"
    using P(2) by (simp_all add: P(1) nth_append)
qed

lemma blowfish_inverse:
  assumes "length P = 18"
  shows "blowfish F (rev P) (blowfish F P z) = z"
proof -
  obtain l r where z: "z = (l, r)" by force
  obtain L R where e: "feistel F (take 16 (tl P)) (l XOR P ! 0, r) = (L, R)" by force
  have "feistel F (rev (take 16 (tl P))) (R, L) = (r, l XOR P ! 0)"
    using feistel_rev[of F "take 16 (tl P)" "(l XOR P ! 0, r)"] by (simp add: e)
  then show ?thesis
    using assms by (simp add: z blowfish_feistel e rev_parts xor.assoc)
qed

lemma bf_small_ucast [simp]: "bf_small (ucast (a :: 32 word))"
proof -
  have "unat a < 2 ^ 32" using unsigned_less[of a, where ?'a = nat] by simp
  then show ?thesis by (simp add: bf_small_def word_less_nat_alt unat_up)
qed

lemma bf_small_iff: "bf_small x \<longleftrightarrow> ucast (ucast x :: 32 word) = x"
  using small_ucast[of x] bf_small_ucast[of "ucast x"] by (auto simp: bf_small_def)

lemma up_list: "list_all bf_small xs \<Longrightarrow> map ucast (map (ucast :: _ \<Rightarrow> 32 word) xs) = xs"
  by (induction xs) (auto simp: bf_small_iff)

lemma key_ok_up:
  assumes "key_ok ks"
  shows "bf_P ks = map ucast (P32 ks)" "bf_S ks = map ucast (S32 ks)" "length (P32 ks) = 18" "length (S32 ks) = 1024"
  using assms by (simp_all only: key_ok_def P32_def S32_def up_list length_map)

lemma up_simps [simp]: "up (a, b) = (ucast a, ucast b)" "fst (up z) = ucast (fst z)" "snd (up z) = ucast (snd z)"
  by (simp_all add: up_def)

lemma index_bounds:
  "unat (drop_bit 24 (b :: 32 word)) < 256" "unat (b AND 0xff) < 256"
proof -
  have "unat b < 2 ^ 32" using unsigned_less[of b, where ?'a = nat] by simp
  then show "unat (drop_bit 24 b) < 256" by (simp only: unat_drop_bit_eq drop_bit_nat) simp
  have "b AND 0xff \<le> 0xff" by (rule word_and_le1)
  then show "unat (b AND 0xff) < 256" by (simp add: word_le_nat_alt)
qed

lemma xor_up: "(ucast a :: BF_LONG) XOR ucast b = ucast (a XOR b :: 32 word)"
  by (rule bit_word_eqI) (auto simp: bit_simps)

lemma mask_up: "(ucast (a :: 32 word) :: BF_LONG) AND 0xffffffff = ucast a"
  unfolding mask32 ucast_ucast_low[symmetric] ucast_up_down ..

lemma BF_ENC_up:
  assumes "length S = 1024"
  shows "BF_ENC (ucast a) (ucast b) (map ucast S) (ucast q) = Some (ucast (a XOR q XOR bf_F S b))"
proof -
  have lt: "unat (drop_bit 24 b) < 1024" "0x100 + unat (drop_bit 16 b AND 0xff) < 1024"
    "0x200 + unat (drop_bit 8 b AND 0xff) < 1024" "0x300 + unat (b AND 0xff) < 1024"
    using index_bounds(1)[of b] index_bounds(2)[of "drop_bit 16 b"] index_bounds(2)[of "drop_bit 8 b"] index_bounds(2)[of b]
    by linarith+
  show ?thesis
    using lt assms by (simp add: BF_ENC_def fetch_def Let_def index_ucast sum_low xor_up bf_F_def xor.assoc)
qed

lemma enc_chain_up:
  "length S = 1024 \<Longrightarrow> enc_chain (map ucast S) (map ucast ps) (up z) = Some (up (feistel (bf_F S) ps z))"
  by (induction "bf_F S" ps z rule: feistel.induct) (auto simp: BF_ENC_up)

lemma upt_16: "[1..<17] = [1,2,3,4,5,6,7,8,9,10,11,12,13,14,15,16]"
  by code_simp

lemma BF_encrypt_chain:
  "BF_encrypt (l, r) key enc =
    (let P = (if enc then bf_P key else rev (bf_P key)) in
     do { (l, r) \<leftarrow> enc_chain (bf_S key) (map ((!) P) [1..<17]) (l XOR P ! 0, r);
          Some ((r XOR P ! 17) AND 0xffffffff, l AND 0xffffffff) })"
  if "length (bf_P key) = 18"
  unfolding upt_16 using that
  by (cases enc) (simp_all add: BF_encrypt_def Let_def BF_ROUNDS_def rev_nth)

lemma BF_encrypt_up:
  assumes "key_ok ks"
  shows "BF_encrypt (up z) ks enc = Some (up (blowfish (bf_F (S32 ks)) (if enc then P32 ks else rev (P32 ks)) z))"
proof -
  obtain l r where z: "z = (l, r)" by force
  define P where "P = (if enc then P32 ks else rev (P32 ks))"
  have len: "length P = 18" using key_ok_up[OF assms] by (simp add: P_def)
  have P: "(if enc then bf_P ks else rev (bf_P ks)) = map ucast P"
    using key_ok_up(1)[OF assms] by (simp add: P_def rev_map)
  have t: "map ((!) (map ucast P)) [1..<17] = map ucast (take 16 (tl P))"
    using len by (intro nth_equalityI) (auto simp: nth_tl)
  have k: "length (bf_P ks) = 18" using assms by (simp add: key_ok_def)
  obtain L R where f: "feistel (bf_F (S32 ks)) (take 16 (tl P)) (l XOR P ! 0, r) = (L, R)" by force
  have c: "enc_chain (bf_S ks) (map ucast (take 16 (tl P))) (ucast l XOR ucast (P ! 0), ucast r) = Some (up (L, R))"
    using enc_chain_up[OF key_ok_up(4)[OF assms], of "take 16 (tl P)" "(l XOR P ! 0, r)"]
    by (simp add: f xor_up flip: key_ok_up(2)[OF assms])
  show ?thesis
    using len by (simp add: z BF_encrypt_chain[OF k] P t[simplified] c[unfolded xor_up] Let_def xor_up mask_up blowfish_feistel f flip: P_def)
qed

section \<open>The key schedule\<close>

lemma small_up: "bf_small a \<Longrightarrow> bf_small b \<Longrightarrow> \<exists>z. (a, b) = up z"
  by (intro exI[of _ "(ucast a, ucast b)"]) (simp add: bf_small_iff)

lemma BF_encrypt_total:
  assumes "key_ok ks" "bf_small a" "bf_small b"
  obtains c d where "BF_encrypt (a, b) ks enc = Some (c, d)" "bf_small c" "bf_small d"
proof -
  obtain z where z: "(a, b) = up z" using small_up assms by blast
  obtain l r where lr: "blowfish (bf_F (S32 ks)) (if enc then P32 ks else rev (P32 ks)) z = (l, r)" by force
  show thesis
    by (rule that[of "ucast l" "ucast r"]) (simp_all add: z BF_encrypt_up[OF assms(1)] lr)
qed

lemma key_ok_update:
  assumes "key_ok ks" "bf_small c" "bf_small d"
  shows "key_ok (ks\<lparr>bf_P := (bf_P ks)[i := c, i + 1 := d]\<rparr>)" "key_ok (ks\<lparr>bf_S := (bf_S ks)[i := c, i + 1 := d]\<rparr>)"
  using assms by (simp_all add: key_ok_def list_all_update)

lemma fill_P_ok:
  assumes "key_ok ks" "bf_small a" "bf_small b"
  shows "\<exists>c d ks'. fill_P is (a, b) ks = Some ((c, d), ks') \<and> key_ok ks' \<and> bf_small c \<and> bf_small d"
  using assms
proof (induction "is" arbitrary: a b ks)
  case (Cons i "is")
  obtain c d where "BF_encrypt (a, b) ks True = Some (c, d)" "bf_small c" "bf_small d"
    using Cons.prems by (rule BF_encrypt_total)
  then show ?case
    using Cons.IH[OF key_ok_update(1)[OF Cons.prems(1), of c d i]] by simp
qed simp

lemma fill_S_ok:
  assumes "key_ok ks" "bf_small a" "bf_small b"
  shows "\<exists>ks'. fill_S is (a, b) ks = Some ks' \<and> key_ok ks'"
  using assms
proof (induction "is" arbitrary: a b ks)
  case (Cons i "is")
  obtain c d where "BF_encrypt (a, b) ks True = Some (c, d)" "bf_small c" "bf_small d"
    using Cons.prems by (rule BF_encrypt_total)
  then show ?case
    using Cons.IH[OF key_ok_update(2)[OF Cons.prems(1), of c d i]] by simp
qed simp

lemma key_ok_init: "key_ok bf_init"
  using length_bf_init bf_init_small by (simp add: key_ok_def bf_init_def bf_small_def[abs_def])

lemma key_byte_mod:
  assumes "max 1 len \<le> length data"
  shows "key_byte data len (ri, k mod max 1 len) =
    Some (push_bit 8 ri OR ucast (data ! (k mod max 1 len)), Suc k mod max 1 len)"
proof -
  have "k mod max 1 len < max 1 len" by simp
  then have "k mod max 1 len < length data" using assms by linarith
  then show ?thesis
    by (cases "len = 0") (auto simp: key_byte_def fetch_def mod_Suc max_def Suc_le_eq not_less intro: le_antisym)
qed

lemma four_bytes:
  "push_bit 8 (push_bit 8 (push_bit 8 (push_bit 8 0 OR ucast a) OR ucast b) OR ucast c) OR ucast d =
    push_bit 24 (ucast a) OR push_bit 16 (ucast b) OR push_bit 8 (ucast c) OR (ucast d :: BF_LONG)"
  by (simp add: push_bit_or or.assoc)

lemma xor_key_run:
  assumes "max 1 len \<le> length data" "i \<le> 18" "length p = 18"
  shows "xor_key data len [i..<18] ((4 * i) mod max 1 len) p =
    Some (take i p @ map (\<lambda>k. p ! k XOR key_word data len k) [i..<18])"
  using assms(2,3)
proof (induction "18 - i" arbitrary: i p)
  case 0
  then show ?case by simp
next
  case (Suc n)
  then have i: "i < 18" by simp
  let ?p = "p[i := p ! i XOR key_word data len i]"
  have w: "[i..<18] = i # [Suc i..<18]" using i by (simp add: upt_conv_Cons)
  have n4: "[0..<4] = [0, 1, 2, 3::nat]" by code_simp
  have s: "xor_key data len [i..<18] ((4 * i) mod max 1 len) p = xor_key data len [Suc i..<18] ((4 * Suc i) mod max 1 len) ?p"
  proof -
    define L where "L = max 1 len"
    have b: "key_byte data len (ri, k mod L) = Some (push_bit 8 ri OR ucast (data ! (k mod L)), (k + 1) mod L)" for ri k
      unfolding L_def key_byte_mod[OF assms(1)] by simp
    have e: "4 * i + 1 + 1 = 4 * i + 2" "4 * i + 2 + 1 = 4 * i + 3" "4 * i + 3 + 1 = 4 * Suc i" by simp_all
    show ?thesis
      by (simp only: w xor_key.simps L_def[symmetric] b e bind.bind_lunit prod.case four_bytes key_word_def n2l_def n4
          list.map nth_Cons_0 nth_Cons_numeral add_0_right)
        (simp add: nth_Cons' numeral_eq_Suc)
  qed
  have "xor_key data len [Suc i..<18] ((4 * Suc i) mod max 1 len) ?p =
    Some (take (Suc i) ?p @ map (\<lambda>k. ?p ! k XOR key_word data len k) [Suc i..<18])"
    using Suc by (intro Suc.hyps(1)) auto
  moreover have "take (Suc i) ?p = take i p @ [p ! i XOR key_word data len i]"
    using i Suc.prems by (simp add: take_Suc_conv_app_nth)
  moreover have "map (\<lambda>k. ?p ! k XOR key_word data len k) [Suc i..<18] = map (\<lambda>k. p ! k XOR key_word data len k) [Suc i..<18]"
    by simp
  ultimately show ?case unfolding s by (simp add: w)
qed

lemma n2l_small [simp]: "bf_small (n2l c)"
proof -
  have "bf_small (n2l c) \<longleftrightarrow> take_bit 32 (n2l c) = n2l c" by (simp add: bf_small_iff ucast_ucast_low)
  also have "\<dots>"
    by (rule bit_word_eqI) (auto simp: n2l_def bit_simps dest: bit_imp_le_length)
  finally show ?thesis by simp
qed

lemma xor_small: "bf_small a \<Longrightarrow> bf_small b \<Longrightarrow> bf_small (a XOR b)"
  by (simp add: bf_small_iff ucast_xor flip: xor_up)

lemma BF_set_key_ok:
  assumes "max 1 (min len 72) \<le> length data"
  shows "\<exists>ks. BF_set_key len data = Some ks \<and> key_ok ks"
proof -
  let ?len = "min len 72"
  let ?p = "map (\<lambda>k. bf_P bf_init ! k XOR key_word data ?len k) [0..<18]"
  have x: "xor_key data ?len [0..<18] 0 (bf_P bf_init) = Some ?p"
    using xor_key_run[OF assms, of 0 "bf_P bf_init"] length_bf_init by (simp add: bf_init_def)
  have "list_all bf_small ?p"
    using key_ok_init by (auto simp: key_ok_def list_all_length key_word_def intro: xor_small)
  then have ok: "key_ok (bf_init\<lparr>bf_P := ?p\<rparr>)" using key_ok_init by (simp add: key_ok_def)
  have 0: "bf_small 0" by (simp add: bf_small_def)
  obtain c d ks where P: "fill_P (map (\<lambda>k. 2 * k) [0..<9]) (0, 0) (bf_init\<lparr>bf_P := ?p\<rparr>) = Some ((c, d), ks)"
    "key_ok ks" "bf_small c" "bf_small d" using fill_P_ok[OF ok 0 0] by blast
  obtain ks' where S: "fill_S (map (\<lambda>k. 2 * k) [0..<512]) (c, d) ks = Some ks'" "key_ok ks'"
    using fill_S_ok[OF P(2-4)] by blast
  have len: "(if len > (BF_ROUNDS + 2) * 4 then (BF_ROUNDS + 2) * 4 else len) = ?len" by (simp add: BF_ROUNDS_def min_def)
  have r: "BF_ROUNDS + 2 = 18" by (simp add: BF_ROUNDS_def)
  have "BF_set_key len data = Some ks'"
    unfolding BF_set_key_def Let_def len unfolding r x bind.bind_lunit P(1) prod.case S(1) ..
  with S(2) show ?thesis by blast
qed

lemma BF_encrypt_roundtrip:
  assumes "key_ok ks"
  shows "BF_encrypt (up (blowfish (bf_F (S32 ks)) (P32 ks) z)) ks False = Some (up z)"
  using BF_encrypt_up[OF assms, of _ False] blowfish_inverse[OF key_ok_up(3)[OF assms]] by simp

text \<open>Only the first 72 bytes of the cyclic key stream matter.\<close>

lemma xor_key_result:
  assumes "max 1 (min len 72) \<le> length data"
  shows "xor_key data (min len 72) [0..<18] 0 bf_init_P =
    Some (map (\<lambda>k. bf_init_P ! k XOR key_word data (min len 72) k) [0..<18])"
  using xor_key_run[OF assms, of 0 bf_init_P] length_bf_init by simp

lemma set_key_len: "(if len > (BF_ROUNDS + 2) * 4 then (BF_ROUNDS + 2) * 4 else len) = min len 72"
  by (simp add: BF_ROUNDS_def min_def)

lemma key_word_cong:
  assumes "\<forall>j<72. data ! (j mod max 1 (min len 72)) = data' ! (j mod max 1 (min len' 72))" "k < 18"
  shows "key_word data (min len 72) k = key_word data' (min len' 72) k"
  unfolding key_word_def using assms by (intro arg_cong[where f = n2l] map_cong) auto

section \<open>Properties\<close>

text \<open>
  C5. For every key of at least one byte (any length passed, the buffer holding as many bytes of it as are used)
  \<open>BF_set_key\<close> returns without reading outside an array, and under the key it makes \<open>BF_encrypt\<close> computes the published
  sixteen-round cipher on the two 32-bit halves and, called to decrypt, undoes it.
\<close>

theorem BF_encrypt_correct:
  assumes "max 1 (min len 72) \<le> length data"
  shows "\<exists>ks. BF_set_key len data = Some ks \<and>
    (\<forall>z. BF_encrypt (up z) ks True = Some (up (blowfish (bf_F (S32 ks)) (P32 ks) z)) \<and>
         BF_encrypt (up (blowfish (bf_F (S32 ks)) (P32 ks) z)) ks False = Some (up z))"
  using BF_set_key_ok[OF assms] BF_encrypt_up[where enc = True] BF_encrypt_roundtrip by fastforce

theorem BF_encrypt_correct_witness:
  "\<exists>ks. BF_set_key 8 (replicate 8 0) = Some ks \<and>
    (\<forall>z. BF_encrypt (up z) ks True = Some (up (blowfish (bf_F (S32 ks)) (P32 ks) z)) \<and>
         BF_encrypt (up (blowfish (bf_F (S32 ks)) (P32 ks) z)) ks False = Some (up z))"
  by (rule BF_encrypt_correct) simp

text \<open>
  The schedule depends on the key only through the 72 bytes got by repeating it: two keys whose cyclic extensions agree
  there, in particular a key and its repetition, or two keys with the same first 72 bytes, have the same schedule.
\<close>

theorem BF_set_key_cyclic:
  assumes "max 1 (min len 72) \<le> length data" "max 1 (min len' 72) \<le> length data'"
    and "\<forall>j<72. data ! (j mod max 1 (min len 72)) = data' ! (j mod max 1 (min len' 72))"
  shows "BF_set_key len data = BF_set_key len' data'"
proof -
  have r: "BF_ROUNDS + 2 = 18" and P: "bf_P bf_init = bf_init_P" by (simp_all add: BF_ROUNDS_def bf_init_def)
  have "map (\<lambda>k. bf_init_P ! k XOR key_word data (min len 72) k) [0..<18] =
      map (\<lambda>k. bf_init_P ! k XOR key_word data' (min len' 72) k) [0..<18]"
    using key_word_cong[OF assms(3)] by (intro map_cong) auto
  then show ?thesis
    unfolding BF_set_key_def Let_def set_key_len unfolding r P xor_key_result[OF assms(1)] xor_key_result[OF assms(2)] by (simp only:)
qed

theorem BF_set_key_cyclic_witness:
  "BF_set_key 2 [0x12, 0x34] = BF_set_key 4 [0x12, 0x34, 0x12, 0x34]"
proof (rule BF_set_key_cyclic)
  have m: "[0x12, 0x34] ! (j mod 2) = [0x12, 0x34, 0x12, 0x34 :: u8] ! (j mod 4)" for j :: nat
  proof -
    have "j mod 4 < 4" by simp
    then consider "j mod 4 = 0" | "j mod 4 = 1" | "j mod 4 = 2" | "j mod 4 = 3" by linarith
    moreover have "j mod 2 = (j mod 4) mod 2" by (simp add: mod_mod_cancel)
    ultimately show ?thesis by cases simp_all
  qed
  then show "\<forall>j<72. [0x12, 0x34] ! (j mod max 1 (min 2 72)) = [0x12, 0x34, 0x12, 0x34 :: u8] ! (j mod max 1 (min 4 72))"
    by (simp add: max_def min_def)
qed simp_all

end
