(* ===== verification/Blowfish_Modes.thy ===== *)
theory Blowfish_Modes
  imports Blowfish
begin

text \<open>
  The modes of \<^verbatim>\<open>security/blowfish\<close> (\<^verbatim>\<open>bf_ecb.c\<close>, \<^verbatim>\<open>bf_cbc.c\<close>, \<^verbatim>\<open>bf_cfb64.c\<close>, \<^verbatim>\<open>bf_ofb64.c\<close>) and the
  program \<^verbatim>\<open>bf\<close> (\<^verbatim>\<open>bf.c\<close>), and that each of them is undone by its counterpart.

  A pointer into a buffer is the list of bytes from there on.  The loops over single bytes are \<open>run\<close> of their body, so the
  two sides of a stream are an instance of \<open>lockstep\<close>.
\<close>

unbundle bit_operations_syntax

section \<open>Definitions\<close>

subsection \<open>Electronic codebook and cipher block chaining\<close>

definition BF_ecb_encrypt :: "u8 list \<Rightarrow> BF_KEY \<Rightarrow> bool \<Rightarrow> u8 list option" where
  "BF_ecb_encrypt inp ks enc = do {
    (d0, d1) \<leftarrow> BF_encrypt (n2l inp, n2l (drop 4 inp)) ks enc;
    Some (l2n d0 @ l2n d1) }"

text \<open>
  The loops of \<open>BF_cbc_encrypt\<close>; \<open>l\<close> is the length still to do, \<open>inp\<close> what the pointer \<open>in\<close> points to.  The result is the
  output and the last cipher block, which goes to \<open>iv\<close>.
\<close>

function cbc_encrypt_loop ::
  "BF_KEY \<Rightarrow> nat \<Rightarrow> u8 list \<Rightarrow> BF_LONG \<times> BF_LONG \<Rightarrow> (u8 list \<times> BF_LONG \<times> BF_LONG) option" where
  "cbc_encrypt_loop ks l inp tout =
    (if l = 0 then Some ([], tout)
     else do {
       let (tin0, tin1) = (if l \<ge> 8 then (n2l inp, n2l (drop 4 inp)) else n2ln inp l);
       tin \<leftarrow> BF_encrypt (tin0 XOR fst tout, tin1 XOR snd tout) ks True;
       (rest, last) \<leftarrow> cbc_encrypt_loop ks (l - 8) (drop 8 inp) tin;
       Some (l2n (fst tin) @ l2n (snd tin) @ rest, last) })"
  by pat_completeness auto
termination
  by (relation "measure (\<lambda>(ks, l, inp, tout). l)") auto

function cbc_decrypt_loop ::
  "BF_KEY \<Rightarrow> nat \<Rightarrow> u8 list \<Rightarrow> BF_LONG \<times> BF_LONG \<Rightarrow> (u8 list \<times> BF_LONG \<times> BF_LONG) option" where
  "cbc_decrypt_loop ks l inp x =
    (if l = 0 then Some ([], x)
     else do {
       let tin0 = n2l inp;
       let tin1 = n2l (drop 4 inp);
       tin \<leftarrow> BF_encrypt (tin0, tin1) ks False;
       let tout0 = fst tin XOR fst x;
       let tout1 = snd tin XOR snd x;
       (rest, last) \<leftarrow> cbc_decrypt_loop ks (l - 8) (drop 8 inp) (tin0, tin1);
       Some ((if l \<ge> 8 then l2n tout0 @ l2n tout1 else l2nn tout0 tout1 l) @ rest, last) })"
  by pat_completeness auto
termination
  by (relation "measure (\<lambda>(ks, l, inp, x). l)") auto

text \<open>A negative length is left out.\<close>

definition BF_cbc_encrypt :: "u8 list \<Rightarrow> nat \<Rightarrow> BF_KEY \<Rightarrow> u8 list \<Rightarrow> bool \<Rightarrow> (u8 list \<times> u8 list) option" where
  "BF_cbc_encrypt inp len ks iv enc = do {
    (out, x0, x1) \<leftarrow> (if enc then cbc_encrypt_loop ks len inp (n2l iv, n2l (drop 4 iv))
      else cbc_decrypt_loop ks len inp (n2l iv, n2l (drop 4 iv)));
    Some (out, l2n x0 @ l2n x1) }"

subsection \<open>Cipher feedback and output feedback\<close>

text \<open>The encryption of the vector when a block of it is used up.\<close>

definition cfb_refill :: "BF_KEY \<Rightarrow> u8 list \<Rightarrow> nat \<Rightarrow> u8 list option" where
  "cfb_refill schedule iv n =
    (if n = 0 then do {
       (t0, t1) \<leftarrow> BF_encrypt (n2l iv, n2l (drop 4 iv)) schedule True;
       Some (l2n t0 @ l2n t1) }
     else Some iv)"

text \<open>The bodies of the two loops of \<open>BF_cfb64_encrypt\<close>, over the vector and the position in it.\<close>

definition cfb_step :: "BF_KEY \<Rightarrow> bool \<Rightarrow> u8 list \<times> nat \<Rightarrow> u8 \<Rightarrow> ((u8 list \<times> nat) \<times> u8) option" where
  "cfb_step schedule enc = (\<lambda>(iv, n) b. do {
     iv \<leftarrow> cfb_refill schedule iv n;
     v \<leftarrow> fetch iv n;
     let n' = unat ((of_nat n + 1 :: 32 word) AND 7);
     (if enc then do {
        let c = b XOR v;
        Some ((iv[n := c], n'), c) }
      else do {
        let cc = b;
        let c = v;
        Some ((iv[n := cc], n'), c XOR cc) }) })"

definition BF_cfb64_encrypt :: "u8 list \<Rightarrow> BF_KEY \<Rightarrow> u8 list \<Rightarrow> nat \<Rightarrow> bool \<Rightarrow> (u8 list \<times> u8 list \<times> nat) option" where
  "BF_cfb64_encrypt inp schedule ivec num enc = do {
    ((iv, n), out) \<leftarrow> run (cfb_step schedule enc) (ivec, num) inp;
    Some (out, iv, n) }"

text \<open>In output feedback \<open>d\<close> holds the key stream, \<open>ti\<close> the block it comes from; \<open>save\<close> counts the blocks made.\<close>

record ofb_state =
  ofb_d :: "u8 list"
  ofb_ti :: "BF_LONG \<times> BF_LONG"
  ofb_save :: "32 word"
  ofb_n :: nat

definition ofb_step :: "BF_KEY \<Rightarrow> ofb_state \<Rightarrow> u8 \<Rightarrow> (ofb_state \<times> u8) option" where
  "ofb_step schedule st b = do {
     st \<leftarrow> (if ofb_n st = 0 then do {
         ti \<leftarrow> BF_encrypt (ofb_ti st) schedule True;
         Some (st\<lparr>ofb_d := l2n (fst ti) @ l2n (snd ti), ofb_ti := ti, ofb_save := ofb_save st + 1\<rparr>) }
       else Some st);
     v \<leftarrow> fetch (ofb_d st) (ofb_n st);
     Some (st\<lparr>ofb_n := unat ((of_nat (ofb_n st) + 1 :: 32 word) AND 7)\<rparr>, b XOR v) }"

definition BF_ofb64_encrypt :: "u8 list \<Rightarrow> BF_KEY \<Rightarrow> u8 list \<Rightarrow> nat \<Rightarrow> (u8 list \<times> u8 list \<times> nat) option" where
  "BF_ofb64_encrypt inp schedule ivec num = do {
    let v0 = n2l ivec;
    let v1 = n2l (drop 4 ivec);
    (st, out) \<leftarrow> run (ofb_step schedule) \<lparr>ofb_d = l2n v0 @ l2n v1, ofb_ti = (v0, v1), ofb_save = 0, ofb_n = num\<rparr> inp;
    Some (out, if ofb_save st \<noteq> 0 then l2n (fst (ofb_ti st)) @ l2n (snd (ofb_ti st)) else ivec, ofb_n st) }"

subsection \<open>The program \<^verbatim>\<open>bf\<close>\<close>

text \<open>
  \<open>Bf_undefined\<close> stands for a run with undefined behaviour: an access outside \<open>ukey\<close> or \<open>ivec\<close>, or through \<open>argv[4]\<close> when
  there is no such argument.  The other exits are the messages of the program and, with the bytes written, the end of \<open>main\<close>.
\<close>

datatype bf_exit = Bf_usage | Bf_not_hex | Bf_bad_key | Bf_undefined | Bf_done "u8 list"

text \<open>
  What \<open>main\<close> finds: the contents of its variables \<open>ukey\<close>, \<open>ivec\<close> and \<open>num\<close>, which it does not initialise, the input file
  (\<open>None\<close> when it cannot be opened) and whether the output file can be opened.
\<close>

record bf_env =
  env_ukey :: "u8 list"
  env_ivec :: "u8 list"
  env_num :: int
  env_in :: "u8 list option"
  env_out :: bool

fun parse_key :: "nat \<Rightarrow> 32 word \<Rightarrow> u8 list \<Rightarrow> string \<Rightarrow> bf_exit + u8 list \<times> string" where
  "parse_key i bte ukey [] = Inr (ukey, [])"
| "parse_key i bte ukey (c # cp) =
    (if i < 64 then
       (case hex_digit c of
          None \<Rightarrow> Inl Bf_not_hex
        | Some h \<Rightarrow>
            let bte = push_bit 4 bte + h in
            if odd i then
              (let j = (i + 1) div 2 - 1 in
               if j < length ukey then parse_key (i + 1) bte (ukey[j := ucast (bte AND 0xff)]) cp
               else Inl Bf_undefined)
            else parse_key (i + 1) bte ukey cp)
     else Inr (ukey, c # cp))"

text \<open>
  The inner reading loop, \<open>k\<close> the room left in \<open>indata\<close>: \<open>feof\<close> holds only after a \<open>getc\<close> that found nothing, and the
  \<open>EOF\<close> it returned is stored as the byte \<open>0xff\<close>.
\<close>

fun read_chunk :: "nat \<Rightarrow> u8 list \<Rightarrow> bool \<Rightarrow> u8 list \<times> u8 list \<times> bool" where
  "read_chunk 0 f eof = ([], f, eof)"
| "read_chunk (Suc k) f eof =
    (if eof then ([], f, eof)
     else case f of
       [] \<Rightarrow> (let (xs, f, eof) = read_chunk k [] True in (0xff # xs, f, eof))
     | b # f \<Rightarrow> (let (xs, f, eof) = read_chunk k f False in (b # xs, f, eof)))"

lemma read_chunk_eof [simp]: "read_chunk k f True = ([], f, True)"
  by (cases k) auto

lemma read_chunk_data: "read_chunk k f False =
    (if k \<le> length f then (take k f, drop k f, False) else (f @ [0xff], [], True))"
  by (induction k f "False" rule: read_chunk.induct) (auto simp: take_Cons' drop_Cons' split: list.splits)

function bf_loop :: "BF_KEY \<Rightarrow> bool \<Rightarrow> u8 list \<Rightarrow> bool \<Rightarrow> u8 list \<Rightarrow> nat \<Rightarrow> u8 list option" where
  "bf_loop key enc f eof ivec num =
    (if eof then Some []
     else do {
       let (indata, f, eof) = read_chunk 40 f eof;
       (outdata, ivec, num) \<leftarrow> BF_cfb64_encrypt indata key ivec num enc;
       rest \<leftarrow> bf_loop key enc f eof ivec num;
       Some (outdata @ rest) })"
  by pat_completeness auto
termination
  by (relation "measure (\<lambda>(key, enc, f, eof, ivec, num). length f + (if eof then 0 else 1))")
    (auto simp: read_chunk_data split: if_splits)

definition bf_main :: "string list \<Rightarrow> bf_env \<Rightarrow> bf_exit" where
  "bf_main argv env =
    (if length argv < 3 then Bf_usage
     else
       let a = argv ! 1;
           encordec = (if a \<noteq> [] \<and> (hd a = CHR ''e'' \<or> hd a = CHR ''E'') then Some True
                       else if a \<noteq> [] \<and> (hd a = CHR ''d'' \<or> hd a = CHR ''D'') then Some False else None)
       in case encordec of
         None \<Rightarrow> Bf_usage
       | Some enc \<Rightarrow>
           if length argv < 5 then Bf_undefined
           else case parse_key 0 0 (env_ukey env) (argv ! 4) of
             Inl e \<Rightarrow> e
           | Inr (ukey, cp) \<Rightarrow>
               (case BF_set_key 8 ukey of
                  None \<Rightarrow> Bf_undefined
                | Some key \<Rightarrow>
                    if cp \<noteq> [] then Bf_bad_key
                    else case env_in env of
                      None \<Rightarrow> Bf_usage
                    | Some f \<Rightarrow>
                        if \<not> env_out env then Bf_usage
                        else if env_num env < 0 then Bf_undefined
                        else case bf_loop key enc f False (env_ivec env) (nat (env_num env)) of
                          None \<Rightarrow> Bf_undefined
                        | Some out \<Rightarrow> Bf_done out))"

subsection \<open>States of the two sides of a stream\<close>

definition pad8 :: "u8 list \<Rightarrow> nat \<Rightarrow> u8 list" where
  "pad8 c n = take n c @ replicate (8 - n) 0"

definition cfb_sync :: "BF_KEY \<Rightarrow> u8 list \<times> nat \<Rightarrow> u8 list \<times> nat \<Rightarrow> bool" where
  "cfb_sync ks s t \<longleftrightarrow> key_ok ks \<and> s = t \<and> length (fst s) = 8 \<and> snd s < 8"

definition ofb_sync :: "BF_KEY \<Rightarrow> ofb_state \<Rightarrow> ofb_state \<Rightarrow> bool" where
  "ofb_sync ks s t \<longleftrightarrow> key_ok ks \<and> s = t \<and> length (ofb_d s) = 8 \<and> ofb_n s < 8 \<and>
     bf_small (fst (ofb_ti s)) \<and> bf_small (snd (ofb_ti s))"

text \<open>Several calls of \<open>BF_cfb64_encrypt\<close> in a row, each with its own piece of the data and the vector the last one left.\<close>

definition cfb_call :: "BF_KEY \<Rightarrow> bool \<Rightarrow> u8 list \<times> nat \<Rightarrow> u8 list \<Rightarrow> ((u8 list \<times> nat) \<times> u8 list) option" where
  "cfb_call ks enc = (\<lambda>(iv, n) inp. do { (out, iv, n) \<leftarrow> BF_cfb64_encrypt inp ks iv n enc; Some ((iv, n), out) })"

section \<open>Blocks of bytes\<close>

lemma length_l2n [simp]: "length (l2n x) = 4"
  by (simp add: l2n_def)

lemma n2l_l2n_small: "bf_small x \<Longrightarrow> n2l (l2n x @ c) = x"
  using n2l_l2n[of "ucast x" c] by (simp add: bf_small_iff)

lemma take_4: "4 \<le> length c \<Longrightarrow> take 4 c = [c ! 0, c ! 1, c ! 2, c ! 3]"
  by (intro nth_equalityI) (auto simp: less_Suc_eq numeral_eq_Suc)

lemma l2n_n2l_take: "4 \<le> length c \<Longrightarrow> l2n (n2l c) = take 4 c"
  by (simp add: l2n_n2l take_4)

lemma l2n_block: "8 \<le> length c \<Longrightarrow> l2n (n2l c) @ l2n (n2l (drop 4 c)) = take 8 c"
  using take_add[of 4 4 c] by (simp add: l2n_n2l_take)

lemma n2ln_pad:
  assumes "n \<le> length c" "n < 8"
  shows "n2ln c n = (n2l (pad8 c n), n2l (drop 4 (pad8 c n)))"
proof -
  have "(if i < n then ucast (c ! i) else 0) = (ucast (pad8 c n ! i) :: BF_LONG)" if "i < 8" for i
    using that assms by (auto simp: pad8_def nth_append)
  moreover have "length (pad8 c n) = 8" using assms by (simp add: pad8_def)
  ultimately show ?thesis by (simp add: n2ln_def n2l_def)
qed

lemma l2nn_pad:
  assumes "n \<le> length c" "n < 8"
  shows "l2nn (n2l (pad8 c n)) (n2l (drop 4 (pad8 c n))) n = take n c"
proof -
  have "length (pad8 c n) = 8" using assms by (simp add: pad8_def)
  then show ?thesis using assms by (simp add: l2nn_def l2n_block) (simp add: pad8_def)
qed

section \<open>Cipher block chaining\<close>

lemma encrypt_decrypt:
  assumes "key_ok ks" "bf_small a" "bf_small b"
  obtains c d where "BF_encrypt (a, b) ks True = Some (c, d)" "BF_encrypt (c, d) ks False = Some (a, b)"
    "bf_small c" "bf_small d"
proof -
  obtain z where z: "(a, b) = up z" using small_up assms by blast
  obtain l r where lr: "blowfish (bf_F (S32 ks)) (P32 ks) z = (l, r)" by force
  have "BF_encrypt (up (l, r)) ks False = Some (a, b)"
    using BF_encrypt_roundtrip[OF assms(1), of z] by (simp only: lr z)
  then show thesis
    by (intro that[of "ucast l" "ucast r"]) (simp_all add: z BF_encrypt_up[OF assms(1), of z True, simplified] lr)
qed

declare cbc_encrypt_loop.simps [simp del] cbc_decrypt_loop.simps [simp del]

lemma xor_cancel: "(a XOR b) XOR b = (a :: 'a :: semiring_bit_operations)"
  by (simp add: xor.assoc)

lemma blocks_step:
  fixes l :: nat
  assumes "l \<noteq> 0"
  shows "8 * ((l - 8 + 7) div 8) + 8 = 8 * ((l + 7) div 8)"
proof (cases "8 \<le> l")
  case True
  then have "l + 7 = (l - 8 + 7) + 8" by simp
  then have "(l + 7) div 8 = (l - 8 + 7) div 8 + 1" by (simp only: div_add_self2)
  then show ?thesis by simp
next
  case False
  then have "l + 7 = 8 + (l - 1)" "l - 1 < 8" using assms by auto
  then have "(l + 7) div 8 = 1" by (simp only: div_add_self1)
  then show ?thesis using False by simp
qed

lemma cbc_loop_roundtrip:
  assumes "key_ok ks" "bf_small (fst t)" "bf_small (snd t)" "l \<le> length inp"
  shows "\<exists>out x y. cbc_encrypt_loop ks l inp t = Some (out, x, y) \<and> bf_small x \<and> bf_small y \<and>
    length out = 8 * ((l + 7) div 8) \<and> cbc_decrypt_loop ks l out t = Some (take l inp, x, y)"
  using assms(2-)
proof (induction l arbitrary: inp t rule: less_induct)
  case (less l)
  show ?case
  proof (cases "l = 0")
    case True
    then show ?thesis using less.prems by (cases t) (simp add: cbc_encrypt_loop.simps cbc_decrypt_loop.simps)
  next
    case False
    define c where "c = (if l \<ge> 8 then take 8 inp else pad8 inp l)"
    have tin: "(if l \<ge> 8 then (n2l inp, n2l (drop 4 inp)) else n2ln inp l) = (n2l c, n2l (drop 4 c))"
      using less.prems(3) by (auto simp: c_def n2ln_pad n2l_def)
    obtain p q where e: "BF_encrypt (n2l c XOR fst t, n2l (drop 4 c) XOR snd t) ks True = Some (p, q)"
      "BF_encrypt (p, q) ks False = Some (n2l c XOR fst t, n2l (drop 4 c) XOR snd t)" "bf_small p" "bf_small q"
      by (rule encrypt_decrypt[OF assms(1) xor_small[OF n2l_small less.prems(1)] xor_small[OF n2l_small less.prems(2)]])
    have "l - 8 < l" "l - 8 \<le> length (drop 8 inp)" using False less.prems(3) by auto
    with less.IH[of "l - 8" "(p, q)" "drop 8 inp"] e obtain out x y where r:
      "cbc_encrypt_loop ks (l - 8) (drop 8 inp) (p, q) = Some (out, x, y)" "bf_small x" "bf_small y"
      "length out = 8 * ((l - 8 + 7) div 8)" "cbc_decrypt_loop ks (l - 8) out (p, q) = Some (take (l - 8) (drop 8 inp), x, y)"
      by auto
    let ?out = "l2n p @ l2n q @ out"
    have enc: "cbc_encrypt_loop ks l inp t = Some (?out, x, y)"
      using False by (subst cbc_encrypt_loop.simps) (simp add: tin e r Let_def)
    have blk: "(if l \<ge> 8 then l2n (n2l c) @ l2n (n2l (drop 4 c)) else l2nn (n2l c) (n2l (drop 4 c)) l) = take (min l 8) inp"
      using less.prems(3) by (simp add: c_def l2nn_pad l2n_block[of "take 8 inp"] split: if_split)
    have "take (min l 8) inp @ take (l - 8) (drop 8 inp) = take l inp"
      using take_add[of 8 "l - 8" inp] by (cases "l \<ge> 8") (auto simp: min_def)
    then have dec: "cbc_decrypt_loop ks l ?out t = Some (take l inp, x, y)"
      using False e(3,4) blk by (subst cbc_decrypt_loop.simps)
        (simp add: n2l_l2n_small n2l_l2n_small[of q, simplified] e r Let_def xor_cancel split del: if_split cong: if_cong)
    have "8 * ((l - 8 + 7) div 8) + 8 = 8 * ((l + 7) div 8)" by (rule blocks_step[OF False])
    then show ?thesis using enc dec r by (intro exI[of _ ?out] exI[of _ x] exI[of _ y]) simp
  qed
qed

section \<open>Feedback modes\<close>

lemma next_pos: "n < 8 \<Longrightarrow> unat ((of_nat n + 1 :: 32 word) AND 7) = (n + 1) mod 8"
proof -
  have "list_all (\<lambda>n. unat ((of_nat n + 1 :: 32 word) AND 7) = (n + 1) mod 8) [0..<8]" by code_simp
  then show "n < 8 \<Longrightarrow> ?thesis" by (simp add: list_all_iff)
qed

lemma refill_ok:
  assumes "key_ok ks" "length iv = 8"
  obtains v where "cfb_refill ks iv n = Some v" "length v = 8"
proof (cases "n = 0")
  case True
  obtain c d where "BF_encrypt (n2l iv, n2l (drop 4 iv)) ks True = Some (c, d)" "bf_small c" "bf_small d"
    by (rule BF_encrypt_total[OF assms(1) n2l_small n2l_small])
  then show thesis using True by (intro that[of "l2n c @ l2n d"]) (simp_all add: cfb_refill_def)
qed (use assms that in \<open>simp add: cfb_refill_def\<close>)

lemma cfb_step_sync:
  assumes "cfb_sync ks s t"
  shows "\<exists>s' f t' y. cfb_step ks True s b = Some (s', f) \<and> cfb_step ks False t f = Some (t', y) \<and>
    cfb_sync ks s' t' \<and> y = b"
proof -
  obtain iv n where s: "s = (iv, n)" "t = (iv, n)" "key_ok ks" "length iv = 8" "n < 8"
    using assms by (cases s) (auto simp: cfb_sync_def)
  obtain v where v: "cfb_refill ks iv n = Some v" "length v = 8" by (rule refill_ok[OF s(3,4)])
  show ?thesis
    using v s(3,5) by (simp add: s(1,2) cfb_step_def cfb_sync_def fetch_def next_pos Let_def xor_cancel xor.commute[of "v ! n"])
qed

interpretation cfb: lockstep "cfb_step ks True" "cfb_step ks False" "\<lambda>_. True" "cfb_sync ks" "\<lambda>x f y. y = x" for ks
  by unfold_locales (rule cfb_step_sync)

text \<open>A stream whose state is synchronised is decrypted to itself.\<close>

lemma cfb_stream:
  assumes "key_ok ks" "length iv = 8" "n < 8"
  obtains st cs where "run (cfb_step ks True) (iv, n) bs = Some (st, cs)" "run (cfb_step ks False) (iv, n) cs = Some (st, bs)"
    "length cs = length bs" "length (fst st) = 8" "snd st < 8"
proof -
  have "cfb_sync ks (iv, n) (iv, n)" using assms by (simp add: cfb_sync_def)
  then obtain s' fs t' ys where r: "run (cfb_step ks True) (iv, n) bs = Some (s', fs)" "run (cfb_step ks False) (iv, n) fs = Some (t', ys)"
    "cfb_sync ks s' t'" "length fs = length bs" "length ys = length bs" "\<forall>i<length bs. ys ! i = bs ! i"
    using cfb.stream[of ks "(iv, n)" "(iv, n)" bs] by (auto simp: list_all_iff)
  have "ys = bs" using r(5,6) by (intro nth_equalityI) auto
  with r show thesis by (intro that[of s' fs]) (auto simp: cfb_sync_def)
qed

lemma ofb_step_sync:
  assumes "ofb_sync ks s t"
  shows "\<exists>s' f t' y. ofb_step ks s b = Some (s', f) \<and> ofb_step ks t f = Some (t', y) \<and> ofb_sync ks s' t' \<and> y = b"
proof -
  have s: "s = t" "key_ok ks" "length (ofb_d t) = 8" "ofb_n t < 8" "bf_small (fst (ofb_ti t))" "bf_small (snd (ofb_ti t))"
    using assms by (auto simp: ofb_sync_def)
  obtain c d where "BF_encrypt (ofb_ti t) ks True = Some (c, d)" "bf_small c" "bf_small d"
    using BF_encrypt_total[OF s(2,5,6), of True] by auto
  then show ?thesis
    using s by (simp add: ofb_step_def ofb_sync_def fetch_def next_pos xor_cancel)
qed

interpretation ofb: lockstep "ofb_step ks" "ofb_step ks" "\<lambda>_. True" "ofb_sync ks" "\<lambda>x f y. y = x" for ks
  by unfold_locales (rule ofb_step_sync)

lemma ofb_stream:
  assumes "ofb_sync ks st st"
  obtains st' cs where "run (ofb_step ks) st bs = Some (st', cs)" "run (ofb_step ks) st cs = Some (st', bs)" "length cs = length bs"
proof -
  obtain s' fs t' ys where r: "run (ofb_step ks) st bs = Some (s', fs)" "run (ofb_step ks) st fs = Some (t', ys)"
    "ofb_sync ks s' t'" "length fs = length bs" "length ys = length bs" "\<forall>i<length bs. ys ! i = bs ! i"
    using ofb.stream[of ks st st bs] assms by (auto simp: list_all_iff)
  have "ys = bs" using r(5,6) by (intro nth_equalityI) auto
  with r show thesis by (intro that[of s' fs]) (auto simp: ofb_sync_def)
qed


lemma cfb_call_run: "cfb_call ks enc st inp = run (cfb_step ks enc) st inp"
  by (cases st) (auto simp: cfb_call_def BF_cfb64_encrypt_def split: bind_splits)

lemma cfb_calls_concat:
  "map_option (\<lambda>(s, outs). (s, concat outs)) (run (cfb_call ks enc) st inps) = run (cfb_step ks enc) st (concat inps)"
proof (induction inps arbitrary: st)
  case (Cons inp inps)
  show ?case
  proof (cases "run (cfb_step ks enc) st inp")
    case (Some r)
    obtain s' out where r: "r = (s', out)" by (cases r)
    show ?thesis
      using Cons.IH[of s', symmetric] by (auto simp: cfb_call_run run_append Some r split: bind_splits option.splits)
  qed (simp add: cfb_call_run run_append)
qed simp

lemma made_key: "max 1 (min klen 72) \<le> length k \<Longrightarrow> key_ok (the (BF_set_key klen k))"
  using BF_set_key_ok by fastforce

lemma cfb_calls_of_run:
  assumes "run (cfb_step ks enc) st (concat inps) = Some (s, out)"
  obtains outs where "run (cfb_call ks enc) st inps = Some (s, outs)" "concat outs = out"
  using cfb_calls_concat[of ks enc st inps] assms by auto

section \<open>The program\<close>

declare bf_loop.simps [simp del]



lemma parse_key_overflow:
  assumes "list_all (\<lambda>c. hex_digit c \<noteq> None) k" "2 * length ukey + 2 \<le> i + length k" "2 * length ukey + 2 \<le> 64" "i < 2 * length ukey + 2"
  shows "parse_key i b ukey k = Inl Bf_undefined"
  using assms
proof (induction i b ukey k rule: parse_key.induct)
  case (2 i b ukey c cp)
  have "even i \<Longrightarrow> i + 1 < 2 * length ukey + 2" using 2(6) by presburger
  moreover have "odd i \<Longrightarrow> (i + 1) div 2 - 1 < length ukey \<Longrightarrow> i + 1 < 2 * length ukey + 2" by presburger
  ultimately show ?case using 2 by (auto simp: Let_def)
qed simp


section \<open>Properties\<close>

text \<open>
  C7. Cipher block chaining of data of any length that is not negative, a multiple of the block size or not, succeeds under every
  key, gives whole blocks (so the output may be up to seven bytes longer than the data), and decrypting them with the same vector gives
  back exactly the data and leaves the same vector.  For lengths that are not a multiple of 8 this is more than
  \<^verbatim>\<open>blowfish.doc\<close> promises, which warns that bad things will probably happen.
\<close>

theorem BF_cbc_roundtrip:
  assumes "max 1 (min klen 72) \<le> length k" "len \<le> length inp"
  shows "\<exists>out iv'. BF_cbc_encrypt inp len (the (BF_set_key klen k)) iv True = Some (out, iv') \<and>
    length out = 8 * ((len + 7) div 8) \<and>
    BF_cbc_encrypt out len (the (BF_set_key klen k)) iv False = Some (take len inp, iv')"
proof -
  obtain out x y where "cbc_encrypt_loop (the (BF_set_key klen k)) len inp (n2l iv, n2l (drop 4 iv)) = Some (out, x, y)"
    "length out = 8 * ((len + 7) div 8)"
    "cbc_decrypt_loop (the (BF_set_key klen k)) len out (n2l iv, n2l (drop 4 iv)) = Some (take len inp, x, y)"
    using cbc_loop_roundtrip[OF made_key[OF assms(1)], of "(n2l iv, n2l (drop 4 iv))" len inp] assms(2) by auto
  then show ?thesis by (simp add: BF_cbc_encrypt_def)
qed

theorem BF_cbc_roundtrip_witness:
  "\<exists>out iv'. BF_cbc_encrypt (replicate 13 65) 13 (the (BF_set_key 2 [1, 2])) (replicate 8 0) True = Some (out, iv') \<and>
    length out = 8 * ((13 + 7) div 8) \<and>
    BF_cbc_encrypt out 13 (the (BF_set_key 2 [1, 2])) (replicate 8 0) False = Some (take 13 (replicate 13 65), iv')"
  by (rule BF_cbc_roundtrip) simp_all

text \<open>
  C6. Cipher feedback: data handed over in any pieces is encrypted without failure, and the cipher text handed over in any
  other pieces decrypts to it, from every start position inside a block; both sides end with the same vector and position.
\<close>

theorem BF_cfb64_stream:
  assumes "max 1 (min klen 72) \<le> length k" "length iv = 8" "n < 8"
  shows "\<exists>st cs. run (cfb_call (the (BF_set_key klen k)) True) (iv, n) ps = Some (st, cs) \<and>
    length (concat cs) = length (concat ps) \<and>
    (\<forall>qs. concat qs = concat cs \<longrightarrow>
      (\<exists>ys. run (cfb_call (the (BF_set_key klen k)) False) (iv, n) qs = Some (st, ys) \<and> concat ys = concat ps))"
proof -
  obtain st cs where s: "run (cfb_step (the (BF_set_key klen k)) True) (iv, n) (concat ps) = Some (st, cs)"
    "run (cfb_step (the (BF_set_key klen k)) False) (iv, n) cs = Some (st, concat ps)" "length cs = length (concat ps)"
    by (rule cfb_stream[OF made_key[OF assms(1)] assms(2,3)])
  obtain outs where "run (cfb_call (the (BF_set_key klen k)) True) (iv, n) ps = Some (st, outs)" "concat outs = cs"
    using s(1) by (rule cfb_calls_of_run)
  moreover have "\<exists>ys. run (cfb_call (the (BF_set_key klen k)) False) (iv, n) qs = Some (st, ys) \<and> concat ys = concat ps"
    if "concat qs = cs" for qs
    using cfb_calls_of_run[of "the (BF_set_key klen k)" False "(iv, n)" qs] s(2) that by metis
  ultimately show ?thesis using s(3) by (intro exI[of _ st] exI[of _ outs]) simp
qed

theorem BF_cfb64_stream_witness:
  "\<exists>st cs. run (cfb_call (the (BF_set_key 1 [7])) True) (replicate 8 0, 3) [[1, 2], [3]] = Some (st, cs) \<and>
    length (concat cs) = length (concat [[1, 2], [3 :: u8]]) \<and>
    (\<forall>qs. concat qs = concat cs \<longrightarrow>
      (\<exists>ys. run (cfb_call (the (BF_set_key 1 [7])) False) (replicate 8 0, 3) qs = Some (st, ys) \<and> concat ys = concat [[1, 2], [3]]))"
  by (rule BF_cfb64_stream) simp_all

text \<open>Output feedback is its own inverse, from every start position inside a block.\<close>

theorem BF_ofb64_involution:
  assumes "max 1 (min klen 72) \<le> length k" "length iv = 8" "n < 8"
  shows "\<exists>out iv' n'. BF_ofb64_encrypt inp (the (BF_set_key klen k)) iv n = Some (out, iv', n') \<and> length out = length inp \<and>
    BF_ofb64_encrypt out (the (BF_set_key klen k)) iv n = Some (inp, iv', n')"
proof -
  let ?st = "\<lparr>ofb_d = l2n (n2l iv) @ l2n (n2l (drop 4 iv)), ofb_ti = (n2l iv, n2l (drop 4 iv)), ofb_save = 0, ofb_n = n\<rparr>"
  have "ofb_sync (the (BF_set_key klen k)) ?st ?st" using made_key[OF assms(1)] assms(3) by (simp add: ofb_sync_def)
  then obtain st' cs where "run (ofb_step (the (BF_set_key klen k))) ?st inp = Some (st', cs)"
    "run (ofb_step (the (BF_set_key klen k))) ?st cs = Some (st', inp)" "length cs = length inp"
    by (rule ofb_stream)
  then show ?thesis by (simp add: BF_ofb64_encrypt_def)
qed

theorem BF_ofb64_involution_witness:
  "\<exists>out iv' n'. BF_ofb64_encrypt [1, 2, 3] (the (BF_set_key 1 [7])) (replicate 8 0) 5 = Some (out, iv', n') \<and> length out = length [1, 2, 3 :: u8] \<and>
    BF_ofb64_encrypt out (the (BF_set_key 1 [7])) (replicate 8 0) 5 = Some ([1, 2, 3], iv', n')"
  by (rule BF_ofb64_involution) simp_all

text \<open>
  A key of 18 or more hexadecimal digits, such as the 32-digit key of the shipped scripts, makes the program write outside
  its eight-byte key buffer.
\<close>

theorem bf_long_key_undefined:
  assumes "list_all (\<lambda>c. hex_digit c \<noteq> None) k" "18 \<le> length k" "length (env_ukey env) = 8"
    and "mode = ''e'' \<or> mode = ''d''"
  shows "bf_main [prog, mode, inn, outn, k] env = Bf_undefined"
proof -
  have "parse_key 0 0 (env_ukey env) k = Inl Bf_undefined"
    using parse_key_overflow[OF assms(1), of "env_ukey env" 0 0] assms(2,3) by simp
  then show ?thesis using assms(4) by (auto simp: bf_main_def)
qed

theorem bf_long_key_undefined_witness:
  "bf_main [''bf'', ''e'', ''input_small.asc'', ''output_small.enc'', ''1234567890abcdeffedcba0987654321'']
    \<lparr>env_ukey = replicate 8 0, env_ivec = replicate 8 0, env_num = 0, env_in = Some [], env_out = True\<rparr> = Bf_undefined"
proof (rule bf_long_key_undefined)
  show "list_all (\<lambda>c. hex_digit c \<noteq> None) ''1234567890abcdeffedcba0987654321''" by code_simp
qed simp_all



end
