(* ===== verification/Stringsearch.thy ===== *)
theory Stringsearch
  imports Prelude "HOL-Library.Monad_Syntax"
begin

text \<open>
  \<^verbatim>\<open>office/stringsearch\<close>: the three Boyer-Moore-Horspool searches (\<^verbatim>\<open>bmhsrch.c\<close>, \<^verbatim>\<open>bmhisrch.c\<close>, \<^verbatim>\<open>bmhasrch.c\<close>)
  and the Pratt-Boyer-Moore search (\<^verbatim>\<open>pbmsrch_small.c\<close>, \<^verbatim>\<open>pbmsrch_large.c\<close>).  Each of them finds the first occurrence.

  The three Horspool programs differ in how they fill their tables and compare characters; the search itself is the same text
  in all of them, here one definition with the comparison as an argument.  A string is the list of its bytes without the
  terminating zero; \<open>char\<close> is signed.  The static variables of a program are a record.  The searches are partial functions:
  \<open>None\<close> stands for a read outside a string as well as for a loop that never ends.
\<close>

unbundle bit_operations_syntax

section \<open>Definitions\<close>

subsection \<open>The state\<close>

datatype bm_error = Bm_undefined | Bm_exit

record bm_state =
  patlen :: int
  skip :: "int list"
  skip2 :: int
  pat :: "u8 list"

definition LARGE :: int where
  "LARGE = 32767"

text \<open>\<open>toupper\<close> and \<open>tolower\<close> of the C locale, on the whole range of \<open>int\<close>.\<close>

definition c_toupper :: "int \<Rightarrow> int" where
  "c_toupper c = (if 97 \<le> c \<and> c \<le> 122 then c - 32 else c)"

definition c_tolower :: "int \<Rightarrow> int" where
  "c_tolower c = (if 65 \<le> c \<and> c \<le> 90 then c + 32 else c)"

subsection \<open>Filling the tables\<close>

definition second_shift :: "(u8 \<Rightarrow> bool) \<Rightarrow> u8 list \<Rightarrow> int" where
  "second_shift same p =
    fold (\<lambda>i s. if same (p ! i) then int (length p) - int i - 1 else s) [0..<length p - 1] (int (length p))"

definition bmh_init :: "u8 list \<Rightarrow> bm_error + bm_state" where
  "bmh_init pattern =
    (let pat = pattern;
         patlen = int (length pattern);
         skip = replicate 256 patlen;
         skip = fold (\<lambda>i s. s[unat (pat ! i) := patlen - int i - 1]) [0..<length pat] skip
     in if pat = [] then Inl Bm_undefined
        else
          let lastpatchar = pat ! (length pat - 1);
              skip = skip[unat lastpatchar := LARGE]
          in Inr \<lparr>patlen = patlen, skip = skip, skip2 = second_shift (\<lambda>c. c = lastpatchar) pat, pat = pat\<rparr>)"

text \<open>\<open>alloc\<close> says whether \<open>realloc\<close> finds memory; \<open>c_upper\<close> is the conversion of one byte of the pattern.\<close>

definition c_upper :: "u8 \<Rightarrow> u8" where
  "c_upper c = word_of_int (c_toupper (sint c))"

definition c_lower :: "u8 \<Rightarrow> u8" where
  "c_lower c = word_of_int (c_tolower (uint c))"

definition bmhi_init :: "bool \<Rightarrow> u8 list \<Rightarrow> bm_error + bm_state" where
  "bmhi_init alloc pattern =
    (let patlen = int (length pattern) in
     if \<not> alloc then Inl Bm_exit
     else
       let pat = map c_upper pattern;
           skip = replicate 256 patlen;
           skip = fold (\<lambda>i s. s[unat (pat ! i) := patlen - int i - 1, unat (c_lower (pat ! i)) := patlen - int i - 1])
             [0..<length pat - 1] skip
       in if pat = [] then Inl Bm_undefined
          else
            let lastpatchar = pat ! (length pat - 1);
                skip = skip[unat lastpatchar := LARGE, unat (c_lower lastpatchar) := LARGE]
            in Inr \<lparr>patlen = patlen, skip = skip, skip2 = second_shift (\<lambda>c. c = lastpatchar) pat, pat = pat\<rparr>)"

definition lowervec :: "u8 list" where
  "lowervec =
  [0, 1, 2, 3, 4, 5, 6, 7, 8, 9, 10, 11, 12, 13, 14, 15,
   16, 17, 18, 19, 20, 21, 22, 23, 24, 25, 26, 27, 28, 29, 30, 31,
   32, 33, 34, 35, 36, 37, 38, 39, 40, 41, 42, 43, 44, 45, 46, 47,
   48, 49, 50, 51, 52, 53, 54, 55, 56, 57, 58, 59, 60, 61, 62, 63,
   64, 97, 98, 99, 100, 101, 102, 103, 104, 105, 106, 107, 108, 109, 110, 111,
   112, 113, 114, 115, 116, 117, 118, 119, 120, 121, 122, 91, 92, 93, 94, 95,
   96, 97, 98, 99, 100, 101, 102, 103, 104, 105, 106, 107, 108, 109, 110, 111,
   112, 113, 114, 115, 116, 117, 118, 119, 120, 121, 122, 123, 124, 125, 126, 127,
   99, 117, 101, 97, 97, 97, 97, 99, 101, 101, 101, 105, 105, 105, 97, 97,
   101, 145, 146, 111, 111, 111, 117, 117, 121, 111, 117, 155, 156, 157, 158, 159,
   97, 105, 111, 117, 110, 110, 166, 167, 168, 169, 170, 171, 172, 173, 174, 175,
   176, 177, 178, 179, 180, 181, 182, 183, 184, 185, 186, 187, 188, 189, 190, 191,
   192, 193, 194, 195, 196, 197, 198, 199, 200, 201, 202, 203, 204, 205, 206, 207,
   208, 209, 210, 211, 212, 213, 214, 215, 216, 217, 218, 219, 220, 221, 222, 223,
   224, 225, 226, 227, 228, 229, 230, 231, 232, 233, 234, 235, 236, 237, 238, 239,
   240, 241, 242, 243, 244, 245, 246, 247, 248, 249, 250, 251, 252, 253, 254, 255]"

definition lowerc :: "u8 \<Rightarrow> u8" where
  "lowerc c = lowervec ! unat c"

text \<open>The inner loop of \<open>bmha_init\<close>: the last position below \<open>j\<close> whose character matches, \<open>-1\<close> when there is none.\<close>

fun scan_back :: "u8 list \<Rightarrow> u8 \<Rightarrow> nat \<Rightarrow> int" where
  "scan_back p c 0 = -1"
| "scan_back p c (Suc j) = (if lowerc c = lowerc (p ! j) then int j else scan_back p c j)"

definition bmha_skip :: "u8 list \<Rightarrow> u8 \<Rightarrow> int" where
  "bmha_skip p c =
    (let patlen = int (length p);
         j = scan_back p c (length p);
         s = patlen;
         s = (if j \<ge> 0 then patlen - j - 1 else s)
     in if j = patlen - 1 then LARGE else s)"

definition bmha_init :: "u8 list \<Rightarrow> bm_state" where
  "bmha_init pattern =
    \<lparr>patlen = int (length pattern), skip = map (\<lambda>i. bmha_skip pattern (of_nat i)) [0..<256],
     skip2 = second_shift (\<lambda>c. lowerc c = lowerc (pattern ! (length pattern - 1))) pattern, pat = pattern\<rparr>"

subsection \<open>Searching\<close>

text \<open>A read of \<open>string[k]\<close>.\<close>

definition char_at :: "u8 list \<Rightarrow> int \<Rightarrow> u8 option" where
  "char_at string k = (if 0 \<le> k \<and> k < int (length string) then Some (string ! nat k) else None)"

text \<open>The ``mighty fast inner loop''; \<open>n\<close> is \<open>stringlen\<close>, and \<open>i\<close> counts from the end of the text.\<close>

partial_function (option) skip_loop :: "int list \<Rightarrow> u8 list \<Rightarrow> int \<Rightarrow> int \<Rightarrow> int option" where
  "skip_loop sk string n i = do {
    c \<leftarrow> char_at string (n + i);
    let i = i + sk ! unat c;
    if i < 0 then skip_loop sk string n i else Some i }"

fun compare_loop :: "(u8 \<Rightarrow> u8 \<Rightarrow> bool) \<Rightarrow> u8 list \<Rightarrow> u8 list \<Rightarrow> int \<Rightarrow> nat \<Rightarrow> bool option" where
  "compare_loop eqc p string s 0 = Some True"
| "compare_loop eqc p string s (Suc j) = do {
    c \<leftarrow> char_at string (s + int j);
    if eqc c (p ! j) then compare_loop eqc p string s j else Some False }"

partial_function (option) search_loop ::
  "(u8 \<Rightarrow> u8 \<Rightarrow> bool) \<Rightarrow> bm_state \<Rightarrow> u8 list \<Rightarrow> int \<Rightarrow> int \<Rightarrow> int option option" where
  "search_loop eqc st string n i = do {
    i \<leftarrow> skip_loop (skip st) string n i;
    if i < LARGE - n then Some None
    else do {
      let i = i - LARGE;
      let s = n + (i - (patlen st - 1));
      found \<leftarrow> compare_loop eqc (pat st) string s (nat (patlen st - 1));
      if found then Some (Some s)
      else do {
        let i = i + skip2 st;
        if i \<ge> 0 then Some None else search_loop eqc st string n i } } }"

definition bm_search :: "(u8 \<Rightarrow> u8 \<Rightarrow> bool) \<Rightarrow> bm_state \<Rightarrow> u8 list \<Rightarrow> int \<Rightarrow> int option option" where
  "bm_search eqc st string stringlen =
    (let i = patlen st - 1 - stringlen in
     if i \<ge> 0 then Some None else search_loop eqc st string stringlen i)"

definition bmh_search :: "bm_state \<Rightarrow> u8 list \<Rightarrow> int \<Rightarrow> int option option" where
  "bmh_search = bm_search (\<lambda>c p. sint c = uint p)"

definition bmhi_search :: "bm_state \<Rightarrow> u8 list \<Rightarrow> int \<Rightarrow> int option option" where
  "bmhi_search = bm_search (\<lambda>c p. c_toupper (sint c) = uint p)"

definition bmha_search :: "bm_state \<Rightarrow> u8 list \<Rightarrow> int \<Rightarrow> int option option" where
  "bmha_search = bm_search (\<lambda>c p. lowerc c = lowerc p)"

subsection \<open>The Pratt-Boyer-Moore search\<close>

text \<open>\<open>size_t\<close> is a natural number with the wrap-around of 64 bits written out.\<close>

record pbm_state =
  pbm_table :: "nat list"
  pbm_len :: nat
  findme :: "u8 list"

definition init_search :: "u8 list \<Rightarrow> pbm_state" where
  "init_search string =
    (let len = length string;
         table = replicate 256 len;
         table = fold (\<lambda>i t. t[unat (string ! i) := len - i - 1]) [0..<len] table
     in \<lparr>pbm_table = table, pbm_len = len, findme = string\<rparr>)"

fun strncmp_eq :: "nat \<Rightarrow> u8 list \<Rightarrow> u8 list \<Rightarrow> bool" where
  "strncmp_eq 0 a b = True"
| "strncmp_eq (Suc n) [] [] = True"
| "strncmp_eq (Suc n) [] (y # b) = False"
| "strncmp_eq (Suc n) (x # a) [] = False"
| "strncmp_eq (Suc n) (x # a) (y # b) = (x = y \<and> strncmp_eq n a b)"

text \<open>The inner loop, over \<open>pos\<close> and \<open>shift\<close>.\<close>

partial_function (option) shift_loop :: "nat list \<Rightarrow> u8 list \<Rightarrow> nat \<Rightarrow> nat \<Rightarrow> (nat \<times> nat) option" where
  "shift_loop table string pos shift =
    (if pos < length string then
       (let shift = table ! unat (string ! pos) in
        if shift > 0 then shift_loop table string ((pos + shift) mod 2 ^ 64) shift else Some (pos, shift))
     else Some (pos, shift))"

partial_function (option) str_loop :: "pbm_state \<Rightarrow> u8 list \<Rightarrow> nat \<Rightarrow> nat \<Rightarrow> nat option option" where
  "str_loop st string pos shift =
    (if pos < length string then do {
       (pos, shift) \<leftarrow> shift_loop (pbm_table st) string pos shift;
       if shift = 0 then
         (let here = pos + 1 - pbm_len st in
          if strncmp_eq (pbm_len st) (findme st) (drop here string) then Some (Some here)
          else str_loop st string ((pos + 1) mod 2 ^ 64) shift)
       else str_loop st string pos shift }
     else Some None)"

text \<open>\<open>shift\<close> is not initialised.\<close>

definition strsearch :: "pbm_state \<Rightarrow> nat \<Rightarrow> u8 list \<Rightarrow> nat option option" where
  "strsearch st shift string = str_loop st string ((pbm_len st + (2 ^ 64 - 1)) mod 2 ^ 64) shift"

text \<open>
  The loop of \<open>main\<close> over the two arrays (\<open>find_strings\<close> ends at its null pointer): for every pair the position found.
\<close>

fun pbm_main :: "u8 list list \<Rightarrow> u8 list list \<Rightarrow> nat \<Rightarrow> nat option list option" where
  "pbm_main [] texts shift = Some []"
| "pbm_main (f # finds) [] shift = None"
| "pbm_main (f # finds) (t # texts) shift = do {
    here \<leftarrow> strsearch (init_search f) shift t;
    rest \<leftarrow> pbm_main finds texts shift;
    Some (here # rest) }"

declare skip_loop.simps [code] search_loop.simps [code] shift_loop.simps [code] str_loop.simps [code]

section \<open>Specification\<close>

definition occurs_at :: "(u8 \<Rightarrow> u8 \<Rightarrow> bool) \<Rightarrow> u8 list \<Rightarrow> u8 list \<Rightarrow> nat \<Rightarrow> bool" where
  "occurs_at eqc p t k \<longleftrightarrow> k + length p \<le> length t \<and> list_all (\<lambda>j. eqc (t ! (k + j)) (p ! j)) [0..<length p]"

definition first_occurrence :: "(u8 \<Rightarrow> u8 \<Rightarrow> bool) \<Rightarrow> u8 list \<Rightarrow> u8 list \<Rightarrow> nat option" where
  "first_occurrence eqc p t = List.find (occurs_at eqc p t) [0..<length t + 1]"

text \<open>What the tables of a pattern have to satisfy for a search with the comparison \<open>eqc\<close>.\<close>

definition tables_ok :: "(u8 \<Rightarrow> u8 \<Rightarrow> bool) \<Rightarrow> bm_state \<Rightarrow> bool" where
  "tables_ok eqc st \<longleftrightarrow>
    patlen st = int (length (pat st)) \<and> pat st \<noteq> [] \<and>
    (\<forall>c. eqc c (last (pat st)) \<longrightarrow> skip st ! unat c = LARGE) \<and>
    (\<forall>c. \<not> eqc c (last (pat st)) \<longrightarrow> 1 \<le> skip st ! unat c \<and> skip st ! unat c \<le> patlen st \<and>
      (\<forall>j<length (pat st). patlen st - 1 - skip st ! unat c < int j \<longrightarrow> \<not> eqc c (pat st ! j))) \<and>
    1 \<le> skip2 st \<and> skip2 st \<le> patlen st \<and>
    (\<forall>c j. eqc c (last (pat st)) \<longrightarrow> j < length (pat st) - 1 \<longrightarrow> patlen st - 1 - skip2 st < int j \<longrightarrow> \<not> eqc c (pat st ! j))"

definition none_before :: "(u8 \<Rightarrow> u8 \<Rightarrow> bool) \<Rightarrow> u8 list \<Rightarrow> u8 list \<Rightarrow> nat \<Rightarrow> bool" where
  "none_before eqc p t e \<longleftrightarrow> (\<forall>k. k + length p \<le> e \<longrightarrow> \<not> occurs_at eqc p t k)"

text \<open>The entry of a character that does not match the last one: its distance from the end of the pattern.\<close>

definition distance :: "(u8 \<Rightarrow> u8 \<Rightarrow> bool) \<Rightarrow> u8 list \<Rightarrow> u8 \<Rightarrow> int" where
  "distance eqc p c = fold (\<lambda>i x. if eqc c (p ! i) then int (length p) - int i - 1 else x) [0..<length p] (int (length p))"

definition ascii :: "u8 list \<Rightarrow> bool" where
  "ascii p \<longleftrightarrow> p \<noteq> [] \<and> list_all (\<lambda>c. c < 128) p"

section \<open>First occurrences\<close>

lemma first_occurrence_None:
  "(\<And>k. k + length p \<le> length t \<Longrightarrow> \<not> occurs_at eqc p t k) \<Longrightarrow> first_occurrence eqc p t = None"
  unfolding first_occurrence_def find_None_iff by (auto simp: occurs_at_def)

lemma first_occurrence_Some:
  assumes "occurs_at eqc p t k" "\<And>k'. k' < k \<Longrightarrow> \<not> occurs_at eqc p t k'"
  shows "first_occurrence eqc p t = Some k"
proof -
  have "k < length t + 1" using assms(1) by (simp add: occurs_at_def)
  then show ?thesis
    unfolding first_occurrence_def find_Some_iff using assms by (intro exI[of _ k]) (simp del: upt_Suc)
qed

lemma first_occurrence_cong:
  assumes "length p = length q" "\<And>c j. j < length p \<Longrightarrow> eqc c (p ! j) = eqd c (q ! j)"
  shows "first_occurrence eqc p t = first_occurrence eqd q t"
proof -
  have "occurs_at eqc p t = occurs_at eqd q t"
    using assms by (auto simp: occurs_at_def list_all_iff fun_eq_iff)
  then show ?thesis by (simp add: first_occurrence_def)
qed

section \<open>The search\<close>

text \<open>The inner loop started at text position \<open>e\<close>, where no earlier match ends.\<close>

lemma compare_loop_result:
  assumes "0 \<le> s" "s + int j \<le> int (length string)"
  shows "compare_loop eqc p string s j = Some (list_all (\<lambda>i. eqc (string ! (nat s + i)) (p ! i)) [0..<j])"
  using assms(2)
proof (induction j)
  case (Suc j)
  have "nat (s + int j) = nat s + j" using assms(1) by simp
  then show ?case using Suc assms(1) by (simp add: char_at_def)
qed simp

lemma tables_okD:
  assumes "tables_ok eqc st"
  shows "patlen st = int (length (pat st))" "0 < length (pat st)"
    and "eqc c (last (pat st)) \<Longrightarrow> skip st ! unat c = LARGE"
    and "\<not> eqc c (last (pat st)) \<Longrightarrow> 1 \<le> skip st ! unat c \<and> skip st ! unat c \<le> int (length (pat st))"
    and "\<lbrakk>\<not> eqc c (last (pat st)); j < length (pat st); int (length (pat st)) - 1 - skip st ! unat c < int j\<rbrakk>
      \<Longrightarrow> \<not> eqc c (pat st ! j)"
    and "1 \<le> skip2 st \<and> skip2 st \<le> int (length (pat st))"
    and "\<lbrakk>eqc c (last (pat st)); j < length (pat st) - 1; int (length (pat st)) - 1 - skip2 st < int j\<rbrakk>
      \<Longrightarrow> \<not> eqc c (pat st ! j)"
  using assms unfolding tables_ok_def by auto

lemma none_before_mono: "none_before eqc p t e \<Longrightarrow> e' \<le> e \<Longrightarrow> none_before eqc p t e'"
  by (auto simp: none_before_def)

lemma occurs_atD: "occurs_at eqc p t k \<Longrightarrow> j < length p \<Longrightarrow> eqc (t ! (k + j)) (p ! j)"
  by (auto simp: occurs_at_def list_all_iff)

text \<open>The position under the last pattern character moves on by \<open>s\<close> when no pattern character nearer than \<open>s\<close> matches there.\<close>

lemma none_before_shift:
  assumes "none_before eqc p t e" "s \<le> length p"
    and "\<And>j. \<lbrakk>j < length p; length p < j + 1 + s; occurs_at eqc p t (e - j); j \<le> e\<rbrakk> \<Longrightarrow> \<not> eqc (t ! e) (p ! j)"
  shows "none_before eqc p t (e + s)"
  unfolding none_before_def
proof (intro allI impI notI)
  fix k assume k: "k + length p \<le> e + s" "occurs_at eqc p t k"
  then have gt: "e < k + length p" using assms(1) by (auto simp: none_before_def not_le[symmetric])
  have le: "k \<le> e" using k(1) assms(2) by linarith
  have "\<not> eqc (t ! e) (p ! (e - k))"
    using gt le k by (intro assms(3)) auto
  moreover have "eqc (t ! (k + (e - k))) (p ! (e - k))" using gt le by (intro occurs_atD[OF k(2)]) linarith
  ultimately show False using le by simp
qed

lemma pos_int: "1 \<le> (x :: int) \<and> x \<le> int m \<Longrightarrow> \<exists>s. x = int s \<and> 1 \<le> s \<and> s \<le> m"
  by (intro exI[of _ "nat x"]) auto

lemma skip_loop_result:
  assumes "tables_ok eqc st" "n \<le> length string" "length (pat st) + n < 32767" "t = take n string"
    and "e < n" "none_before eqc (pat st) t e"
  shows "(\<exists>i. skip_loop (skip st) string (int n) (int e - int n) = Some i \<and> 0 \<le> i \<and> i < LARGE - int n \<and> none_before eqc (pat st) t n)
    \<or> (\<exists>e'. e \<le> e' \<and> e' < n \<and> skip_loop (skip st) string (int n) (int e - int n) = Some (int e' - int n + LARGE) \<and>
        eqc (t ! e') (last (pat st)) \<and> none_before eqc (pat st) t e')"
  using assms(5,6)
proof (induction "n - e" arbitrary: e rule: less_induct)
  case less
  let ?p = "pat st" and ?c = "t ! e"
  have c: "char_at string (int e) = Some ?c" using less.prems(1) assms(2,4) by (simp add: char_at_def)
  show ?case
  proof (cases "eqc ?c (last ?p)")
    case True
    then have "skip_loop (skip st) string (int n) (int e - int n) = Some (int e - int n + LARGE)"
      using assms(3) by (subst skip_loop.simps) (simp add: c tables_okD(3)[OF assms(1)] LARGE_def Let_def)
    then show ?thesis using True less.prems by blast
  next
    case False
    obtain s where s: "skip st ! unat ?c = int s" "1 \<le> s" "s \<le> length ?p"
      using pos_int[OF tables_okD(4)[OF assms(1) False]] by blast
    have nb: "none_before eqc ?p t (e + s)"
      using less.prems(2) s(3)
    proof (rule none_before_shift)
      fix j assume "j < length ?p" "length ?p < j + 1 + s"
      then show "\<not> eqc ?c (?p ! j)" by (intro tables_okD(5)[OF assms(1) False]) (auto simp: s(1))
    qed
    have step: "skip_loop (skip st) string (int n) (int e - int n) =
        (if e + s < n then skip_loop (skip st) string (int n) (int (e + s) - int n) else Some (int (e + s) - int n))"
      by (subst skip_loop.simps) (simp add: c s(1) Let_def algebra_simps)
    show ?thesis
    proof (cases "e + s < n")
      case True
      have "n - (e + s) < n - e" using s(2) True by linarith
      from less.hyps[OF this True nb] show ?thesis using step True by (auto intro: le_trans[of e "e + s"])
    next
      case False
      have "skip_loop (skip st) string (int n) (int e - int n) = Some (int (e + s) - int n)" using step False by simp
      moreover have "int (e + s) - int n < LARGE - int n" using less.prems(1) s(3) assms(3) by (simp add: LARGE_def)
      moreover have "none_before eqc ?p t n" using nb False by (auto intro: none_before_mono)
      ultimately show ?thesis using False by auto
    qed
  qed
qed

lemma search_loop_result:
  assumes "tables_ok eqc st" "n \<le> length string" "length (pat st) + n < 32767" "t = take n string"
    and "e < n" "length (pat st) \<le> e + 1" "none_before eqc (pat st) t e"
  shows "search_loop eqc st string (int n) (int e - int n) = Some (map_option int (first_occurrence eqc (pat st) t))"
  using assms(5-)
proof (induction "n - e" arbitrary: e rule: less_induct)
  case less
  let ?p = "pat st"
  have none: "none_before eqc ?p t n \<Longrightarrow> first_occurrence eqc ?p t = None"
    using assms(2,4) by (intro first_occurrence_None) (auto simp: none_before_def)
  from skip_loop_result[OF assms(1-4) less.prems(1,3)] show ?case
  proof (elim disjE exE conjE)
    fix i assume "skip_loop (skip st) string (int n) (int e - int n) = Some i" "i < LARGE - int n" "none_before eqc ?p t n"
    then show ?thesis by (subst search_loop.simps) (simp add: none)
  next
    fix e' assume e': "e \<le> e'" "e' < n" "eqc (t ! e') (last ?p)" "none_before eqc ?p t e'"
      and l: "skip_loop (skip st) string (int n) (int e - int n) = Some (int e' - int n + LARGE)"
    define k where "k = e' + 1 - length ?p"
    have m: "0 < length ?p" "k + (length ?p - 1) = e'"
      using tables_okD(2)[OF assms(1)] less.prems(2) e'(1) unfolding k_def by linarith+
    have s: "int n + (int e' - int n + LARGE - LARGE - (patlen st - 1)) = int k"
      using m unfolding tables_okD(1)[OF assms(1)] by linarith
    have "compare_loop eqc ?p string (int k) (length ?p - 1) =
        Some (list_all (\<lambda>i. eqc (string ! (k + i)) (?p ! i)) [0..<length ?p - 1])"
      using compare_loop_result[of "int k" "length ?p - 1" string eqc ?p] m e'(2) assms(2) by simp
    moreover have "list_all (\<lambda>i. eqc (string ! (k + i)) (?p ! i)) [0..<length ?p - 1] = occurs_at eqc ?p t k"
    proof -
      have up: "[0..<length ?p] = [0..<length ?p - 1] @ [length ?p - 1]"
        using m(1) by (metis Suc_diff_1 upt_Suc_append zero_le)
      have tk: "t ! (k + i) = string ! (k + i)" if "i < length ?p" for i using that m e'(2) by (simp add: assms(4))
      have "k + length ?p \<le> length t" using m e'(2) assms(2,4) by simp
      then show ?thesis
        using e'(3) m unfolding occurs_at_def up by (auto simp: list_all_iff tk last_conv_nth)
    qed
    moreover have "nat (patlen st - 1) = length ?p - 1" unfolding tables_okD(1)[OF assms(1)] by linarith
    ultimately have cmp: "compare_loop eqc ?p string (int k) (nat (patlen st - 1)) = Some (occurs_at eqc ?p t k)"
      by (simp only:)
    show ?thesis
    proof (cases "occurs_at eqc ?p t k")
      case True
      have "first_occurrence eqc ?p t = Some k"
        using True e'(4) m by (intro first_occurrence_Some) (auto simp: none_before_def)
      then show ?thesis using True s cmp by (subst search_loop.simps) (simp add: l Let_def)
    next
      case False
      obtain s2 where s2: "skip2 st = int s2" "1 \<le> s2" "s2 \<le> length ?p"
        using pos_int[OF tables_okD(6)[OF assms(1)]] by blast
      have nb: "none_before eqc ?p t (e' + s2)"
        using e'(4) s2(3)
      proof (rule none_before_shift)
        fix j assume j: "j < length ?p" "length ?p < j + 1 + s2" "occurs_at eqc ?p t (e' - j)" "j \<le> e'"
        have "e' - j \<noteq> k" using j(3) False by auto
        then have "j \<noteq> length ?p - 1" using m(2) by (metis add_diff_cancel_right')
        then have "j < length ?p - 1" using j(1) by linarith
        then show "\<not> eqc (t ! e') (?p ! j)" using j s2 by (intro tables_okD(7)[OF assms(1) e'(3)]) auto
      qed
      have r: "search_loop eqc st string (int n) (int e - int n) =
          (if e' + s2 < n then search_loop eqc st string (int n) (int (e' + s2) - int n) else Some None)"
        using False s cmp by (subst search_loop.simps) (simp add: l s2(1) Let_def algebra_simps)
      show ?thesis
      proof (cases "e' + s2 < n")
        case True
        have "n - (e' + s2) < n - e" "length ?p \<le> (e' + s2) + 1" using True s2(2) e'(1) less.prems(2) by linarith+
        with less.hyps[OF _ True _ nb] show ?thesis using True r by simp
      next
        case False
        then have "none_before eqc ?p t n" using nb by (auto intro: none_before_mono)
        then show ?thesis using r False by (simp add: none)
      qed
    qed
  qed
qed

lemma bm_search_first:
  assumes "tables_ok eqc st" "n \<le> length string" "length (pat st) + n < 32767"
  shows "bm_search eqc st string (int n) = Some (map_option int (first_occurrence eqc (pat st) (take n string)))"
proof (cases "n < length (pat st)")
  case True
  then have "first_occurrence eqc (pat st) (take n string) = None"
    by (intro first_occurrence_None) simp
  then show ?thesis using True by (simp add: bm_search_def tables_okD(1)[OF assms(1)])
next
  case False
  let ?e = "length (pat st) - 1"
  have m: "0 < length (pat st)" using tables_okD(2)[OF assms(1)] .
  have "search_loop eqc st string (int n) (int ?e - int n) = Some (map_option int (first_occurrence eqc (pat st) (take n string)))"
    using assms False m
  proof (intro search_loop_result)
    show "?e < n" "length (pat st) \<le> ?e + 1" using False m by linarith+
    have "\<not> k + length (pat st) \<le> ?e" for k using m by linarith
    then show "none_before eqc (pat st) (take n string) ?e" by (simp add: none_before_def)
  qed auto
  moreover have "patlen st - 1 - int n = int ?e - int n" using m unfolding tables_okD(1)[OF assms(1)] by linarith
  ultimately show ?thesis using False m by (simp add: bm_search_def)
qed

section \<open>The interface of a Horspool search\<close>

locale horspool =
  fixes eqc :: "u8 \<Rightarrow> u8 \<Rightarrow> bool"
    and same :: "u8 \<Rightarrow> u8 \<Rightarrow> bool"
    and init :: "u8 list \<Rightarrow> bm_error + bm_state"
    and valid :: "u8 list \<Rightarrow> bool"
  assumes init_ok: "valid p \<Longrightarrow> \<exists>st. init p = Inr st \<and> tables_ok eqc st \<and> length (pat st) = length p \<and>
    (\<forall>c. \<forall>j<length p. eqc c (pat st ! j) = same c (p ! j))"
begin

lemma finds_first:
  assumes "valid p" "n \<le> length string" "length p + n < 32767"
  shows "\<exists>st. init p = Inr st \<and>
    bm_search eqc st string (int n) = Some (map_option int (first_occurrence same p (take n string)))"
proof -
  obtain st where st: "init p = Inr st" "tables_ok eqc st" "length (pat st) = length p"
    "\<forall>c. \<forall>j<length p. eqc c (pat st ! j) = same c (p ! j)" using init_ok[OF assms(1)] by blast
  have "first_occurrence eqc (pat st) (take n string) = first_occurrence same p (take n string)"
    using st(3,4) by (intro first_occurrence_cong) auto
  then show ?thesis using bm_search_first[OF st(2) assms(2)] st(1,3) assms(3) by simp
qed

end

section \<open>The tables\<close>

text \<open>A table filled by a loop over the pattern holds what the last position that writes an entry wrote.\<close>

lemma fold_last:
  "(fold (\<lambda>i s. if hit i then v i else s) [0..<m] x = (x :: 'a) \<and> (\<forall>i<m. \<not> hit i)) \<or>
   (\<exists>i<m. hit i \<and> fold (\<lambda>i s. if hit i then v i else s) [0..<m] x = v i \<and> (\<forall>j<m. i < j \<longrightarrow> \<not> hit j))"
proof (induction m)
  case (Suc m)
  show ?case
  proof (cases "hit m")
    case True
    then show ?thesis by (intro disjI2 exI[of _ m]) auto
  next
    case False
    with Suc show ?thesis by (auto simp: less_Suc_eq)
  qed
qed simp

lemma nth_upd: "j < length xs \<Longrightarrow> xs[i := x] ! j = (if i = j then x else xs ! j)"
  by (cases "i = j") auto

lemma fold_update_nth:
  assumes "c < length s"
  shows "fold (\<lambda>i s. s[w i := v i]) [0..<m] s ! c = fold (\<lambda>i x. if w i = c then v i else x) [0..<m] (s ! c)"
    "length (fold (\<lambda>i s. s[w i := v i]) [0..<m] s) = length s"
  using assms by (induction m) (auto simp: nth_upd)

lemma second_shift_ok:
  assumes "p \<noteq> []"
  shows "1 \<le> second_shift same p \<and> second_shift same p \<le> int (length p)"
    "\<lbrakk>j < length p - 1; int (length p) - 1 - second_shift same p < int j\<rbrakk> \<Longrightarrow> \<not> same (p ! j)"
  using fold_last[where m = "length p - 1" and hit = "\<lambda>i. same (p ! i)" and v = "\<lambda>i. int (length p) - int i - 1"
      and x = "int (length p)"] assms
  unfolding second_shift_def by (auto simp: Suc_le_eq)

lemma distance_ok:
  assumes "p \<noteq> []" "\<not> eqc c (last p)"
  shows "1 \<le> distance eqc p c \<and> distance eqc p c \<le> int (length p)"
    "\<lbrakk>j < length p; int (length p) - 1 - distance eqc p c < int j\<rbrakk> \<Longrightarrow> \<not> eqc c (p ! j)"
proof -
  have l: "eqc c (p ! i) \<Longrightarrow> i < length p \<Longrightarrow> i < length p - 1" for i
    using assms by (cases "i = length p - 1") (auto simp: last_conv_nth)
  note F = fold_last[where m = "length p" and hit = "\<lambda>i. eqc c (p ! i)" and v = "\<lambda>i. int (length p) - int i - 1"
      and x = "int (length p)", folded distance_def]
  show "1 \<le> distance eqc p c \<and> distance eqc p c \<le> int (length p)" using F assms(1) l by (fastforce simp: Suc_le_eq)
  show "\<lbrakk>j < length p; int (length p) - 1 - distance eqc p c < int j\<rbrakk> \<Longrightarrow> \<not> eqc c (p ! j)" using F by auto
qed

lemma tables_okI:
  assumes "pat st \<noteq> []" "patlen st = int (length (pat st))" "skip2 st = second_shift same2 (pat st)"
    and "\<And>c. skip st ! unat c = (if eqc c (last (pat st)) then LARGE else distance eqc (pat st) c)"
    and "\<And>c j. \<lbrakk>eqc c (last (pat st)); j < length (pat st) - 1; eqc c (pat st ! j)\<rbrakk> \<Longrightarrow> same2 (pat st ! j)"
  shows "tables_ok eqc st"
proof -
  note s2 = second_shift_ok[OF assms(1), where same = same2]
  have "\<not> eqc c (pat st ! j)" if "eqc c (last (pat st))" "j < length (pat st) - 1" "patlen st - 1 - skip2 st < int j" for c j
    using assms(5)[OF that(1,2)] s2(2)[OF that(2)] that(3) unfolding assms(2,3) by blast
  then show ?thesis
    unfolding tables_ok_def using assms(1-4) distance_ok[OF assms(1), of eqc] s2(1) by auto
qed

section \<open>Comparing characters\<close>

lemma u8_range: "0 \<le> uint (c :: u8)" "uint (c :: u8) < 256"
  using uint_lt2p[of c] by simp_all

lemma sint_u8: "sint (c :: u8) = (if uint c < 128 then uint c else uint c - 256)"
proof -
  have "uint c div 128 = (if uint c < 128 then 0 else 1)" using u8_range[of c] by (simp add: zdiv_eq_0_iff; linarith)
  then show ?thesis
    using u8_range[of c] by (auto simp: sint_uint signed_take_bit_eq_take_bit_minus take_bit_eq_mod bit_iff_odd)
qed

lemma ascii_nth: "ascii p \<Longrightarrow> j < length p \<Longrightarrow> uint (p ! j) < 128"
  by (auto simp: ascii_def list_all_length word_less_def)

lemma same_ascii: "uint q < 128 \<Longrightarrow> (sint c = uint (q :: u8)) = (c = q)"
proof -
  have "uint c - 256 \<noteq> uint q" using u8_range[of c] u8_range[of q] by linarith
  then show "uint q < 128 \<Longrightarrow> ?thesis" by (auto simp: sint_u8 word_uint_eq_iff)
qed

lemma unat_eq_u8: "unat c = unat d \<longleftrightarrow> c = (d :: u8)"
  by (simp add: word_unat_eq_iff)

lemma unat_u8: "unat (c :: u8) < 256"
  using unsigned_less[of c, where ?'a = nat] by simp

lemma bmh_init_ok:
  assumes "ascii p"
  shows "\<exists>st. bmh_init p = Inr st \<and> tables_ok (\<lambda>c q. sint c = uint q) st \<and> length (pat st) = length p \<and>
    (\<forall>c. \<forall>j<length p. (sint c = uint (pat st ! j)) = (c = p ! j))"
proof -
  have p: "p \<noteq> []" using assms by (simp add: ascii_def)
  have same: "(sint c = uint (p ! j)) = (c = p ! j)" if "j < length p" for c j
    using same_ascii[OF ascii_nth[OF assms that]] .
  have last: "last p = p ! (length p - 1)" "length p - 1 < length p" using p by (simp_all add: last_conv_nth)
  define sk where "sk = fold (\<lambda>i s. s[unat (p ! i) := int (length p) - int i - 1]) [0..<length p] (replicate 256 (int (length p)))"
  have sk: "length sk = 256"
    "sk ! unat c = fold (\<lambda>i x. if unat (p ! i) = unat c then int (length p) - int i - 1 else x) [0..<length p] (int (length p))" for c :: u8
    using fold_update_nth[of "unat c" "replicate 256 (int (length p))" "\<lambda>i. unat (p ! i)" "\<lambda>i. int (length p) - int i - 1" "length p"]
      unat_u8[of c] by (simp_all add: sk_def)
  have d: "sk ! unat c = distance (\<lambda>c q. sint c = uint q) p c" for c
    unfolding sk(2) distance_def by (intro fold_cong) (auto simp: same unat_eq_u8)
  let ?st = "\<lparr>patlen = int (length p), skip = sk[unat (last p) := LARGE], skip2 = second_shift (\<lambda>c. c = last p) p, pat = p\<rparr>"
  have "tables_ok (\<lambda>c q. sint c = uint q) ?st"
    using p last same by (intro tables_okI[where ?same2.0 = "\<lambda>c. c = last p"])
      (auto simp: d nth_list_update sk(1) unat_u8 unat_eq_u8 word_uint_eq_iff)
  moreover have "bmh_init p = Inr ?st" using p by (simp add: bmh_init_def Let_def sk_def last(1))
  ultimately show ?thesis using same by auto
qed

text \<open>Case conversion: the two entries written for a pattern character are the ones of the characters that match it.\<close>

lemma uint_upper: "uint c < 128 \<Longrightarrow> uint (c_upper c) = c_toupper (uint c)"
  using u8_range[of c] by (auto simp: c_upper_def c_toupper_def sint_u8 uint_word_of_int)

lemma uint_lower: "uint c < 128 \<Longrightarrow> uint (c_lower c) = c_tolower (uint c)"
  using u8_range[of c] by (auto simp: c_lower_def c_tolower_def uint_word_of_int)

lemma same_upper:
  assumes "uint x < 128"
  shows "(c_toupper (sint c) = uint (c_upper x)) = (c = c_upper x \<or> c = c_lower (c_upper x))"
proof -
  have q: "uint (c_upper x) < 128" "\<not> (97 \<le> uint (c_upper x) \<and> uint (c_upper x) \<le> 122)"
    unfolding uint_upper[OF assms] using assms by (auto simp: c_toupper_def)
  show ?thesis
  proof (cases "uint c < 128")
    case True
    then show ?thesis
      unfolding word_uint_eq_iff[of c] uint_lower[OF q(1)] using q by (auto simp: c_toupper_def c_tolower_def sint_u8)
  next
    case False
    have "uint c \<noteq> uint (c_upper x)" "uint c \<noteq> c_tolower (uint (c_upper x))" using False q by (auto simp: c_tolower_def)
    moreover have "c_toupper (sint c) < 0" using False u8_range[of c] by (auto simp: c_toupper_def sint_u8)
    ultimately show ?thesis
      unfolding word_uint_eq_iff[of c] uint_lower[OF q(1)] using u8_range(1)[of "c_upper x"] by linarith
  qed
qed

lemma same_upper2:
  assumes "uint x < 128"
  shows "(c_toupper (sint c) = uint (c_upper x)) = (c_upper c = c_upper x)"
proof -
  have q: "0 \<le> c_toupper (uint x)" "c_toupper (uint x) < 128" using assms u8_range[of x] by (auto simp: c_toupper_def)
  have "uint (c_upper c) = (if uint c < 128 then c_toupper (uint c) else uint c)"
    using u8_range[of c] by (auto simp: c_upper_def c_toupper_def sint_u8 uint_word_of_int)
  moreover have "c_toupper (sint c) = (if uint c < 128 then c_toupper (uint c) else uint c - 256)"
    using u8_range[of c] by (auto simp: c_toupper_def sint_u8)
  ultimately show ?thesis
    unfolding word_uint_eq_iff[of "c_upper c"] uint_upper[OF assms] using q u8_range[of c] by auto
qed

lemma fold_update2_nth:
  assumes "c < length s"
  shows "fold (\<lambda>i s. s[w i := v i, w' i := v i]) [0..<m] s ! c = fold (\<lambda>i x. if w i = c \<or> w' i = c then v i else x) [0..<m] (s ! c)"
    "length (fold (\<lambda>i s. s[w i := v i, w' i := v i]) [0..<m] s) = length s"
  using assms by (induction m) (auto simp: nth_upd)

lemma distance_butlast:
  assumes "p \<noteq> []" "\<not> eqc c (last p)"
  shows "distance eqc p c = fold (\<lambda>i x. if eqc c (p ! i) then int (length p) - int i - 1 else x) [0..<length p - 1] (int (length p))"
proof -
  have "[0..<length p] = [0..<length p - 1] @ [length p - 1]" using assms(1) by (metis Suc_diff_1 length_greater_0_conv upt_Suc_append zero_le)
  then show ?thesis using assms by (simp add: distance_def last_conv_nth)
qed

lemma bmhi_init_ok:
  assumes "ascii p"
  shows "\<exists>st. bmhi_init True p = Inr st \<and> tables_ok (\<lambda>c q. c_toupper (sint c) = uint q) st \<and> length (pat st) = length p \<and>
    (\<forall>c. \<forall>j<length p. (c_toupper (sint c) = uint (pat st ! j)) = (c_upper c = c_upper (p ! j)))"
proof -
  let ?eq = "\<lambda>c q :: u8. c_toupper (sint c) = uint q" and ?p = "map c_upper p"
  have p: "p \<noteq> []" "?p \<noteq> []" using assms by (simp_all add: ascii_def)
  have same: "?eq c (?p ! j) = (c = ?p ! j \<or> c = c_lower (?p ! j))" if "j < length p" for c j
    using same_upper[OF ascii_nth[OF assms that]] that by simp
  define lp where "lp = ?p ! (length p - 1)"
  have last: "last ?p = lp" using p by (simp add: last_conv_nth lp_def)
  have same_last: "?eq c lp = (c = lp \<or> c = c_lower lp)" for c
    unfolding lp_def using p(1) by (intro same) simp
  define sk where "sk = fold (\<lambda>i s. s[unat (?p ! i) := int (length p) - int i - 1, unat (c_lower (?p ! i)) := int (length p) - int i - 1])
    [0..<length p - 1] (replicate 256 (int (length p)))"
  have sk: "length sk = 256" "sk ! unat c = fold (\<lambda>i x. if unat (?p ! i) = unat c \<or> unat (c_lower (?p ! i)) = unat c
      then int (length p) - int i - 1 else x) [0..<length p - 1] (int (length p))" for c :: u8
    using fold_update2_nth[where c = "unat c" and s = "replicate 256 (int (length p))" and w = "\<lambda>i. unat (?p ! i)" and
        w' = "\<lambda>i. unat (c_lower (?p ! i))" and v = "\<lambda>i. int (length p) - int i - 1" and m = "length p - 1"]
      unat_u8[of c] by (simp_all add: sk_def)
  have d: "sk ! unat c = distance ?eq ?p c" if "\<not> ?eq c lp" for c
    unfolding sk(2) distance_butlast[OF p(2), where eqc = ?eq, unfolded last, OF that] length_map
    using same by (intro fold_cong) (auto simp: unat_eq_u8)
  let ?st = "\<lparr>patlen = int (length p), skip = sk[unat lp := LARGE, unat (c_lower lp) := LARGE],
    skip2 = second_shift (\<lambda>c. c = lp) ?p, pat = ?p\<rparr>"
  have t: "tables_ok ?eq ?st"
  proof (rule tables_okI[where ?same2.0 = "\<lambda>c. c = lp"])
    fix c
    have "skip ?st ! unat c = (if c = lp \<or> c = c_lower lp then LARGE else sk ! unat c)"
      by (auto simp: nth_upd sk(1) unat_u8 unat_eq_u8)
    then show "skip ?st ! unat c = (if ?eq c (last (pat ?st)) then LARGE else distance ?eq (pat ?st) c)"
      using d[of c] same_last[of c] by (simp add: last)
  qed (use p last in \<open>auto simp: word_uint_eq_iff\<close>)
  have "(c_toupper (sint c) = uint (?p ! j)) = (c_upper c = c_upper (p ! j))" if "j < length p" for c j
    using that same_upper2[OF ascii_nth[OF assms that]] by simp
  moreover have "bmhi_init True p = Inr ?st" using p by (simp add: bmhi_init_def Let_def sk_def lp_def)
  ultimately show ?thesis using t by (intro exI[of _ ?st]) simp
qed

subsection \<open>Case and accents\<close>

lemma scan_back_less: "scan_back p c m < int m"
  by (induction m) auto

lemma scan_back_fold:
  "fold (\<lambda>i x. if lowerc c = lowerc (p ! i) then L - int i - 1 else x) [0..<m] x =
    (if scan_back p c m \<ge> 0 then L - scan_back p c m - 1 else x)"
  by (induction m) auto

lemma bmha_skip_eq:
  assumes "p \<noteq> []"
  shows "bmha_skip p c = (if lowerc c = lowerc (last p) then LARGE else distance (\<lambda>c q. lowerc c = lowerc q) p c)"
proof -
  obtain m where m: "length p = Suc m" using assms by (cases p) auto
  have "(scan_back p c (length p) = int (length p) - 1) = (lowerc c = lowerc (last p))"
    using scan_back_less[of p c m] assms by (auto simp: m last_conv_nth)
  then show ?thesis
    unfolding bmha_skip_def distance_def scan_back_fold by (simp add: Let_def)
qed

lemma bmha_init_ok:
  assumes "p \<noteq> []"
  shows "tables_ok (\<lambda>c q. lowerc c = lowerc q) (bmha_init p)"
  by (rule tables_okI[where ?same2.0 = "\<lambda>q. lowerc q = lowerc (last p)"])
    (use assms in \<open>auto simp: bmha_init_def bmha_skip_eq unat_u8 last_conv_nth\<close>)

interpretation bmh: horspool "\<lambda>c q. sint c = uint q" "\<lambda>c q. c = q" bmh_init ascii
  by unfold_locales (rule bmh_init_ok)

interpretation bmhi: horspool "\<lambda>c q. c_toupper (sint c) = uint q" "\<lambda>c q. c_upper c = c_upper q" "bmhi_init True" ascii
  by unfold_locales (rule bmhi_init_ok)

interpretation bmha: horspool "\<lambda>c q. lowerc c = lowerc q" "\<lambda>c q. lowerc c = lowerc q" "\<lambda>p. Inr (bmha_init p)" "\<lambda>p. p \<noteq> []"
  by unfold_locales (auto simp: bmha_init_ok, simp_all add: bmha_init_def)

section \<open>The Pratt-Boyer-Moore search\<close>

lemma strncmp_eq_take: "strncmp_eq n a b \<longleftrightarrow> take n a = take n b"
  by (induction n a b rule: strncmp_eq.induct) auto

lemma init_search_simps [simp]: "pbm_len (init_search p) = length p" "findme (init_search p) = p"
  by (simp_all add: init_search_def Let_def)

lemma int_fold_minus:
  "int (fold (\<lambda>i x. if hit i then L - i - 1 else x) [0..<m] x) = fold (\<lambda>i x. if hit i then int L - int i - 1 else x) [0..<m] (int x)"
  if "m \<le> L"
  using that by (induction m) auto

lemma table_distance: "int (pbm_table (init_search p) ! unat c) = distance (=) p c"
proof -
  have "pbm_table (init_search p) ! unat c = fold (\<lambda>i x. if unat (p ! i) = unat c then length p - i - 1 else x) [0..<length p] (length p)"
    unfolding init_search_def Let_def pbm_state.simps
    by (subst fold_update_nth(1)) (simp_all add: unat_u8)
  also have "int \<dots> = distance (=) p c"
    unfolding int_fold_minus[OF order_refl] distance_def by (intro fold_cong) (auto simp: unat_eq_u8)
  finally show ?thesis .
qed

lemma distance_last: "p \<noteq> [] \<Longrightarrow> distance (=) p (last p) = 0"
proof -
  assume p: "p \<noteq> []"
  have "[0..<length p] = [0..<length p - 1] @ [length p - 1]" using p by (metis Suc_diff_1 length_greater_0_conv upt_Suc_append zero_le)
  moreover have "int (length p) - int (length p - 1) - 1 = 0" using p by (cases p) simp_all
  ultimately show ?thesis using p by (simp add: distance_def last_conv_nth)
qed

lemma table_zero:
  assumes "p \<noteq> []"
  shows "pbm_table (init_search p) ! unat c = 0 \<longleftrightarrow> c = last p"
proof (cases "c = last p")
  case True
  then show ?thesis using table_distance[of p c] distance_last[OF assms] by simp
next
  case False
  then show ?thesis using table_distance[of p c] distance_ok(1)[OF assms, of "(=)" c] by simp
qed

lemma table_shift:
  assumes "p \<noteq> []" "c \<noteq> last p" "none_before (=) p t e" "t ! e = c"
  shows "none_before (=) p t (e + pbm_table (init_search p) ! unat c)"
  using assms(3)
proof (rule none_before_shift)
  show "pbm_table (init_search p) ! unat c \<le> length p"
    using table_distance[of p c] distance_ok(1)[OF assms(1), of "(=)" c] assms(2) by simp
next
  fix j assume "j < length p" "length p < j + 1 + pbm_table (init_search p) ! unat c"
  then show "t ! e \<noteq> p ! j"
    using distance_ok(2)[OF assms(1), of "(=)" c j] assms(2,4) by (simp flip: table_distance)
qed

lemma shift_loop_result:
  assumes "p \<noteq> []" "length t + length p < 2 ^ 64" "e < length t" "none_before (=) p t e"
  shows "\<exists>e'. (\<exists>s>0. shift_loop (pbm_table (init_search p)) t e sh = Some (e', s) \<and> length t \<le> e' \<and> none_before (=) p t (length t))
    \<or> (shift_loop (pbm_table (init_search p)) t e sh = Some (e', 0) \<and> e \<le> e' \<and> e' < length t \<and> t ! e' = last p \<and> none_before (=) p t e')"
  using assms(3,4)
proof (induction "length t - e" arbitrary: e sh rule: less_induct)
  case less
  show ?case
  proof (cases "t ! e = last p")
    case True
    then have "shift_loop (pbm_table (init_search p)) t e sh = Some (e, 0)"
      using less.prems(1) table_zero[OF assms(1), of "t ! e"] by (subst shift_loop.simps) simp
    then show ?thesis using less.prems True by (intro exI[of _ e]) simp
  next
    case False
    define s where "s = pbm_table (init_search p) ! unat (t ! e)"
    have s: "0 < s" "s \<le> length p"
      using table_zero[OF assms(1), of "t ! e"] table_distance[of p "t ! e"] distance_ok(1)[OF assms(1), of "(=)" "t ! e"] False
      by (simp_all add: s_def)
    have nb: "none_before (=) p t (e + s)" using table_shift[OF assms(1) False less.prems(2)] by (simp add: s_def)
    have "e + s < 2 ^ 64" using s less.prems(1) assms(2) by linarith
    then have st: "shift_loop (pbm_table (init_search p)) t e sh = shift_loop (pbm_table (init_search p)) t (e + s) s"
      using less.prems(1) s(1) by (subst shift_loop.simps) (simp add: Let_def flip: s_def)
    show ?thesis
    proof (cases "e + s < length t")
      case True
      have "length t - (e + s) < length t - e" using s(1) less.prems(1) by linarith
      from less.hyps[OF this True nb, of s] show ?thesis unfolding st by (meson le_add1 le_trans)
    next
      case False
      then have "shift_loop (pbm_table (init_search p)) t (e + s) s = Some (e + s, s)" by (subst shift_loop.simps) simp
      then show ?thesis using False s(1) nb unfolding st by (intro exI[of _ "e + s"]) (auto intro: none_before_mono)
    qed
  qed
qed

lemma occurs_at_eq: "occurs_at (=) p t k \<longleftrightarrow> k + length p \<le> length t \<and> take (length p) (drop k t) = p"
  unfolding occurs_at_def list_eq_iff_nth_eq[of _ p] by (auto simp: list_all_iff)

lemma str_loop_result:
  assumes "p \<noteq> []" "length t + length p < 2 ^ 64" "length p \<le> e + 1" "none_before (=) p t e"
  shows "str_loop (init_search p) t e sh = Some (first_occurrence (=) p t)"
  using assms(3,4)
proof (induction "length t - e" arbitrary: e sh rule: less_induct)
  case less
  have none: "none_before (=) p t e \<Longrightarrow> length t \<le> e \<Longrightarrow> first_occurrence (=) p t = None" for e
    by (intro first_occurrence_None) (auto simp: none_before_def)
  show ?case
  proof (cases "e < length t")
    case False
    then show ?thesis using none[OF less.prems(2)] by (subst str_loop.simps) simp
  next
    case True
    from shift_loop_result[OF assms(1,2) True less.prems(2), of sh] obtain e' where
      "(\<exists>s>0. shift_loop (pbm_table (init_search p)) t e sh = Some (e', s) \<and> length t \<le> e' \<and> none_before (=) p t (length t))
      \<or> (shift_loop (pbm_table (init_search p)) t e sh = Some (e', 0) \<and> e \<le> e' \<and> e' < length t \<and> t ! e' = last p \<and> none_before (=) p t e')"
      by blast
    then show ?thesis
    proof (elim disjE exE conjE)
      fix s assume s: "0 < s" "shift_loop (pbm_table (init_search p)) t e sh = Some (e', s)" "length t \<le> e'" "none_before (=) p t (length t)"
      have "str_loop (init_search p) t e' s = Some None" using s(3) by (subst str_loop.simps) simp
      then show ?thesis using s True none[OF s(4)] by (subst str_loop.simps) simp
    next
      assume l: "shift_loop (pbm_table (init_search p)) t e sh = Some (e', 0)"
        and e': "e \<le> e'" "e' < length t" "t ! e' = last p" "none_before (=) p t e'"
      define k where "k = Suc e' - length p"
      have k: "k + length p = Suc e'" using less.prems(1) e'(1) by (simp add: k_def)
      have cmp: "strncmp_eq (length p) p (drop k t) = occurs_at (=) p t k"
        using k e'(2) by (auto simp: strncmp_eq_take occurs_at_eq)
      have lt: "e' + 1 < 2 ^ 64" using e'(2) assms(2) by (cases p) (auto simp: assms(1))
      have st: "str_loop (init_search p) t e sh =
          (if occurs_at (=) p t k then Some (Some k) else str_loop (init_search p) t (e' + 1) 0)"
        using True lt by (subst str_loop.simps) (simp add: l cmp Let_def flip: k_def)
      show ?thesis
      proof (cases "occurs_at (=) p t k")
        case True
        have "first_occurrence (=) p t = Some k"
          using True e'(4) k by (intro first_occurrence_Some) (auto simp: none_before_def)
        then show ?thesis using st True by simp
      next
        case False
        have "none_before (=) p t (e' + 1)"
          using e'(4)
        proof (rule none_before_shift)
          show "1 \<le> length p" using assms(1) by (cases p) auto
          fix j assume j: "j < length p" "length p < j + 1 + 1" "occurs_at (=) p t (e' - j)" "j \<le> e'"
          have "e' - j = k" using j k by linarith
          then show "t ! e' \<noteq> p ! j" using False j(3) by simp
        qed
        moreover have "length t - (e' + 1) < length t - e" "length p \<le> e' + 1 + 1" using e' less.prems(1) by linarith+
        ultimately show ?thesis using less.hyps[of "e' + 1" 0] st False by simp
      qed
    qed
  qed
qed

text \<open>
  \<^verbatim>\<open>bmhsrch.c\<close> compares a signed \<open>char\<close> of the text with an unsigned one of the pattern, so a pattern with a byte from 128 on
  before its last one is not found even in itself.
\<close>

lemma bmh_misses_high_bytes:
  "bmh_search (projr (bmh_init [0xe9, 0x74])) [0xe9, 0x74] 2 = Some None"
  "first_occurrence (\<lambda>c q. c = q) [0xe9, 0x74] [0xe9, 0x74] = Some 0"
  by code_simp+

section \<open>Properties\<close>

text \<open>
  C14. If the pattern is not empty and the lengths of pattern and text add up to less than 32767, the three Horspool programs return the
  first position where it occurs, and \<open>NULL\<close> exactly when it occurs nowhere: exactly (\<^verbatim>\<open>bmhsrch.c\<close>, pattern in ASCII),
  up to case (\<^verbatim>\<open>bmhisrch.c\<close>, pattern in ASCII), up to case and accents (\<^verbatim>\<open>bmhasrch.c\<close>, any pattern); the text may hold
  any bytes.
\<close>

theorem horspool_searches_find_first:
  assumes "p \<noteq> []" "n \<le> length string" "length p + n < 32767"
  shows "(ascii p \<longrightarrow> (\<exists>st. bmh_init p = Inr st \<and>
      bmh_search st string (int n) = Some (map_option int (first_occurrence (\<lambda>c q. c = q) p (take n string))))) \<and>
    (ascii p \<longrightarrow> (\<exists>st. bmhi_init True p = Inr st \<and>
      bmhi_search st string (int n) = Some (map_option int (first_occurrence (\<lambda>c q. c_upper c = c_upper q) p (take n string))))) \<and>
    bmha_search (bmha_init p) string (int n) = Some (map_option int (first_occurrence (\<lambda>c q. lowerc c = lowerc q) p (take n string)))"
  using bmh.finds_first[OF _ assms(2,3)] bmhi.finds_first[OF _ assms(2,3)] bmha.finds_first[OF assms]
  unfolding bmh_search_def bmhi_search_def bmha_search_def by auto

theorem horspool_searches_find_first_witness:
  "(\<exists>st. bmh_init (map of_char ''OO'') = Inr st \<and>
      bmh_search st (map of_char ''yoohoo'') (int 6) =
        Some (map_option int (first_occurrence (\<lambda>c q. c = q) (map of_char ''OO'') (take 6 (map of_char ''yoohoo''))))) \<and>
    (\<exists>st. bmhi_init True (map of_char ''OO'') = Inr st \<and>
      bmhi_search st (map of_char ''yoohoo'') (int 6) =
        Some (map_option int (first_occurrence (\<lambda>c q. c_upper c = c_upper q) (map of_char ''OO'') (take 6 (map of_char ''yoohoo''))))) \<and>
    bmha_search (bmha_init (map of_char ''OO'')) (map of_char ''yoohoo'') (int 6) =
      Some (map_option int (first_occurrence (\<lambda>c q. lowerc c = lowerc q) (map of_char ''OO'') (take 6 (map of_char ''yoohoo''))))"
proof -
  have a: "ascii (map of_char ''OO'')" by (simp add: ascii_def)
  show ?thesis
    using horspool_searches_find_first[of "map of_char ''OO''" 6 "map of_char ''yoohoo''"] a by simp
qed

text \<open>
  C15. The Pratt-Boyer-Moore search finds the first occurrence of every pattern that is not empty, whatever bytes the pattern
  and the text hold.
\<close>

theorem strsearch_finds_first:
  assumes "p \<noteq> []" "length t + length p < 2 ^ 64"
  shows "strsearch (init_search p) sh t = Some (first_occurrence (=) p t)"
proof -
  have l: "1 \<le> length p" using assms(1) by (cases p) auto
  then have "(length p + (2 ^ 64 - 1)) mod 2 ^ 64 = length p - 1"
    using assms(2) mod_add_self2[of "length p - 1" "2 ^ 64"] by (simp add: mod_less add.commute)
  moreover have "none_before (=) p t (length p - 1)" using l by (auto simp: none_before_def occurs_at_def)
  ultimately show ?thesis
    using str_loop_result[OF assms, of "length p - 1"] l by (simp add: strsearch_def)
qed

theorem strsearch_finds_first_witness:
  "strsearch (init_search (map of_char ''abb'')) 17 (map of_char ''cabbie'') =
    Some (first_occurrence (=) (map of_char ''abb'') (map of_char ''cabbie''))"
  by (rule strsearch_finds_first) simp_all

end
