(* ===== verification/Dijkstra.thy ===== *)
theory Dijkstra
  imports Prelude "HOL-Library.Monad_Syntax"
begin

text \<open>
  \<^verbatim>\<open>network/dijkstra\<close> (\<^verbatim>\<open>dijkstra_large.c\<close>; \<^verbatim>\<open>dijkstra_small.c\<close> makes fewer calls): shortest paths by a first-in-first-out
  queue of labels, and that every call returns and prints a path of least cost.

  The linked list \<open>qHead\<close> is the list of its items; \<open>malloc\<close> is taken to succeed.  The loops that follow the data are partial
  functions, \<open>None\<close> standing for a loop that never ends.
\<close>

section \<open>Definitions\<close>

definition NUM_NODES :: nat where
  "NUM_NODES = 100"

definition NONE :: int where
  "NONE = 9999"

record NODE =
  iDist :: int
  iPrev :: int

record QITEM =
  qNode :: nat
  qDist :: int
  qPrev :: int

text \<open>The global variables that outlive a call.\<close>

record dj_state =
  rgnNodes :: "NODE list"
  qHead :: "QITEM list"
  g_qCount :: int

text \<open>What \<open>dijkstra\<close> prints.\<close>

datatype dj_out = Stay | Path int "nat list"

partial_function (option) print_path :: "NODE list \<Rightarrow> nat \<Rightarrow> nat list option" where
  "print_path nodes chNode =
    (if iPrev (nodes ! chNode) \<noteq> NONE then do {
       xs \<leftarrow> print_path nodes (nat (iPrev (nodes ! chNode)));
       Some (xs @ [chNode]) }
     else Some [chNode])"

definition enqueue :: "nat \<Rightarrow> int \<Rightarrow> int \<Rightarrow> dj_state \<Rightarrow> dj_state" where
  "enqueue node dist prev st =
    st\<lparr>qHead := qHead st @ [\<lparr>qNode = node, qDist = dist, qPrev = prev\<rparr>], g_qCount := g_qCount st + 1\<rparr>"

definition dequeue :: "dj_state \<Rightarrow> (QITEM \<times> dj_state) option" where
  "dequeue st = (case qHead st of [] \<Rightarrow> None | q # qs \<Rightarrow> Some (q, st\<lparr>qHead := qs, g_qCount := g_qCount st - 1\<rparr>))"

text \<open>The body of the inner loop, for the neighbour \<open>i\<close> of the node taken from the queue.\<close>

definition relax :: "int list list \<Rightarrow> nat \<Rightarrow> int \<Rightarrow> nat \<Rightarrow> dj_state \<Rightarrow> dj_state" where
  "relax AdjMatrix iNode dist i st =
    (let iCost = AdjMatrix ! iNode ! i in
     if iCost \<noteq> NONE then
       if NONE = iDist (rgnNodes st ! i) \<or> iDist (rgnNodes st ! i) > iCost + dist then
         enqueue i (dist + iCost) (int iNode)
           (st\<lparr>rgnNodes := (rgnNodes st)[i := \<lparr>iDist = dist + iCost, iPrev = int iNode\<rparr>]\<rparr>)
       else st
     else st)"

text \<open>The loop over the queue; \<open>dequeue\<close> on an empty queue would leave the variables as they are, and is not reached.\<close>

partial_function (option) queue_loop :: "int list list \<Rightarrow> dj_state \<Rightarrow> dj_state option" where
  "queue_loop AdjMatrix st =
    (if g_qCount st > 0 then
       (case dequeue st of
          None \<Rightarrow> None
        | Some (q, st) \<Rightarrow> queue_loop AdjMatrix (fold (relax AdjMatrix (qNode q) (qDist q)) [0..<NUM_NODES] st))
     else Some st)"

definition dijkstra :: "int list list \<Rightarrow> nat \<Rightarrow> nat \<Rightarrow> dj_state \<Rightarrow> (dj_state \<times> dj_out) option" where
  "dijkstra AdjMatrix chStart chEnd st =
    (let st = st\<lparr>rgnNodes := replicate NUM_NODES \<lparr>iDist = NONE, iPrev = NONE\<rparr>\<rparr> in
     if chStart = chEnd then Some (st, Stay)
     else do {
       let st = st\<lparr>rgnNodes := (rgnNodes st)[chStart := \<lparr>iDist = 0, iPrev = NONE\<rparr>]\<rparr>;
       st \<leftarrow> queue_loop AdjMatrix (enqueue chStart 0 NONE st);
       p \<leftarrow> print_path (rgnNodes st) chEnd;
       Some (st, Path (iDist (rgnNodes st ! chEnd)) p) })"

text \<open>The calls \<open>main\<close> makes for the matrix it has read: \<open>m\<close> of them, 100 in \<^verbatim>\<open>dijkstra_large.c\<close>, 20 in \<^verbatim>\<open>dijkstra_small.c\<close>.\<close>

fun main_calls :: "int list list \<Rightarrow> nat \<Rightarrow> nat \<Rightarrow> nat \<Rightarrow> dj_state \<Rightarrow> dj_out list option" where
  "main_calls AdjMatrix 0 i j st = Some []"
| "main_calls AdjMatrix (Suc m) i j st = do {
     let j = j mod NUM_NODES;
     (st, out) \<leftarrow> dijkstra AdjMatrix i j st;
     outs \<leftarrow> main_calls AdjMatrix m (i + 1) (j + 1) st;
     Some (out # outs) }"

definition dj_main :: "int list list \<Rightarrow> nat \<Rightarrow> dj_out list option" where
  "dj_main AdjMatrix m =
    main_calls AdjMatrix m 0 (NUM_NODES div 2)
      \<lparr>rgnNodes = replicate NUM_NODES \<lparr>iDist = 0, iPrev = 0\<rparr>, qHead = [], g_qCount = 0\<rparr>"

declare print_path.simps [code] queue_loop.simps [code]

section \<open>Specification\<close>

text \<open>A matrix the program is made for: every entry is a cost from 0 to 100, or \<open>NONE\<close> where there is no edge.\<close>

definition matrix_ok :: "int list list \<Rightarrow> bool" where
  "matrix_ok A \<longleftrightarrow> length A = NUM_NODES \<and> list_all (\<lambda>r. length r = NUM_NODES \<and> list_all (\<lambda>c. c = NONE \<or> 0 \<le> c \<and> c \<le> 100) r) A"

definition edge :: "int list list \<Rightarrow> nat \<Rightarrow> nat \<Rightarrow> bool" where
  "edge A u v \<longleftrightarrow> u < NUM_NODES \<and> v < NUM_NODES \<and> A ! u ! v \<noteq> NONE"

text \<open>A walk, its last node first, and its cost.\<close>

fun walk :: "int list list \<Rightarrow> nat \<Rightarrow> nat list \<Rightarrow> bool" where
  "walk A s [] = False"
| "walk A s [v] = (v = s)"
| "walk A s (v # u # us) = (edge A u v \<and> walk A s (u # us))"

fun cost :: "int list list \<Rightarrow> nat list \<Rightarrow> int" where
  "cost A (v # u # us) = A ! u ! v + cost A (u # us)"
| "cost A _ = 0"

text \<open>What a call has to print: the least cost of a walk and a walk of that cost, \<open>NONE\<close> and the end node alone when there is none.\<close>

definition answer_ok :: "int list list \<Rightarrow> nat \<Rightarrow> nat \<Rightarrow> dj_out \<Rightarrow> bool" where
  "answer_ok A s e out \<longleftrightarrow> (case out of
     Stay \<Rightarrow> s = e
   | Path D p \<Rightarrow> s \<noteq> e \<and>
       (if \<exists>us. walk A s us \<and> hd us = e
        then walk A s (rev p) \<and> hd (rev p) = e \<and> cost A (rev p) = D \<and> (\<forall>us. walk A s us \<and> hd us = e \<longrightarrow> D \<le> cost A us)
        else D = NONE \<and> p = [e]))"

subsection \<open>Labels\<close>

definition dist_of :: "NODE list \<Rightarrow> nat \<Rightarrow> int" where
  "dist_of ns v = iDist (ns ! v)"

definition prev_of :: "NODE list \<Rightarrow> nat \<Rightarrow> int" where
  "prev_of ns v = iPrev (ns ! v)"

text \<open>A simple path all of whose nodes have labels at most the cost of the path up to them.\<close>

inductive good :: "int list list \<Rightarrow> NODE list \<Rightarrow> nat \<Rightarrow> nat list \<Rightarrow> int \<Rightarrow> bool" for A ns s where
  good_start: "s < NUM_NODES \<Longrightarrow> dist_of ns s \<noteq> NONE \<Longrightarrow> dist_of ns s \<le> 0 \<Longrightarrow> good A ns s [s] 0"
| good_step: "good A ns s (u # us) d \<Longrightarrow> edge A u v \<Longrightarrow> v \<notin> set (u # us) \<Longrightarrow> dist_of ns v \<noteq> NONE \<Longrightarrow>
    dist_of ns v \<le> d + A ! u ! v \<Longrightarrow> good A ns s (v # u # us) (d + A ! u ! v)"

text \<open>The path printed: predecessors, with labels that grow by at least the cost of the edge.\<close>

inductive chain :: "int list list \<Rightarrow> NODE list \<Rightarrow> nat \<Rightarrow> nat list \<Rightarrow> bool" for A ns s where
  chain_start: "prev_of ns s = NONE \<Longrightarrow> chain A ns s [s]"
| chain_step: "chain A ns s (u # us) \<Longrightarrow> edge A u v \<Longrightarrow> prev_of ns v = int u \<Longrightarrow> dist_of ns u \<noteq> NONE \<Longrightarrow>
    dist_of ns u + A ! u ! v \<le> dist_of ns v \<Longrightarrow> chain A ns s (v # u # us)"

text \<open>The edges of \<open>u\<close> into the nodes \<open>is\<close> are relaxed for a label \<open>d\<close>.\<close>

definition relaxed :: "int list list \<Rightarrow> NODE list \<Rightarrow> nat \<Rightarrow> int \<Rightarrow> nat set \<Rightarrow> bool" where
  "relaxed A ns u d I \<longleftrightarrow> (\<forall>v\<in>I. edge A u v \<longrightarrow> dist_of ns v \<noteq> NONE \<and> dist_of ns v \<le> d + A ! u ! v)"

definition labels_ok :: "int list list \<Rightarrow> nat \<Rightarrow> dj_state \<Rightarrow> bool" where
  "labels_ok A s st \<longleftrightarrow>
    length (rgnNodes st) = NUM_NODES \<and> s < NUM_NODES \<and> dist_of (rgnNodes st) s = 0 \<and> prev_of (rgnNodes st) s = NONE \<and>
    g_qCount st = int (length (qHead st)) \<and>
    (\<forall>q\<in>set (qHead st). \<exists>us. good A (rgnNodes st) s (qNode q # us) (qDist q)) \<and>
    (\<forall>v<NUM_NODES. dist_of (rgnNodes st) v \<noteq> NONE \<longrightarrow>
      (\<exists>us. good A (rgnNodes st) s (v # us) (dist_of (rgnNodes st) v)) \<and> (\<exists>us. chain A (rgnNodes st) s (v # us))) \<and>
    (\<forall>v<NUM_NODES. dist_of (rgnNodes st) v = NONE \<longrightarrow> prev_of (rgnNodes st) v = NONE)"

definition settled :: "int list list \<Rightarrow> dj_state \<Rightarrow> nat \<Rightarrow> bool" where
  "settled A st u \<longleftrightarrow>
    (\<exists>q\<in>set (qHead st). qNode q = u \<and> qDist q = dist_of (rgnNodes st) u) \<or>
    relaxed A (rgnNodes st) u (dist_of (rgnNodes st) u) {..<NUM_NODES}"

definition dj_measure :: "dj_state \<Rightarrow> nat" where
  "dj_measure st = nat (\<Sum>v<NUM_NODES. dist_of (rgnNodes st) v) + length (qHead st)"

text \<open>Labels only get smaller.\<close>

definition better :: "NODE list \<Rightarrow> NODE list \<Rightarrow> bool" where
  "better ns ns' \<longleftrightarrow> (\<forall>v. dist_of ns v \<noteq> NONE \<longrightarrow> dist_of ns' v \<noteq> NONE \<and> dist_of ns' v \<le> dist_of ns v)"

text \<open>What holds while the edges of \<open>u\<close>, taken from the queue with the label \<open>d\<close>, are relaxed.\<close>

definition scanning :: "int list list \<Rightarrow> nat \<Rightarrow> nat \<Rightarrow> int \<Rightarrow> nat \<Rightarrow> dj_state \<Rightarrow> bool" where
  "scanning A s u d i st \<longleftrightarrow> labels_ok A s st \<and> (\<exists>us. good A (rgnNodes st) s (u # us) d) \<and>
    relaxed A (rgnNodes st) u d {..<i} \<and>
    (\<forall>x<NUM_NODES. dist_of (rgnNodes st) x \<noteq> NONE \<longrightarrow> (x = u \<and> dist_of (rgnNodes st) u = d) \<or> settled A st x)"

text \<open>The effect of an improvement on the labels: the new array \<open>ns'\<close> differs in the node \<open>i\<close>, which gets a smaller label.\<close>

definition improves :: "int list list \<Rightarrow> NODE list \<Rightarrow> nat \<Rightarrow> int \<Rightarrow> nat \<Rightarrow> NODE list \<Rightarrow> bool" where
  "improves A ns u d i ns' \<longleftrightarrow> edge A u i \<and> (dist_of ns i = NONE \<or> dist_of ns i > d + A ! u ! i) \<and>
    d + A ! u ! i < NONE \<and> 0 \<le> d \<and> dist_of ns u \<noteq> NONE \<and> dist_of ns u \<le> d \<and>
    length ns' = NUM_NODES \<and> dist_of ns' i = d + A ! u ! i \<and> prev_of ns' i = int u \<and>
    (\<forall>x. x \<noteq> i \<longrightarrow> dist_of ns' x = dist_of ns x \<and> prev_of ns' x = prev_of ns x)"

definition search_ok :: "int list list \<Rightarrow> nat \<Rightarrow> dj_state \<Rightarrow> bool" where
  "search_ok A s st \<longleftrightarrow> labels_ok A s st \<and> (\<forall>x<NUM_NODES. dist_of (rgnNodes st) x \<noteq> NONE \<longrightarrow> settled A st x)"

section \<open>Paths and labels\<close>

lemma edge_cost: "matrix_ok A \<Longrightarrow> edge A u v \<Longrightarrow> 0 \<le> A ! u ! v \<and> A ! u ! v \<le> 100"
  unfolding matrix_ok_def edge_def list_all_length by metis

lemma good_simple:
  assumes "good A ns s us d" "matrix_ok A"
  shows "us \<noteq> [] \<and> distinct us \<and> set us \<subseteq> {..<NUM_NODES} \<and> 0 \<le> d \<and> d \<le> 100 * (int (length us) - 1) \<and>
    (\<forall>x\<in>set us. dist_of ns x \<noteq> NONE \<and> dist_of ns x \<le> d) \<and> walk A s us \<and> cost A us = d"
  using assms(1)
proof induction
  case (good_step u us d v)
  have "0 \<le> A ! u ! v" "A ! u ! v \<le> 100" using edge_cost[OF assms(2) good_step.hyps(2)] by simp_all
  then show ?case using good_step by (auto simp: edge_def)
qed auto

lemma good_bound:
  assumes "good A ns s us d" "matrix_ok A"
  shows "0 \<le> d \<and> d < NONE"
proof -
  have "distinct us" "set us \<subseteq> {..<NUM_NODES}" "0 \<le> d" "d \<le> 100 * (int (length us) - 1)" using good_simple[OF assms] by auto
  moreover from this(1,2) have "length us \<le> NUM_NODES" by (metis card_lessThan card_mono distinct_card finite_lessThan)
  ultimately show ?thesis by (simp add: NUM_NODES_def NONE_def)
qed

lemma good_better: "good A ns s us d \<Longrightarrow> better ns ns' \<Longrightarrow> good A ns' s us d"
proof (induction rule: good.induct)
  case good_start
  then show ?case by (auto simp: better_def intro!: good.good_start)
next
  case (good_step u us d v)
  have "dist_of ns' v \<noteq> NONE" "dist_of ns' v \<le> d + A ! u ! v" using good_step by (auto simp: better_def intro: order_trans)
  then show ?case using good_step by (intro good.good_step) auto
qed

lemma relaxed_better: "relaxed A ns u d I \<Longrightarrow> better ns ns' \<Longrightarrow> relaxed A ns' u d I"
  unfolding relaxed_def better_def by (meson order_trans)

lemma chain_dist:
  assumes "chain A ns s us" "matrix_ok A" "x \<in> set us"
  shows "dist_of ns x \<le> dist_of ns (hd us)"
  using assms(1,3)
proof induction
  case (chain_step u us v)
  have "0 \<le> A ! u ! v" using edge_cost[OF assms(2)] chain_step.hyps by simp
  then show ?case using chain_step by (cases "x = v") (auto intro: order_trans)
qed simp

text \<open>A chain when one label is improved: it runs as before down to the improved node, and from there along its new chain.\<close>

lemma chain_update:
  assumes "chain A ns s us" "chain A ns' s (w # ws)" "better ns ns'" "us \<noteq> []"
    and "\<And>v. v \<noteq> w \<Longrightarrow> dist_of ns' v = dist_of ns v \<and> prev_of ns' v = prev_of ns v"
  shows "\<exists>us'. chain A ns' s (hd us # us')"
  using assms(1)
proof induction
  case chain_start
  then show ?case
  proof (cases "s = w")
    case True
    then show ?thesis using assms(2) by auto
  next
    case False
    then show ?thesis using chain_start assms(5)[of s] by (intro exI[of _ "[]"]) (auto intro: chain.chain_start)
  qed
next
  case (chain_step u us v)
  show ?case
  proof (cases "v = w")
    case True
    then show ?thesis using assms(2) by auto
  next
    case False
    obtain us' where u: "chain A ns' s (u # us')" using chain_step.IH by auto
    have "dist_of ns' u \<noteq> NONE" "dist_of ns' u \<le> dist_of ns u" using assms(3) chain_step.hyps by (auto simp: better_def)
    then have "chain A ns' s (v # u # us')"
      using chain_step.hyps assms(5)[OF False] by (intro chain.chain_step[OF u]) auto
    then show ?thesis by auto
  qed
qed

lemma print_path_chain: "chain A ns s us \<Longrightarrow> matrix_ok A \<Longrightarrow> print_path ns (hd us) = Some (rev us)"
proof (induction rule: chain.induct)
  case chain_start
  then show ?case by (subst print_path.simps) (simp add: prev_of_def)
next
  case (chain_step u us v)
  have "int u \<noteq> NONE" using chain_step.hyps by (simp add: edge_def NUM_NODES_def NONE_def)
  then show ?case using chain_step by (subst print_path.simps) (simp add: prev_of_def)
qed

section \<open>One relaxation\<close>

lemma chain_same:
  assumes "chain A ns s us" "\<And>x. x \<in> set us \<Longrightarrow> dist_of ns' x = dist_of ns x \<and> prev_of ns' x = prev_of ns x"
  shows "chain A ns' s us"
  using assms
proof induction
  case (chain_step u us v)
  then show ?case by (intro chain.chain_step) auto
qed (auto intro: chain.chain_start)

lemma dist_range:
  assumes "labels_ok A s st" "matrix_ok A" "v < NUM_NODES"
  shows "0 \<le> dist_of (rgnNodes st) v \<and> dist_of (rgnNodes st) v \<le> NONE"
proof (cases "dist_of (rgnNodes st) v = NONE")
  case False
  then obtain us where "good A (rgnNodes st) s (v # us) (dist_of (rgnNodes st) v)"
    using assms(1,3) by (auto simp: labels_ok_def)
  from good_bound[OF this assms(2)] show ?thesis by simp
qed (simp add: NONE_def)

lemma relax_cases:
  assumes "length (rgnNodes st) = NUM_NODES" "u < NUM_NODES" "i < NUM_NODES"
  obtains (skip) "relax A u d i st = st" "edge A u i \<Longrightarrow> dist_of (rgnNodes st) i \<noteq> NONE \<and> dist_of (rgnNodes st) i \<le> d + A ! u ! i"
  | (improve) ns where "edge A u i" "dist_of (rgnNodes st) i = NONE \<or> dist_of (rgnNodes st) i > d + A ! u ! i"
      "relax A u d i st = st\<lparr>rgnNodes := ns, qHead := qHead st @ [\<lparr>qNode = i, qDist = d + A ! u ! i, qPrev = int u\<rparr>], g_qCount := g_qCount st + 1\<rparr>"
      "length ns = NUM_NODES" "dist_of ns i = d + A ! u ! i" "prev_of ns i = int u"
      "\<And>x. x \<noteq> i \<Longrightarrow> dist_of ns x = dist_of (rgnNodes st) x \<and> prev_of ns x = prev_of (rgnNodes st) x"
proof (cases "edge A u i \<and> (dist_of (rgnNodes st) i = NONE \<or> dist_of (rgnNodes st) i > d + A ! u ! i)")
  case True
  let ?ns = "(rgnNodes st)[i := \<lparr>iDist = d + A ! u ! i, iPrev = int u\<rparr>]"
  show thesis
  proof (rule improve[of ?ns])
    show "relax A u d i st = st\<lparr>rgnNodes := ?ns, qHead := qHead st @ [\<lparr>qNode = i, qDist = d + A ! u ! i, qPrev = int u\<rparr>], g_qCount := g_qCount st + 1\<rparr>"
      using True by (auto simp: relax_def Let_def edge_def enqueue_def dist_of_def)
  qed (use True assms in \<open>auto simp: dist_of_def prev_of_def\<close>)
next
  case False
  then have "relax A u d i st = st" using assms by (auto simp: relax_def Let_def edge_def dist_of_def)
  with False show thesis by (intro skip) (auto simp: not_less)
qed

lemma extend_bound:
  assumes "good A ns s (u # us) d" "matrix_ok A" "edge A u i" "i \<notin> set (u # us)"
  shows "d + A ! u ! i < NONE"
proof -
  note g = good_simple[OF assms(1,2)]
  have "set (u # us) \<subseteq> {..<NUM_NODES} - {i}" using g assms(4) by auto
  then have "card (set (u # us)) \<le> card ({..<NUM_NODES} - {i})" by (intro card_mono) auto
  then have "length (u # us) \<le> NUM_NODES - 1"
    using g assms(3) by (simp add: distinct_card[of "u # us", simplified] edge_def)
  then have "d \<le> 100 * 98" using g by (simp add: NUM_NODES_def)
  then show ?thesis using edge_cost[OF assms(2,3)] by (simp add: NONE_def)
qed

lemma improves_better: "improves A ns u d i ns' \<Longrightarrow> better ns ns'"
  unfolding better_def
proof (intro allI impI)
  fix v assume "improves A ns u d i ns'" "dist_of ns v \<noteq> NONE"
  then show "dist_of ns' v \<noteq> NONE \<and> dist_of ns' v \<le> dist_of ns v"
    by (cases "v = i") (auto simp: improves_def)
qed

lemma improves_chain:
  assumes "improves A ns u d i ns'" "matrix_ok A" "chain A ns s (u # ws)"
  shows "chain A ns' s (i # u # ws)"
proof -
  have c: "0 \<le> A ! u ! i" using edge_cost[OF assms(2)] assms(1) by (auto simp: improves_def)
  have "i \<notin> set (u # ws)"
  proof
    assume "i \<in> set (u # ws)"
    then have "dist_of ns i \<le> dist_of ns u" using chain_dist[OF assms(3,2)] by simp
    then show False using assms(1) c by (auto simp: improves_def)
  qed
  then have "chain A ns' s (u # ws)" "u \<noteq> i"
    using assms(1) by (auto intro!: chain_same[OF assms(3)] simp: improves_def)
  then show ?thesis
    using assms(1) by (intro chain.chain_step) (auto simp: improves_def)
qed

lemma improves_labels:
  assumes "matrix_ok A" "labels_ok A s st" "improves A (rgnNodes st) u d i ns'" "good A ns' s (i # us) (d + A ! u ! i)"
  shows "labels_ok A s (st\<lparr>rgnNodes := ns', qHead := qHead st @ [\<lparr>qNode = i, qDist = d + A ! u ! i, qPrev = p\<rparr>],
    g_qCount := g_qCount st + 1\<rparr>)"
proof -
  let ?ns = "rgnNodes st"
  note b = improves_better[OF assms(3)]
  have c: "0 \<le> A ! u ! i" using edge_cost[OF assms(1)] assms(3) by (auto simp: improves_def)
  have lab: "length ?ns = NUM_NODES" "s < NUM_NODES" "dist_of ?ns s = 0" "prev_of ?ns s = NONE" "g_qCount st = int (length (qHead st))"
    "\<And>q. q \<in> set (qHead st) \<Longrightarrow> \<exists>us. good A ?ns s (qNode q # us) (qDist q)"
    "\<And>v. v < NUM_NODES \<Longrightarrow> dist_of ?ns v \<noteq> NONE \<Longrightarrow> (\<exists>us. good A ?ns s (v # us) (dist_of ?ns v)) \<and> (\<exists>us. chain A ?ns s (v # us))"
    "\<And>v. v < NUM_NODES \<Longrightarrow> dist_of ?ns v = NONE \<Longrightarrow> prev_of ?ns v = NONE"
    using assms(2) by (auto simp: labels_ok_def)
  have si: "s \<noteq> i" using assms(3) lab(3) c by (auto simp: improves_def NONE_def)
  have old: "x \<noteq> i \<Longrightarrow> dist_of ns' x = dist_of ?ns x \<and> prev_of ns' x = prev_of ?ns x" for x using assms(3) by (auto simp: improves_def)
  have u: "u < NUM_NODES" "dist_of ?ns u \<noteq> NONE" using assms(3) by (auto simp: improves_def edge_def)
  obtain ws where ch: "chain A ns' s (i # u # ws)" using lab(7)[OF u] improves_chain[OF assms(3,1)] by blast
  have new: "(\<exists>us. good A ns' s (v # us) (dist_of ns' v)) \<and> (\<exists>us. chain A ns' s (v # us))"
    if v: "v < NUM_NODES" "dist_of ns' v \<noteq> NONE" for v
  proof (cases "v = i")
    case True
    then show ?thesis using assms(3,4) ch by (auto simp: improves_def)
  next
    case False
    then obtain vs ws' where "good A ?ns s (v # vs) (dist_of ?ns v)" "chain A ?ns s (v # ws')" using lab(7)[of v] v old[of v] by auto
    then show ?thesis
      using good_better[OF _ b] chain_update[OF _ ch b _ old, of "v # ws'"] old[OF False] by fastforce
  qed
  have queue: "\<exists>us. good A ns' s (qNode q # us) (qDist q)" if "q \<in> set (qHead st)" for q
    using lab(6)[OF that] good_better[OF _ b] by blast
  have unreached: "prev_of ns' v = NONE" if "v < NUM_NODES" "dist_of ns' v = NONE" for v
    using that lab(8)[of v] old[of v] assms(3) by (cases "v = i") (auto simp: improves_def)
  have "length ns' = NUM_NODES" using assms(3) by (simp add: improves_def)
  then show ?thesis
    unfolding labels_ok_def using lab(2-5) new queue unreached assms(4) si old by auto
qed

lemma improves_settled:
  assumes "improves A (rgnNodes st) u d i ns'" "settled A st x \<or> x = i"
  shows "settled A (st\<lparr>rgnNodes := ns', qHead := qHead st @ [\<lparr>qNode = i, qDist = d + A ! u ! i, qPrev = p\<rparr>], g_qCount := k\<rparr>) x"
proof (cases "x = i")
  case True
  then show ?thesis using assms(1) by (auto simp: settled_def improves_def)
next
  case False
  then have "dist_of ns' x = dist_of (rgnNodes st) x" using assms(1) by (auto simp: improves_def)
  then show ?thesis
    using assms(2) False relaxed_better[OF _ improves_better[OF assms(1)]] by (auto simp: settled_def)
qed

lemma improves_sum:
  assumes "improves A ns u d i ns'" "i < NUM_NODES" "0 \<le> dist_of ns i" "dist_of ns i \<le> NONE"
  shows "(\<Sum>v<NUM_NODES. dist_of ns' v) < (\<Sum>v<NUM_NODES. dist_of ns v)"
proof (rule sum_strict_mono_ex1)
  have i: "dist_of ns' i < dist_of ns i" using assms by (auto simp: improves_def)
  then show "\<exists>v\<in>{..<NUM_NODES}. dist_of ns' v < dist_of ns v" using assms(2) by blast
  have "dist_of ns' v \<le> dist_of ns v" for v using i assms(1) by (cases "v = i") (auto simp: improves_def)
  then show "\<forall>v\<in>{..<NUM_NODES}. dist_of ns' v \<le> dist_of ns v" by blast
qed simp

lemma relax_scanning:
  assumes "matrix_ok A" "scanning A s u d i st" "i < NUM_NODES"
  shows "scanning A s u d (Suc i) (relax A u d i st) \<and> dj_measure (relax A u d i st) \<le> dj_measure st"
proof -
  let ?ns = "rgnNodes st"
  have lab: "labels_ok A s st" and rel: "relaxed A ?ns u d {..<i}"
    and set: "\<And>x. x < NUM_NODES \<Longrightarrow> dist_of ?ns x \<noteq> NONE \<Longrightarrow> (x = u \<and> dist_of ?ns u = d) \<or> settled A st x"
    using assms(2) by (auto simp: scanning_def)
  obtain us where g: "good A ?ns s (u # us) d" using assms(2) by (auto simp: scanning_def)
  have gs: "u < NUM_NODES" "0 \<le> d" "\<And>x. x \<in> set (u # us) \<Longrightarrow> dist_of ?ns x \<noteq> NONE \<and> dist_of ?ns x \<le> d"
    using good_simple[OF g assms(1)] by auto
  have len: "length ?ns = NUM_NODES" using lab by (simp add: labels_ok_def)
  show ?thesis
  proof (rule relax_cases[OF len gs(1) assms(3), of A d])
    assume r: "relax A u d i st = st" "edge A u i \<Longrightarrow> dist_of ?ns i \<noteq> NONE \<and> dist_of ?ns i \<le> d + A ! u ! i"
    have "relaxed A ?ns u d {..<Suc i}" using rel r(2) by (auto simp: relaxed_def less_Suc_eq)
    then show ?thesis using assms(2) by (simp add: r(1) scanning_def)
  next
    fix ns
    let ?c = "A ! u ! i" and ?st = "relax A u d i st"
    assume e: "edge A u i" and imp: "dist_of ?ns i = NONE \<or> dist_of ?ns i > d + ?c"
      and st: "?st = st\<lparr>rgnNodes := ns, qHead := qHead st @ [\<lparr>qNode = i, qDist = d + ?c, qPrev = int u\<rparr>], g_qCount := g_qCount st + 1\<rparr>"
      and ns: "length ns = NUM_NODES" "dist_of ns i = d + ?c" "prev_of ns i = int u"
        "\<And>x. x \<noteq> i \<Longrightarrow> dist_of ns x = dist_of ?ns x \<and> prev_of ns x = prev_of ?ns x"
    have c: "0 \<le> ?c" using edge_cost[OF assms(1) e] by simp
    have iu: "i \<notin> set (u # us)" using gs(3)[of i] imp c by auto
    have bd: "d + ?c < NONE" using g assms(1) e iu by (rule extend_bound)
    have I: "improves A ?ns u d i ns" using e imp bd gs ns by (simp add: improves_def)
    note b = improves_better[OF I]
    have gi: "good A ns s (i # u # us) (d + ?c)" using e iu bd ns(2) by (intro good.good_step[OF good_better[OF g b]]) auto
    have rl: "relaxed A ns u d {..<Suc i}"
      using relaxed_better[OF rel b] bd ns(2) by (auto simp: relaxed_def less_Suc_eq)
    have sl: "(x = u \<and> dist_of ns u = d) \<or> settled A ?st x" if "x < NUM_NODES" "dist_of ns x \<noteq> NONE" for x
      using that set[of x] improves_settled[OF I, of x] ns(4)[of x] iu unfolding st by (cases "x = i") auto
    have "scanning A s u d (Suc i) ?st"
      using improves_labels[OF assms(1) lab I gi] good_better[OF g b] rl sl unfolding scanning_def st by auto
    moreover have "0 \<le> (\<Sum>v<NUM_NODES. dist_of ns v)"
      using dist_range[OF improves_labels[OF assms(1) lab I gi] assms(1)] by (intro sum_nonneg) simp
    then have "dj_measure ?st \<le> dj_measure st"
      using improves_sum[OF I assms(3)] dist_range[OF lab assms(1,3)] by (simp add: dj_measure_def st)
    ultimately show ?thesis by simp
  qed
qed

section \<open>The loop over the queue\<close>

lemma scan_all:
  assumes "matrix_ok A" "scanning A s u d 0 st"
  shows "k \<le> NUM_NODES \<Longrightarrow> scanning A s u d k (fold (relax A u d) [0..<k] st) \<and>
    dj_measure (fold (relax A u d) [0..<k] st) \<le> dj_measure st"
proof (induction k)
  case 0
  then show ?case using assms(2) by simp
next
  case (Suc k)
  then show ?case using relax_scanning[OF assms(1), of s u d k "fold (relax A u d) [0..<k] st"] by auto
qed

lemma queue_step:
  assumes "matrix_ok A" "search_ok A s st" "qHead st = q # qs"
    and "st' = fold (relax A (qNode q) (qDist q)) [0..<NUM_NODES] (st\<lparr>qHead := qs, g_qCount := g_qCount st - 1\<rparr>)"
  shows "search_ok A s st' \<and> dj_measure st' < dj_measure st"
proof -
  let ?st = "st\<lparr>qHead := qs, g_qCount := g_qCount st - 1\<rparr>" and ?u = "qNode q" and ?d = "qDist q"
  have lab: "labels_ok A s st" and set: "\<And>x. x < NUM_NODES \<Longrightarrow> dist_of (rgnNodes st) x \<noteq> NONE \<Longrightarrow> settled A st x"
    using assms(2) by (auto simp: search_ok_def)
  have l: "labels_ok A s ?st" using lab assms(3) by (auto simp: labels_ok_def)
  have g: "\<exists>us. good A (rgnNodes st) s (?u # us) ?d" using lab assms(3) by (auto simp: labels_ok_def)
  have "(x = ?u \<and> dist_of (rgnNodes st) ?u = ?d) \<or> settled A ?st x" if "x < NUM_NODES" "dist_of (rgnNodes st) x \<noteq> NONE" for x
    using set[OF that] assms(3) by (auto simp: settled_def)
  then have "scanning A s ?u ?d 0 ?st" using l g by (auto simp: scanning_def relaxed_def)
  from scan_all[OF assms(1) this, of NUM_NODES] have sc: "scanning A s ?u ?d NUM_NODES st'" "dj_measure st' \<le> dj_measure ?st"
    by (simp_all add: assms(4))
  have "search_ok A s st'"
    using sc(1) by (auto simp: scanning_def search_ok_def settled_def)
  moreover have "dj_measure ?st < dj_measure st" by (simp add: dj_measure_def assms(3))
  ultimately show ?thesis using sc(2) by simp
qed

lemma queue_loop_returns:
  assumes "matrix_ok A" "search_ok A s st"
  shows "\<exists>st'. queue_loop A st = Some st' \<and> search_ok A s st' \<and> qHead st' = []"
  using assms(2)
proof (induction "dj_measure st" arbitrary: st rule: less_induct)
  case less
  have c: "g_qCount st = int (length (qHead st))" using less.prems by (simp add: search_ok_def labels_ok_def)
  show ?case
  proof (cases "qHead st")
    case Nil
    then have "queue_loop A st = Some st" using c by (subst queue_loop.simps) simp
    then show ?thesis using less.prems Nil by blast
  next
    case (Cons q qs)
    let ?st = "fold (relax A (qNode q) (qDist q)) [0..<NUM_NODES] (st\<lparr>qHead := qs, g_qCount := g_qCount st - 1\<rparr>)"
    have "queue_loop A st = queue_loop A ?st" using c Cons by (subst queue_loop.simps) (simp add: dequeue_def)
    then show ?thesis using less.hyps[of ?st] queue_step[OF assms(1) less.prems Cons refl] by simp
  qed
qed

section \<open>The labels at the end\<close>

text \<open>With an empty queue the label of a node is at most the cost of every walk to it.\<close>

lemma label_lower_bound:
  assumes "matrix_ok A" "search_ok A s st" "qHead st = []" "walk A s us"
  shows "dist_of (rgnNodes st) (hd us) \<noteq> NONE \<and> dist_of (rgnNodes st) (hd us) \<le> cost A us"
  using assms(4)
proof (induction us)
  case (Cons v us)
  show ?case
  proof (cases us)
    case Nil
    then show ?thesis using Cons.prems assms(2) by (simp add: search_ok_def labels_ok_def NONE_def)
  next
    case (Cons u us')
    have e: "edge A u v" and w: "walk A s us" using Cons.prems Cons by simp_all
    have u: "dist_of (rgnNodes st) u \<noteq> NONE" "dist_of (rgnNodes st) u \<le> cost A us" using Cons.IH[OF w] Cons by simp_all
    have "settled A st u" using assms(2) u(1) e by (auto simp: search_ok_def edge_def)
    then have "relaxed A (rgnNodes st) u (dist_of (rgnNodes st) u) {..<NUM_NODES}" using assms(3) by (simp add: settled_def)
    then have "dist_of (rgnNodes st) v \<noteq> NONE" "dist_of (rgnNodes st) v \<le> dist_of (rgnNodes st) u + A ! u ! v"
      using e by (auto simp: relaxed_def edge_def)
    then show ?thesis using u(2) Cons by simp
  qed
qed simp

lemma chain_walk: "chain A ns s us \<Longrightarrow> walk A s us \<and> cost A us + dist_of ns s \<le> dist_of ns (hd us)"
  by (induction rule: chain.induct) auto

lemma final_answer:
  assumes "matrix_ok A" "search_ok A s st" "qHead st = []" "s \<noteq> e" "e < NUM_NODES"
  shows "\<exists>p. print_path (rgnNodes st) e = Some p \<and> answer_ok A s e (Path (dist_of (rgnNodes st) e) p)"
proof (cases "dist_of (rgnNodes st) e = NONE")
  case True
  have "\<nexists>us. walk A s us \<and> hd us = e" using label_lower_bound[OF assms(1-3)] True by blast
  moreover have "print_path (rgnNodes st) e = Some [e]"
    using assms(2,5) True by (subst print_path.simps) (simp add: search_ok_def labels_ok_def prev_of_def)
  ultimately show ?thesis using True assms(4) by (auto simp: answer_ok_def)
next
  case False
  obtain us where c: "chain A (rgnNodes st) s (e # us)" using assms(2,5) False by (auto simp: search_ok_def labels_ok_def)
  have s0: "dist_of (rgnNodes st) s = 0" using assms(2) by (simp add: search_ok_def labels_ok_def)
  have w: "walk A s (e # us)" "cost A (e # us) \<le> dist_of (rgnNodes st) e" using chain_walk[OF c] s0 by simp_all
  have lb: "dist_of (rgnNodes st) e \<le> cost A vs" if "walk A s vs" "hd vs = e" for vs
    using label_lower_bound[OF assms(1-3) that(1)] that(2) by simp
  have ex: "\<exists>vs. walk A s vs \<and> hd vs = e" using w(1) by (intro exI[of _ "e # us"]) simp
  have "cost A (e # us) = dist_of (rgnNodes st) e" using w lb[OF w(1)] by simp
  then have "answer_ok A s e (Path (dist_of (rgnNodes st) e) (rev (e # us)))"
    unfolding answer_ok_def dj_out.case if_P[OF ex] rev_rev_ident using w(1) assms(4) lb by simp
  then show ?thesis using print_path_chain[OF c assms(1)] by auto
qed

lemma dijkstra_call:
  assumes "matrix_ok A" "s < NUM_NODES" "e < NUM_NODES" "qHead st = []" "g_qCount st = 0"
  shows "\<exists>st' out. dijkstra A s e st = Some (st', out) \<and> qHead st' = [] \<and> g_qCount st' = 0 \<and> answer_ok A s e out"
proof (cases "s = e")
  case True
  then show ?thesis using assms by (simp add: dijkstra_def answer_ok_def)
next
  case False
  let ?ns = "(replicate NUM_NODES \<lparr>iDist = NONE, iPrev = NONE\<rparr>)[s := \<lparr>iDist = 0, iPrev = NONE\<rparr>]"
  let ?st = "enqueue s 0 NONE (st\<lparr>rgnNodes := ?ns\<rparr>)"
  have d: "dist_of ?ns v = (if v = s then 0 else NONE)" "prev_of ?ns v = NONE" if "v < NUM_NODES" for v
    using that assms(2) by (auto simp: dist_of_def prev_of_def nth_list_update)
  have "good A ?ns s [s] 0" "chain A ?ns s [s]" using assms(2) d[OF assms(2)]
    by (auto intro!: good.good_start chain.chain_start simp: NONE_def)
  then have ok: "search_ok A s ?st"
    using assms(2,4,5) d by (auto simp: search_ok_def labels_ok_def settled_def enqueue_def split: if_splits)
  obtain st' where q: "queue_loop A ?st = Some st'" "search_ok A s st'" "qHead st' = []"
    using queue_loop_returns[OF assms(1) ok] by blast
  obtain p where "print_path (rgnNodes st') e = Some p" "answer_ok A s e (Path (dist_of (rgnNodes st') e) p)"
    using final_answer[OF assms(1) q(2,3) False assms(3)] by blast
  moreover have "g_qCount st' = 0" using q(2,3) by (simp add: search_ok_def labels_ok_def)
  ultimately show ?thesis using False q by (simp add: dijkstra_def Let_def dist_of_def)
qed

lemma main_calls_ok:
  assumes "matrix_ok A" "i + m \<le> NUM_NODES" "qHead st = []" "g_qCount st = 0"
  shows "\<exists>outs. main_calls A m i j st = Some outs \<and> length outs = m \<and>
    (\<forall>k<m. answer_ok A (i + k) ((j + k) mod NUM_NODES) (outs ! k))"
  using assms(2-)
proof (induction m arbitrary: i j st)
  case (Suc m)
  have "0 < NUM_NODES" by (simp add: NUM_NODES_def)
  then obtain st' out where c: "dijkstra A i (j mod NUM_NODES) st = Some (st', out)" "qHead st' = []" "g_qCount st' = 0"
    "answer_ok A i (j mod NUM_NODES) out" using dijkstra_call[OF assms(1), of i "j mod NUM_NODES" st] Suc.prems by auto
  obtain outs where o: "main_calls A m (i + 1) (j mod NUM_NODES + 1) st' = Some outs" "length outs = m"
    "\<And>k. k < m \<Longrightarrow> answer_ok A (i + 1 + k) ((j mod NUM_NODES + 1 + k) mod NUM_NODES) (outs ! k)"
    using Suc.IH[of "i + 1" st' "j mod NUM_NODES + 1"] Suc.prems(1) c(2,3) by auto
  have "answer_ok A (i + k) ((j + k) mod NUM_NODES) ((out # outs) ! k)" if "k < Suc m" for k
  proof (cases k)
    case (Suc k')
    have "(j mod NUM_NODES + 1 + k') mod NUM_NODES = (j + k) mod NUM_NODES" using mod_add_left_eq[of j NUM_NODES "Suc k'"] Suc by simp
    then show ?thesis using o(3)[of k'] that Suc by simp
  qed (use c in simp)
  then show ?case using c o by (intro exI[of _ "out # outs"]) (simp add: Let_def)
qed simp

section \<open>Properties\<close>

text \<open>
  C9. On every matrix of costs from 0 to 100 the program returns, and each of its calls prints the least cost over all walks
  from its start to its end together with a walk of that cost (\<open>NONE\<close> and the end alone when there is no walk).
\<close>

theorem dijkstra_shortest_paths:
  assumes "matrix_ok A" "m \<le> 100"
  shows "\<exists>outs. dj_main A m = Some outs \<and> length outs = m \<and> (\<forall>i<m. answer_ok A i ((50 + i) mod 100) (outs ! i))"
  unfolding dj_main_def
  using main_calls_ok[OF assms(1), of 0 m "\<lparr>rgnNodes = replicate NUM_NODES \<lparr>iDist = 0, iPrev = 0\<rparr>, qHead = [], g_qCount = 0\<rparr>" 50]
    assms(2) by (simp add: NUM_NODES_def)

theorem dijkstra_shortest_paths_witness:
  "\<exists>outs. dj_main (replicate 100 (replicate 100 7)) 20 = Some outs \<and> length outs = 20 \<and>
    (\<forall>i<20. answer_ok (replicate 100 (replicate 100 7)) i ((50 + i) mod 100) (outs ! i))"
  by (rule dijkstra_shortest_paths) (simp_all add: matrix_ok_def NUM_NODES_def NONE_def list_all_length)

end
