(* ===== verification/Sha.thy ===== *)
theory Sha
  imports Prelude "HOL-Library.Monad_Syntax"
begin

text \<open>
  \<^verbatim>\<open>security/sha\<close> (\<^verbatim>\<open>sha.c\<close>, \<^verbatim>\<open>sha.h\<close>): the secure hash algorithm of 1993, computed on streams.

  The program is written for a \<open>LONG\<close> of 32 bits but declares it \<open>unsigned long\<close>.  The model therefore leaves the width of
  \<open>LONG\<close> open (the type variable \<open>'l\<close>), so that both readings can be stated: with 32 bits the digest is the standard's, with
  the 64 bits of the targets it is not even a function of the input.  The array \<open>data\<close> is the list of its bytes in memory,
  least significant byte of a \<open>LONG\<close> first; \<open>le\<close> says whether \<open>LITTLE_ENDIAN\<close> is defined.
\<close>

unbundle bit_operations_syntax

section \<open>Definitions\<close>

subsection \<open>The state\<close>

record 'long SHA_INFO =
  digest :: "'long list"
  count_lo :: 'long
  count_hi :: 'long
  data :: "u8 list"

definition sizeof_LONG :: "'l::len itself \<Rightarrow> nat" where
  "sizeof_LONG _ = LENGTH('l) div 8"

text \<open>\<open>data[i]\<close> read and written as a \<open>LONG\<close>.\<close>

definition rd_long :: "u8 list \<Rightarrow> nat \<Rightarrow> 'l::len word" where
  "rd_long mem i =
    (let k = sizeof_LONG TYPE('l) in foldr (\<lambda>b w. ucast b OR push_bit 8 w) (take k (drop (i * k) mem)) 0)"

definition long_bytes :: "'l::len word \<Rightarrow> u8 list" where
  "long_bytes w = map (\<lambda>j. ucast (drop_bit (8 * j) w)) [0..<sizeof_LONG TYPE('l)]"

definition wr_long :: "nat \<Rightarrow> 'l::len word \<Rightarrow> u8 list \<Rightarrow> u8 list" where
  "wr_long i w mem = write_at (i * sizeof_LONG TYPE('l)) (long_bytes w) mem"

subsection \<open>The transformation\<close>

definition f1 :: "'l::len word \<Rightarrow> 'l word \<Rightarrow> 'l word \<Rightarrow> 'l word" where
  "f1 x y z = (x AND y) OR (NOT x AND z)"

definition f2 :: "'l::len word \<Rightarrow> 'l word \<Rightarrow> 'l word \<Rightarrow> 'l word" where
  "f2 x y z = x XOR y XOR z"

definition f3 :: "'l::len word \<Rightarrow> 'l word \<Rightarrow> 'l word \<Rightarrow> 'l word" where
  "f3 x y z = (x AND y) OR (x AND z) OR (y AND z)"

definition f4 :: "'l::len word \<Rightarrow> 'l word \<Rightarrow> 'l word \<Rightarrow> 'l word" where
  "f4 x y z = x XOR y XOR z"

definition CONST1 :: "'l::len word" where "CONST1 = 0x5a827999"
definition CONST2 :: "'l::len word" where "CONST2 = 0x6ed9eba1"
definition CONST3 :: "'l::len word" where "CONST3 = 0x8f1bbcdc"
definition CONST4 :: "'l::len word" where "CONST4 = 0xca62c1d6"

definition ROT32 :: "'l::len word \<Rightarrow> nat \<Rightarrow> 'l word" where
  "ROT32 x n = push_bit n x OR drop_bit (32 - n) x"

type_synonym 'l regs = "'l word \<times> 'l word \<times> 'l word \<times> 'l word \<times> 'l word"

definition FUNC :: "('l::len word \<Rightarrow> 'l word \<Rightarrow> 'l word \<Rightarrow> 'l word) \<Rightarrow> 'l word \<Rightarrow> 'l word \<Rightarrow> 'l regs \<Rightarrow> 'l regs" where
  "FUNC f K Wi = (\<lambda>(A, B, C, D, E).
    let temp = ROT32 A 5 + f B C D + E + Wi + K
    in (temp, A, ROT32 B 30, C, D))"

text \<open>The array \<open>W\<close>; \<open>USE_MODIFIED_SHA\<close> is not defined.\<close>

definition expand :: "'l::len word list \<Rightarrow> 'l word list" where
  "expand M = fold (\<lambda>i W. W @ [W ! (i - 3) XOR W ! (i - 8) XOR W ! (i - 14) XOR W ! (i - 16)]) [16..<80] M"

definition sha_rounds :: "'l::len word list \<Rightarrow> 'l regs \<Rightarrow> 'l regs" where
  "sha_rounds W r =
    (let r = fold (\<lambda>i. FUNC f1 CONST1 (W ! i)) [0..<20] r;
         r = fold (\<lambda>i. FUNC f2 CONST2 (W ! i)) [20..<40] r;
         r = fold (\<lambda>i. FUNC f3 CONST3 (W ! i)) [40..<60] r
     in fold (\<lambda>i. FUNC f4 CONST4 (W ! i)) [60..<80] r)"

definition sha_transform :: "'l::len word SHA_INFO \<Rightarrow> 'l word SHA_INFO" where
  "sha_transform info =
    (let W = expand (map (rd_long (data info)) [0..<16]);
         d = digest info;
         (A, B, C, D, E) = sha_rounds W (d ! 0, d ! 1, d ! 2, d ! 3, d ! 4)
     in info\<lparr>digest := [d ! 0 + A, d ! 1 + B, d ! 2 + C, d ! 3 + D, d ! 4 + E]\<rparr>)"

text \<open>\<open>byte_reverse\<close> exchanges four bytes in every \<open>LONG\<close>; \<open>k\<close> is the size of a \<open>LONG\<close>.\<close>

definition swap4 :: "nat \<Rightarrow> u8 list \<Rightarrow> u8 list" where
  "swap4 p cp = cp[p := cp ! (p + 3), p + 1 := cp ! (p + 2), p + 2 := cp ! (p + 1), p + 3 := cp ! p]"

definition byte_reverse :: "nat \<Rightarrow> u8 list \<Rightarrow> nat \<Rightarrow> u8 list" where
  "byte_reverse k buffer count = fold (\<lambda>i. swap4 (i * k)) [0..<count div k] buffer"

definition SHA_BLOCKSIZE :: nat where
  "SHA_BLOCKSIZE = 64"

text \<open>The conditional call of \<open>byte_reverse\<close> on a block.\<close>

definition reverse_data :: "bool \<Rightarrow> 'l::len word SHA_INFO \<Rightarrow> 'l word SHA_INFO" where
  "reverse_data le info =
    (if le then info\<lparr>data := byte_reverse (sizeof_LONG TYPE('l)) (data info) SHA_BLOCKSIZE\<rparr> else info)"

subsection \<open>The stream\<close>

definition sha_init :: "u8 list \<Rightarrow> 'l::len word SHA_INFO" where
  "sha_init garbage =
    \<lparr>digest = [0x67452301, 0xefcdab89, 0x98badcfe, 0x10325476, 0xc3d2e1f0], count_lo = 0, count_hi = 0, data = garbage\<rparr>"

function update_blocks :: "bool \<Rightarrow> 'l::len word SHA_INFO \<Rightarrow> u8 list \<Rightarrow> 'l word SHA_INFO" where
  "update_blocks le info buffer =
    (if length buffer \<ge> SHA_BLOCKSIZE then
       (let info = info\<lparr>data := write_at 0 (take SHA_BLOCKSIZE buffer) (data info)\<rparr>;
            info = reverse_data le info;
            info = sha_transform info
        in update_blocks le info (drop SHA_BLOCKSIZE buffer))
     else info\<lparr>data := write_at 0 buffer (data info)\<rparr>)"
  by pat_completeness auto
termination
  by (relation "measure (\<lambda>(le, info, buffer). length buffer)") (auto simp: SHA_BLOCKSIZE_def)

definition sha_update :: "bool \<Rightarrow> 'l::len word SHA_INFO \<Rightarrow> u8 list \<Rightarrow> 'l word SHA_INFO" where
  "sha_update le info buffer =
    (let count = of_nat (length buffer) :: 'l word;
         info = (if count_lo info + push_bit 3 count < count_lo info then info\<lparr>count_hi := count_hi info + 1\<rparr> else info);
         info = info\<lparr>count_lo := count_lo info + push_bit 3 count\<rparr>;
         info = info\<lparr>count_hi := count_hi info + drop_bit 29 count\<rparr>
     in update_blocks le info buffer)"

definition sha_final :: "bool \<Rightarrow> 'l::len word SHA_INFO \<Rightarrow> 'l word SHA_INFO" where
  "sha_final le info =
    (let lo_bit_count = count_lo info;
         hi_bit_count = count_hi info;
         count = unat (drop_bit 3 lo_bit_count AND 0x3f);
         info = info\<lparr>data := (data info)[count := 0x80]\<rparr>;
         count = count + 1;
         info =
           (if count > 56 then
              let info = info\<lparr>data := write_at count (replicate (64 - count) 0) (data info)\<rparr>;
                  info = reverse_data le info;
                  info = sha_transform info
              in info\<lparr>data := write_at 0 (replicate 56 0) (data info)\<rparr>
            else info\<lparr>data := write_at count (replicate (56 - count) 0) (data info)\<rparr>);
         info = reverse_data le info;
         info = info\<lparr>data := wr_long 14 hi_bit_count (data info)\<rparr>;
         info = info\<lparr>data := wr_long 15 lo_bit_count (data info)\<rparr>
     in sha_transform info)"

definition BLOCK_SIZE :: nat where
  "BLOCK_SIZE = 8192"

function stream_loop :: "bool \<Rightarrow> 'l::len word SHA_INFO \<Rightarrow> u8 list \<Rightarrow> 'l word SHA_INFO" where
  "stream_loop le info fin =
    (if fin = [] then info else stream_loop le (sha_update le info (take BLOCK_SIZE fin)) (drop BLOCK_SIZE fin))"
  by pat_completeness auto
termination
  by (relation "measure (\<lambda>(le, info, fin). length fin)") (auto simp: BLOCK_SIZE_def)

text \<open>\<open>garbage\<close> is what the array \<open>data\<close> of the caller's variable holds: nothing initialises it.\<close>

definition sha_stream :: "bool \<Rightarrow> u8 list \<Rightarrow> u8 list \<Rightarrow> 'l::len word SHA_INFO" where
  "sha_stream le garbage fin = sha_final le (stream_loop le (sha_init garbage) fin)"

subsection \<open>The driver\<close>

datatype 'long sha_line = Sha_error string | Sha_digest "'long list"

text \<open>
  The loop of \<open>main\<close> (\<^verbatim>\<open>sha_driver.c\<close>) over the file names; \<open>files\<close> gives the contents of a file, \<open>None\<close> when it cannot be
  opened.  The variable \<open>sha_info\<close> is used again for the next file.
\<close>

fun driver_loop :: "bool \<Rightarrow> (string \<Rightarrow> u8 list option) \<Rightarrow> u8 list \<Rightarrow> string list \<Rightarrow> ('l::len word) sha_line list" where
  "driver_loop le files garbage [] = []"
| "driver_loop le files garbage (a # argv) =
    (case files a of
       None \<Rightarrow> Sha_error a # driver_loop le files garbage argv
     | Some fin \<Rightarrow>
         let info = sha_stream le garbage fin :: 'l word SHA_INFO
         in Sha_digest (digest info) # driver_loop le files (data info) argv)"

definition sha_main :: "bool \<Rightarrow> (string \<Rightarrow> u8 list option) \<Rightarrow> u8 list \<Rightarrow> u8 list \<Rightarrow> string list \<Rightarrow> ('l::len word) sha_line list" where
  "sha_main le files stdin garbage argv =
    (if argv = [] then [Sha_digest (digest (sha_stream le garbage stdin :: 'l word SHA_INFO))]
     else driver_loop le files garbage argv)"

section \<open>Specification\<close>

subsection \<open>The standard\<close>

text \<open>The message schedule, the round functions and the compression function on 32-bit words, as FIPS 180 states them.\<close>

function sha_W :: "32 word list \<Rightarrow> nat \<Rightarrow> 32 word" where
  "sha_W M t = (if t < 16 then M ! t else sha_W M (t - 3) XOR sha_W M (t - 8) XOR sha_W M (t - 14) XOR sha_W M (t - 16))"
  by pat_completeness auto
termination
  by (relation "measure snd") auto

definition sha_f :: "nat \<Rightarrow> 32 word \<Rightarrow> 32 word \<Rightarrow> 32 word \<Rightarrow> 32 word" where
  "sha_f t B C D =
    (if t < 20 then (B AND C) OR (NOT B AND D) else if t < 40 then B XOR C XOR D
     else if t < 60 then (B AND C) OR (B AND D) OR (C AND D) else B XOR C XOR D)"

definition sha_K :: "nat \<Rightarrow> 32 word" where
  "sha_K t = (if t < 20 then 0x5a827999 else if t < 40 then 0x6ed9eba1 else if t < 60 then 0x8f1bbcdc else 0xca62c1d6)"

definition sha_round :: "32 word list \<Rightarrow> nat \<Rightarrow> 32 regs \<Rightarrow> 32 regs" where
  "sha_round M t = (\<lambda>(A, B, C, D, E). (word_rotl 5 A + sha_f t B C D + E + sha_W M t + sha_K t, A, word_rotl 30 B, C, D))"

definition sha_compress :: "32 word list \<Rightarrow> 32 word list \<Rightarrow> 32 word list" where
  "sha_compress H M =
    (let (A, B, C, D, E) = fold (sha_round M) [0..<80] (H ! 0, H ! 1, H ! 2, H ! 3, H ! 4)
     in [H ! 0 + A, H ! 1 + B, H ! 2 + C, H ! 3 + D, H ! 4 + E])"

text \<open>Words are big endian; the message is padded with a one bit, zeros and its length in bits.\<close>

definition be_word :: "u8 list \<Rightarrow> nat \<Rightarrow> 32 word" where
  "be_word b i = push_bit 24 (ucast (b ! (4 * i))) OR push_bit 16 (ucast (b ! (4 * i + 1))) OR
     push_bit 8 (ucast (b ! (4 * i + 2))) OR ucast (b ! (4 * i + 3))"

definition be_words :: "u8 list \<Rightarrow> 32 word list" where
  "be_words b = map (be_word b) [0..<16]"

definition be_length :: "nat \<Rightarrow> u8 list" where
  "be_length n = map (\<lambda>i. of_nat (n div 256 ^ (7 - i))) [0..<8]"

definition sha_pad :: "u8 list \<Rightarrow> u8 list" where
  "sha_pad m = m @ 0x80 # replicate ((119 - length m mod 64) mod 64) 0 @ be_length (8 * length m)"

function sha_blocks :: "32 word list \<Rightarrow> u8 list \<Rightarrow> 32 word list" where
  "sha_blocks H m = (if length m < 64 then H else sha_blocks (sha_compress H (be_words (take 64 m))) (drop 64 m))"
  by pat_completeness auto
termination
  by (relation "measure (length \<circ> snd)") auto

definition SHA0 :: "u8 list \<Rightarrow> 32 word list" where
  "SHA0 m = sha_blocks [0x67452301, 0xefcdab89, 0x98badcfe, 0x10325476, 0xc3d2e1f0] (sha_pad m)"

text \<open>What the driver has to print for a file.\<close>

definition sha_answer :: "(string \<Rightarrow> u8 list option) \<Rightarrow> string \<Rightarrow> 32 word sha_line" where
  "sha_answer files a = (case files a of None \<Rightarrow> Sha_error a | Some fin \<Rightarrow> Sha_digest (SHA0 fin))"

definition count_ok :: "32 word SHA_INFO \<Rightarrow> nat \<Rightarrow> bool" where
  "count_ok info n \<longleftrightarrow> unat (count_hi info) * 2 ^ 32 + unat (count_lo info) = 8 * n"

text \<open>The second half of the array \<open>data\<close>, which only the counts of the last block are written to.\<close>

definition half :: "u8 list \<Rightarrow> u8 list \<Rightarrow> bool" where
  "half T d \<longleftrightarrow> length d = 128 \<and> drop 64 d = T"

declare sha_W.simps [simp del] sha_blocks.simps [simp del] update_blocks.simps [simp del] stream_loop.simps [simp del]

section \<open>The compression function\<close>

lemma ROT32_rotl:
  assumes "n < 32" "0 < n"
  shows "ROT32 (x :: 32 word) n = word_rotl n x"
proof (rule bit_word_eqI)
  fix m assume "m < LENGTH(32)"
  then have m: "m < 32" by simp
  have r: "bit (word_rotl n x) m = bit x ((m + (32 - n)) mod 32)" using m assms by (simp add: bit_word_rotl_iff)
  show "bit (ROT32 x n) m = bit (word_rotl n x) m"
  proof (cases "m < n")
    case True
    then have "(m + (32 - n)) mod 32 = 32 - n + m" using assms by simp
    then show ?thesis unfolding r using True m by (simp add: ROT32_def bit_simps add.commute)
  next
    case False
    then have "m + (32 - n) = (m - n) + 32" using assms by simp
    then have "(m + (32 - n)) mod 32 = (m - n + 32) mod 32" by (simp only:)
    then have "(m + (32 - n)) mod 32 = m - n" using m by (simp only: mod_add_self2) simp
    moreover have "\<not> bit x (32 - n + m)" using False by (auto dest: bit_imp_le_length)
    ultimately show ?thesis unfolding r using False m by (simp add: ROT32_def bit_simps)
  qed
qed

lemma expand_nth:
  assumes "length M = 16" "k \<le> 64"
  shows "fold (\<lambda>i W. W @ [W ! (i - 3) XOR W ! (i - 8) XOR W ! (i - 14) XOR W ! (i - 16)]) [16..<16 + k] M = map (sha_W M) [0..<16 + k]"
  using assms(2)
proof (induction k)
  case 0
  have "M = map (sha_W M) [0..<16]" using assms(1) by (intro nth_equalityI) (auto simp: sha_W.simps)
  then show ?case by simp
next
  case (Suc k)
  have "sha_W M (16 + k) = sha_W M (16 + k - 3) XOR sha_W M (16 + k - 8) XOR sha_W M (16 + k - 14) XOR sha_W M (16 + k - 16)"
    by (subst sha_W.simps) simp
  moreover have "[16..<16 + Suc k] = [16..<16 + k] @ [16 + k]" "[0..<16 + Suc k] = [0..<16 + k] @ [16 + k]"
    using upt_Suc_append[of 16 "16 + k"] upt_Suc_append[of 0 "16 + k"] by simp_all
  ultimately show ?case using Suc by simp
qed

lemma expand_W: "length M = 16 \<Longrightarrow> expand M = map (sha_W M) [0..<80]"
  using expand_nth[of M 64] by (simp add: expand_def del: upt_rec_numeral)

lemma FUNC_round:
  "t < 20 \<Longrightarrow> FUNC f1 CONST1 (sha_W M t) = sha_round M t"
  "20 \<le> t \<Longrightarrow> t < 40 \<Longrightarrow> FUNC f2 CONST2 (sha_W M t) = sha_round M t"
  "40 \<le> t \<Longrightarrow> t < 60 \<Longrightarrow> FUNC f3 CONST3 (sha_W M t) = sha_round M t"
  "60 \<le> t \<Longrightarrow> FUNC f4 CONST4 (sha_W M t) = sha_round M t"
  by (auto simp: fun_eq_iff FUNC_def sha_round_def sha_f_def sha_K_def ROT32_rotl f1_def f2_def f3_def f4_def
      CONST1_def CONST2_def CONST3_def CONST4_def Let_def)

lemma sha_rounds_fold:
  "sha_rounds (map (sha_W M) [0..<80]) r = fold (sha_round M) [0..<80] r"
proof -
  have split: "[0..<80] = [0..<20] @ [20..<40] @ [40..<60] @ [60..<80]"
    using upt_add_eq_append[of 0 20 60] upt_add_eq_append[of 20 40 40] upt_add_eq_append[of 40 60 20] by simp
  have f: "fold (\<lambda>i. FUNC f1 CONST1 (map (sha_W M) [0..<80] ! i)) [0..<20] r = fold (sha_round M) [0..<20] r"
    "fold (\<lambda>i. FUNC f2 CONST2 (map (sha_W M) [0..<80] ! i)) [20..<40] r = fold (sha_round M) [20..<40] r"
    "fold (\<lambda>i. FUNC f3 CONST3 (map (sha_W M) [0..<80] ! i)) [40..<60] r = fold (sha_round M) [40..<60] r"
    "fold (\<lambda>i. FUNC f4 CONST4 (map (sha_W M) [0..<80] ! i)) [60..<80] r = fold (sha_round M) [60..<80] r" for r
    by (rule fold_cong; simp add: FUNC_round del: upt_rec_numeral)+
  show ?thesis unfolding sha_rounds_def Let_def f by (subst split) (simp only: fold_append comp_def)
qed

lemma sha_transform_compress:
  "sha_transform info = info\<lparr>digest := sha_compress (digest info) (map (rd_long (data info)) [0..<16])\<rparr>"
proof -
  have "length (map (rd_long (data info)) [0..<16]) = 16" by simp
  from expand_W[OF this] show ?thesis
    unfolding sha_transform_def sha_compress_def Let_def by (simp add: sha_rounds_fold split: prod.split)
qed

section \<open>Bytes and words\<close>

lemma size32 [simp]: "sizeof_LONG TYPE(32) = 4"
  by (simp add: sizeof_LONG_def)

lemma size64 [simp]: "sizeof_LONG TYPE(64) = 8"
  by (simp add: sizeof_LONG_def)

lemma take4_drop: "4 * i + 3 < length m \<Longrightarrow> take 4 (drop (i * 4) m) = [m ! (4 * i), m ! (4 * i + 1), m ! (4 * i + 2), m ! (4 * i + 3)]"
  by (intro nth_equalityI) (auto simp: less_Suc_eq numeral_eq_Suc mult.commute)

lemma push_or_assoc: "push_bit n (a OR b) = push_bit n a OR push_bit n (b :: 'a :: len word)"
  by (rule push_bit_or)

lemma rd_long32:
  assumes "4 * i + 3 < length m"
  shows "(rd_long m i :: 32 word) = push_bit 24 (ucast (m ! (4 * i + 3))) OR push_bit 16 (ucast (m ! (4 * i + 2))) OR
    push_bit 8 (ucast (m ! (4 * i + 1))) OR ucast (m ! (4 * i))"
  by (simp add: rd_long_def Let_def take4_drop[OF assms] push_or_assoc ac_simps)

lemma quad [simp]:
  "Suc (4 * i) div 4 = i" "Suc (Suc (4 * i)) div 4 = i" "Suc (4 * i) mod 4 = 1" "Suc (Suc (4 * i)) mod 4 = 2"
  "Suc (i * 4) div 4 = i" "Suc (Suc (i * 4)) div 4 = i" "Suc (i * 4) mod 4 = 1" "Suc (Suc (i * 4)) mod 4 = 2"
  by presburger+

lemma swap4_nth:
  assumes "4 * i + 3 < length b" "p < length b"
  shows "swap4 (i * 4) b ! p = (if p div 4 = i then b ! (4 * i + (3 - p mod 4)) else b ! p)"
proof (cases "p div 4 = i")
  case True
  define j where "j = p mod 4"
  have p: "p = 4 * i + j" "j < 4" using True by (auto simp: j_def)
  then consider "j = 0" | "j = 1" | "j = 2" | "j = 3" by linarith
  then show ?thesis using p assms by cases (simp_all add: swap4_def nth_list_update mult.commute)
next
  case False
  have "p \<noteq> 4 * i + j" if "j < 4" for j using False that by auto
  from this[of 0] this[of 1] this[of 2] this[of 3] show ?thesis
    using False by (simp add: swap4_def mult.commute)
qed

lemma length_swap4 [simp]: "length (swap4 p b) = length b"
  by (simp add: swap4_def)

lemma byte_reverse_nth:
  assumes "4 * n \<le> length b" "p < length b"
  shows "length (fold (\<lambda>i. swap4 (i * 4)) [0..<n] b) = length b \<and>
    fold (\<lambda>i. swap4 (i * 4)) [0..<n] b ! p = (if p < 4 * n then b ! (4 * (p div 4) + (3 - p mod 4)) else b ! p)"
  using assms
proof (induction n arbitrary: p)
  case (Suc n)
  have l: "length (fold (\<lambda>i. swap4 (i * 4)) [0..<n] b) = length b" using Suc.IH[OF _ Suc.prems(2)] Suc.prems(1) by simp
  let ?b = "fold (\<lambda>i. swap4 (i * 4)) [0..<n] b"
  have s: "swap4 (n * 4) ?b ! p = (if p div 4 = n then ?b ! (4 * n + (3 - p mod 4)) else ?b ! p)"
    using Suc.prems l by (intro swap4_nth) simp_all
  have "4 * n + (3 - p mod 4) \<le> 4 * n + 3" by simp
  also have "\<dots> < length b" using Suc.prems(1) by simp
  finally have q: "4 * n + (3 - p mod 4) < length b" .
  have "?b ! (4 * n + r) = b ! (4 * n + r)" if "4 * n + r < length b" for r using Suc.IH[OF _ that] Suc.prems(1) by simp
  from this[OF q] have "?b ! (4 * n + (3 - p mod 4)) = b ! (4 * n + (3 - p mod 4))" .
  moreover have "?b ! p = (if p < 4 * n then b ! (4 * (p div 4) + (3 - p mod 4)) else b ! p)" using Suc.IH[OF _ Suc.prems(2)] Suc.prems(1) by simp
  moreover have "p < 4 * Suc n \<longleftrightarrow> p < 4 * n \<or> p div 4 = n" "p div 4 = n \<Longrightarrow> \<not> p < 4 * n" by auto
  ultimately show ?case using s l by simp
qed simp

lemma reversed_words:
  assumes "length b = 64"
  shows "map (rd_long (byte_reverse 4 b SHA_BLOCKSIZE)) [0..<16] = be_words b"
    "length (byte_reverse 4 b SHA_BLOCKSIZE) = 64"
proof -
  have n: "byte_reverse 4 b SHA_BLOCKSIZE ! p = b ! (4 * (p div 4) + (3 - p mod 4))" if "p < 64" for p
    using byte_reverse_nth[of 16 b p] assms that by (simp add: byte_reverse_def SHA_BLOCKSIZE_def)
  show l: "length (byte_reverse 4 b SHA_BLOCKSIZE) = 64"
    using byte_reverse_nth[of 16 b 0] assms by (simp add: byte_reverse_def SHA_BLOCKSIZE_def)
  have "rd_long (byte_reverse 4 b SHA_BLOCKSIZE) i = be_word b i" if "i < 16" for i
  proof -
    have "(4 * i + j) div 4 = i" "(4 * i + j) mod 4 = j" if "j < 4" for j using that by simp_all
    then show ?thesis
      using that l by (subst rd_long32) (simp_all add: n be_word_def)
  qed
  then show "map (rd_long (byte_reverse 4 b SHA_BLOCKSIZE)) [0..<16] = be_words b" by (simp add: be_words_def del: upt_rec_numeral)
qed

section \<open>Hashing the blocks\<close>

lemma block_step:
  fixes info :: "32 word SHA_INFO"
  assumes "length (data info) = 64"
  shows "sha_transform (reverse_data True info) =
    info\<lparr>digest := sha_compress (digest info) (be_words (data info)), data := byte_reverse 4 (data info) SHA_BLOCKSIZE\<rparr>"
  using reversed_words(1)[OF assms] by (simp add: sha_transform_compress reverse_data_def)

lemma update_blocks_result:
  fixes info :: "32 word SHA_INFO"
  assumes "length (data info) = 64"
  shows "digest (update_blocks True info b) = sha_blocks (digest info) b \<and> length (data (update_blocks True info b)) = 64 \<and>
    take (length b mod 64) (data (update_blocks True info b)) = drop (64 * (length b div 64)) b \<and>
    count_lo (update_blocks True info b) = count_lo info \<and> count_hi (update_blocks True info b) = count_hi info"
  using assms
proof (induction "length b" arbitrary: info b rule: less_induct)
  case less
  show ?case
  proof (cases "length b < 64")
    case True
    then show ?thesis using less.prems
      by (subst (1 2 3 4 5) update_blocks.simps, subst sha_blocks.simps) (simp add: SHA_BLOCKSIZE_def write_at_def)
  next
    case False
    let ?info = "info\<lparr>digest := sha_compress (digest info) (be_words (take 64 b)), data := byte_reverse 4 (take 64 b) SHA_BLOCKSIZE\<rparr>"
    have w: "write_at 0 (take 64 b) (data info) = take 64 b" using less.prems False by (simp add: write_at_def)
    have u: "update_blocks True info b = update_blocks True ?info (drop 64 b)"
      using False by (subst update_blocks.simps) (simp add: SHA_BLOCKSIZE_def w Let_def block_step[unfolded SHA_BLOCKSIZE_def])
    have m: "length b mod 64 = (length b - 64) mod 64" "length b div 64 = Suc ((length b - 64) div 64)"
      using False by (simp_all add: le_mod_geq le_div_geq)
    have "length (data ?info) = 64" using reversed_words(2)[of "take 64 b"] False by simp
    then have "digest (update_blocks True ?info (drop 64 b)) = sha_blocks (digest ?info) (drop 64 b) \<and> length (data (update_blocks True ?info (drop 64 b))) = 64 \<and>
      take (length (drop 64 b) mod 64) (data (update_blocks True ?info (drop 64 b))) = drop (64 * (length (drop 64 b) div 64)) (drop 64 b) \<and>
      count_lo (update_blocks True ?info (drop 64 b)) = count_lo ?info \<and> count_hi (update_blocks True ?info (drop 64 b)) = count_hi ?info"
      using False by (intro less.hyps) auto
    then show ?thesis using False by (simp add: u m sha_blocks.simps[of "digest info" b] add.commute)
  qed
qed

section \<open>Counting\<close>

lemma add_carry:
  fixes lo hi x :: "32 word"
  assumes "(unat hi * 2 ^ 32 + unat lo) + unat x < 2 ^ 64"
  shows "unat (if lo + x < lo then hi + 1 else hi) * 2 ^ 32 + unat (lo + x) = (unat hi * 2 ^ 32 + unat lo) + unat x"
proof -
  have b: "unat lo < 2 ^ 32" "unat x < 2 ^ 32" "unat hi < 2 ^ 32"
    using unsigned_less[of lo, where ?'a = nat] unsigned_less[of x, where ?'a = nat] unsigned_less[of hi, where ?'a = nat] by simp_all
  show ?thesis
  proof (cases "unat lo + unat x < 2 ^ 32")
    case True
    then have u: "unat (lo + x) = unat lo + unat x" by (simp add: unat_word_ariths)
    then have "\<not> lo + x < lo" by (simp add: word_less_nat_alt)
    then show ?thesis by (simp add: u)
  next
    case False
    have "(unat lo + unat x) mod 2 ^ 32 = unat lo + unat x - 2 ^ 32"
      using False b by (simp add: le_mod_geq)
    then have u: "unat (lo + x) = unat lo + unat x - 2 ^ 32" by (simp add: unat_word_ariths)
    then have "lo + x < lo" using b False by (simp add: word_less_nat_alt)
    moreover have "unat hi + 1 < 2 ^ 32" using assms False b by (simp)
    then have "unat (hi + 1) = unat hi + 1" by (simp add: unat_word_ariths)
    ultimately show ?thesis using u False by (simp add: algebra_simps)
  qed
qed

lemma update_count:
  assumes "count_ok info n" "length b \<le> 8192" "8 * (n + length b) < 2 ^ 64" "length (data info) = 64"
  shows "count_ok (sha_update True info b) (n + length b)"
proof -
  let ?c = "of_nat (length b) :: 32 word"
  have l: "unat ?c = length b" using assms(2) by (simp add: unat_of_nat)
  have x: "unat (push_bit 3 ?c) = 8 * length b" using assms(2)
    by (simp add: push_bit_eq_mult unat_word_ariths l)
  have z: "drop_bit 29 ?c = 0"
    using assms(2) by (intro word_unat_eq_iff[THEN iffD2]) (simp add: unat_drop_bit_eq l drop_bit_nat)
  have "count_hi (sha_update True info b) = (if count_lo info + push_bit 3 ?c < count_lo info then count_hi info + 1 else count_hi info)"
    "count_lo (sha_update True info b) = count_lo info + push_bit 3 ?c"
    by (simp_all add: sha_update_def Let_def z update_blocks_result assms(4))
  then show ?thesis
    using add_carry[of "count_hi info" "count_lo info" "push_bit 3 ?c"] assms(1,3) x
    unfolding count_ok_def by (simp only:) simp
qed

lemma sha_update_result:
  assumes "length (data info) = 64"
  shows "digest (sha_update True info b) = sha_blocks (digest info) b" "length (data (sha_update True info b)) = 64"
    "take (length b mod 64) (data (sha_update True info b)) = drop (64 * (length b div 64)) b"
  using assms by (simp_all add: sha_update_def Let_def update_blocks_result)

lemma sha_blocks_append:
  "length a mod 64 = 0 \<Longrightarrow> sha_blocks H (a @ b) = sha_blocks (sha_blocks H a) b"
proof (induction "length a" arbitrary: a H rule: less_induct)
  case less
  show ?case
  proof (cases "a = []")
    case True
    then show ?thesis by (simp add: sha_blocks.simps[of H "[]"])
  next
    case False
    then have "0 < length a" by simp
    then have l: "64 \<le> length a" using less.prems by (metis mod_less not_le less_numeral_extra(3))
    have "length (drop 64 a) mod 64 = 0" using less.prems l by (simp add: le_mod_geq)
    then have "sha_blocks H' (drop 64 a @ b) = sha_blocks (sha_blocks H' (drop 64 a)) b" for H'
      using False l by (intro less.hyps) auto
    then show ?thesis using l by (simp add: sha_blocks.simps[of H "a @ b"] sha_blocks.simps[of H a])
  qed
qed

lemma stream_result:
  assumes "length (data info) = 64" "count_ok info n" "8 * (n + length fin) < 2 ^ 64"
  shows "digest (stream_loop True info fin) = sha_blocks (digest info) fin \<and> count_ok (stream_loop True info fin) (n + length fin) \<and>
    length (data (stream_loop True info fin)) = 64 \<and>
    take (length fin mod 64) (data (stream_loop True info fin)) = drop (64 * (length fin div 64)) fin"
  using assms
proof (induction "length fin" arbitrary: info n fin rule: less_induct)
  case less
  show ?case
  proof (cases "fin = []")
    case True
    then show ?thesis using less.prems by (simp add: stream_loop.simps[of _ _ "[]"] sha_blocks.simps[of _ "[]"])
  next
    case False
    let ?a = "take BLOCK_SIZE fin" and ?b = "drop BLOCK_SIZE fin" and ?info = "sha_update True info (take BLOCK_SIZE fin)"
    have s: "stream_loop True info fin = stream_loop True ?info ?b" using False by (subst stream_loop.simps) simp
    have la: "length ?a \<le> 8192" "length ?a + length ?b = length fin" by (simp_all add: BLOCK_SIZE_def)
    have c: "count_ok ?info (n + length ?a)" using less.prems la by (intro update_count) auto
    note u = sha_update_result[OF less.prems(1), of ?a]
    show ?thesis
    proof (cases "length fin \<le> BLOCK_SIZE")
      case True
      then show ?thesis using s u c by (simp add: stream_loop.simps[of _ _ "[]"])
    next
      case F: False
      have "length ?b < length fin" using F by (simp add: BLOCK_SIZE_def)
      then have IH: "digest (stream_loop True ?info ?b) = sha_blocks (digest ?info) ?b \<and> count_ok (stream_loop True ?info ?b) (n + length ?a + length ?b) \<and>
        length (data (stream_loop True ?info ?b)) = 64 \<and>
        take (length ?b mod 64) (data (stream_loop True ?info ?b)) = drop (64 * (length ?b div 64)) ?b"
        using less.prems(3) la u(2) c by (intro less.hyps) auto
      have l: "length fin = 64 * 128 + length ?b" using F by (simp add: BLOCK_SIZE_def)
      have "length fin mod 64 = length ?b mod 64" "length fin div 64 = 128 + length ?b div 64"
        unfolding l by (simp_all only: mod_mult_self4 div_mult_self4[of 64, simplified])
      moreover have "drop (64 * (128 + length ?b div 64)) fin = drop (64 * (length ?b div 64)) ?b" by (simp add: BLOCK_SIZE_def add.commute)
      moreover have "sha_blocks (digest info) fin = sha_blocks (sha_blocks (digest info) ?a) ?b"
        using sha_blocks_append[of ?a "digest info" ?b] F by (simp add: BLOCK_SIZE_def)
      ultimately show ?thesis using IH u(1) la(2) unfolding s by (simp add: add.assoc del: length_drop length_take)
    qed
  qed
qed

section \<open>The last blocks\<close>

lemma be_length_words:
  assumes "length x = 56"
  shows "be_word (x @ be_length n) 14 = of_nat (n div 2 ^ 32)" "be_word (x @ be_length n) 15 = of_nat n"
proof -
  have b: "(x @ be_length n) ! (56 + j) = of_nat (drop_bit (8 * (7 - j)) n)" if "j < 8" for j
  proof -
    have "(256 :: nat) ^ (7 - j) = 2 ^ (8 * (7 - j))" by (simp add: power_mult)
    then show ?thesis using that assms by (simp add: nth_append be_length_def drop_bit_eq_div)
  qed
  have u8: "bit (of_nat k :: u8) i \<longleftrightarrow> i < 8 \<and> bit k i" for k i :: nat by (simp add: bit_of_nat_iff)
  note bs = b[of 0] b[of 1] b[of 2] b[of 3] b[of 4] b[of 5] b[of 6] b[of 7]
  show "be_word (x @ be_length n) 14 = of_nat (n div 2 ^ 32)"
  proof (rule bit_word_eqI)
    fix i assume "i < LENGTH(32)"
    then consider "i < 8" | "8 \<le> i" "i < 16" | "16 \<le> i" "i < 24" | "24 \<le> i" "i < 32" by fastforce
    then show "bit (be_word (x @ be_length n) 14) i = bit (of_nat (n div 2 ^ 32) :: 32 word) i"
      unfolding be_word_def drop_bit_nat[symmetric] using bs by cases (auto simp: bit_simps u8)
  qed
  show "be_word (x @ be_length n) 15 = of_nat n"
  proof (rule bit_word_eqI)
    fix i assume "i < LENGTH(32)"
    then consider "i < 8" | "8 \<le> i" "i < 16" | "16 \<le> i" "i < 24" | "24 \<le> i" "i < 32" by fastforce
    then show "bit (be_word (x @ be_length n) 15) i = bit (of_nat n :: 32 word) i"
      unfolding be_word_def using bs by cases (auto simp: bit_simps u8)
  qed
qed

lemma rd_wr_long:
  fixes w :: "32 word"
  assumes "4 * j + 3 < length m" "4 * i + 3 < length m"
  shows "rd_long (wr_long j w m) i = (if i = j then w else rd_long m i)"
proof -
  have lb: "length (long_bytes w) = 4" by (simp add: long_bytes_def)
  have l: "length (wr_long j w m) = length m" using assms(1) by (simp add: wr_long_def lb)
  have n: "wr_long j w m ! (4 * i + k) = (if i = j then ucast (drop_bit (8 * k) w) else m ! (4 * i + k))" if "k < 4" for k
  proof -
    have "j * 4 \<le> 4 * i + k \<and> 4 * i + k < j * 4 + 4 \<longleftrightarrow> i = j" using that by auto
    then show ?thesis unfolding wr_long_def using assms that by (simp add: nth_write_at lb) (simp add: long_bytes_def)
  qed
  show ?thesis
  proof (cases "i = j")
    case True
    let ?b = "\<lambda>k. ucast (ucast (drop_bit (8 * k) w) :: u8) :: 32 word"
    have "rd_long (wr_long j w m) j = push_bit 24 (?b 3) OR push_bit 16 (?b 2) OR push_bit 8 (?b 1) OR ?b 0"
      using n[of 0] n[of 1] n[of 2] n[of 3] assms(1) l True by (subst rd_long32) simp_all
    also have "\<dots> = w"
    proof (rule bit_word_eqI)
      fix b assume "b < LENGTH(32)"
      then consider "b < 8" | "8 \<le> b" "b < 16" | "16 \<le> b" "b < 24" | "24 \<le> b" "b < 32" by fastforce
      then show "bit (push_bit 24 (?b 3) OR push_bit 16 (?b 2) OR push_bit 8 (?b 1) OR ?b 0) b = bit w b"
        by cases (auto simp: bit_simps)
    qed
    finally have "rd_long (wr_long j w m) j = w" .
    then show ?thesis using True by simp
  next
    case False
    then show ?thesis using n[of 0] n[of 1] n[of 2] n[of 3] assms(2) l by (subst (1 2) rd_long32) simp_all
  qed
qed

text \<open>The words of the last block: 14 from the data, then the two halves of the length.\<close>

lemma last_block_words:
  fixes hi lo :: "32 word"
  assumes "length b = 64" "length x = 56" "take 56 b = x" "unat hi * 2 ^ 32 + unat lo = n"
  shows "map (rd_long (wr_long 15 lo (wr_long 14 hi (byte_reverse 4 b SHA_BLOCKSIZE)))) [0..<16] = be_words (x @ be_length n)"
proof -
  let ?m = "byte_reverse 4 b SHA_BLOCKSIZE"
  have l: "length ?m = 64" using reversed_words(2)[OF assms(1)] .
  have l': "length (wr_long 14 hi ?m) = 64" using l by (simp add: wr_long_def long_bytes_def)
  have lo: "unat lo < 2 ^ 32" using unsigned_less[of lo, where ?'a = nat] by simp
  have "of_nat (n div 2 ^ 32) = hi" "of_nat n = lo"
  proof -
    have "n div 2 ^ 32 = unat hi" unfolding assms(4)[symmetric] using lo by simp
    then show "of_nat (n div 2 ^ 32) = hi" by simp
    have "n mod 2 ^ 32 = unat lo" unfolding assms(4)[symmetric] using lo by (simp add: mod_mult_self3)
    then have "unat (of_nat n :: 32 word) = unat lo" by (simp add: unat_of_nat)
    then show "of_nat n = lo" by (rule word_unat_eq_iff[THEN iffD2])
  qed
  then have len: "be_word (x @ be_length n) 14 = hi" "be_word (x @ be_length n) 15 = lo" using be_length_words[OF assms(2)] by simp_all
  have "rd_long (wr_long 15 lo (wr_long 14 hi ?m)) i = be_word (x @ be_length n) i" if i16: "i < 16" for i
  proof -
    have w: "rd_long (wr_long 15 lo (wr_long 14 hi ?m)) i = (if i = 15 then lo else if i = 14 then hi else rd_long ?m i)"
      using i16 l l' by (simp add: rd_wr_long)
    consider "i = 15" | "i = 14" | "i < 14" using i16 by linarith
    then show ?thesis
    proof cases
      case 3
      have "be_words b ! i = rd_long ?m i" using i16 reversed_words(1)[OF assms(1), symmetric] by (simp del: upt_rec_numeral)
      moreover have "be_words b ! i = be_word b i" using i16 by (simp add: be_words_def del: upt_rec_numeral)
      moreover have "b ! p = (x @ be_length n) ! p" if "p < 56" for p using that assms by (auto simp: nth_append)
      ultimately show ?thesis using 3 w by (simp add: be_word_def)
    qed (use w len in simp_all)
  qed
  then show ?thesis by (simp add: be_words_def del: upt_rec_numeral)
qed

lemma sha_blocks_single: "length b = 64 \<Longrightarrow> sha_blocks H b = sha_compress H (be_words b)"
  by (simp add: sha_blocks.simps[of H b] sha_blocks.simps[of _ "[]"])

lemma length_be_length [simp]: "length (be_length n) = 8"
  by (simp add: be_length_def)

text \<open>The data array with the remainder \<open>r\<close>, the byte \<open>0x80\<close> and zeros up to position \<open>e\<close>.\<close>

lemma padded_data:
  assumes "length d = 64" "take (length r) d = r" "length r < e" "e \<le> 64"
  shows "take e (write_at (length r + 1) (replicate (e - (length r + 1)) 0) (d[length r := 0x80])) = r @ 0x80 # replicate (e - (length r + 1)) 0"
    "length (write_at (length r + 1) (replicate (e - (length r + 1)) 0) (d[length r := 0x80])) = 64"
proof -
  obtain q where e: "e = Suc (length r + q)" using assms(3) by (auto simp: less_iff_Suc_add)
  have "take (length r + 1) (d[length r := 0x80]) = r @ [0x80]"
    using assms by (simp add: take_Suc_conv_app_nth)
  then show "take e (write_at (length r + 1) (replicate (e - (length r + 1)) 0) (d[length r := 0x80])) = r @ 0x80 # replicate (e - (length r + 1)) 0"
    by (simp add: write_at_def e)
  show "length (write_at (length r + 1) (replicate (e - (length r + 1)) 0) (d[length r := 0x80])) = 64"
    using assms by simp
qed

lemma final_count:
  assumes "count_ok info n"
  shows "unat (drop_bit 3 (count_lo info) AND 0x3f) = n mod 64"
proof -
  have lo: "unat (count_lo info) < 2 ^ 32" using unsigned_less[of "count_lo info", where ?'a = nat] by simp
  have "8 * n mod 2 ^ 32 = unat (count_lo info)" unfolding assms[unfolded count_ok_def, symmetric] using lo by simp
  then have "unat (count_lo info) = 8 * (n mod 2 ^ 29)" using mod_mult_mult1[of 8 n "2 ^ 29"] by simp
  then have "unat (count_lo info) div 8 = n mod 2 ^ 29" by simp
  moreover have "unat (drop_bit 3 (count_lo info) AND 0x3f) = unat (count_lo info) div 8 mod 64"
    using nat_and_mask[of "unat (count_lo info) div 8" 6] by (simp only: unsigned_and_eq unat_drop_bit_eq drop_bit_nat) simp
  ultimately show ?thesis by (simp add: mod_mod_cancel)
qed

lemma final_one_block:
  assumes "length (data info) = 64" "take (length r) (data info) = r" "length r < 56" "count_ok info n"
    and "n mod 64 = length r"
  shows "digest (sha_final True info) = sha_blocks (digest info) (r @ 0x80 # replicate (55 - length r) 0 @ be_length (8 * n))"
proof -
  let ?d = "write_at (length r + 1) (replicate (56 - (length r + 1)) 0) ((data info)[length r := 0x80])"
  let ?x = "r @ 0x80 # replicate (56 - (length r + 1)) 0"
  have d: "length ?d = 64" "take 56 ?d = ?x" using padded_data[OF assms(1,2), of 56] assms(3) by simp_all
  have x: "length ?x = 56" using assms(3) by simp
  have c: "unat (drop_bit 3 (count_lo info) AND 0x3f) = length r" using final_count[OF assms(4)] assms(5) by simp
  have "digest (sha_final True info) = sha_compress (digest info) (be_words (?x @ be_length (8 * n)))"
    using assms(3) unfolding sha_final_def Let_def c sha_transform_compress
    by (simp add: reverse_data_def last_block_words[OF d(1) x d(2) assms(4)[unfolded count_ok_def], simplified] del: upt_rec_numeral)
  also have "\<dots> = sha_blocks (digest info) (?x @ be_length (8 * n))" using x by (intro sha_blocks_single[symmetric]) simp
  finally show ?thesis by simp
qed

lemma final_two_blocks:
  assumes "length (data info) = 64" "take (length r) (data info) = r" "56 \<le> length r" "length r < 64" "count_ok info n"
    and "n mod 64 = length r"
  shows "digest (sha_final True info) = sha_blocks (digest info) (r @ 0x80 # replicate (119 - length r) 0 @ be_length (8 * n))"
proof -
  let ?d = "write_at (length r + 1) (replicate (64 - (length r + 1)) 0) ((data info)[length r := 0x80])"
  let ?x = "r @ 0x80 # replicate (64 - (length r + 1)) 0"
  have d: "?d = ?x" using padded_data[OF assms(1,2), of 64] assms(4) by simp
  have x: "length ?x = 64" using assms(4) by simp
  let ?e = "write_at 0 (replicate 56 0) (byte_reverse 4 ?x SHA_BLOCKSIZE)"
  have e: "length ?e = 64" "take 56 ?e = replicate 56 0"
    using reversed_words(2)[OF x] by (simp_all add: write_at_def)
  have c: "unat (drop_bit 3 (count_lo info) AND 0x3f) = length r" using final_count[OF assms(5)] assms(6) by simp
  have "digest (sha_final True info) =
      sha_compress (sha_compress (digest info) (be_words ?x)) (be_words (replicate 56 0 @ be_length (8 * n)))"
    using assms(3) unfolding sha_final_def Let_def c sha_transform_compress
    by (simp add: reverse_data_def d[simplified] reversed_words(1)[OF x, simplified]
      last_block_words[OF e(1) _ e(2) assms(5)[unfolded count_ok_def], simplified] del: upt_rec_numeral)
  also have "\<dots> = sha_blocks (digest info) (?x @ replicate 56 0 @ be_length (8 * n))"
  proof -
    have "sha_blocks (digest info) (?x @ replicate 56 0 @ be_length (8 * n)) =
        sha_blocks (sha_blocks (digest info) ?x) (replicate 56 0 @ be_length (8 * n))"
      using x by (intro sha_blocks_append) simp
    then show ?thesis unfolding sha_blocks_single[OF x] by (simp only: sha_blocks_single length_append length_replicate length_be_length)
  qed
  also have "?x @ replicate 56 0 @ be_length (8 * n) = r @ 0x80 # replicate (119 - length r) 0 @ be_length (8 * n)"
  proof -
    have e: "119 - length r = (64 - (length r + 1)) + 56" using assms(3,4) by simp
    show ?thesis unfolding e replicate_add append_assoc append_Cons ..
  qed
  finally show ?thesis .
qed

lemma sha_final_result:
  assumes "length (data info) = 64" "count_ok info n" "take (n mod 64) (data info) = r" "length r = n mod 64"
  shows "digest (sha_final True info) =
    sha_blocks (digest info) (r @ 0x80 # replicate ((119 - n mod 64) mod 64) 0 @ be_length (8 * n))"
proof -
  have t: "take (length r) (data info) = r" "n mod 64 = length r" "length r < 64" using assms(3,4) by simp_all
  show ?thesis
  proof (cases "length r < 56")
    case True
    then have "(119 - length r) mod 64 = 55 - length r" by (simp add: le_mod_geq)
    then show ?thesis using final_one_block[OF assms(1) t(1) True assms(2) t(2)] t(2) by (simp only:)
  next
    case False
    then have "56 \<le> length r" "(119 - length r) mod 64 = 119 - length r" by simp_all
    then show ?thesis using final_two_blocks[OF assms(1) t(1) _ t(3) assms(2) t(2)] t(2) by (simp only:)
  qed
qed

section \<open>The array on a 64-bit machine\<close>

lemma half_write: "half T d \<Longrightarrow> p + length ys \<le> 64 \<Longrightarrow> half T (write_at p ys d)"
  by (auto simp: half_def write_at_def)

lemma half_update: "half T d \<Longrightarrow> p < 64 \<Longrightarrow> half T (d[p := v])"
  by (auto simp: half_def)

lemma half_reverse:
  assumes "half T d"
  shows "half T (byte_reverse 8 d SHA_BLOCKSIZE)"
proof -
  have "8 * n \<le> 64 \<Longrightarrow> half T (fold (\<lambda>i. swap4 (i * 8)) [0..<n] d)" for n
    by (induction n) (auto simp: assms swap4_def intro!: half_update)
  from this[of 8] show ?thesis by (simp add: byte_reverse_def SHA_BLOCKSIZE_def)
qed

lemma half_reverse_data:
  fixes info :: "64 word SHA_INFO"
  shows "half T (data info) \<Longrightarrow> half T (data (reverse_data le info))"
  by (simp add: reverse_data_def half_reverse)

lemma data_transform [simp]: "data (sha_transform info) = data info"
  by (simp add: sha_transform_def Let_def case_prod_beta)

lemma update_blocks_half:
  fixes info :: "64 word SHA_INFO"
  assumes "half T (data info)"
  shows "half T (data (update_blocks le info b))"
  using assms
proof (induction le info b rule: update_blocks.induct)
  case (1 le info b)
  have "half T (data (reverse_data le (info\<lparr>data := write_at 0 (take SHA_BLOCKSIZE b) (data info)\<rparr>)))"
    using 1(2) by (intro half_reverse_data) (auto simp: SHA_BLOCKSIZE_def intro!: half_write)
  then show ?case
    using 1 by (subst update_blocks.simps) (auto simp: SHA_BLOCKSIZE_def Let_def intro!: half_write)
qed

lemma stream_loop_half:
  fixes info :: "64 word SHA_INFO"
  assumes "half T (data info)"
  shows "half T (data (stream_loop le info fin))"
  using assms
proof (induction le info fin rule: stream_loop.induct)
  case (1 le info fin)
  have "half T (data (sha_update le info b))" for b
    using 1(2) by (simp add: sha_update_def Let_def update_blocks_half)
  then show ?case using 1 by (subst stream_loop.simps) simp
qed

lemma sha_final_half:
  fixes info :: "64 word SHA_INFO"
  assumes "half T (data info)"
  shows "\<exists>d hi lo. half T d \<and> data (sha_final le info) = wr_long 15 (lo :: 64 word) (wr_long 14 (hi :: 64 word) d)"
proof -
  define c where "c = unat (drop_bit 3 (count_lo info) AND 0x3f)"
  have "drop_bit 3 (count_lo info) AND 0x3f \<le> 0x3f" by (rule word_and_le1)
  then have c: "c < 64" by (simp add: c_def word_le_nat_alt)
  define i1 where "i1 = (if c + 1 > 56
    then (sha_transform (reverse_data le (info\<lparr>data := write_at (c + 1) (replicate (64 - (c + 1)) 0) ((data info)[c := 0x80])\<rparr>)))
      \<lparr>data := write_at 0 (replicate 56 0) (data (sha_transform (reverse_data le
        (info\<lparr>data := write_at (c + 1) (replicate (64 - (c + 1)) 0) ((data info)[c := 0x80])\<rparr>))))\<rparr>
    else info\<lparr>data := write_at (c + 1) (replicate (56 - (c + 1)) 0) ((data info)[c := 0x80])\<rparr>)"
  have "half T (data i1)"
    using assms c by (auto simp: i1_def intro!: half_write half_update half_reverse_data)
  moreover have "data (sha_final le info) = wr_long 15 (count_lo info) (wr_long 14 (count_hi info) (data (reverse_data le i1)))"
    by (simp add: sha_final_def Let_def i1_def flip: c_def)
  ultimately show ?thesis using half_reverse_data by blast
qed

lemma half_word:
  assumes "half T d" "half T d'" "8 \<le> i"
  shows "(rd_long d i :: 64 word) = rd_long d' i"
proof -
  have "drop (i * 8 - 64) (drop 64 d) = drop (i * 8 - 64) (drop 64 d')" using assms(1,2) by (simp add: half_def)
  then have "drop (i * 8) d = drop (i * 8) d'" using assms(3) by simp
  then show ?thesis by (simp add: rd_long_def)
qed

lemma wr_long_other:
  assumes "length d = 128" "i < 14" "14 \<le> j" "j < 16"
  shows "(rd_long (wr_long j (w :: 64 word) d) i :: 64 word) = rd_long d i" "length (wr_long j w d) = 128"
proof -
  have "take 8 (drop (i * 8) (wr_long j w d)) = take 8 (drop (i * 8) d)"
    using assms by (intro nth_equalityI) (auto simp: wr_long_def long_bytes_def nth_write_at)
  then show "(rd_long (wr_long j w d) i :: 64 word) = rd_long d i" by (simp add: rd_long_def)
  show "length (wr_long j w d) = 128" using assms by (simp add: wr_long_def long_bytes_def)
qed

lemma sha_stream_standard:
  assumes "length fin < 2 ^ 61" "length garbage = 64"
  shows "digest (sha_stream True garbage fin :: 32 word SHA_INFO) = SHA0 fin"
proof -
  let ?i = "sha_init garbage :: 32 word SHA_INFO" and ?n = "length fin"
  let ?info = "stream_loop True ?i fin" and ?r = "drop (64 * (?n div 64)) fin"
  have b: "8 * ?n < 2 ^ 64" using assms(1) by simp
  have "length (data ?i) = 64" "count_ok ?i 0" using assms(2) by (simp_all add: sha_init_def count_ok_def)
  from stream_result[OF this, of fin] b have s: "digest ?info = sha_blocks (digest ?i) fin" "count_ok ?info ?n"
    "length (data ?info) = 64" "take (?n mod 64) (data ?info) = ?r" by simp_all
  have r: "length ?r = ?n mod 64" by (simp add: minus_mult_div_eq_mod)
  let ?f = "take (64 * (?n div 64)) fin"
  have "length ?f = 64 * (?n div 64)" by (simp add: min_absorb2[OF times_div_less_eq_dividend])
  then have lf: "length ?f mod 64 = 0" by (simp only: mod_mult_self1_is_0)
  have "sha_blocks (digest ?i) fin = sha_blocks (sha_blocks (digest ?i) ?f) ?r"
    using sha_blocks_append[OF lf, of "digest ?i" ?r] by simp
  also have "\<dots> = sha_blocks (digest ?i) ?f" using r by (subst sha_blocks.simps) simp
  finally have d: "sha_blocks (digest ?i) fin = sha_blocks (digest ?i) ?f" .
  have "digest (sha_final True ?info) = sha_blocks (digest ?info) (?r @ 0x80 # replicate ((119 - ?n mod 64) mod 64) 0 @ be_length (8 * ?n))"
    using s r by (intro sha_final_result) simp_all
  also have "\<dots> = sha_blocks (digest ?i) (?f @ ?r @ 0x80 # replicate ((119 - ?n mod 64) mod 64) 0 @ be_length (8 * ?n))"
    unfolding s(1) d using sha_blocks_append[OF lf] by simp
  also have "\<dots> = SHA0 fin"
    unfolding SHA0_def sha_pad_def sha_init_def by (simp flip: append_assoc)
  finally show ?thesis by (simp add: sha_stream_def)
qed

lemma length_final:
  assumes "length (data info) = 64"
  shows "length (data (sha_final True (info :: 32 word SHA_INFO))) = 64"
proof -
  have rev: "length (data (reverse_data True i)) = 64" if "length (data i) = 64" for i :: "32 word SHA_INFO"
    using reversed_words(2)[OF that] by (simp add: reverse_data_def)
  define c where "c = unat (drop_bit 3 (count_lo info) AND 0x3f)"
  have "drop_bit 3 (count_lo info) AND 0x3f \<le> 0x3f" by (rule word_and_le1)
  then have c: "c < 64" by (simp add: c_def word_le_nat_alt)
  have wr: "length (wr_long j (w :: 32 word) d) = 64" if "length d = 64" "j < 16" for j w d
    using that by (simp add: wr_long_def long_bytes_def)
  have wa: "length (write_at p ys d) = 64" if "length d = 64" "p + length ys \<le> 64" for p and ys d :: "u8 list"
    using that by simp
  show ?thesis
    using c assms by (auto simp: sha_final_def Let_def simp del: length_write_at simp flip: c_def intro!: wr rev wa)
qed

lemma length_stream:
  assumes "length garbage = 64" "length fin < 2 ^ 61"
  shows "length (data (sha_stream True garbage fin :: 32 word SHA_INFO)) = 64"
proof -
  have "length (data (sha_init garbage :: 32 word SHA_INFO)) = 64" "count_ok (sha_init garbage) 0"
    using assms(1) by (simp_all add: sha_init_def count_ok_def)
  from stream_result[OF this, of fin] assms(2) show ?thesis by (simp add: sha_stream_def length_final)
qed

lemma driver_loop_standard:
  assumes "\<forall>a fin. files a = Some fin \<longrightarrow> length fin < 2 ^ 61" "length garbage = 64"
  shows "driver_loop True files garbage argv = map (sha_answer files) argv"
  using assms(2)
proof (induction argv arbitrary: garbage)
  case (Cons a argv)
  then show ?case
    using assms(1) sha_stream_standard length_stream by (auto simp: sha_answer_def Let_def split: option.split)
qed simp

section \<open>Properties\<close>

text \<open>
  C11. On a machine whose \<open>long\<close> has 32 bits and whose byte order is little endian, with \<open>LITTLE_ENDIAN\<close> defined, the program
  prints for every file (of less than \<open>2\<^sup>6\<^sup>1\<close> bytes) the digest of the 1993 standard, whatever its buffer held before.
\<close>

theorem sha_prints_standard:
  assumes "\<forall>a fin. files a = Some fin \<longrightarrow> length fin < 2 ^ 61" "length stdin < 2 ^ 61" "length garbage = 64"
  shows "sha_main True files stdin garbage argv =
    (if argv = [] then [Sha_digest (SHA0 stdin)] else map (sha_answer files) argv)"
  using driver_loop_standard[OF assms(1,3)] sha_stream_standard[OF assms(2,3)] by (simp add: sha_main_def)

theorem sha_prints_standard_witness:
  "sha_main True [''a'' \<mapsto> [0x61, 0x62, 0x63]] [] (replicate 64 0) [''a'', ''b''] =
    (if [''a'', ''b''] = [] then [Sha_digest (SHA0 [])] else map (sha_answer [''a'' \<mapsto> [0x61, 0x62, 0x63]]) [''a'', ''b''])"
  by (rule sha_prints_standard) auto

text \<open>
  C29. With the 64-bit \<open>long\<close> of the targets a block of input fills only half of the array \<open>data\<close>: however long the input, its
  words 8 to 15 are still, when the last block is reached, the ones the uninitialised array of the caller held at the start, and
  the array that the last transformation hashes has its words 8 to 13.
\<close>

theorem sha64_hashes_garbage:
  assumes "length garbage = 128" "8 \<le> i"
  shows "rd_long (data (stream_loop le (sha_init garbage) fin :: 64 word SHA_INFO)) i = (rd_long garbage i :: 64 word) \<and>
    (i < 14 \<longrightarrow> rd_long (data (sha_stream le garbage fin :: 64 word SHA_INFO)) i = (rd_long garbage i :: 64 word))"
proof -
  have g: "half (drop 64 garbage) garbage" using assms(1) by (simp add: half_def)
  have s: "half (drop 64 garbage) (data (stream_loop le (sha_init garbage) fin :: 64 word SHA_INFO))"
    using g by (intro stream_loop_half) (simp add: sha_init_def)
  obtain d hi lo where d: "half (drop 64 garbage) d"
    "data (sha_stream le garbage fin :: 64 word SHA_INFO) = wr_long 15 (lo :: 64 word) (wr_long 14 (hi :: 64 word) d)"
    using sha_final_half[OF s, of le] by (auto simp: sha_stream_def)
  have "length d = 128" using d(1) by (simp add: half_def)
  then have "i < 14 \<Longrightarrow> rd_long (data (sha_stream le garbage fin :: 64 word SHA_INFO)) i = (rd_long d i :: 64 word)"
    unfolding d(2) by (simp add: wr_long_other)
  then show ?thesis using half_word[OF s g assms(2)] half_word[OF d(1) g assms(2)] by simp
qed

theorem sha64_hashes_garbage_witness:
  "rd_long (data (stream_loop True (sha_init (replicate 128 7)) [0x61, 0x62, 0x63] :: 64 word SHA_INFO)) 8 =
      (rd_long (replicate 128 7) 8 :: 64 word) \<and>
    rd_long (data (sha_stream True (replicate 128 7) [0x61, 0x62, 0x63] :: 64 word SHA_INFO)) 8 =
      (rd_long (replicate 128 7) 8 :: 64 word)"
  using sha64_hashes_garbage[of "replicate 128 7" 8 True "[0x61, 0x62, 0x63]"] by simp

end
