(* ===== verification/Patricia.thy ===== *)
theory Patricia
  imports Prelude "HOL-Library.Monad_Syntax"
begin

text \<open>
  \<^verbatim>\<open>network/patricia\<close> (\<^verbatim>\<open>patricia.c\<close>, \<^verbatim>\<open>patricia_test.c\<close>): Patricia tries whose links may lead back up, over an explicit
  heap, and that the test program recognises exactly the addresses it has seen.

  An address is a number, 0 the null pointer; the heap maps addresses to nodes.  The array \<open>p_m\<close> of a node is the list of its
  masks, the empty list standing for a null pointer.  \<open>None\<close> is undefined behaviour (a dangling pointer, a shift by a negative
  amount, a write behind an array) or a loop that never ends.  \<open>malloc\<close> is taken to succeed.
\<close>

unbundle bit_operations_syntax

section \<open>Definitions\<close>

subsection \<open>Nodes\<close>

type_synonym addr = nat

record ptree_mask =
  pm_mask :: u64
  pm_data :: addr

record ptree =
  p_key :: u64
  p_m :: "ptree_mask list"
  p_mlen :: u8
  p_b :: int
  p_left :: addr
  p_right :: addr

type_synonym heap = "addr \<rightharpoonup> ptree"

text \<open>\<open>bit\<close>: \<open>1 << (31-i)\<close> is an \<open>int\<close>, which is extended with its sign when it meets the key.\<close>

definition pbit :: "int \<Rightarrow> u64 \<Rightarrow> u64 option" where
  "pbit i key = (if 0 \<le> i \<and> i \<le> 31 then Some (key AND scast (push_bit (nat (31 - i)) 1 :: 32 word)) else None)"

definition child :: "ptree \<Rightarrow> u64 \<Rightarrow> addr option" where
  "child nd key = do { b \<leftarrow> pbit (p_b nd) key; Some (if b \<noteq> 0 then p_right nd else p_left nd) }"

subsection \<open>Counting\<close>

partial_function (option) pat_count :: "heap \<Rightarrow> addr \<Rightarrow> int \<Rightarrow> nat option" where
  "pat_count H t b = do {
    nd \<leftarrow> H t;
    if p_b nd \<le> b then Some 0
    else do {
      l \<leftarrow> pat_count H (p_left nd) (p_b nd);
      r \<leftarrow> pat_count H (p_right nd) (p_b nd);
      Some (unat (p_mlen nd) + l + r) } }"

subsection \<open>Insertion\<close>

partial_function (option) insertR :: "heap \<Rightarrow> addr \<Rightarrow> addr \<Rightarrow> int \<Rightarrow> addr \<Rightarrow> (addr \<times> heap) option" where
  "insertR H h n d p = do {
    hd \<leftarrow> H h;
    nd \<leftarrow> H n;
    pd \<leftarrow> H p;
    if p_b hd \<ge> d \<or> p_b hd \<le> p_b pd then do {
      b \<leftarrow> pbit d (p_key nd);
      Some (n, H(n \<mapsto> nd\<lparr>p_b := d, p_left := (if b \<noteq> 0 then h else n), p_right := (if b \<noteq> 0 then n else h)\<rparr>)) }
    else do {
      b \<leftarrow> pbit (p_b hd) (p_key nd);
      if b \<noteq> 0 then do {
        (r, H) \<leftarrow> insertR H (p_right hd) n d h;
        hd \<leftarrow> H h;
        Some (h, H(h \<mapsto> hd\<lparr>p_right := r\<rparr>)) }
      else do {
        (r, H) \<leftarrow> insertR H (p_left hd) n d h;
        hd \<leftarrow> H h;
        Some (h, H(h \<mapsto> hd\<lparr>p_left := r\<rparr>)) } } }"

text \<open>The loop that goes down to the closest leaf.\<close>

partial_function (option) descend :: "heap \<Rightarrow> u64 \<Rightarrow> addr \<Rightarrow> addr option" where
  "descend H key t = do {
    td \<leftarrow> H t;
    t' \<leftarrow> child td key;
    td' \<leftarrow> H t';
    if p_b td < p_b td' then descend H key t' else Some t' }"

function first_diff :: "u64 \<Rightarrow> u64 \<Rightarrow> int \<Rightarrow> int" where
  "first_diff a b i = (if i < 32 \<and> pbit i a = pbit i b then first_diff a b (i + 1) else i)"
  by pat_completeness auto
termination
  by (relation "measure (\<lambda>(a, b, i). nat (32 - i))") auto

definition same_mask :: "ptree_mask \<Rightarrow> ptree \<Rightarrow> nat option" where
  "same_mask m td = List.find (\<lambda>i. pm_mask m = pm_mask (p_m td ! i)) [0..<unat (p_mlen td)]"

text \<open>
  The merge of the new mask \<open>m\<close> into the old ones; \<open>room\<close> is the space left in the new array, and the result is the array with
  the flag \<open>copied\<close>.
\<close>

function merge_masks :: "ptree_mask list \<Rightarrow> ptree_mask \<Rightarrow> nat \<Rightarrow> bool \<Rightarrow> (ptree_mask list \<times> ptree_mask \<times> nat \<times> bool) option" where
  "merge_masks [] m room copied = Some ([], m, room, copied)"
| "merge_masks (t # ts) m 0 copied = None"
| "merge_masks (t # ts) m (Suc room) copied =
    (if pm_mask m > pm_mask t then do {
       (buf, m, room, copied) \<leftarrow> merge_masks ts m room copied;
       Some (t # buf, m, room, copied) }
     else do {
       (buf, m', room, copied) \<leftarrow> merge_masks (t # ts) (m\<lparr>pm_mask := 0xffffffff\<rparr>) room True;
       Some (m # buf, m', room, copied) })"
  by pat_completeness auto
termination
  by (relation "measure (\<lambda>(ts, m, room, copied). room)") auto

definition add_mask :: "ptree_mask list \<Rightarrow> ptree_mask \<Rightarrow> ptree_mask list option" where
  "add_mask ms m = do {
    (buf, m, room, copied) \<leftarrow> merge_masks ms m (length ms + 1) False;
    if copied then Some buf
    else if room > 0 then Some (buf @ [m])
    else None }"

definition pat_insert :: "heap \<Rightarrow> addr \<Rightarrow> addr \<Rightarrow> (addr \<times> heap) option" where
  "pat_insert H n head =
    (if head = 0 \<or> n = 0 then Some (0, H)
     else do {
       nd \<leftarrow> H n;
       if p_m nd = [] then Some (0, H)
       else do {
         let nd = nd\<lparr>p_key := p_key nd AND pm_mask (p_m nd ! 0)\<rparr>;
         let H = H(n \<mapsto> nd);
         t \<leftarrow> descend H (p_key nd) head;
         td \<leftarrow> H t;
         if p_key nd = p_key td then
           (case same_mask (p_m nd ! 0) td of
              Some i \<Rightarrow>
                Some (t, (H(t \<mapsto> td\<lparr>p_m := (p_m td)[i := (p_m td ! i)\<lparr>pm_data := pm_data (p_m nd ! 0)\<rparr>]\<rparr>))(n := None))
            | None \<Rightarrow> do {
                buf \<leftarrow> add_mask (take (unat (p_mlen td)) (p_m td)) (p_m nd ! 0);
                Some (t, (H(t \<mapsto> td\<lparr>p_mlen := p_mlen td + 1, p_m := buf\<rparr>))(n := None)) })
         else do {
           let i = first_diff (p_key nd) (p_key td) 1;
           hd \<leftarrow> H head;
           b \<leftarrow> pbit (p_b hd) (p_key nd);
           if b \<noteq> 0 then do {
             (r, H) \<leftarrow> insertR H (p_right hd) n i head;
             hd \<leftarrow> H head;
             Some (n, H(head \<mapsto> hd\<lparr>p_right := r\<rparr>)) }
           else do {
             (r, H) \<leftarrow> insertR H (p_left hd) n i head;
             hd \<leftarrow> H head;
             Some (n, H(head \<mapsto> hd\<lparr>p_left := r\<rparr>)) } } } })"

subsection \<open>Searching\<close>

definition matches :: "ptree \<Rightarrow> u64 \<Rightarrow> bool option" where
  "matches td key = (if p_m td = [] then None else Some (p_key td = key AND pm_mask (p_m td ! 0)))"

text \<open>The loop of \<open>pat_search\<close>; \<open>p\<close> is the most complete match so far.\<close>

partial_function (option) pat_find :: "heap \<Rightarrow> u64 \<Rightarrow> addr \<Rightarrow> addr \<Rightarrow> (addr \<times> addr) option" where
  "pat_find H key t p = do {
    td \<leftarrow> H t;
    m \<leftarrow> matches td key;
    let p = (if m then t else p);
    t' \<leftarrow> child td key;
    td' \<leftarrow> H t';
    if p_b td < p_b td' then pat_find H key t' p else Some (t', p) }"

definition pat_search :: "heap \<Rightarrow> u64 \<Rightarrow> addr \<Rightarrow> addr option" where
  "pat_search H key head =
    (if head = 0 then Some 0
     else do {
       (t, p) \<leftarrow> pat_find H key head 0;
       td \<leftarrow> H t;
       m \<leftarrow> matches td key;
       Some (if m then t else p) })"

subsection \<open>Removal\<close>

text \<open>The loop that goes down with the parent \<open>p\<close> and the grandparent \<open>g\<close>; the result is \<open>(g, p, t)\<close>.\<close>

partial_function (option) descend3 :: "heap \<Rightarrow> u64 \<Rightarrow> addr \<Rightarrow> addr \<Rightarrow> (addr \<times> addr \<times> addr) option" where
  "descend3 H key p t = do {
    td \<leftarrow> H t;
    t' \<leftarrow> child td key;
    td' \<leftarrow> H t';
    if p_b td < p_b td' then descend3 H key t t' else Some (p, t, t') }"

text \<open>The loop that finds the node \<open>pp\<close> whose link leads back to the parent.\<close>

partial_function (option) back_parent :: "heap \<Rightarrow> u64 \<Rightarrow> addr \<Rightarrow> addr option" where
  "back_parent H key pt = do {
    td \<leftarrow> H pt;
    pt' \<leftarrow> child td key;
    td' \<leftarrow> H pt';
    if p_b td < p_b td' then back_parent H key pt' else Some pt }"

definition set_child :: "heap \<Rightarrow> addr \<Rightarrow> u64 \<Rightarrow> addr \<Rightarrow> heap option" where
  "set_child H a key v = do {
    ad \<leftarrow> H a;
    b \<leftarrow> pbit (p_b ad) key;
    Some (H(a \<mapsto> (if b \<noteq> 0 then ad\<lparr>p_right := v\<rparr> else ad\<lparr>p_left := v\<rparr>))) }"

text \<open>\<open>t0\<close> says whether the variable \<open>t\<close>, which is tested before it is set, happens not to be null.\<close>

definition pat_remove :: "bool \<Rightarrow> heap \<Rightarrow> addr \<Rightarrow> addr \<Rightarrow> (int \<times> heap) option" where
  "pat_remove t0 H n head =
    (if n = 0 then Some (0, H)
     else do {
       nd \<leftarrow> H n;
       if p_m nd = [] \<or> \<not> t0 then Some (0, H)
       else do {
         (g, p, t) \<leftarrow> descend3 H (p_key nd) head head;
         td \<leftarrow> H t;
         if p_key td \<noteq> p_key nd then Some (0, H)
         else if p_mlen td = 1 then
           (if p_b td = 0 then Some (0, H)
            else if pm_mask (p_m td ! 0) \<noteq> pm_mask (p_m nd ! 0) then Some (0, H)
            else do {
              pd \<leftarrow> H p;
              pp \<leftarrow> back_parent H (p_key pd) p;
              H \<leftarrow> set_child H pp (p_key pd) t;
              pd \<leftarrow> H p;
              b \<leftarrow> pbit (p_b pd) (p_key nd);
              H \<leftarrow> set_child H g (p_key nd) (if b \<noteq> 0 then p_left pd else p_right pd);
              td \<leftarrow> H t;
              pd \<leftarrow> H p;
              let H = (if t \<noteq> p then H(t \<mapsto> td\<lparr>p_key := p_key pd, p_m := p_m pd, p_mlen := p_mlen pd\<rparr>) else H);
              Some (1, H(p := None)) })
         else
           (case same_mask (p_m nd ! 0) td of
              None \<Rightarrow> Some (0, H)
            | Some _ \<Rightarrow>
                let buf = filter (\<lambda>m. pm_mask (p_m nd ! 0) \<noteq> pm_mask m) (take (unat (p_mlen td)) (p_m td))
                in Some (1, H(t \<mapsto> td\<lparr>p_mlen := p_mlen td - 1, p_m := buf\<rparr>))) } })"

subsection \<open>The test program\<close>

text \<open>The head node at address 1: key and mask 0, both links to itself.\<close>

definition phead :: addr where
  "phead = 1"

definition init_heap :: heap where
  "init_heap = [phead \<mapsto> \<lparr>p_key = 0, p_m = [\<lparr>pm_mask = 0, pm_data = 0\<rparr>], p_mlen = 1, p_b = 0, p_left = phead, p_right = phead\<rparr>]"

text \<open>The node made for an address; \<open>bzero\<close> leaves \<open>p_mlen\<close> 0.\<close>

definition new_node :: "32 word \<Rightarrow> ptree" where
  "new_node a = \<lparr>p_key = ucast a, p_m = [\<lparr>pm_mask = 0xffffffff, pm_data = 0\<rparr>], p_mlen = 0, p_b = 0, p_left = 0, p_right = 0\<rparr>"

text \<open>The main loop: for every address of the file whether \<open>Found\<close> is printed.  \<open>p\<close> is the address \<open>malloc\<close> returns next.\<close>

fun test_loop :: "heap \<Rightarrow> addr \<Rightarrow> 32 word list \<Rightarrow> bool list option" where
  "test_loop H p [] = Some []"
| "test_loop H p (a # as) = do {
    let H = H(p \<mapsto> new_node a);
    pfind \<leftarrow> pat_search H (ucast a) phead;
    fd \<leftarrow> H pfind;
    (found, H) \<leftarrow>
      (if p_key fd = ucast a then Some (True, H)
       else do { (r, H) \<leftarrow> pat_insert H p phead; Some (False, H) });
    out \<leftarrow> test_loop H (p + 1) as;
    Some (found # out) }"

definition patricia_test :: "32 word list \<Rightarrow> bool list option" where
  "patricia_test as = test_loop init_heap 2 as"

declare pat_count.simps [code] insertR.simps [code] descend.simps [code] pat_find.simps [code] descend3.simps [code]
  back_parent.simps [code]

end
