(* ===== verification/Patricia_Trie.thy ===== *)
theory Patricia_Trie
  imports Patricia
begin

text \<open>
  \<^verbatim>\<open>network/patricia\<close>: the cyclic structure in the heap is a binary trie whose leaves are links back to nodes above (\<open>rep\<close>, \<open>trie\<close>);
  \<open>pat_search\<close> follows it, \<open>pat_insert\<close> adds a leaf to it and keeps it a trie, and the test program tells for every address
  whether it has seen it before.  The merge of a mask into the masks of a node is an insertion into a sorted list, as long as no
  mask of the node is all ones.
\<close>

unbundle bit_operations_syntax

section \<open>Specification\<close>

text \<open>What the test program should print: whether an address is 0 (the head) or has come before.\<close>

definition seen_before :: "32 word list \<Rightarrow> bool list" where
  "seen_before as = map (\<lambda>i. as ! i = 0 \<or> as ! i \<in> set (take i as)) [0..<length as]"

text \<open>
  The structure as a tree: \<open>Leaf x\<close> is a link back to the node at \<open>x\<close>, \<open>Node a b L R\<close> a link down to the node at \<open>a\<close> which tests bit
  \<open>b\<close>.  \<open>rep H pb a T\<close>: the link \<open>a\<close> of a node that tests bit \<open>pb\<close> is the tree \<open>T\<close>.
\<close>

datatype ptrie = Leaf addr | Node addr int ptrie ptrie

fun rep :: "heap \<Rightarrow> int \<Rightarrow> addr \<Rightarrow> ptrie \<Rightarrow> bool" where
  "rep H pb a (Leaf x) \<longleftrightarrow> x = a \<and> (\<exists>nd. H a = Some nd \<and> p_b nd \<le> pb)"
| "rep H pb a (Node x b L R) \<longleftrightarrow> x = a \<and>
    (\<exists>nd. H a = Some nd \<and> p_b nd = b \<and> pb < b \<and> b \<le> 31 \<and> rep H b (p_left nd) L \<and> rep H b (p_right nd) R)"

fun leaves :: "ptrie \<Rightarrow> addr set" where
  "leaves (Leaf x) = {x}"
| "leaves (Node a b L R) = leaves L \<union> leaves R"

fun inner :: "ptrie \<Rightarrow> addr list" where
  "inner (Leaf x) = []"
| "inner (Node a b L R) = a # inner L @ inner R"

text \<open>Bit \<open>i\<close> of an address, counted from the left.\<close>

definition hb :: "32 word \<Rightarrow> int \<Rightarrow> bool" where
  "hb k i = bit k (nat (31 - i))"

definition agree :: "(addr \<Rightarrow> 32 word) \<Rightarrow> int \<Rightarrow> addr set \<Rightarrow> bool" where
  "agree K b S \<longleftrightarrow> (\<forall>x\<in>S. \<forall>y\<in>S. \<forall>i. 1 \<le> i \<and> i < b \<longrightarrow> hb (K x) i = hb (K y) i)"

text \<open>The keys below a node agree before the bit it tests, and the bit separates them.\<close>

fun trie :: "(addr \<Rightarrow> 32 word) \<Rightarrow> ptrie \<Rightarrow> bool" where
  "trie K (Leaf x) \<longleftrightarrow> True"
| "trie K (Node a b L R) \<longleftrightarrow> trie K L \<and> trie K R \<and> (\<forall>x\<in>leaves L. \<not> hb (K x) b) \<and> (\<forall>x\<in>leaves R. hb (K x) b) \<and>
    agree K b (leaves L \<union> leaves R)"

text \<open>The leaf a key leads to, and the trie with a key added.\<close>

fun go :: "32 word \<Rightarrow> ptrie \<Rightarrow> addr" where
  "go k (Leaf x) = x"
| "go k (Node a b L R) = (if hb k b then go k R else go k L)"

fun ins :: "32 word \<Rightarrow> addr \<Rightarrow> int \<Rightarrow> ptrie \<Rightarrow> ptrie" where
  "ins k n d (Leaf x) = (if hb k d then Node n d (Leaf x) (Leaf n) else Node n d (Leaf n) (Leaf x))"
| "ins k n d (Node a b L R) =
    (if b \<ge> d then (if hb k d then Node n d (Node a b L R) (Leaf n) else Node n d (Leaf n) (Node a b L R))
     else if hb k b then Node a b L (ins k n d R) else Node a b (ins k n d L) R)"

text \<open>No node on the way tests bit \<open>d\<close> itself.\<close>

fun spot :: "32 word \<Rightarrow> int \<Rightarrow> ptrie \<Rightarrow> bool" where
  "spot k d (Leaf x) = True"
| "spot k d (Node a b L R) = (if b \<ge> d then d < b else if hb k b then spot k d R else spot k d L)"

declare first_diff.simps [simp del]

text \<open>\<open>d\<close> is the first bit from 1 on where the key differs from the leaf it leads to.\<close>

definition differs :: "(addr \<Rightarrow> 32 word) \<Rightarrow> 32 word \<Rightarrow> int \<Rightarrow> ptrie \<Rightarrow> bool" where
  "differs K k d T \<longleftrightarrow> 1 \<le> d \<and> hb k d \<noteq> hb (K (go k T)) d \<and> (\<forall>i. 1 \<le> i \<and> i < d \<longrightarrow> hb k i = hb (K (go k T)) i)"

fun below :: "int \<Rightarrow> ptrie \<Rightarrow> bool" where
  "below d (Leaf x) \<longleftrightarrow> True"
| "below d (Node a b L R) \<longleftrightarrow> d < b"

text \<open>What a change of the heap keeps: of a node all but its links, of the new node \<open>n\<close> its key and masks, of the nodes outside \<open>S\<close> everything.\<close>

definition same_node :: "heap \<Rightarrow> heap \<Rightarrow> addr \<Rightarrow> bool" where
  "same_node H H' x \<longleftrightarrow> (case (H x, H' x) of
     (Some nd, Some nd') \<Rightarrow> p_b nd' = p_b nd \<and> p_key nd' = p_key nd \<and> p_m nd' = p_m nd | (None, None) \<Rightarrow> True | _ \<Rightarrow> False)"

definition kept :: "heap \<Rightarrow> heap \<Rightarrow> addr \<Rightarrow> addr set \<Rightarrow> bool" where
  "kept H H' n S \<longleftrightarrow> (\<forall>x. x \<notin> insert n S \<longrightarrow> H' x = H x) \<and> (\<forall>x. x \<noteq> n \<longrightarrow> same_node H H' x) \<and>
    (\<exists>nd nd'. H n = Some nd \<and> H' n = Some nd' \<and> p_key nd' = p_key nd \<and> p_m nd' = p_m nd)"

definition full :: "heap \<Rightarrow> (addr \<Rightarrow> 32 word) \<Rightarrow> addr \<Rightarrow> bool" where
  "full H K x \<longleftrightarrow> (\<exists>nd. H x = Some nd \<and> p_key nd = ucast (K x) \<and> (\<exists>m. p_m nd = [m] \<and> pm_mask m = 0xffffffff))"

text \<open>One side of the head: the trie of the keys whose bit 0 is \<open>s\<close>; every node of it is an inner node and a leaf.\<close>

definition side :: "heap \<Rightarrow> (addr \<Rightarrow> 32 word) \<Rightarrow> addr \<Rightarrow> bool \<Rightarrow> ptrie \<Rightarrow> bool" where
  "side H K a s T \<longleftrightarrow> rep H 0 a T \<and> trie K T \<and> distinct (inner T) \<and> leaves T = insert phead (set (inner T)) \<and>
    (\<forall>x\<in>set (inner T). hb (K x) 0 = s \<and> full H K x)"

text \<open>The invariant of the test program: \<open>K\<close> the keys, \<open>Tr\<close> the two tries of the head, \<open>n\<close> the next free address.\<close>

definition pinv :: "heap \<Rightarrow> (addr \<Rightarrow> 32 word) \<Rightarrow> (bool \<Rightarrow> ptrie) \<Rightarrow> addr \<Rightarrow> bool" where
  "pinv H K Tr n \<longleftrightarrow> K phead = 0 \<and> phead < n \<and> (\<forall>s. \<forall>x\<in>set (inner (Tr s)). x < n \<and> x \<noteq> phead) \<and>
    (\<exists>hn. H phead = Some hn \<and> p_key hn = 0 \<and> p_b hn = 0 \<and> (\<exists>m. p_m hn = [m] \<and> pm_mask m = 0) \<and>
      (\<forall>s. side H K (if s then p_right hn else p_left hn) s (Tr s)))"

definition keys :: "(addr \<Rightarrow> 32 word) \<Rightarrow> (bool \<Rightarrow> ptrie) \<Rightarrow> 32 word set" where
  "keys K Tr = K ` (\<Union>s. set (inner (Tr s)))"

text \<open>The address 128.0.0.0, which agrees with the head in all bits but bit 0.\<close>

abbreviation top_bit :: "32 word" where
  "top_bit \<equiv> 0x80000000"

text \<open>What \<open>pat_insert\<close> does with a new key, up to the call of \<open>insertR\<close>.\<close>

definition attach :: "heap \<Rightarrow> addr \<Rightarrow> 32 word \<Rightarrow> int \<Rightarrow> ptree \<Rightarrow> (addr \<times> heap) option" where
  "attach H n k d hn = do {
    (r, H') \<leftarrow> insertR H (if hb k 0 then p_right hn else p_left hn) n d phead;
    hn' \<leftarrow> H' phead;
    Some (n, H'(phead \<mapsto> (if hb k 0 then hn'\<lparr>p_right := r\<rparr> else hn'\<lparr>p_left := r\<rparr>))) }"

fun seen :: "32 word set \<Rightarrow> 32 word list \<Rightarrow> bool list" where
  "seen S [] = []"
| "seen S (a # as) = (a = 0 \<or> a \<in> S) # seen (insert a S) as"

abbreviation all_ones :: u64 where
  "all_ones \<equiv> 0xffffffff"

section \<open>Bits of keys\<close>

lemma pbit_small:
  assumes "0 \<le> i" "i \<le> 31"
  shows "pbit i (ucast (k :: 32 word)) = Some (if hb k i then push_bit (nat (31 - i)) 1 else 0)"
proof -
  define j where "j = nat (31 - i)"
  have j: "j < 32" using assms by (simp add: j_def)
  have "(ucast k :: u64) AND scast (push_bit j 1 :: 32 word) = (if bit k j then push_bit j 1 else 0)"
  proof (rule bit_word_eqI)
    fix n assume n: "n < LENGTH(64)"
    show "bit ((ucast k :: u64) AND scast (push_bit j 1 :: 32 word)) n = bit (if bit k j then push_bit j 1 else 0 :: u64) n"
    proof (cases "n = j \<or> 32 \<le> n")
      case True
      then show ?thesis using j n by (auto simp: bit_simps min_def dest: bit_imp_le_length)
    next
      case False
      then have "min n 31 = n" "n \<noteq> j" by auto
      then show ?thesis using n by (auto simp: bit_simps)
    qed
  qed
  then show ?thesis using assms by (simp add: pbit_def hb_def j_def)
qed

lemma push_one_nonzero: "j < 64 \<Longrightarrow> push_bit j (1 :: u64) \<noteq> 0"
  by (simp add: push_bit_eq_mult)

lemma child_small:
  assumes "0 \<le> p_b nd" "p_b nd \<le> 31"
  shows "child nd (ucast k) = Some (if hb k (p_b nd) then p_right nd else p_left nd)"
proof -
  have "nat (31 - p_b nd) < 64" using assms by simp
  then show ?thesis using assms push_one_nonzero by (simp add: child_def pbit_small)
qed

lemma pbit_eq_iff:
  assumes "0 \<le> i" "i \<le> 31"
  shows "pbit i (ucast (a :: 32 word)) = pbit i (ucast (b :: 32 word)) \<longleftrightarrow> hb a i = hb b i"
  using assms push_one_nonzero[of "nat (31 - i)"] by (auto simp: pbit_small split: if_splits)

lemma hb_eqI: "(\<And>i. 0 \<le> i \<Longrightarrow> i \<le> 31 \<Longrightarrow> hb a i = hb b i) \<Longrightarrow> a = b"
proof (rule bit_word_eqI)
  fix n assume h: "\<And>i. 0 \<le> i \<Longrightarrow> i \<le> 31 \<Longrightarrow> hb a i = hb b i" and "n < LENGTH(32)"
  then show "bit a n = bit b n" using h[of "31 - int n"] by (simp add: hb_def)
qed

lemma first_diff_least:
  assumes "1 \<le> i"
  shows "i \<le> first_diff (ucast a) (ucast b) i \<and>
    (\<forall>j. i \<le> j \<and> j < first_diff (ucast a) (ucast b) i \<longrightarrow> hb a j = hb b j) \<and>
    (first_diff (ucast a) (ucast b) i < 32 \<longrightarrow> hb a (first_diff (ucast a) (ucast b) i) \<noteq> hb b (first_diff (ucast a) (ucast b) i)) \<and>
    (i \<le> 32 \<longrightarrow> first_diff (ucast a) (ucast (b :: 32 word)) i \<le> 32)"
  using assms
proof (induction "nat (32 - i)" arbitrary: i rule: less_induct)
  case less
  show ?case
  proof (cases "i < 32 \<and> hb a i = hb b i")
    case True
    then have e: "first_diff (ucast a) (ucast b) i = first_diff (ucast a) (ucast b) (i + 1)"
      using less.prems by (subst first_diff.simps) (simp add: pbit_eq_iff)
    have "nat (32 - (i + 1)) < nat (32 - i)" "1 \<le> i + 1" using True less.prems by simp_all
    note IH = less.hyps[OF this]
    have "hb a j = hb b j" if "i \<le> j" "j < first_diff (ucast a) (ucast b) (i + 1)" for j
      using that True IH by (cases "j = i") auto
    then show ?thesis unfolding e using True IH by auto
  next
    case False
    then have "first_diff (ucast a) (ucast b) i = i"
      using less.prems by (subst first_diff.simps) (auto simp: pbit_eq_iff)
    then show ?thesis using False by auto
  qed
qed

section \<open>Going down\<close>

lemma go_in_leaves: "go k T \<in> leaves T"
  by (induction T) auto

lemma go_own: "trie K T \<Longrightarrow> x \<in> leaves T \<Longrightarrow> go (K x) T = x"
  by (induction T) auto

lemma descend_go:
  assumes "rep H pb a T" "0 \<le> pb" "T = Node x b L R"
  shows "descend H (ucast k) a = Some (go k T)"
  using assms
proof (induction T arbitrary: a pb x b L R)
  case (Node x' b' L' R')
  obtain nd where nd: "H a = Some nd" "p_b nd = b'" "pb < b'" "b' \<le> 31" "rep H b' (p_left nd) L'" "rep H b' (p_right nd) R'"
    using Node.prems by auto
  let ?C = "if hb k b' then R' else L'" and ?c = "if hb k b' then p_right nd else p_left nd"
  have c: "child nd (ucast k) = Some ?c" using nd Node.prems(2) by (simp add: child_small)
  have r: "rep H b' ?c ?C" using nd by simp
  have g: "go k (Node x' b' L' R') = go k ?C" by simp
  show ?case
  proof (cases ?C)
    case (Leaf y)
    then obtain cd where "H ?c = Some cd" "p_b cd \<le> b'" "y = ?c" using r by auto
    then show ?thesis unfolding g Leaf using nd c by (subst descend.simps) simp
  next
    case N: (Node y b'' L'' R'')
    then obtain cd where cd: "H ?c = Some cd" "p_b cd = b''" "b' < b''" using r by auto
    have "descend H (ucast k) ?c = Some (go k ?C)"
      using Node.IH(1)[of b' "p_left nd" y b'' L'' R''] Node.IH(2)[of b' "p_right nd" y b'' L'' R''] N nd(3,5,6) Node.prems(2)
      by (cases "hb k b'") simp_all
    then show ?thesis unfolding g using nd c cd by (subst descend.simps) simp
  qed
qed simp

section \<open>Adding a leaf\<close>

lemma leaves_ins: "leaves (ins k n d T) = insert n (leaves T)"
  by (induction T) auto

lemma set_inner_ins: "set (inner (ins k n d T)) = insert n (set (inner T))"
  by (induction T) auto

lemma distinct_ins: "distinct (inner T) \<Longrightarrow> n \<notin> set (inner T) \<Longrightarrow> distinct (inner (ins k n d T))"
  by (induction T) (auto simp: set_inner_ins)

lemma agreeD: "agree K b S \<Longrightarrow> x \<in> S \<Longrightarrow> y \<in> S \<Longrightarrow> 1 \<le> i \<Longrightarrow> i < b \<Longrightarrow> hb (K x) i = hb (K y) i"
  unfolding agree_def by blast

lemma agree_insert:
  assumes "agree K b S" "y \<in> S" "\<And>i. 1 \<le> i \<Longrightarrow> i < b \<Longrightarrow> hb (K y) i = hb (K n) i"
  shows "agree K b (insert n S)"
  unfolding agree_def
proof (intro ballI allI impI)
  fix x x' i assume x: "x \<in> insert n S" "x' \<in> insert n S" and i: "1 \<le> i \<and> i < b"
  have "hb (K z) i = hb (K n) i" if "z \<in> insert n S" for z
    using that agreeD[OF assms(1) _ assms(2), of z i] assms(3)[of i] i by blast
  then show "hb (K x) i = hb (K x') i" using x by blast
qed

lemma agree_cong: "(\<And>x. x \<in> S \<Longrightarrow> K x = K' x) \<Longrightarrow> agree K b S = agree K' b S"
  unfolding agree_def by simp

lemma trie_cong: "(\<And>x. x \<in> leaves T \<Longrightarrow> K x = K' x) \<Longrightarrow> trie K T = trie K' T"
proof (induction T)
  case (Node a b L R)
  have "agree K b (leaves L \<union> leaves R) = agree K' b (leaves L \<union> leaves R)"
    by (rule agree_cong) (simp add: Node.prems)
  then show ?case using Node by simp
qed simp

lemma differs_child: "differs K k d (Node a b L R) = differs K k d (if hb k b then R else L)"
  by (simp add: differs_def)

lemma root_bit: "trie K (Node a b L R) \<Longrightarrow> hb (K (go k (Node a b L R))) b = hb k b"
  using go_in_leaves[of k L] go_in_leaves[of k R] by auto

lemma spot_trie: "trie K T \<Longrightarrow> differs K k d T \<Longrightarrow> spot k d T"
proof (induction T)
  case (Node a b L R)
  have "b \<noteq> d" using root_bit[OF Node.prems(1), of k] Node.prems(2) by (auto simp: differs_def)
  then show ?case using Node by (auto simp: differs_child)
qed simp

text \<open>Where the new node is put, all leaves below agree with the one found.\<close>

lemma leaves_agree:
  assumes "trie K T" "differs K k d T" "x \<in> leaves T" "below d T"
  shows "hb (K x) d \<noteq> hb k d" "1 \<le> i \<Longrightarrow> i < d \<Longrightarrow> hb (K x) i = hb k i"
proof -
  have "hb (K x) j = hb (K (go k T)) j" if "1 \<le> j" "j \<le> d" for j
  proof (cases T)
    case (Node a b L R)
    have "j < b" using assms(4) that unfolding Node by simp
    have "agree K b (leaves T)" using assms(1) unfolding Node by simp
    then show ?thesis using agreeD[OF _ assms(3) go_in_leaves[of k T]] that(1) \<open>j < b\<close> by blast
  qed (use assms(3) in simp)
  then show "hb (K x) d \<noteq> hb k d" "1 \<le> i \<Longrightarrow> i < d \<Longrightarrow> hb (K x) i = hb k i" using assms(2) by (auto simp: differs_def)
qed

lemma trie_put:
  assumes "trie K T" "differs K k d T" "K n = k" "below d T"
  shows "trie K (if hb k d then Node n d T (Leaf n) else Node n d (Leaf n) T)"
proof -
  have a: "agree K d (insert n (leaves T))"
  proof (rule agree_insert[OF _ go_in_leaves[of k]])
    have "hb (K x) i = hb k i" if "x \<in> leaves T" "1 \<le> i" "i < d" for x i
      using leaves_agree(2)[OF assms(1,2) that(1) assms(4)] that(2,3) by blast
    then show "agree K d (leaves T)" unfolding agree_def by simp
  qed (use assms(2,3) in \<open>simp add: differs_def\<close>)
  have "\<forall>x\<in>leaves T. hb (K x) d \<noteq> hb k d" using leaves_agree(1)[OF assms(1,2) _ assms(4)] by blast
  then show ?thesis using a assms(1,3) by (cases "hb k d") simp_all
qed

lemma trie_ins:
  assumes "trie K T" "differs K k d T" "K n = k"
  shows "trie K (ins k n d T)"
  using assms(1,2)
proof (induction T)
  case (Leaf x)
  then show ?case using trie_put[OF Leaf.prems assms(3)] by simp
next
  case (Node a b L R)
  show ?case
  proof (cases "b \<ge> d")
    case True
    then have "d < b" using spot_trie[OF Node.prems] by simp
    then show ?thesis using trie_put[OF Node.prems assms(3)] True by simp
  next
    case False
    let ?x = "go k (Node a b L R)"
    have x: "?x \<in> leaves L \<union> leaves R" using go_in_leaves[of k "Node a b L R"] by simp
    have "hb (K ?x) i = hb (K n) i" if "1 \<le> i" "i < b" for i
      using Node.prems(2) that False assms(3) by (simp add: differs_def del: go.simps)
    then have "agree K b (insert n (leaves L \<union> leaves R))"
      using agree_insert[OF _ x] Node.prems(1) by simp
    then show ?thesis
      using Node False assms(3) by (cases "hb k b") (simp_all add: leaves_ins differs_child)
  qed
qed

section \<open>Insertion in the heap\<close>

lemma same_node_eq [simp]: "H' x = H x \<Longrightarrow> same_node H H' x"
  by (simp add: same_node_def split: option.split)

lemma same_node_trans: "same_node H H' x \<Longrightarrow> same_node H' H'' x \<Longrightarrow> same_node H H'' x"
  by (auto simp: same_node_def split: option.splits)

lemma rep_frame:
  assumes "rep H pb a T" "\<And>x. x \<in> set (inner T) \<Longrightarrow> H' x = H x" "\<And>x. x \<in> leaves T \<Longrightarrow> same_node H H' x"
  shows "rep H' pb a T"
  using assms by (induction T arbitrary: a pb) (auto simp: same_node_def split: option.splits)

lemma rep_deeper: "rep H pb a (Node x b L R) \<Longrightarrow> d < b \<Longrightarrow> rep H d a (Node x b L R)"
  by auto

lemma rep_dom: "rep H pb a T \<Longrightarrow> x \<in> set (inner T) \<union> leaves T \<Longrightarrow> H x \<noteq> None"
  by (induction T arbitrary: a pb) auto

lemma inner_bits: "rep H pb a T \<Longrightarrow> x \<in> set (inner T) \<Longrightarrow> \<exists>nd. H x = Some nd \<and> pb < p_b nd"
  by (induction T arbitrary: a pb) (auto, force+)

lemma insertR_here:
  assumes "rep H pb h T" "H p = Some pd" "p_b pd = pb" "H n = Some nd" "p_key nd = ucast k" "0 \<le> pb" "pb < d" "d \<le> 31"
    and "n \<notin> set (inner T) \<union> leaves T" "below d T"
  shows "\<exists>H'. insertR H h n d p = Some (n, H') \<and> rep H' pb n (if hb k d then Node n d T (Leaf n) else Node n d (Leaf n) T) \<and>
    (\<forall>x. x \<noteq> n \<longrightarrow> H' x = H x) \<and> (\<exists>nd'. H' n = Some nd' \<and> p_key nd' = p_key nd \<and> p_m nd' = p_m nd)"
proof -
  obtain hd where hd: "H h = Some hd" "p_b hd \<ge> d \<or> p_b hd \<le> pb"
    using assms(1,10) by (cases T) force+
  let ?nd = "nd\<lparr>p_b := d, p_left := (if hb k d then h else n), p_right := (if hb k d then n else h)\<rparr>"
  let ?H = "H(n \<mapsto> ?nd)"
  have b: "pbit d (p_key nd) = Some (if hb k d then push_bit (nat (31 - d)) 1 else 0)" "push_bit (nat (31 - d)) (1 :: u64) \<noteq> 0"
    using assms(5-8) push_one_nonzero[of "nat (31 - d)"] by (simp_all add: pbit_small)
  have i: "insertR H h n d p = Some (n, ?H)"
    using hd assms(2,3,4) b by (subst insertR.simps) (auto simp: b)
  have "rep ?H d h T"
  proof (rule rep_frame)
    show "rep H d h T" using assms(1,7,10) by (cases T) force+
  qed (use assms(9) in \<open>auto intro!: same_node_eq\<close>)
  then have "rep ?H pb n (if hb k d then Node n d T (Leaf n) else Node n d (Leaf n) T)" using assms(7,8) by auto
  with i show ?thesis by (intro exI[of _ ?H]) auto
qed

lemma kept_frame: "kept H H' n S \<Longrightarrow> x \<notin> insert n S \<Longrightarrow> H' x = H x"
  and kept_same: "kept H H' n S \<Longrightarrow> x \<noteq> n \<Longrightarrow> same_node H H' x"
  unfolding kept_def by blast+

lemma kept_link:
  assumes "kept H H' n S" "h \<notin> insert n S" "H h = Some hn" "p_b hn' = p_b hn" "p_key hn' = p_key hn" "p_m hn' = p_m hn" "insert h S \<subseteq> S'"
  shows "kept H (H'(h \<mapsto> hn')) n S'"
  using assms unfolding kept_def same_node_def by (auto split: option.splits)

lemma insertR_link:
  assumes "H h = Some hn" "H n = Some nd" "H p = Some pd" "p_b pd < p_b hn" "p_b hn < d" "0 \<le> p_b hn" "p_b hn \<le> 31"
    and "p_key nd = ucast k" "insertR H (if hb k (p_b hn) then p_right hn else p_left hn) n d h = Some (r, H1)" "H1 h = Some hn"
  shows "insertR H h n d p =
    Some (h, H1(h \<mapsto> (if hb k (p_b hn) then hn\<lparr>p_right := r\<rparr> else hn\<lparr>p_left := r\<rparr>)))"
proof -
  have "nat (31 - p_b hn) < 64" using assms(6) by simp
  then have "pbit (p_b hn) (p_key nd) = Some (if hb k (p_b hn) then push_bit (nat (31 - p_b hn)) 1 else 0)" "push_bit (nat (31 - p_b hn)) (1 :: u64) \<noteq> 0"
    using assms(6-8) push_one_nonzero by (simp_all add: pbit_small)
  then show ?thesis using assms by (subst insertR.simps) (cases "hb k (p_b hn)"; simp)
qed

lemma insertR_rep:
  assumes "rep H pb h T" "spot k d T" "H p = Some pd" "p_b pd = pb" "H n = Some nd" "p_key nd = ucast k" "0 \<le> pb" "pb < d" "d \<le> 31"
    and "n \<notin> set (inner T) \<union> leaves T" "distinct (inner T)"
  shows "\<exists>h' H'. insertR H h n d p = Some (h', H') \<and> rep H' pb h' (ins k n d T) \<and> kept H H' n (set (inner T))"
  using assms(1-4,7,8,10,11)
proof (induction T arbitrary: pb h p pd)
  case (Leaf x)
  then show ?case
    using insertR_here[OF Leaf.prems(1,3,4) assms(5,6) Leaf.prems(5,6) assms(9) Leaf.prems(7)] assms(5) by (force simp: kept_def)
next
  case (Node x b L R)
  show ?case
  proof (cases "b \<ge> d")
    case True
    then have "below d (Node x b L R)" using Node.prems(2) by simp
    then show ?thesis
      using insertR_here[OF Node.prems(1,3,4) assms(5,6) Node.prems(5,6) assms(9) Node.prems(7)] True assms(5) by (force simp: kept_def)
  next
    case False
    obtain hn where hn: "H h = Some hn" "p_b hn = b" "pb < b" "b \<le> 31" "rep H b (p_left hn) L" "rep H b (p_right hn) R" and h: "x = h"
      using Node.prems(1) by auto
    let ?C = "if hb k b then R else L" and ?O = "if hb k b then L else R"
    let ?c = "if hb k b then p_right hn else p_left hn" and ?o = "if hb k b then p_left hn else p_right hn"
    have d: "distinct (inner ?C)" "set (inner ?C) \<inter> set (inner ?O) = {}" "h \<notin> insert n (set (inner ?C))" "h \<notin> set (inner ?O)"
      "n \<notin> set (inner ?C) \<union> leaves ?C" "n \<notin> set (inner ?O) \<union> leaves ?O"
      using Node.prems(7,8) h by auto
    have "\<exists>h' H'. insertR H ?c n d h = Some (h', H') \<and> rep H' b h' (ins k n d ?C) \<and> kept H H' n (set (inner ?C))"
      using Node.IH(1)[of b "p_left hn" h hn] Node.IH(2)[of b "p_right hn" h hn] Node.prems(2,5) hn False d by (cases "hb k b") simp_all
    then obtain r H1 where r: "insertR H ?c n d h = Some (r, H1)" "rep H1 b r (ins k n d ?C)" and K: "kept H H1 n (set (inner ?C))" by blast
    let ?hn = "if hb k (p_b hn) then hn\<lparr>p_right := r\<rparr> else hn\<lparr>p_left := r\<rparr>"
    have h1: "H1 h = Some hn" using K d(3) hn(1) by (simp add: kept_def)
    have i: "insertR H h n d p = Some (h, H1(h \<mapsto> ?hn))"
      by (rule insertR_link[OF hn(1) assms(5) Node.prems(3)])
        (use hn Node.prems(4,5) False assms(6) r(1) h1 in simp_all)
    have k': "kept H (H1(h \<mapsto> ?hn)) n (set (inner (Node x b L R)))"
      by (rule kept_link[OF K d(3) hn(1)]) (auto simp: h)
    have "rep (H1(h \<mapsto> ?hn)) b r (ins k n d ?C)"
    proof (rule rep_frame[OF r(2)])
      show "(H1(h \<mapsto> ?hn)) y = H1 y" if "y \<in> set (inner (ins k n d ?C))" for y
        using that d(3) by (auto simp: set_inner_ins)
      show "same_node H1 (H1(h \<mapsto> ?hn)) y" for y using h1 by (cases "y = h") (simp_all add: same_node_def split: option.split)
    qed
    moreover have "rep (H1(h \<mapsto> ?hn)) b ?o ?O"
    proof (rule rep_frame[where H = H])
      show "rep H b ?o ?O" using hn by simp
      show "(H1(h \<mapsto> ?hn)) y = H y" if "y \<in> set (inner ?O)" for y
        using that d(2,4,6) K by (auto simp: kept_def)
      show "same_node H (H1(h \<mapsto> ?hn)) y" if "y \<in> leaves ?O" for y
        by (rule kept_same[OF k']) (use that d(6) in blast)
    qed
    ultimately have "rep (H1(h \<mapsto> ?hn)) pb h (ins k n d (Node x b L R))"
      using False hn(2-4) h by (cases "hb k b") simp_all
    with i k' show ?thesis by blast
  qed
qed

section \<open>Searching\<close>

lemma mask_full: "(ucast (k :: 32 word) :: u64) AND 0xffffffff = ucast k"
proof -
  have e: "(0xffffffff :: u64) = mask 32" by (simp add: mask_eq_exp_minus_1)
  show ?thesis unfolding e by (rule bit_word_eqI) (auto simp: bit_simps dest: bit_imp_le_length)
qed

lemma ucast_inj: "(ucast (a :: 32 word) :: u64) = ucast b \<longleftrightarrow> a = b"
proof
  assume e: "(ucast a :: u64) = ucast b"
  show "a = b"
  proof (rule bit_word_eqI)
    fix n assume "n < LENGTH(32)"
    then show "bit a n = bit b n" using arg_cong[OF e, of "\<lambda>w. bit w n"] by (simp add: bit_simps)
  qed
qed simp

lemma matches_full: "full H K x \<Longrightarrow> H x = Some nd \<Longrightarrow> matches nd (ucast k) = Some (K x = k)"
  by (auto simp: full_def matches_def mask_full ucast_inj)

lemma pat_find_go:
  assumes "rep H pb a T" "0 \<le> pb" "T = Node x b L R" "\<And>x. x \<in> set (inner T) \<Longrightarrow> full H K x"
  shows "\<exists>p'. pat_find H (ucast k) a p = Some (go k T, p') \<and> (p' = p \<or> p' \<in> set (inner T) \<and> K p' = k)"
  using assms
proof (induction T arbitrary: a pb x b L R p)
  case (Node x' b' L' R')
  obtain nd where nd: "H a = Some nd" "p_b nd = b'" "pb < b'" "b' \<le> 31" "rep H b' (p_left nd) L'" "rep H b' (p_right nd) R'" "x' = a"
    using Node.prems by auto
  let ?C = "if hb k b' then R' else L'" and ?c = "if hb k b' then p_right nd else p_left nd" and ?p = "if K a = k then a else p"
  have c: "child nd (ucast k) = Some ?c" using nd Node.prems(2) by (simp add: child_small)
  have m: "matches nd (ucast k) = Some (K a = k)" using matches_full[of H K a nd] nd(1) Node.prems(4)[of a] nd(7) by simp
  have r: "rep H b' ?c ?C" using nd by simp
  have g: "go k (Node x' b' L' R') = go k ?C" by simp
  have ip: "?p = p \<or> ?p \<in> set (inner (Node x' b' L' R')) \<and> K ?p = k" using nd(7) by simp
  show ?case
  proof (cases ?C)
    case (Leaf y)
    then obtain cd where "H ?c = Some cd" "p_b cd \<le> b'" "y = ?c" using r by auto
    then have "pat_find H (ucast k) a p = Some (go k (Node x' b' L' R'), ?p)"
      unfolding g Leaf using nd c m by (subst pat_find.simps) simp
    then show ?thesis using ip by blast
  next
    case N: (Node y b'' L'' R'')
    then obtain cd where cd: "H ?c = Some cd" "p_b cd = b''" "b' < b''" using r by auto
    have "\<exists>p'. pat_find H (ucast k) ?c ?p = Some (go k ?C, p') \<and> (p' = ?p \<or> p' \<in> set (inner ?C) \<and> K p' = k)"
    proof (cases "hb k b'")
      case True
      have "\<exists>p'. pat_find H (ucast k) (p_right nd) ?p = Some (go k R', p') \<and> (p' = ?p \<or> p' \<in> set (inner R') \<and> K p' = k)"
        by (rule Node.IH(2)[OF nd(6)]) (use N True nd(3) Node.prems(2,4) in auto)
      then show ?thesis unfolding if_P[OF True] .
    next
      case False
      have "\<exists>p'. pat_find H (ucast k) (p_left nd) ?p = Some (go k L', p') \<and> (p' = ?p \<or> p' \<in> set (inner L') \<and> K p' = k)"
        by (rule Node.IH(1)[OF nd(5)]) (use N False nd(3) Node.prems(2,4) in auto)
      then show ?thesis unfolding if_not_P[OF False] .
    qed
    then obtain p' where p': "pat_find H (ucast k) ?c ?p = Some (go k ?C, p')" "p' = ?p \<or> p' \<in> set (inner ?C) \<and> K p' = k" by blast
    have "pat_find H (ucast k) a p = Some (go k (Node x' b' L' R'), p')"
      unfolding g using nd c cd m p'(1) by (subst pat_find.simps) (simp add: Let_def)
    moreover have "p' = p \<or> p' \<in> set (inner (Node x' b' L' R')) \<and> K p' = k"
      using p'(2) ip by (cases "hb k b'") auto
    ultimately show ?thesis by blast
  qed
qed simp

section \<open>The invariant\<close>

lemma pinv_headE:
  assumes "pinv H K Tr n"
  obtains hn where "H phead = Some hn" "p_key hn = 0" "p_b hn = 0" "\<And>key. matches hn key = Some True"
    "\<And>s. side H K (if s then p_right hn else p_left hn) s (Tr s)" "K phead = 0" "phead < n"
  using assms unfolding pinv_def matches_def by fastforce

lemma pinv_fresh:
  assumes "pinv H K Tr n"
  shows "n \<notin> set (inner (Tr s)) \<union> leaves (Tr s)"
proof -
  have "leaves (Tr s) = insert phead (set (inner (Tr s)))" using assms by (auto simp: pinv_def side_def)
  moreover have "\<forall>x\<in>insert phead (set (inner (Tr s))). x < n" using assms by (simp add: pinv_def)
  ultimately show ?thesis by fastforce
qed

lemma key_side:
  assumes "pinv H K Tr n" "k \<in> keys K Tr"
  obtains x where "x \<in> set (inner (Tr (hb k 0)))" "K x = k"
proof -
  obtain s x where x: "x \<in> set (inner (Tr s))" "K x = k" using assms(2) by (auto simp: keys_def)
  obtain a where "side H K a s (Tr s)" using assms(1) by (auto simp: pinv_def)
  then have "hb k 0 = s" using x by (auto simp: side_def)
  then show thesis using x that by simp
qed

lemma side_frame:
  assumes "side H K a s T" "\<And>x. x \<in> set (inner T) \<Longrightarrow> H' x = H x" "same_node H H' phead" "\<And>x. x \<in> leaves T \<Longrightarrow> K' x = K x"
  shows "side H' K' a s T"
proof -
  have T: "rep H 0 a T" "trie K T" "distinct (inner T)" "leaves T = insert phead (set (inner T))"
    "\<forall>x\<in>set (inner T). hb (K x) 0 = s \<and> full H K x"
    using assms(1) by (auto simp: side_def)
  have "rep H' 0 a T" by (rule rep_frame[OF T(1) assms(2)]) (use T(4) assms(2,3) in \<open>auto simp: same_node_eq\<close>)
  moreover have "trie K' T" using trie_cong[of T K' K] assms(4) T(2) by simp
  moreover have "full H' K' x" if "x \<in> set (inner T)" for x using that T(4,5) assms(2,4) by (simp add: full_def)
  ultimately show ?thesis using T(3-5) assms(4) by (simp add: side_def)
qed

lemma pinv_alloc:
  assumes "pinv H K Tr n"
  shows "pinv (H(n \<mapsto> nd)) K Tr (n + 1)"
proof -
  obtain hn where hn: "H phead = Some hn" "p_key hn = 0" "p_b hn = 0" "\<exists>m. p_m hn = [m] \<and> pm_mask m = 0"
    "\<forall>s. side H K (if s then p_right hn else p_left hn) s (Tr s)" "K phead = 0" "phead < n"
    using assms unfolding pinv_def by blast
  have "side (H(n \<mapsto> nd)) K (if s then p_right hn else p_left hn) s (Tr s)" for s
    by (rule side_frame[where H = H and K = K]) (use hn(5,7) pinv_fresh[OF assms, of s] in \<open>auto intro!: same_node_eq\<close>)
  then show ?thesis using assms hn unfolding pinv_def by force
qed

section \<open>Searching and inserting a key\<close>

lemma find_head:
  assumes "pinv H K Tr n"
  shows "\<exists>p. pat_find H (ucast k) phead 0 = Some (go k (Tr (hb k 0)), p) \<and>
    (p = phead \<or> p \<in> set (inner (Tr (hb k 0))) \<and> K p = k)"
proof (rule pinv_headE[OF assms])
  fix hn assume hn: "H phead = Some hn" "p_key hn = 0" "p_b hn = 0" "\<And>key. matches hn key = Some True"
    "\<And>s. side H K (if s then p_right hn else p_left hn) s (Tr s)"
  let ?s = "hb k 0" let ?T = "Tr ?s" and ?a = "if ?s then p_right hn else p_left hn"
  have r: "rep H 0 ?a ?T" "\<And>x. x \<in> set (inner ?T) \<Longrightarrow> full H K x" using hn(5)[of ?s] by (auto simp: side_def)
  have c: "child hn (ucast k) = Some ?a" using hn(3) by (simp add: child_small)
  show ?thesis
  proof (cases ?T)
    case (Leaf y)
    then obtain cd where "H ?a = Some cd" "p_b cd \<le> 0" "y = ?a" using r(1) by auto
    then have "pat_find H (ucast k) phead 0 = Some (go k ?T, phead)"
      unfolding Leaf using hn(1,3,4) c by (subst pat_find.simps) simp
    then show ?thesis by blast
  next
    case (Node y b L R)
    then obtain cd where cd: "H ?a = Some cd" "0 < p_b cd" using r(1) by auto
    obtain p where p: "pat_find H (ucast k) ?a phead = Some (go k ?T, p)" "p = phead \<or> p \<in> set (inner ?T) \<and> K p = k"
      using pat_find_go[OF r(1) order_refl Node r(2), of k phead] by blast
    have "pat_find H (ucast k) phead 0 = Some (go k ?T, p)"
      using hn(1,3,4) c cd p(1) by (subst pat_find.simps) simp
    then show ?thesis using p(2) by blast
  qed
qed

lemma pat_search_finds:
  assumes "pinv H K Tr n"
  shows "\<exists>r nd. pat_search H (ucast k) phead = Some r \<and> H r = Some nd \<and> (p_key nd = ucast k \<longleftrightarrow> k = 0 \<or> k \<in> keys K Tr)"
proof (rule pinv_headE[OF assms])
  fix hn assume hn: "H phead = Some hn" "p_key hn = 0" "p_b hn = 0" "\<And>key. matches hn key = Some True"
    "\<And>s. side H K (if s then p_right hn else p_left hn) s (Tr s)" "K phead = 0"
  let ?T = "Tr (hb k 0)" let ?g = "go k ?T"
  have T: "trie K ?T" "leaves ?T = insert phead (set (inner ?T))" "\<And>x. x \<in> set (inner ?T) \<Longrightarrow> full H K x"
    using hn(5)[of "hb k 0"] by (auto simp: side_def)
  obtain p where f: "pat_find H (ucast k) phead 0 = Some (?g, p)" and p: "p = phead \<or> p \<in> set (inner ?T) \<and> K p = k"
    using find_head[OF assms] by blast
  have own: "K ?g = k" if k: "k = 0 \<or> k \<in> keys K Tr"
  proof -
    have "\<exists>x\<in>leaves ?T. K x = k" using k T(2) hn(6) key_side[OF assms, of k] by (metis insertCI)
    then show ?thesis using go_own[OF T(1)] by auto
  qed
  have node: "\<exists>nd. H x = Some nd \<and> p_key nd = ucast (K x) \<and> matches nd (ucast k) = Some (x = phead \<or> K x = k)" if "x \<in> leaves ?T" for x
  proof (cases "x = phead")
    case False
    then have fu: "full H K x" using that T(2,3) by blast
    then obtain nd where "H x = Some nd" "p_key nd = ucast (K x)" by (auto simp: full_def)
    then show ?thesis using matches_full[of H K x nd k] fu False by simp
  qed (use hn in simp)
  have key: "K x = k \<Longrightarrow> x \<in> leaves ?T \<Longrightarrow> k = 0 \<or> k \<in> keys K Tr" for x
    using T(2) hn(6) by (auto simp: keys_def)
  have pl: "p \<in> leaves ?T" using p T(2) by blast
  obtain nd where nd: "H ?g = Some nd" "p_key nd = ucast (K ?g)" "matches nd (ucast k) = Some (?g = phead \<or> K ?g = k)"
    using node[OF go_in_leaves] by blast
  obtain pd where pd: "H p = Some pd" "p_key pd = ucast (K p)" using node[OF pl] by blast
  have s: "pat_search H (ucast k) phead = Some (if ?g = phead \<or> K ?g = k then ?g else p)"
    using f nd(1,3) by (simp add: pat_search_def phead_def)
  show ?thesis
  proof (cases "?g = phead \<or> K ?g = k")
    case True
    then show ?thesis using s nd(1,2) own key[of ?g] go_in_leaves by (auto simp: ucast_inj)
  next
    case False
    then show ?thesis using s pd own key[OF _ pl] by (auto simp: ucast_inj)
  qed
qed

lemma hb_top_bit: "1 \<le> i \<Longrightarrow> \<not> hb top_bit i"
proof -
  assume "1 \<le> i"
  then have "nat (31 - i) \<noteq> 31" by simp
  then have "\<not> bit (push_bit 31 1 :: 32 word) (nat (31 - i))" unfolding bit_push_bit_iff bit_1_iff by auto
  moreover have e: "top_bit = push_bit 31 1" by (simp add: push_bit_eq_mult)
  ultimately show ?thesis unfolding hb_def e by blast
qed

lemma hb_zero: "\<not> hb 0 i"
  by (simp add: hb_def)

lemma only_top_bit:
  assumes "\<And>i. 1 \<le> i \<Longrightarrow> i \<le> 31 \<Longrightarrow> \<not> hb k i"
  shows "k = 0 \<or> k = top_bit"
proof (cases "hb k 0")
  case True
  have "hb top_bit 0" by (simp add: hb_def bit_numeral_rec)
  then have "k = top_bit" using True assms hb_top_bit by (intro hb_eqI) (case_tac "i = 0", auto)
  then show ?thesis by simp
next
  case False
  then have "k = 0" using assms hb_zero by (intro hb_eqI) (case_tac "i = 0", auto)
  then show ?thesis by simp
qed

lemma go_cong: "rep H pb a T \<Longrightarrow> 0 \<le> pb \<Longrightarrow> (\<And>i. 1 \<le> i \<Longrightarrow> hb k i = hb k' i) \<Longrightarrow> go k T = go k' T"
  by (induction T arbitrary: a pb) auto

lemma insertR_none:
  assumes "rep H pb h T" "H p = Some pd" "p_b pd = pb" "0 \<le> pb" "31 < d"
  shows "insertR H h n d p = None"
  using assms
proof (induction T arbitrary: pb h p pd)
  case (Leaf x)
  then show ?case by (subst insertR.simps) (cases "H n"; auto simp: pbit_def)
next
  case (Node x b L R)
  then obtain nd where nd: "H h = Some nd" "p_b nd = b" "pb < b" "b \<le> 31" "rep H b (p_left nd) L" "rep H b (p_right nd) R" by auto
  have "insertR H (p_left nd) n d h = None" "insertR H (p_right nd) n d h = None"
    using Node.IH(1)[OF nd(5,1,2)] Node.IH(2)[OF nd(6,1,2)] nd(3) Node.prems(4,5) by simp_all
  then show ?case using nd(1-4) Node.prems(2,3,5)
    by (subst insertR.simps) (cases "H n"; cases "pbit b (p_key (the (H n)))"; simp)
qed

lemma descend_head:
  assumes "pinv H K Tr n"
  shows "descend H (ucast k) phead = Some (go k (Tr (hb k 0)))"
proof (rule pinv_headE[OF assms])
  fix hn assume hn: "H phead = Some hn" "p_key hn = 0" "p_b hn = 0" "\<And>key. matches hn key = Some True"
    "\<And>s. side H K (if s then p_right hn else p_left hn) s (Tr s)"
  let ?s = "hb k 0" let ?T = "Tr ?s" and ?a = "if ?s then p_right hn else p_left hn"
  have r: "rep H 0 ?a ?T" using hn(5)[of ?s] by (simp add: side_def)
  have c: "child hn (ucast k) = Some ?a" using hn(3) by (simp add: child_small)
  show ?thesis
  proof (cases ?T)
    case (Leaf y)
    then obtain cd where "H ?a = Some cd" "p_b cd \<le> 0" "y = ?a" using r(1) by auto
    then show ?thesis unfolding Leaf using hn(1,3) c by (subst descend.simps) simp
  next
    case (Node y b L R)
    then obtain cd where cd: "H ?a = Some cd" "0 < p_b cd" using r(1) by auto
    have "descend H (ucast k) ?a = Some (go k ?T)" by (rule descend_go[OF r order_refl Node])
    then show ?thesis using hn(1,3) c cd by (subst descend.simps) simp
  qed
qed

lemma keyI: "x \<in> set (inner (Tr s)) \<Longrightarrow> K x \<in> keys K Tr"
  unfolding keys_def by blast

lemma leaf_key:
  assumes "pinv H K Tr n" "x \<in> leaves (Tr s)"
  shows "\<exists>nd. H x = Some nd \<and> p_key nd = ucast (K x)"
proof (rule pinv_headE[OF assms(1)])
  fix hn assume hn: "H phead = Some hn" "p_key hn = 0" "\<And>s. side H K (if s then p_right hn else p_left hn) s (Tr s)" "K phead = 0"
  have "x = phead \<or> full H K x" using assms(2) hn(3)[of s] by (auto simp: side_def)
  then show ?thesis using hn by (auto simp: full_def)
qed

lemma pat_insert_attach:
  assumes "pinv H K Tr n" "k \<noteq> 0" "k \<notin> keys K Tr" "H phead = Some hn"
  shows "K (go k (Tr (hb k 0))) \<noteq> k"
    and "pat_insert (H(n \<mapsto> new_node k)) n phead =
      attach (H(n \<mapsto> new_node k)) n k (first_diff (ucast k) (ucast (K (go k (Tr (hb k 0))))) 1) hn"
proof -
  let ?H = "H(n \<mapsto> new_node k)" and ?g = "go k (Tr (hb k 0))"
  have g: "?g \<in> leaves (Tr (hb k 0))" by (rule go_in_leaves)
  have hd: "K phead = 0" "n \<noteq> phead" "n \<noteq> 0" "p_b hn = 0" "leaves (Tr (hb k 0)) = insert phead (set (inner (Tr (hb k 0))))"
    using assms(1,4) by (auto simp: pinv_def side_def phead_def)
  show ne: "K ?g \<noteq> k" using g hd(1,5) assms(2,3) keyI[of ?g Tr "hb k 0" K] by auto
  note i0 = pinv_alloc[OF assms(1), of "new_node k"]
  obtain gd where gd: "?H ?g = Some gd" "p_key gd = ucast (K ?g)" using leaf_key[OF i0 g] by blast
  have de: "descend ?H (ucast k) phead = Some ?g" by (rule descend_head[OF i0])
  have nn: "p_key (new_node k) = ucast k" "p_m (new_node k) \<noteq> []" "ucast k AND pm_mask (p_m (new_node k) ! 0) = ucast k"
    "(new_node k)\<lparr>p_key := ucast k\<rparr> = new_node k"
    by (simp_all add: new_node_def mask_full)
  have pb: "pbit (p_b hn) (ucast k) = Some (if hb k 0 then push_bit (nat (31 - 0)) 1 else 0)" "push_bit (nat (31 - 0)) (1 :: u64) \<noteq> 0"
    unfolding hd(4) using push_one_nonzero[of 31] by (simp_all add: pbit_small)
  have hn: "?H phead = Some hn" using assms(4) hd(2) by simp
  have n: "?H n = Some (new_node k)" and ph: "phead \<noteq> 0" by (simp_all add: phead_def)
  have key: "ucast k \<noteq> p_key gd" unfolding gd(2) ucast_inj using ne by simp
  show "pat_insert ?H n phead = attach ?H n k (first_diff (ucast k) (ucast (K ?g)) 1) hn"
    using hd(2,3) de gd key pb hn ph
    unfolding pat_insert_def attach_def
    by (cases "hb k 0") (simp_all add: n nn Let_def del: fun_upd_apply)
qed

lemma pat_insert_top_bit:
  assumes "pinv H K Tr n" "top_bit \<notin> keys K Tr"
  shows "pat_insert (H(n \<mapsto> new_node top_bit)) n phead = None"
proof (rule pinv_headE[OF pinv_alloc[OF assms(1), of "new_node top_bit"]])
  let ?s = "hb top_bit 0" let ?T = "Tr ?s" and ?H = "H(n \<mapsto> new_node top_bit)"
  fix hn assume hn: "?H phead = Some hn" "p_b hn = 0" "K phead = 0"
    and sd: "\<And>s. side ?H K (if s then p_right hn else p_left hn) s (Tr s)"
  have n: "n \<noteq> phead" using assms(1) by (auto simp: pinv_def)
  have T: "rep ?H 0 (if ?s then p_right hn else p_left hn) ?T" "trie K ?T" "phead \<in> leaves ?T"
    using sd[of ?s] by (simp_all add: side_def)
  have "go top_bit ?T = go (K phead) ?T" using go_cong[OF T(1) order_refl, of top_bit 0] hb_top_bit hb_zero hn(3) by simp
  then have g: "K (go top_bit ?T) = 0" using go_own[OF T(2,3)] hn(3) by simp
  have "31 < first_diff (ucast top_bit) (ucast (0 :: 32 word)) 1"
    using first_diff_least[of 1 top_bit 0] hb_top_bit hb_zero by force
  then have "insertR ?H (if ?s then p_right hn else p_left hn) n (first_diff (ucast top_bit) (ucast (0 :: 32 word)) 1) phead = None"
    using insertR_none[OF T(1) hn(1,2)] by blast
  then have "attach ?H n top_bit (first_diff (ucast top_bit) (ucast (0 :: 32 word)) 1) hn = None" by (simp add: attach_def)
  then show ?thesis using pat_insert_attach(2)[OF assms(1) _ assms(2), of hn] hn(1) n g by simp
qed

lemma leaf_differs:
  assumes "pinv H K Tr n" "k \<noteq> 0" "k \<notin> keys K Tr" "k \<noteq> top_bit"
  defines "T \<equiv> Tr (hb k 0)"
  defines "d \<equiv> first_diff (ucast k) (ucast (K (go k T))) 1"
  shows "differs K k d T" "d \<le> 31"
proof -
  let ?g = "go k T"
  have fd: "1 \<le> d" "\<And>j. 1 \<le> j \<Longrightarrow> j < d \<Longrightarrow> hb k j = hb (K ?g) j" "d < 32 \<Longrightarrow> hb k d \<noteq> hb (K ?g) d" "d \<le> 32"
    using first_diff_least[of 1 k "K ?g"] by (auto simp: d_def)
  obtain hn where hn: "H phead = Some hn" "\<And>s. side H K (if s then p_right hn else p_left hn) s (Tr s)" "K phead = 0"
    by (rule pinv_headE[OF assms(1)]) blast
  have l: "leaves T = insert phead (set (inner T))" "\<forall>x\<in>set (inner T). hb (K x) 0 = hb k 0"
    using hn(2)[of "hb k 0"] by (simp_all add: side_def T_def)
  show "d \<le> 31"
  proof (rule ccontr)
    assume "\<not> d \<le> 31"
    then have e: "hb k j = hb (K ?g) j" if "1 \<le> j" "j \<le> 31" for j using fd(2)[of j] that by simp
    show False
    proof (cases "?g = phead")
      case True
      then show ?thesis using only_top_bit[of k] e hn(3) hb_zero assms(2,4) by simp
    next
      case False
      then have g: "?g \<in> set (inner T)" using go_in_leaves[of k T] l(1) by auto
      have "K ?g = k"
      proof (rule hb_eqI)
        fix i :: int assume "0 \<le> i" "i \<le> 31"
        then show "hb (K ?g) i = hb k i" using e[of i] l(2) g by (cases "i = 0") auto
      qed
      then show False using pat_insert_attach(1)[OF assms(1-3) hn(1)] by (simp add: T_def)
    qed
  qed
  then show "differs K k d T" using fd by (simp add: differs_def)
qed

lemma side_ins:
  assumes "side H K a s T" "H n = Some nd" "nd = new_node k" "n \<notin> set (inner T) \<union> leaves T" "hb k 0 = s" "differs K k d T" "d \<le> 31"
    and "H phead = Some hn" "p_b hn = 0"
  shows "\<exists>r H'. insertR H a n d phead = Some (r, H') \<and> kept H H' n (set (inner T)) \<and> side H' (K(n := k)) r s (ins k n d T)"
proof -
  let ?K = "K(n := k)"
  have T: "rep H 0 a T" "trie K T" "distinct (inner T)" "leaves T = insert phead (set (inner T))"
    "\<forall>x\<in>set (inner T). hb (K x) 0 = s \<and> full H K x"
    using assms(1) by (auto simp: side_def)
  have eq: "?K x = K x" if "x \<in> leaves T" for x using that assms(4) by auto
  have t: "trie ?K T" using trie_cong[of T ?K K] eq T(2) by blast
  have df: "differs ?K k d T" using assms(6) eq[OF go_in_leaves] by (simp add: differs_def)
  have "0 < d" using assms(6) by (simp add: differs_def)
  then obtain r H' where r: "insertR H a n d phead = Some (r, H')" "rep H' 0 r (ins k n d T)" and kp: "kept H H' n (set (inner T))"
    using insertR_rep[OF T(1) spot_trie[OF T(2) assms(6)] assms(8,9,2) _ order_refl _ assms(7,4) T(3)] assms(3) by (auto simp: new_node_def)
  have "full H' ?K x" if x: "x \<in> set (inner T)" for x
  proof -
    have "x \<noteq> n" using x assms(4) by auto
    then have "same_node H H' x" "?K x = K x" using kp by (simp_all add: kept_def)
    then show ?thesis using T(5) x by (auto simp: full_def same_node_def split: option.splits)
  qed
  moreover have "full H' ?K n" using kp assms(2,3) by (auto simp: full_def kept_def new_node_def)
  moreover have "\<forall>x\<in>insert n (set (inner T)). hb (?K x) 0 = s" using T(5) assms(5) by auto
  moreover have "trie ?K (ins k n d T)" by (rule trie_ins[OF t df]) simp
  ultimately have "side H' ?K r s (ins k n d T)"
    using r(2) T(3,4) assms(4) by (auto simp: side_def leaves_ins set_inner_ins distinct_ins)
  with r(1) kp show ?thesis by blast
qed

lemma pat_insert_new:
  assumes "pinv H K Tr n" "k \<noteq> 0" "k \<notin> keys K Tr" "k \<noteq> top_bit"
  shows "\<exists>H' Tr'. pat_insert (H(n \<mapsto> new_node k)) n phead = Some (n, H') \<and> pinv H' (K(n := k)) Tr' (n + 1) \<and>
    keys (K(n := k)) Tr' = insert k (keys K Tr)"
proof -
  let ?H = "H(n \<mapsto> new_node k)" and ?s = "hb k 0" let ?T = "Tr ?s"
  define d where "d = first_diff (ucast k) (ucast (K (go k ?T))) 1"
  have np: "n \<noteq> phead" "phead < n" "K phead = 0" "\<And>s x. x \<in> set (inner (Tr s)) \<Longrightarrow> x < n \<and> x \<noteq> phead"
    using assms(1) by (auto simp: pinv_def)
  obtain hn where hn: "?H phead = Some hn" "p_key hn = 0" "p_b hn = 0" "\<exists>m. p_m hn = [m] \<and> pm_mask m = 0"
    and sd: "\<And>s. side ?H K (if s then p_right hn else p_left hn) s (Tr s)"
    using pinv_alloc[OF assms(1), of "new_node k"] unfolding pinv_def by blast
  have fr: "n \<notin> set (inner (Tr s)) \<union> leaves (Tr s)" for s by (rule pinv_fresh[OF assms(1)])
  obtain r H' where r: "insertR ?H (if ?s then p_right hn else p_left hn) n d phead = Some (r, H')"
    and kp: "kept ?H H' n (set (inner ?T))" and sr: "side H' (K(n := k)) r ?s (ins k n d ?T)"
    using side_ins[OF sd[of ?s] _ refl fr refl leaf_differs[OF assms, folded d_def] hn(1,3)] by (auto simp del: fun_upd_apply simp: fun_upd_same)
  let ?hn = "if ?s then hn\<lparr>p_right := r\<rparr> else hn\<lparr>p_left := r\<rparr>" and ?Tr = "Tr(?s := ins k n d ?T)"
  let ?H' = "H'(phead \<mapsto> ?hn)"
  have h': "H' phead = Some hn" using kp np hn(1) unfolding kept_def by force
  have i: "pat_insert ?H n phead = Some (n, ?H')"
    using pat_insert_attach(2)[OF assms(1-3), of hn] hn(1) np(1) r h' by (simp add: attach_def d_def)
  have ph: "phead \<notin> insert n (set (inner (Tr s)))" for s using np by auto
  have k': "kept ?H ?H' n (insert phead (set (inner ?T)))"
    by (rule kept_link[OF kp ph hn(1)]) auto
  have "side ?H' (K(n := k)) (if s then p_right ?hn else p_left ?hn) s (?Tr s)" for s
  proof (cases "s = ?s")
    case True
    have "side ?H' (K(n := k)) r ?s (ins k n d ?T)"
      by (rule side_frame[OF sr]) (use np h' fr in \<open>auto simp: set_inner_ins same_node_def\<close>)
    then show ?thesis using True by (cases ?s) simp_all
  next
    case False
    have o: "y \<notin> set (inner ?T)" if "y \<in> set (inner (Tr s))" for y
      using that sd[of s] sd[of ?s] False unfolding side_def by blast
    have "side ?H' (K(n := k)) (if s then p_right hn else p_left hn) s (Tr s)"
    proof (rule side_frame[OF sd[of s]])
      show "?H' y = ?H y" if "y \<in> set (inner (Tr s))" for y
        by (rule kept_frame[OF k']) (use o[OF that] np(4)[OF that] in auto)
      show "same_node ?H ?H' phead" by (rule kept_same[OF k']) (use np(1) in simp)
    qed (use fr[of s] in auto)
    then show ?thesis using False by (cases s; cases ?s; simp)
  qed
  moreover have "\<forall>s. \<forall>x\<in>set (inner (?Tr s)). x < n + 1 \<and> x \<noteq> phead"
    using np by (auto simp: set_inner_ins less_Suc_eq)
  moreover have "p_key ?hn = 0" "p_b ?hn = 0" "\<exists>m. p_m ?hn = [m] \<and> pm_mask m = 0" using hn by auto
  ultimately have "pinv ?H' (K(n := k)) ?Tr (n + 1)" unfolding pinv_def using np by (simp del: split_paired_All)
  moreover have "keys (K(n := k)) ?Tr = insert k (keys K Tr)"
  proof -
    have "(\<Union>s. set (inner (?Tr s))) = insert n (\<Union>s. set (inner (Tr s)))" by (auto simp: set_inner_ins split: if_splits)
    moreover have "n \<notin> (\<Union>s. set (inner (Tr s)))" using fr by blast
    ultimately show ?thesis unfolding keys_def by auto
  qed
  ultimately show ?thesis using i by blast
qed

section \<open>The test program\<close>

lemma seen_zero: "seen (insert 0 S) as = seen S as"
proof (induction as arbitrary: S)
  case (Cons a as)
  have "seen (insert a (insert 0 S)) as = seen (insert a S) as" using Cons.IH[of "insert a S"] by (simp add: insert_commute)
  then show ?case by simp
qed simp

lemma test_loop_seen:
  assumes "pinv H K Tr n" "top_bit \<notin> keys K Tr"
  shows "test_loop H n as = (if top_bit \<in> set as then None else Some (seen (keys K Tr) as))"
  using assms
proof (induction as arbitrary: H K Tr n)
  case (Cons a as)
  let ?H = "H(n \<mapsto> new_node a)"
  note i0 = pinv_alloc[OF Cons.prems(1), of "new_node a"]
  obtain r nd where r: "pat_search ?H (ucast a) phead = Some r" "?H r = Some nd" "p_key nd = ucast a \<longleftrightarrow> a = 0 \<or> a \<in> keys K Tr"
    using pat_search_finds[OF i0] by blast
  show ?case
  proof (cases "a = 0 \<or> a \<in> keys K Tr")
    case True
    then have "a \<noteq> top_bit" "seen (insert a (keys K Tr)) as = seen (keys K Tr) as"
      using Cons.prems(2) seen_zero by (auto simp: insert_absorb)
    then show ?thesis using r True Cons.IH[OF i0 Cons.prems(2)] by (simp del: fun_upd_apply)
  next
    case False
    show ?thesis
    proof (cases "a = top_bit")
      case True
      then show ?thesis using r False pat_insert_top_bit[OF Cons.prems] by simp
    next
      case ne: False
      obtain H' Tr' where h: "pat_insert ?H n phead = Some (n, H')" "pinv H' (K(n := a)) Tr' (n + 1)"
        "keys (K(n := a)) Tr' = insert a (keys K Tr)"
        using pat_insert_new[OF Cons.prems(1) _ _ ne] False by blast
      then show ?thesis using r False ne Cons.IH[OF h(2)] Cons.prems(2) by (simp del: fun_upd_apply)
    qed
  qed
qed simp

lemma pinv_init: "pinv init_heap (\<lambda>_. 0) (\<lambda>_. Leaf phead) 2"
  by (auto simp: pinv_def init_heap_def side_def phead_def)

lemma seen_nth: "seen S as = map (\<lambda>i. as ! i = 0 \<or> as ! i \<in> S \<union> set (take i as)) [0..<length as]"
proof (induction as arbitrary: S)
  case (Cons a as)
  then show ?case by (auto simp: upt_conv_Cons map_Suc_upt[symmetric] simp del: upt_Suc)
qed simp

text \<open>
  C8. The test program tells for every address of its input whether the address is 0.0.0.0 or has occurred before: every search
  and every insertion returns, no pointer dangles and no bit outside a word is tested.  The one exception is 128.0.0.0, the
  address that agrees with the head node in bits 1 to 31: inserting it shifts by a negative amount, whatever came before it.
\<close>

theorem patricia_test_seen:
  "patricia_test as = (if 0x80000000 \<in> set as then None else Some (seen_before as))"
proof -
  have "keys (\<lambda>_. 0) (\<lambda>_. Leaf phead) = {}" by (simp add: keys_def)
  then show ?thesis using test_loop_seen[OF pinv_init, of as] by (simp add: patricia_test_def seen_before_def seen_nth)
qed

section \<open>Merging masks\<close>

lemma merge_stuck: "all_ones \<le> pm_mask t \<Longrightarrow> pm_mask m = all_ones \<Longrightarrow> merge_masks (t # ts) m room c = None"
  by (induction room arbitrary: m c) auto

lemma merge_copied:
  "pm_mask m = all_ones \<Longrightarrow>
   merge_masks ts m (length ts) True = (if \<exists>t\<in>set ts. all_ones \<le> pm_mask t then None else Some (ts, m, 0, True))"
proof (induction ts)
  case (Cons t ts)
  show ?case
  proof (cases "all_ones \<le> pm_mask t")
    case True
    then show ?thesis using merge_stuck[OF True Cons.prems] by (simp del: merge_masks.simps)
  next
    case False
    then have "pm_mask t < all_ones" by (rule not_le_imp_less)
    then show ?thesis using Cons False by simp
  qed
qed simp

lemma merge_masks_insort:
  "sorted (map pm_mask ts) \<Longrightarrow> pm_mask m \<notin> set (map pm_mask ts) \<Longrightarrow>
   merge_masks ts m (length ts + 1) False =
    (if \<exists>t\<in>set ts. pm_mask m < pm_mask t \<and> all_ones \<le> pm_mask t then None
     else if \<exists>t\<in>set ts. pm_mask m < pm_mask t
     then Some (insort_key pm_mask m ts, m\<lparr>pm_mask := all_ones\<rparr>, 0, True)
     else Some (ts, m, 1, False))"
proof (induction ts)
  case (Cons t ts)
  show ?case
  proof (cases "pm_mask t < pm_mask m")
    case True
    then show ?thesis using Cons by (auto simp: not_le not_less)
  next
    case False
    then have "pm_mask m < pm_mask t" using Cons.prems(2) by auto
    moreover from this have "\<forall>x\<in>set ts. pm_mask m < pm_mask x" using Cons.prems(1) by auto
    ultimately show ?thesis using False merge_copied[of "m\<lparr>pm_mask := all_ones\<rparr>" "t # ts"] by (simp del: merge_masks.simps(3)) (auto simp: not_less)
  qed
qed simp

text \<open>
  C36. Adding a mask to the sorted masks of a node inserts it in order, unless the node has an all-ones mask and the new mask is
  smaller: then the loop that fills the new array goes on writing behind its end.
\<close>

theorem add_mask_insort:
  assumes "sorted (map pm_mask ms)" "pm_mask m \<notin> set (map pm_mask ms)"
  shows "add_mask ms m =
    (if \<exists>t\<in>set ms. pm_mask m < pm_mask t \<and> 0xffffffff \<le> pm_mask t then None else Some (insort_key pm_mask m ms))"
proof -
  have "insort_key pm_mask m ms = ms @ [m]" if "\<forall>t\<in>set ms. \<not> pm_mask m < pm_mask t"
  proof -
    have "\<forall>t\<in>set ms. pm_mask t < pm_mask m" using that assms(2) by (metis image_eqI linorder_less_linear list.set_map)
    then show ?thesis by (induction ms) (auto simp: not_le)
  qed
  then show ?thesis unfolding add_mask_def merge_masks_insort[OF assms] by auto
qed

theorem add_mask_insort_witness:
  "add_mask [\<lparr>pm_mask = 0xff000000, pm_data = 1\<rparr>, \<lparr>pm_mask = 0xffffff00, pm_data = 2\<rparr>] \<lparr>pm_mask = 0xffff0000, pm_data = 3\<rparr> =
    Some [\<lparr>pm_mask = 0xff000000, pm_data = 1\<rparr>, \<lparr>pm_mask = 0xffff0000, pm_data = 3\<rparr>, \<lparr>pm_mask = 0xffffff00, pm_data = 2\<rparr>] \<and>
   add_mask [\<lparr>pm_mask = 0xffffffff, pm_data = 1\<rparr>] \<lparr>pm_mask = 0xffff0000, pm_data = 3\<rparr> = None"
  by (subst (1 2) add_mask_insort) simp_all

end
