(* ===== verification/Rijndael.thy ===== *)
theory Rijndael
  imports Rijndael_Tables "HOL-Library.Monad_Syntax"
begin

text \<open>
  \<^verbatim>\<open>security/rijndael\<close> (\<^verbatim>\<open>aes.c\<close>, \<^verbatim>\<open>aes.h\<close>, \<^verbatim>\<open>aestab.h\<close>): key schedule, encryption and decryption of blocks as the program has them.

  The program is written for a \<open>word\<close> of 32 bits but declares it \<open>unsigned long\<close>, so the width of \<open>word\<close> is left open (the type
  variable \<open>'l\<close>).  A block or key is the list of the bytes of its array; reading or writing a word that does not lie within its
  array is undefined behaviour, \<open>None\<close>.  The configuration is the one of the source: \<open>BLOCK_SIZE\<close> 16, \<open>UNROLL\<close>, \<open>FIXED_TABLES\<close>,
  \<open>ARRAYS\<close> and four tables each.
\<close>

unbundle bit_operations_syntax

section \<open>Definitions\<close>

subsection \<open>Words and bytes\<close>

definition sizeof_word :: "'l::len itself \<Rightarrow> nat" where
  "sizeof_word _ = LENGTH('l) div 8"

definition word_in :: "u8 list \<Rightarrow> nat \<Rightarrow> 'l::len word option" where
  "word_in mem p =
    (let k = sizeof_word TYPE('l)
     in if p + k \<le> length mem then Some (foldr (\<lambda>b w. ucast b OR push_bit 8 w) (take k (drop p mem)) 0) else None)"

definition word_out :: "u8 list \<Rightarrow> nat \<Rightarrow> 'l::len word \<Rightarrow> u8 list option" where
  "word_out mem p v =
    (let bs = map (\<lambda>j. ucast (drop_bit (8 * j) v)) [0..<sizeof_word TYPE('l)]
     in if p + length bs \<le> length mem then Some (write_at p bs mem) else None)"

definition bval :: "'l::len word \<Rightarrow> nat \<Rightarrow> u8" where
  "bval x n = ucast (drop_bit (8 * n) x)"

text \<open>The macros of \<^verbatim>\<open>aestab.h\<close>: \<open>hex4 p q r s\<close> is the numeral \<open>0xpqrs\<close>.\<close>

definition hex4 :: "u8 \<Rightarrow> u8 \<Rightarrow> u8 \<Rightarrow> u8 \<Rightarrow> 'l::len word" where
  "hex4 p q r s = push_bit 24 (ucast p) OR push_bit 16 (ucast q) OR push_bit 8 (ucast r) OR ucast s"

definition r0 :: "quad \<Rightarrow> 'l::len word" where "r0 = (\<lambda>(p, q, r, s). hex4 p q r s)"
definition r1 :: "quad \<Rightarrow> 'l::len word" where "r1 = (\<lambda>(p, q, r, s). hex4 q r s p)"
definition r2 :: "quad \<Rightarrow> 'l::len word" where "r2 = (\<lambda>(p, q, r, s). hex4 r s p q)"
definition r3 :: "quad \<Rightarrow> 'l::len word" where "r3 = (\<lambda>(p, q, r, s). hex4 s p q r)"

definition w0 :: "u8 \<Rightarrow> 'l::len word" where "w0 p = hex4 0 0 0 p"
definition w1 :: "u8 \<Rightarrow> 'l::len word" where "w1 p = hex4 0 0 p 0"
definition w2 :: "u8 \<Rightarrow> 'l::len word" where "w2 p = hex4 0 p 0 0"
definition w3 :: "u8 \<Rightarrow> 'l::len word" where "w3 p = hex4 p 0 0 0"

definition quad_q :: "quad \<Rightarrow> u8" where
  "quad_q = (\<lambda>(p, q, r, s). q)"

definition rcon_tab :: "'l::len word list" where
  "rcon_tab = map w0 rcon_bytes"

definition ft_tab :: "'l::len word list list" where
  "ft_tab = [map r0 f_table, map r1 f_table, map r2 f_table, map r3 f_table]"

definition it_tab :: "'l::len word list list" where
  "it_tab = [map r0 i_table, map r1 i_table, map r2 i_table, map r3 i_table]"

definition fl_tab :: "'l::len word list list" where
  "fl_tab = [map (w0 \<circ> quad_q) f_table, map (w1 \<circ> quad_q) f_table, map (w2 \<circ> quad_q) f_table, map (w3 \<circ> quad_q) f_table]"

definition il_tab :: "'l::len word list list" where
  "il_tab = [map w0 li_table, map w1 li_table, map w2 li_table, map w3 li_table]"

definition im_tab :: "'l::len word list list" where
  "im_tab = [map r0 m_table, map r1 m_table, map r2 m_table, map r3 m_table]"

subsection \<open>Table look-ups\<close>

definition nc :: nat where
  "nc = 4"

text \<open>\<open>four_tables\<close> with the state variable (\<open>vf\<close>) and the byte (\<open>rf\<close>) each row takes.\<close>

definition four_tables :: "'l::len word list list \<Rightarrow> (nat \<Rightarrow> 'l word) \<Rightarrow> (nat \<Rightarrow> nat) \<Rightarrow> 'l word" where
  "four_tables tab vf rf =
    tab ! 0 ! unat (bval (vf 0) (rf 0)) XOR tab ! 1 ! unat (bval (vf 1) (rf 1)) XOR
    tab ! 2 ! unat (bval (vf 2) (rf 2)) XOR tab ! 3 ! unat (bval (vf 3) (rf 3))"

definition rf1 :: "nat \<Rightarrow> nat \<Rightarrow> nat" where
  "rf1 r c = r"

text \<open>\<open>(r-c)&3\<close> on \<open>int\<close>.\<close>

definition rf2 :: "nat \<Rightarrow> nat \<Rightarrow> nat" where
  "rf2 r c = nat ((int r - int c) AND 3)"

definition ls_box :: "'l::len word \<Rightarrow> nat \<Rightarrow> 'l word" where
  "ls_box x c = four_tables fl_tab (\<lambda>r. x) (\<lambda>r. rf2 r c)"

definition inv_mcol :: "'l::len word \<Rightarrow> 'l word" where
  "inv_mcol x = four_tables im_tab (\<lambda>r. x) (\<lambda>r. rf1 r 0)"

subsection \<open>The key schedule\<close>

record 'word aes =
  Nkey :: 'word
  Nrnd :: 'word
  e_key :: "'word list"
  d_key :: "'word list"
  mode :: u8

definition aes_bad :: int where "aes_bad = 0"
definition aes_good :: int where "aes_good = 1"

definition Nr :: "'l::len word \<Rightarrow> 'l word \<Rightarrow> 'l word" where
  "Nr Nk Nc = (if Nk > Nc then Nk else Nc) + 6"

text \<open>The three loops; \<open>k\<close> is the array \<open>e_key\<close>, the pointers \<open>kf\<close> and \<open>kt\<close> are indices of it.\<close>

definition key_step4 :: "nat \<Rightarrow> nat \<Rightarrow> 'l::len word list \<Rightarrow> 'l word list" where
  "key_step4 kf rci k =
    (let k = k[kf + 4 := k ! kf XOR ls_box (k ! (kf + 3)) 3 XOR rcon_tab ! rci];
         k = k[kf + 5 := k ! (kf + 1) XOR k ! (kf + 4)];
         k = k[kf + 6 := k ! (kf + 2) XOR k ! (kf + 5)];
         k = k[kf + 7 := k ! (kf + 3) XOR k ! (kf + 6)]
     in k)"

function key_loop4 :: "nat \<Rightarrow> nat \<Rightarrow> nat \<Rightarrow> 'l::len word list \<Rightarrow> 'l word list" where
  "key_loop4 kf kt rci k =
    (let k = key_step4 kf rci k
     in if kf + 4 < kt then key_loop4 (kf + 4) kt (rci + 1) k else k)"
  by pat_completeness auto
termination
  by (relation "measure (\<lambda>(kf, kt, rci, k). kt - kf)") auto

definition key_step6 :: "nat \<Rightarrow> nat \<Rightarrow> 'l::len word list \<Rightarrow> 'l word list" where
  "key_step6 kf rci k =
    (let k = k[kf + 6 := k ! kf XOR ls_box (k ! (kf + 5)) 3 XOR rcon_tab ! rci];
         k = k[kf + 7 := k ! (kf + 1) XOR k ! (kf + 6)];
         k = k[kf + 8 := k ! (kf + 2) XOR k ! (kf + 7)];
         k = k[kf + 9 := k ! (kf + 3) XOR k ! (kf + 8)];
         k = k[kf + 10 := k ! (kf + 4) XOR k ! (kf + 9)];
         k = k[kf + 11 := k ! (kf + 5) XOR k ! (kf + 10)]
     in k)"

function key_loop6 :: "nat \<Rightarrow> nat \<Rightarrow> nat \<Rightarrow> 'l::len word list \<Rightarrow> 'l word list" where
  "key_loop6 kf kt rci k =
    (let k = key_step6 kf rci k
     in if kf + 6 < kt then key_loop6 (kf + 6) kt (rci + 1) k else k)"
  by pat_completeness auto
termination
  by (relation "measure (\<lambda>(kf, kt, rci, k). kt - kf)") auto

definition key_step8 :: "nat \<Rightarrow> nat \<Rightarrow> 'l::len word list \<Rightarrow> 'l word list" where
  "key_step8 kf rci k =
    (let k = k[kf + 8 := k ! kf XOR ls_box (k ! (kf + 7)) 3 XOR rcon_tab ! rci];
         k = k[kf + 9 := k ! (kf + 1) XOR k ! (kf + 8)];
         k = k[kf + 10 := k ! (kf + 2) XOR k ! (kf + 9)];
         k = k[kf + 11 := k ! (kf + 3) XOR k ! (kf + 10)];
         k = k[kf + 12 := k ! (kf + 4) XOR ls_box (k ! (kf + 11)) 0];
         k = k[kf + 13 := k ! (kf + 5) XOR k ! (kf + 12)];
         k = k[kf + 14 := k ! (kf + 6) XOR k ! (kf + 13)];
         k = k[kf + 15 := k ! (kf + 7) XOR k ! (kf + 14)]
     in k)"

function key_loop8 :: "nat \<Rightarrow> nat \<Rightarrow> nat \<Rightarrow> 'l::len word list \<Rightarrow> 'l word list" where
  "key_loop8 kf kt rci k =
    (let k = key_step8 kf rci k
     in if kf + 8 < kt then key_loop8 (kf + 8) kt (rci + 1) k else k)"
  by pat_completeness auto
termination
  by (relation "measure (\<lambda>(kf, kt, rci, k). kt - kf)") auto

text \<open>Store the key words from \<open>i\<close> to \<open>j - 1\<close>.\<close>

fun load_key :: "u8 list \<Rightarrow> nat list \<Rightarrow> 'l::len word list \<Rightarrow> 'l word list option" where
  "load_key in_key [] k = Some k"
| "load_key in_key (i # is) k = do {
    v \<leftarrow> word_in in_key (4 * i);
    load_key in_key is (k[i := v]) }"

text \<open>\<open>cpy\<close> and \<open>mix\<close>: four words from \<open>s\<close> at \<open>kf\<close> to \<open>d\<close> at \<open>kt\<close>, through \<open>f\<close>; both pointers move on.\<close>

definition copy_words :: "('l::len word \<Rightarrow> 'l word) \<Rightarrow> 'l word list \<Rightarrow> nat \<times> nat \<times> 'l word list \<Rightarrow> nat \<times> nat \<times> 'l word list" where
  "copy_words f s = (\<lambda>(kt, kf, d).
    (kt + 4, kf + 4,
     d[kt := f (s ! kf), kt + 1 := f (s ! (kf + 1)), kt + 2 := f (s ! (kf + 2)), kt + 3 := f (s ! (kf + 3))]))"

definition decryption_key :: "nat \<Rightarrow> 'l::len word list \<Rightarrow> 'l word list \<Rightarrow> 'l word list" where
  "decryption_key n e d =
    (let (kt, kf, d) = copy_words id e (nc * n, 0, d);
         (kt, kf, d) = fold (\<lambda>i (kt, kf, d).
             let (kt, kf, d) = copy_words inv_mcol e (kt, kf, d) in (kt - 2 * nc, kf, d)) [1..<n] (kt - 2 * nc, kf, d);
         (kt, kf, d) = copy_words id e (kt, kf, d)
     in d)"

definition set_key :: "u8 list \<Rightarrow> 'l::len word \<Rightarrow> u8 \<Rightarrow> 'l word aes \<Rightarrow> (int \<times> 'l word aes) option" where
  "set_key in_key n_bytes f cx =
    (if n_bytes AND 7 \<noteq> 0 \<or> n_bytes < 16 \<or> n_bytes > 32 \<or> f AND 1 = 0 \<and> f AND 2 = 0
     then (if n_bytes \<noteq> 0 then Some (aes_bad, cx\<lparr>mode := mode cx AND NOT 3\<rparr>)
           else Some (sint (ucast (push_bit 2 (Nkey cx)) :: 16 word), cx))
     else do {
       let cx = cx\<lparr>mode := (mode cx AND NOT 3) OR (f AND 3)\<rparr>;
       let cx = cx\<lparr>Nkey := drop_bit 2 n_bytes\<rparr>;
       let cx = cx\<lparr>Nrnd := Nr (Nkey cx) (of_nat nc)\<rparr>;
       k \<leftarrow> load_key in_key [0..<4] (e_key cx);
       let kt = nc * (unat (Nrnd cx) + 1) - unat (Nkey cx);
       k \<leftarrow> (if Nkey cx = 4 then Some (key_loop4 0 kt 0 k)
             else if Nkey cx = 6 then do { k \<leftarrow> load_key in_key [4..<6] k; Some (key_loop6 0 kt 0 k) }
             else if Nkey cx = 8 then do { k \<leftarrow> load_key in_key [4..<8] k; Some (key_loop8 0 kt 0 k) }
             else Some k);
       let cx = cx\<lparr>e_key := k\<rparr>;
       let cx = (if mode cx AND 3 \<noteq> 1 then cx\<lparr>d_key := decryption_key (unat (Nrnd cx)) (e_key cx) (d_key cx)\<rparr> else cx);
       Some (aes_good, cx) })"

subsection \<open>Encryption and decryption\<close>

text \<open>The state variable of row \<open>r\<close> for column \<open>c\<close>, where \<open>nc\<close> is 4.\<close>

definition fwd_var :: "nat \<Rightarrow> nat \<Rightarrow> nat" where
  "fwd_var r c =
    (if r = 0 then (if c = 0 then 0 else if c = 1 then 1 else if c = 2 then 2 else if c = 3 then 3 else if c = 4 then 4 else
                    if c = 5 then 5 else if c = 6 then 6 else 7)
     else if r = 1 then
       (if c = 0 then 1 else if c = 1 then 2 else if c = 2 then 3 else if c = 3 then (if nc = 4 then 0 else 4) else
        if c = 4 then 5 else if c = 5 then (if nc = 8 then 6 else 0) else if c = 6 then 7 else 0)
     else if r = 2 then
       (if c = 0 then (if nc = 8 then 3 else 2) else if c = 1 then (if nc = 8 then 4 else 3) else
        if c = 2 then (if nc = 4 then 0 else if nc = 8 then 5 else 4) else
        if c = 3 then (if nc = 4 then 1 else if nc = 8 then 6 else 5) else
        if c = 4 then (if nc = 8 then 7 else 0) else if c = 5 then (if nc = 8 then 0 else 1) else if c = 6 then 1 else 2)
     else
       (if c = 0 then (if nc = 8 then 4 else 3) else if c = 1 then (if nc = 4 then 0 else if nc = 8 then 5 else 4) else
        if c = 2 then (if nc = 4 then 1 else if nc = 8 then 6 else 5) else
        if c = 3 then (if nc = 4 then 2 else if nc = 8 then 7 else 0) else
        if c = 4 then (if nc = 8 then 0 else 1) else if c = 5 then (if nc = 8 then 1 else 2) else if c = 6 then 2 else 3))"

definition inv_var :: "nat \<Rightarrow> nat \<Rightarrow> nat" where
  "inv_var r c =
    (if r = 0 then (if c = 0 then 0 else if c = 1 then 1 else if c = 2 then 2 else if c = 3 then 3 else if c = 4 then 4 else
                    if c = 5 then 5 else if c = 6 then 6 else 7)
     else if r = 1 then
       (if c = 0 then (if nc = 4 then 3 else if nc = 8 then 7 else 5) else if c = 1 then 0 else if c = 2 then 1 else
        if c = 3 then 2 else if c = 4 then 3 else if c = 5 then 4 else if c = 6 then 5 else 6)
     else if r = 2 then
       (if c = 0 then (if nc = 4 then 2 else if nc = 8 then 5 else 4) else
        if c = 1 then (if nc = 4 then 3 else if nc = 8 then 6 else 5) else if c = 2 then (if nc = 8 then 7 else 0) else
        if c = 3 then (if nc = 8 then 0 else 1) else if c = 4 then (if nc = 8 then 1 else 2) else
        if c = 5 then (if nc = 8 then 2 else 3) else if c = 6 then 3 else 4)
     else
       (if c = 0 then (if nc = 4 then 1 else if nc = 8 then 4 else 3) else
        if c = 1 then (if nc = 4 then 2 else if nc = 8 then 5 else 4) else
        if c = 2 then (if nc = 4 then 3 else if nc = 8 then 6 else 5) else if c = 3 then (if nc = 8 then 7 else 0) else
        if c = 4 then (if nc = 8 then 0 else 1) else if c = 5 then (if nc = 8 then 1 else 2) else if c = 6 then 2 else 3))"

text \<open>One column of a round: \<open>x\<close> is the state, \<open>k\<close> the array of keys and \<open>kp\<close> the index of the round key.\<close>

definition fwd_rnd :: "'l::len word list \<Rightarrow> 'l word list \<Rightarrow> nat \<Rightarrow> nat \<Rightarrow> 'l word" where
  "fwd_rnd x k kp c = k ! (kp + c) XOR four_tables ft_tab (\<lambda>r. x ! fwd_var r c) (\<lambda>r. rf1 r c)"

definition inv_rnd :: "'l::len word list \<Rightarrow> 'l word list \<Rightarrow> nat \<Rightarrow> nat \<Rightarrow> 'l word" where
  "inv_rnd x k kp c = k ! (kp + c) XOR four_tables it_tab (\<lambda>r. x ! inv_var r c) (\<lambda>r. rf1 r c)"

definition fwd_lrnd :: "'l::len word list \<Rightarrow> 'l word list \<Rightarrow> nat \<Rightarrow> nat \<Rightarrow> 'l word" where
  "fwd_lrnd x k kp c = k ! (kp + c) XOR four_tables fl_tab (\<lambda>r. x ! fwd_var r c) (\<lambda>r. rf1 r c)"

definition inv_lrnd :: "'l::len word list \<Rightarrow> 'l word list \<Rightarrow> nat \<Rightarrow> nat \<Rightarrow> 'l word" where
  "inv_lrnd x k kp c = k ! (kp + c) XOR four_tables il_tab (\<lambda>r. x ! inv_var r c) (\<lambda>r. rf1 r c)"

type_synonym 'l rnd = "'l word list \<Rightarrow> 'l word list \<Rightarrow> nat \<Rightarrow> nat \<Rightarrow> 'l word"

definition round_of :: "'l::len rnd \<Rightarrow> 'l word list \<Rightarrow> nat \<Rightarrow> 'l word list \<Rightarrow> 'l word list" where
  "round_of rm k kp x = [rm x k kp 0, rm x k kp 1, rm x k kp 2, rm x k kp 3]"

text \<open>The \<open>switch\<close> over the number of rounds, each case falling into the next.\<close>

definition two_rounds :: "'l::len rnd \<Rightarrow> 'l word list \<Rightarrow> nat \<times> 'l word list \<Rightarrow> nat \<times> 'l word list" where
  "two_rounds rm k = (\<lambda>(kp, b0).
    let b1 = round_of rm k kp b0;
        b0 = round_of rm k (kp + nc) b1
    in (kp + 2 * nc, b0))"

definition ten_rounds :: "'l::len rnd \<Rightarrow> 'l rnd \<Rightarrow> 'l word list \<Rightarrow> nat \<times> 'l word list \<Rightarrow> 'l word list" where
  "ten_rounds rm lrm k = (\<lambda>(kp, b0).
    let b1 = round_of rm k kp b0;
        b0 = round_of rm k (kp + nc) b1;
        b1 = round_of rm k (kp + 2 * nc) b0;
        b0 = round_of rm k (kp + 3 * nc) b1;
        b1 = round_of rm k (kp + 4 * nc) b0;
        b0 = round_of rm k (kp + 5 * nc) b1;
        b1 = round_of rm k (kp + 6 * nc) b0;
        b0 = round_of rm k (kp + 7 * nc) b1;
        b1 = round_of rm k (kp + 8 * nc) b0;
        b0 = round_of lrm k (kp + 9 * nc) b1
    in b0)"

definition all_rounds :: "'l::len rnd \<Rightarrow> 'l rnd \<Rightarrow> 'l word \<Rightarrow> 'l word list \<Rightarrow> nat \<times> 'l word list \<Rightarrow> 'l word list" where
  "all_rounds rm lrm n k s =
    (if n = 14 then ten_rounds rm lrm k (two_rounds rm k (two_rounds rm k s))
     else if n = 12 then ten_rounds rm lrm k (two_rounds rm k s)
     else if n = 10 then ten_rounds rm lrm k s
     else snd s)"

definition state_in :: "u8 list \<Rightarrow> 'l::len word list \<Rightarrow> 'l word list option" where
  "state_in x k = do {
    v0 \<leftarrow> word_in x 0;
    v1 \<leftarrow> word_in x 4;
    v2 \<leftarrow> word_in x 8;
    v3 \<leftarrow> word_in x 12;
    Some [v0 XOR k ! 0, v1 XOR k ! 1, v2 XOR k ! 2, v3 XOR k ! 3] }"

definition state_out :: "u8 list \<Rightarrow> 'l::len word list \<Rightarrow> u8 list option" where
  "state_out y x = do {
    y \<leftarrow> word_out y 0 (x ! 0);
    y \<leftarrow> word_out y 4 (x ! 1);
    y \<leftarrow> word_out y 8 (x ! 2);
    word_out y 12 (x ! 3) }"

definition aes_encrypt :: "u8 list \<Rightarrow> u8 list \<Rightarrow> 'l::len word aes \<Rightarrow> (int \<times> u8 list) option" where
  "aes_encrypt in_blk out_blk cx =
    (if mode cx AND 1 = 0 then Some (aes_bad, out_blk)
     else do {
       b0 \<leftarrow> state_in in_blk (e_key cx);
       let b0 = all_rounds fwd_rnd fwd_lrnd (Nrnd cx) (e_key cx) (nc, b0);
       out \<leftarrow> state_out out_blk b0;
       Some (aes_good, out) })"

definition aes_decrypt :: "u8 list \<Rightarrow> u8 list \<Rightarrow> 'l::len word aes \<Rightarrow> (int \<times> u8 list) option" where
  "aes_decrypt in_blk out_blk cx =
    (if mode cx AND 2 = 0 then Some (aes_bad, out_blk)
     else do {
       b0 \<leftarrow> state_in in_blk (d_key cx);
       let b0 = all_rounds inv_rnd inv_lrnd (Nrnd cx) (d_key cx) (nc, b0);
       out \<leftarrow> state_out out_blk b0;
       Some (aes_good, out) })"

end
