(* ===== verification/Rijndael_Standard.thy ===== *)
theory Rijndael_Standard
  imports Rijndael_Tables
begin

text \<open>
  The block cipher of FIPS 197, written with bytes and the arithmetic of the field: the reference \<^verbatim>\<open>security/rijndael\<close> is compared with.
  The tables of \<^verbatim>\<open>aestab.h\<close> hold the values of its substitution and the products of its column mixing, and its equivalent inverse cipher
  (with the round keys in reverse, mixed backwards) undoes it.
\<close>

unbundle bit_operations_syntax

section \<open>The standard\<close>

subsection \<open>The field\<close>

definition xtime :: "u8 \<Rightarrow> u8" where
  "xtime b = push_bit 1 b XOR (if bit b 7 then 0x1b else 0)"

definition gmul :: "u8 \<Rightarrow> u8 \<Rightarrow> u8" where
  "gmul a b =
    (let b1 = xtime b; b2 = xtime b1; b3 = xtime b2; b4 = xtime b3; b5 = xtime b4; b6 = xtime b5; b7 = xtime b6;
         on = (\<lambda>i x. if bit a i then x else 0)
     in on 0 b XOR on 1 b1 XOR on 2 b2 XOR on 3 b3 XOR on 4 b4 XOR on 5 b5 XOR on 6 b6 XOR on 7 b7)"

definition all_bytes :: "u8 list" where
  "all_bytes = [
    0, 1, 2, 3, 4, 5, 6, 7, 8, 9, 10, 11, 12, 13, 14, 15,
    16, 17, 18, 19, 20, 21, 22, 23, 24, 25, 26, 27, 28, 29, 30, 31,
    32, 33, 34, 35, 36, 37, 38, 39, 40, 41, 42, 43, 44, 45, 46, 47,
    48, 49, 50, 51, 52, 53, 54, 55, 56, 57, 58, 59, 60, 61, 62, 63,
    64, 65, 66, 67, 68, 69, 70, 71, 72, 73, 74, 75, 76, 77, 78, 79,
    80, 81, 82, 83, 84, 85, 86, 87, 88, 89, 90, 91, 92, 93, 94, 95,
    96, 97, 98, 99, 100, 101, 102, 103, 104, 105, 106, 107, 108, 109, 110, 111,
    112, 113, 114, 115, 116, 117, 118, 119, 120, 121, 122, 123, 124, 125, 126, 127,
    128, 129, 130, 131, 132, 133, 134, 135, 136, 137, 138, 139, 140, 141, 142, 143,
    144, 145, 146, 147, 148, 149, 150, 151, 152, 153, 154, 155, 156, 157, 158, 159,
    160, 161, 162, 163, 164, 165, 166, 167, 168, 169, 170, 171, 172, 173, 174, 175,
    176, 177, 178, 179, 180, 181, 182, 183, 184, 185, 186, 187, 188, 189, 190, 191,
    192, 193, 194, 195, 196, 197, 198, 199, 200, 201, 202, 203, 204, 205, 206, 207,
    208, 209, 210, 211, 212, 213, 214, 215, 216, 217, 218, 219, 220, 221, 222, 223,
    224, 225, 226, 227, 228, 229, 230, 231, 232, 233, 234, 235, 236, 237, 238, 239,
    240, 241, 242, 243, 244, 245, 246, 247, 248, 249, 250, 251, 252, 253, 254, 255]"

definition ginv :: "u8 \<Rightarrow> u8" where
  "ginv b = (case List.find (\<lambda>c. gmul b c = 1) all_bytes of Some c \<Rightarrow> c | None \<Rightarrow> 0)"

definition rotl8 :: "nat \<Rightarrow> u8 \<Rightarrow> u8" where
  "rotl8 k x = push_bit k x OR drop_bit (8 - k) x"

definition affine :: "u8 \<Rightarrow> u8" where
  "affine x = x XOR rotl8 1 x XOR rotl8 2 x XOR rotl8 3 x XOR rotl8 4 x XOR 0x63"

definition SubByte :: "u8 \<Rightarrow> u8" where
  "SubByte b = affine (ginv b)"

text \<open>The inverse affine map.\<close>

definition unaffine :: "u8 \<Rightarrow> u8" where
  "unaffine x = rotl8 1 x XOR rotl8 3 x XOR rotl8 6 x XOR 0x05"

text \<open>The products the tables hold.\<close>

definition fwd_quad :: "u8 \<Rightarrow> quad" where
  "fwd_quad s = (let d = xtime s in (d XOR s, s, s, d))"

definition inv_quad :: "u8 \<Rightarrow> quad" where
  "inv_quad s = (let d = xtime s; e = xtime d; f = xtime e; t = f XOR s in (t XOR d, t XOR e, t, f XOR e XOR d))"

definition s_box_ok :: "u8 \<times> u8 \<Rightarrow> bool" where
  "s_box_ok = (\<lambda>(b, s). affine (unaffine s) = s \<and> (b = 0 \<and> unaffine s = 0 \<or> gmul (unaffine s) b = 1))"

subsection \<open>The cipher\<close>

text \<open>A state is the list of its four columns, a column the list of its four bytes.\<close>

definition SubBytes :: "u8 list list \<Rightarrow> u8 list list" where
  "SubBytes s = map (map SubByte) s"

definition ShiftRows :: "u8 list list \<Rightarrow> u8 list list" where
  "ShiftRows s = map (\<lambda>c. map (\<lambda>r. s ! ((c + r) mod 4) ! r) [0, 1, 2, 3]) [0, 1, 2, 3]"

fun MixColumn :: "u8 list \<Rightarrow> u8 list" where
  "MixColumn [a, b, c, d] =
    [gmul 2 a XOR gmul 3 b XOR c XOR d, a XOR gmul 2 b XOR gmul 3 c XOR d,
     a XOR b XOR gmul 2 c XOR gmul 3 d, gmul 3 a XOR b XOR c XOR gmul 2 d]"
| "MixColumn _ = []"

definition AddRoundKey :: "u8 list list \<Rightarrow> u8 list list \<Rightarrow> u8 list list" where
  "AddRoundKey s k = map2 (map2 (XOR)) s k"

text \<open>The steps backwards.\<close>

definition InvSubBytes :: "u8 list list \<Rightarrow> u8 list list" where
  "InvSubBytes s = map (map (\<lambda>b. inv_s_box ! unat b)) s"

definition InvShiftRows :: "u8 list list \<Rightarrow> u8 list list" where
  "InvShiftRows s = map (\<lambda>c. map (\<lambda>r. s ! ((c + 4 - r) mod 4) ! r) [0, 1, 2, 3]) [0, 1, 2, 3]"

fun InvMixColumn :: "u8 list \<Rightarrow> u8 list" where
  "InvMixColumn [a, b, c, d] =
    [gmul 0xe a XOR gmul 0xb b XOR gmul 0xd c XOR gmul 9 d, gmul 9 a XOR gmul 0xe b XOR gmul 0xb c XOR gmul 0xd d,
     gmul 0xd a XOR gmul 9 b XOR gmul 0xe c XOR gmul 0xb d, gmul 0xb a XOR gmul 0xd b XOR gmul 9 c XOR gmul 0xe d]"
| "InvMixColumn _ = []"

definition Round :: "u8 list list \<Rightarrow> u8 list list \<Rightarrow> u8 list list" where
  "Round s k = AddRoundKey (map MixColumn (ShiftRows (SubBytes s))) k"

definition FinalRound :: "u8 list list \<Rightarrow> u8 list list \<Rightarrow> u8 list list" where
  "FinalRound s k = AddRoundKey (ShiftRows (SubBytes s)) k"

definition Cipher :: "nat \<Rightarrow> (nat \<Rightarrow> u8 list list) \<Rightarrow> u8 list list \<Rightarrow> u8 list list" where
  "Cipher n w s = FinalRound (fold (\<lambda>r s. Round s (w r)) [1..<n] (AddRoundKey s (w 0))) (w n)"

definition InvRound :: "u8 list list \<Rightarrow> u8 list list \<Rightarrow> u8 list list" where
  "InvRound s k = AddRoundKey (map InvMixColumn (InvSubBytes (InvShiftRows s))) k"

definition InvFinalRound :: "u8 list list \<Rightarrow> u8 list list \<Rightarrow> u8 list list" where
  "InvFinalRound s k = AddRoundKey (InvSubBytes (InvShiftRows s)) k"

text \<open>The inverse cipher in the order of the program, with keys \<open>w\<close> already in that order.\<close>

definition EqInvCipher :: "nat \<Rightarrow> (nat \<Rightarrow> u8 list list) \<Rightarrow> u8 list list \<Rightarrow> u8 list list" where
  "EqInvCipher n w s = InvFinalRound (fold (\<lambda>r s. InvRound s (w r)) [1..<n] (AddRoundKey s (w 0))) (w n)"

definition is_state :: "u8 list list \<Rightarrow> bool" where
  "is_state s \<longleftrightarrow> length s = 4 \<and> list_all (\<lambda>c. length c = 4) s"

subsection \<open>Key expansion\<close>

definition Rcon :: "nat \<Rightarrow> u8 list" where
  "Rcon j = [(xtime ^^ (j - 1)) 1, 0, 0, 0]"

function schedule_word :: "nat \<Rightarrow> u8 list list \<Rightarrow> nat \<Rightarrow> u8 list" where
  "schedule_word nk key i =
    (if i < nk \<or> nk = 0 then key ! i
     else let t = schedule_word nk key (i - 1);
              t = (if i mod nk = 0 then map2 (XOR) (map SubByte (rotate1 t)) (Rcon (i div nk))
                   else if nk > 6 \<and> i mod nk = 4 then map SubByte t
                   else t)
          in map2 (XOR) (schedule_word nk key (i - nk)) t)"
  by pat_completeness auto
termination
  by (relation "measure (\<lambda>(nk, key, i). i)") auto

definition KeyExpansion :: "nat \<Rightarrow> u8 list list \<Rightarrow> nat \<Rightarrow> u8 list list" where
  "KeyExpansion nk key r = map (schedule_word nk key) [4 * r, 4 * r + 1, 4 * r + 2, 4 * r + 3]"

definition decryption_round_key :: "nat \<Rightarrow> (nat \<Rightarrow> u8 list list) \<Rightarrow> nat \<Rightarrow> u8 list list" where
  "decryption_round_key n w r = (if r = 0 \<or> r = n then w (n - r) else map InvMixColumn (w (n - r)))"

definition columns :: "u8 list \<Rightarrow> u8 list list" where
  "columns bs = map (\<lambda>i. take 4 (drop (4 * i) bs)) [0..<length bs div 4]"

text \<open>The cipher on blocks of 16 bytes under a key of \<open>4 * nk\<close> bytes, and its inverse.\<close>

definition aes_block :: "nat \<Rightarrow> u8 list \<Rightarrow> u8 list \<Rightarrow> u8 list" where
  "aes_block nk key blk = concat (Cipher (nk + 6) (KeyExpansion nk (columns key)) (columns blk))"

definition aes_unblock :: "nat \<Rightarrow> u8 list \<Rightarrow> u8 list \<Rightarrow> u8 list" where
  "aes_unblock nk key blk =
    concat (EqInvCipher (nk + 6) (decryption_round_key (nk + 6) (KeyExpansion nk (columns key))) (columns blk))"

declare schedule_word.simps [simp del]

section \<open>The tables\<close>

lemma bit7_iff: "bit (b :: u8) 7 \<longleftrightarrow> \<not> b < 0x80"
proof -
  have "unat b < 256" using unsigned_less[of b] by simp
  then have "unat b div 128 = 0 \<or> unat b div 128 = 1" by linarith
  then have "odd (unat b div 128) \<longleftrightarrow> 128 \<le> unat b" by auto
  then show ?thesis by (simp add: bit_unat[symmetric] bit_iff_odd word_less_nat_alt not_less)
qed

lemma xtime_code [code]: "xtime b = (if b < 0x80 then b + b else (b + b) XOR 0x1b)"
  by (simp add: xtime_def bit7_iff mult.commute)

lemma gmul_consts:
  "gmul 1 x = x" "gmul 2 x = xtime x" "gmul 3 x = xtime x XOR x" "gmul 9 x = xtime (xtime (xtime x)) XOR x"
  "gmul 0xb x = xtime (xtime (xtime x)) XOR x XOR xtime x" "gmul 0xd x = xtime (xtime (xtime x)) XOR x XOR xtime (xtime x)"
  "gmul 0xe x = xtime (xtime (xtime x)) XOR xtime (xtime x) XOR xtime x"
  by (simp_all add: gmul_def Let_def ac_simps bit_numeral_rec bit_1_iff)

lemma len_tables [simp]: "length s_box = 256" "length inv_s_box = 256" "length f_table = 256" "length i_table = 256"
  "length li_table = 256" "length m_table = 256" "length rcon_bytes = 29"
  by (simp_all add: s_box_def inv_s_box_def f_table_def i_table_def li_table_def m_table_def rcon_bytes_def)

lemma f_table_eq: "f_table = map fwd_quad s_box"
  by code_simp

lemma i_table_eq: "i_table = map inv_quad inv_s_box"
  by code_simp

lemma li_table_eq: "li_table = inv_s_box"
  by (simp add: li_table_def inv_s_box_def)

lemma unat_all_bytes: "map unat all_bytes = [0..<256]"
  by code_simp

lemma m_table_eq: "m_table = map inv_quad all_bytes"
  by code_simp

lemma inv_s_box_check: "map (\<lambda>s. inv_s_box ! unat s) s_box = all_bytes"
  by code_simp

lemma s_box_check: "list_all s_box_ok (take 128 (zip all_bytes s_box))" "list_all s_box_ok (drop 128 (zip all_bytes s_box))"
  subgoal by code_simp
  subgoal by code_simp
  done

lemma all_bytes_nth: "all_bytes ! unat b = b"
proof -
  have "length all_bytes = 256" using arg_cong[OF unat_all_bytes, of length] by simp
  moreover have "unat b < 256" using unsigned_less[of b] by simp
  ultimately have "unat (all_bytes ! unat b) = unat b" using nth_map[of "unat b" all_bytes unat] by (simp add: unat_all_bytes del: upt_rec_numeral)
  then show ?thesis by (rule word_unat_eq_iff[THEN iffD2])
qed

lemma len_all_bytes [simp]: "length all_bytes = 256"
  using arg_cong[OF unat_all_bytes, of length] by simp

lemma unat_byte [simp]: "unat (b :: u8) < 256"
  using unsigned_less[of b] by simp

lemma rcon_check: "map xtime (butlast rcon_bytes) = tl rcon_bytes"
  by code_simp

lemma rcon_nth: "i < 29 \<Longrightarrow> rcon_bytes ! i = (xtime ^^ i) 1"
proof (induction i)
  case 0
  show ?case by (simp add: rcon_bytes_def)
next
  case (Suc i)
  have "map xtime (butlast rcon_bytes) ! i = tl rcon_bytes ! i" by (simp add: rcon_check)
  then show ?case using Suc by (simp add: nth_butlast nth_tl)
qed

section \<open>The field\<close>

lemma xtime_xor: "xtime (a XOR b) = xtime a XOR xtime b"
  by (rule bit_word_eqI) (auto simp: xtime_def bit_simps)

lemma xtime_0 [simp]: "xtime 0 = 0"
  by (simp add: xtime_def)

lemma if_xor [simp]: "(if p then x XOR y else (0 :: u8)) = (if p then x else 0) XOR (if p then y else 0)"
  by simp

lemma xtime_if: "xtime (if p then x else 0) = (if p then xtime x else 0)"
  by simp

lemma if_neq: "(if p \<noteq> q then x else (0 :: u8)) = (if p then x else 0) XOR (if q then x else 0)"
  by simp

lemma gmul_xor_right: "gmul a (b XOR c) = gmul a b XOR gmul a c"
  by (simp only: gmul_def Let_def xtime_xor if_xor) (simp only: ac_simps)

lemma gmul_xor_left: "gmul (a XOR a') b = gmul a b XOR gmul a' b"
  by (simp only: gmul_def Let_def bit_xor_iff if_neq) (simp only: ac_simps)

lemma gmul_0 [simp]: "gmul 0 b = 0" "gmul a 0 = 0"
  by (simp_all add: gmul_def)

lemma gmul_if: "gmul (if p then x else 0) d = (if p then gmul x d else 0)"
  by simp

lemma bit_xtime:
  "bit (xtime a) 0 = bit a 7" "bit (xtime a) 1 = (bit a 0 \<noteq> bit a 7)" "bit (xtime a) 2 = bit a 1"
  "bit (xtime a) 3 = (bit a 2 \<noteq> bit a 7)" "bit (xtime a) 4 = (bit a 3 \<noteq> bit a 7)" "bit (xtime a) 5 = bit a 4"
  "bit (xtime a) 6 = bit a 5" "bit (xtime a) 7 = bit a 6"
  unfolding xtime_def bit_xor_iff bit_push_bit_iff by (simp_all add: bit_numeral_rec)

lemma word8_eqI:
  "bit a 0 = bit b 0 \<Longrightarrow> bit a 1 = bit b 1 \<Longrightarrow> bit a 2 = bit b 2 \<Longrightarrow> bit a 3 = bit b 3 \<Longrightarrow> bit a 4 = bit b 4 \<Longrightarrow>
   bit a 5 = bit b 5 \<Longrightarrow> bit a 6 = bit b 6 \<Longrightarrow> bit a 7 = bit b 7 \<Longrightarrow> (a :: u8) = b"
proof (rule bit_word_eqI)
  fix n assume h: "bit a 0 = bit b 0" "bit a 1 = bit b 1" "bit a 2 = bit b 2" "bit a 3 = bit b 3" "bit a 4 = bit b 4"
    "bit a 5 = bit b 5" "bit a 6 = bit b 6" "bit a 7 = bit b 7" and "n < LENGTH(8)"
  moreover have "[0..<8] = [0, 1, 2, 3, 4, 5, 6, 7 :: nat]" by code_simp
  then have "list_all (\<lambda>n. bit a n = bit b n) [0..<8]" using h by simp
  ultimately show "bit a n = bit b n" by (simp add: list_all_iff del: upt_rec_numeral)
qed

lemma xtime8: "xtime (xtime (xtime (xtime (xtime (xtime (xtime (xtime b))))))) =
    b XOR xtime b XOR xtime (xtime (xtime b)) XOR xtime (xtime (xtime (xtime b)))"
  by (rule word8_eqI; simp only: bit_xtime bit_xor_iff; blast)

lemma gmul_xtime: "gmul (xtime a) b = xtime (gmul a b)"
  by (simp only: gmul_def Let_def bit_xtime if_neq xtime_xor xtime_if xtime8 if_xor) (simp only: ac_simps)

lemma gmul_assoc: "gmul (gmul a b) d = gmul a (gmul b d)"
proof -
  have e: "gmul a x = (if bit a 0 then x else 0) XOR (if bit a 1 then xtime x else 0) XOR (if bit a 2 then xtime (xtime x) else 0) XOR
    (if bit a 3 then xtime (xtime (xtime x)) else 0) XOR (if bit a 4 then xtime (xtime (xtime (xtime x))) else 0) XOR
    (if bit a 5 then xtime (xtime (xtime (xtime (xtime x)))) else 0) XOR
    (if bit a 6 then xtime (xtime (xtime (xtime (xtime (xtime x))))) else 0) XOR
    (if bit a 7 then xtime (xtime (xtime (xtime (xtime (xtime (xtime x)))))) else 0)" for x
    by (simp only: gmul_def Let_def)
  show ?thesis unfolding e by (simp only: gmul_xor_left gmul_if gmul_xtime)
qed

lemma xtime_powers: "xtime 1 = 2" "xtime 2 = 4" "xtime 4 = 8" "xtime 8 = 16" "xtime 16 = 32" "xtime 32 = 64" "xtime 64 = 128"
  by (simp_all add: xtime_code)

lemma gmul_1_right: "gmul a 1 = a"
  by (rule word8_eqI; simp only: gmul_def Let_def xtime_powers bit_xor_iff; simp add: bit_numeral_rec bit_1_iff if_distrib[of "\<lambda>w. bit w _"])

lemma find_all_bytes:
  assumes "P c" "\<And>d. P d \<Longrightarrow> d = c"
  shows "List.find P all_bytes = Some c"
proof (cases "List.find P all_bytes")
  case None
  have "c \<in> set all_bytes" using nth_mem[of "unat c" all_bytes] by (simp add: all_bytes_nth)
  then show ?thesis using None assms(1) by (auto simp: find_None_iff)
next
  case (Some d)
  then show ?thesis using assms(2) by (auto simp: find_Some_iff)
qed

lemma ginv_0: "ginv 0 = 0"
proof -
  have "List.find (\<lambda>c. gmul 0 c = 1) all_bytes = None" by (simp add: find_None_iff)
  then show ?thesis by (simp add: ginv_def)
qed

lemma ginv_eq:
  assumes "gmul c b = 1"
  shows "ginv b = c"
proof -
  have u: "d = c" if "gmul b d = 1" for d
  proof -
    have "d = gmul (gmul c b) d" by (simp add: assms(1) gmul_consts)
    also have "\<dots> = c" by (simp add: gmul_assoc that gmul_1_right)
    finally show ?thesis .
  qed
  have "inj (gmul b)"
  proof (rule injI)
    fix x y assume "gmul b x = gmul b y"
    then have "gmul (gmul c b) x = gmul (gmul c b) y" by (simp only: gmul_assoc)
    then show "x = y" by (simp add: assms(1) gmul_consts)
  qed
  then have "surj (gmul b)" by (simp add: finite_UNIV_inj_surj)
  then obtain d where "gmul b d = 1" by (metis surjD)
  then have "gmul b c = 1" using u by blast
  then have "List.find (\<lambda>c. gmul b c = 1) all_bytes = Some c"
    by (rule find_all_bytes[of "\<lambda>c. gmul b c = 1" c]) (rule u)
  then show ?thesis by (simp add: ginv_def)
qed

section \<open>The substitution\<close>

lemma s_box_okD:
  assumes "i < 256"
  shows "s_box_ok (all_bytes ! i, s_box ! i)"
proof -
  have "list_all s_box_ok (zip all_bytes s_box)"
    using s_box_check append_take_drop_id[of 128 "zip all_bytes s_box"] by (metis list_all_append)
  then show ?thesis using assms by (simp add: list_all_length)
qed

lemma s_box_nth: "s_box ! unat b = SubByte b"
proof -
  have ok: "s_box_ok (b, s_box ! unat b)" using s_box_okD[of "unat b"] by (simp add: all_bytes_nth)
  have "ginv b = unaffine (s_box ! unat b)"
  proof (cases "b = 0")
    case True
    then show ?thesis using ok by (auto simp: s_box_ok_def ginv_0)
  next
    case False
    then show ?thesis using ok ginv_eq by (auto simp: s_box_ok_def)
  qed
  then show ?thesis using ok by (simp add: s_box_ok_def SubByte_def)
qed

lemma inv_s_box_SubByte: "inv_s_box ! unat (SubByte b) = b"
proof -
  have "map (\<lambda>s. inv_s_box ! unat s) s_box ! unat b = b" unfolding inv_s_box_check by (rule all_bytes_nth)
  then show ?thesis by (simp add: s_box_nth)
qed

lemma f_nth: "f_table ! unat b = fwd_quad (SubByte b)"
  by (simp add: f_table_eq s_box_nth)

lemma i_nth: "i_table ! unat (b :: u8) = inv_quad (inv_s_box ! unat b)"
  unfolding i_table_eq by (rule nth_map) simp

lemma m_nth: "m_table ! unat b = inv_quad b"
  by (simp add: m_table_eq all_bytes_nth)

section \<open>Steps undone\<close>

lemma nth3 [simp]: "[a, b, c, d] ! 3 = d" "[a, b, c, d] ! 2 = c"
  by (simp_all add: numeral_3_eq_3 numeral_2_eq_2)

lemma four_words:
  assumes "length x = 4"
  obtains a b c d where "x = [a, b, c, d]"
  using assms by (auto simp: numeral_eq_Suc length_Suc_conv)

lemma InvMixColumn_MixColumn: "length c = 4 \<Longrightarrow> InvMixColumn (MixColumn c) = c"
  by (erule four_words) (simp add: gmul_consts xtime_xor, simp add: ac_simps)

lemma InvMixColumn_xor: "length a = 4 \<Longrightarrow> length b = 4 \<Longrightarrow> InvMixColumn (map2 (XOR) a b) = map2 (XOR) (InvMixColumn a) (InvMixColumn b)"
  by (erule four_words, erule four_words) (simp add: gmul_xor_right ac_simps)

lemma length_MixColumn: "length c = 4 \<Longrightarrow> length (MixColumn c) = 4" "length c = 4 \<Longrightarrow> length (InvMixColumn c) = 4"
  by (erule four_words, simp)+

lemma state16E:
  assumes "is_state s"
  obtains a0 a1 a2 a3 b0 b1 b2 b3 c0 c1 c2 c3 d0 d1 d2 d3
  where "s = [[a0, a1, a2, a3], [b0, b1, b2, b3], [c0, c1, c2, c3], [d0, d1, d2, d3]]"
proof -
  obtain a b c d where s: "s = [a, b, c, d]" using assms by (auto simp: is_state_def elim: four_words)
  then have "length a = 4" "length b = 4" "length c = 4" "length d = 4" using assms by (simp_all add: is_state_def)
  then show thesis using that unfolding s by (metis four_words)
qed

lemma is_state_steps:
  assumes "is_state s"
  shows "is_state (SubBytes s)" "is_state (ShiftRows s)" "is_state (map MixColumn s)" "is_state (map InvMixColumn s)"
  using assms length_MixColumn by (auto simp: is_state_def SubBytes_def ShiftRows_def list_all_iff)

lemma is_state_AddRoundKey: "is_state s \<Longrightarrow> is_state k \<Longrightarrow> is_state (AddRoundKey s k)"
  by (erule state16E, erule state16E) (simp add: is_state_def AddRoundKey_def)

lemma AddRoundKey_twice: "is_state s \<Longrightarrow> is_state k \<Longrightarrow> AddRoundKey (AddRoundKey s k) k = s"
  by (erule state16E, erule state16E) (simp add: AddRoundKey_def)

lemma InvSub_InvShift: "is_state s \<Longrightarrow> InvSubBytes (InvShiftRows (ShiftRows (SubBytes s))) = s"
  by (erule state16E) (simp add: InvSubBytes_def InvShiftRows_def ShiftRows_def SubBytes_def inv_s_box_SubByte)

lemma InvMix_AddRoundKey:
  "is_state s \<Longrightarrow> is_state k \<Longrightarrow> map InvMixColumn (AddRoundKey s k) = AddRoundKey (map InvMixColumn s) (map InvMixColumn k)"
  by (simp add: AddRoundKey_def is_state_def list_all_iff map_zip_map map_zip_map2) (auto simp: InvMixColumn_xor set_zip)

lemma InvMix_Mix: "is_state s \<Longrightarrow> map InvMixColumn (map MixColumn s) = s"
  by (simp add: is_state_def list_all_iff map_idI InvMixColumn_MixColumn)

section \<open>Decryption undoes encryption\<close>

lemma is_state_Round: "is_state s \<Longrightarrow> is_state k \<Longrightarrow> is_state (Round s k)"
  by (simp add: Round_def is_state_AddRoundKey is_state_steps)

lemma EqInvCipher_Cipher:
  assumes s: "is_state s" and w: "\<And>r. r \<le> n \<Longrightarrow> is_state (w r)" and "1 \<le> n"
  shows "EqInvCipher n (decryption_round_key n w) (Cipher n w s) = s"
proof -
  define S where "S r = fold (\<lambda>r s. Round s (w r)) [1..<Suc r] (AddRoundKey s (w 0))" for r
  define T where "T r = fold (\<lambda>r s. InvRound s (decryption_round_key n w r)) [1..<Suc r] (AddRoundKey (Cipher n w s) (w n))" for r
  have SS: "S (Suc r) = Round (S r) (w (Suc r))" for r by (simp add: S_def)
  have TS: "T (Suc r) = InvRound (T r) (decryption_round_key n w (Suc r))" for r by (simp add: T_def)
  have Sst: "is_state (S r)" if "r < n" for r
    using that by (induction r) (simp_all add: SS s w is_state_Round is_state_AddRoundKey, simp add: S_def s w is_state_AddRoundKey)
  obtain m where n: "n = Suc m" using assms(3) by (cases n) auto
  have C: "Cipher n w s = AddRoundKey (ShiftRows (SubBytes (S m))) (w n)"
    by (simp add: Cipher_def FinalRound_def S_def n del: upt_Suc)
  have T: "T r = ShiftRows (SubBytes (S (m - r)))" if "r \<le> m" for r
    using that
  proof (induction r)
    case 0
    have "T 0 = AddRoundKey (Cipher n w s) (w n)" by (simp add: T_def)
    then show ?case unfolding C using AddRoundKey_twice is_state_steps Sst[of m] w[of n] n by simp
  next
    case (Suc r)
    obtain j where j: "m - r = Suc j" "m - Suc r = j" "n - Suc r = Suc j" "j < n" "Suc j < n" using Suc.prems n by (cases "m - r") auto
    have "decryption_round_key n w (Suc r) = map InvMixColumn (w (Suc j))" using Suc.prems n j(3) by (simp add: decryption_round_key_def)
    then have "T (Suc r) = AddRoundKey (map InvMixColumn (S (Suc j))) (map InvMixColumn (w (Suc j)))"
      unfolding TS InvRound_def using Suc j Sst[of "Suc j"] by (simp add: InvSub_InvShift)
    also have "\<dots> = map InvMixColumn (AddRoundKey (S (Suc j)) (w (Suc j)))"
      using InvMix_AddRoundKey Sst[of "Suc j"] w[of "Suc j"] j(5) by simp
    also have "AddRoundKey (S (Suc j)) (w (Suc j)) = map MixColumn (ShiftRows (SubBytes (S j)))"
      unfolding SS Round_def using AddRoundKey_twice is_state_steps Sst[of j] w[of "Suc j"] j(4,5) by simp
    also have "map InvMixColumn \<dots> = ShiftRows (SubBytes (S j))" using InvMix_Mix is_state_steps Sst[of j] j(4) by blast
    finally show ?case using j(2) by simp
  qed
  have "EqInvCipher n (decryption_round_key n w) (Cipher n w s) = InvFinalRound (T m) (w 0)"
    by (simp add: EqInvCipher_def T_def decryption_round_key_def n del: upt_Suc)
  also have "\<dots> = AddRoundKey (S 0) (w 0)" unfolding InvFinalRound_def using T[of m] Sst[of 0] assms(3) by (simp add: InvSub_InvShift)
  also have "\<dots> = s" using AddRoundKey_twice[OF s w[of 0]] by (simp add: S_def)
  finally show ?thesis .
qed

section \<open>Blocks\<close>

lemma upt4: "[0..<4] = [0, 1, 2, 3 :: nat]"
  by code_simp

lemma columns16: "length b = 16 \<Longrightarrow> columns b = [take 4 b, take 4 (drop 4 b), take 4 (drop 8 b), take 4 (drop 12 b)]"
  by (simp add: columns_def upt4 del: upt_rec_numeral)

lemma is_state_columns: "length b = 16 \<Longrightarrow> is_state (columns b)"
  by (simp add: columns16 is_state_def)

lemma concat_columns: "length b = 16 \<Longrightarrow> concat (columns b) = b"
proof -
  assume l: "length b = 16"
  have e: "take 4 (drop n b) @ drop (n + 4) b = drop n b" for n
    using append_take_drop_id[of 4 "drop n b"] by (simp add: add.commute)
  from e[of 0] e[of 4] e[of 8] have "take 4 b @ take 4 (drop 4 b) @ take 4 (drop 8 b) @ drop 12 b = b" by simp
  then show ?thesis using l by (simp add: columns16)
qed

lemma columns_concat: "is_state s \<Longrightarrow> columns (concat s) = s"
  by (erule state16E) (simp add: columns_def upt4 del: upt_rec_numeral)

lemma length_concat_state: "is_state s \<Longrightarrow> length (concat s) = 16"
  by (erule state16E) simp

lemma length_key_word:
  assumes "0 < nk" "\<And>i. i < nk \<Longrightarrow> length (key ! i) = 4"
  shows "length (schedule_word nk key i) = 4"
proof (induction i rule: less_induct)
  case (less i)
  show ?case
  proof (cases "i < nk")
    case True
    then show ?thesis using assms(2) by (subst schedule_word.simps) simp
  next
    case False
    then show ?thesis using assms(1) less[of "i - 1"] less[of "i - nk"] by (subst schedule_word.simps) (simp add: Let_def Rcon_def)
  qed
qed

lemma is_state_KeyExpansion:
  assumes "0 < nk" "length key = 4 * nk"
  shows "is_state (KeyExpansion nk (columns key) r)"
proof -
  have "length (columns key ! i) = 4" if "i < nk" for i using that assms(2) by (simp add: columns_def)
  then show ?thesis using length_key_word[OF assms(1), of "columns key"] by (simp add: KeyExpansion_def is_state_def)
qed

lemma is_state_Cipher:
  assumes "\<And>r. is_state (w r)" "is_state s"
  shows "is_state (Cipher n w s)"
proof -
  have "is_state (fold (\<lambda>r s. Round s (w r)) rs s)" if "is_state s" for rs s
    using that by (induction rs arbitrary: s) (simp_all add: is_state_Round assms(1))
  then show ?thesis
    unfolding Cipher_def FinalRound_def using assms by (simp add: is_state_AddRoundKey is_state_steps)
qed

lemma length_aes_block:
  assumes "0 < nk" "length key = 4 * nk" "length b = 16"
  shows "length (aes_block nk key b) = 16"
  unfolding aes_block_def using assms by (intro length_concat_state is_state_Cipher is_state_KeyExpansion is_state_columns)

lemma aes_unblock_block:
  assumes "0 < nk" "length key = 4 * nk" "length b = 16"
  shows "aes_unblock nk key (aes_block nk key b) = b"
proof -
  let ?w = "KeyExpansion nk (columns key)"
  have w: "is_state (?w r)" for r by (rule is_state_KeyExpansion[OF assms(1,2)])
  have s: "is_state (columns b)" by (rule is_state_columns[OF assms(3)])
  have "EqInvCipher (nk + 6) (decryption_round_key (nk + 6) ?w) (Cipher (nk + 6) ?w (columns b)) = columns b"
    by (rule EqInvCipher_Cipher[OF s w]) simp
  then show ?thesis
    unfolding aes_unblock_def aes_block_def columns_concat[OF is_state_Cipher[OF w s]] by (simp add: concat_columns assms(3))
qed

end
