(* ===== verification/Rijndael_Cipher.thy ===== *)
theory Rijndael_Cipher
  imports Rijndael Rijndael_Standard
begin

text \<open>
  \<^verbatim>\<open>security/rijndael\<close>: \<open>set_key\<close>, \<open>encrypt\<close> and \<open>decrypt\<close> of \<^verbatim>\<open>aes.c\<close> compute the cipher of the standard with words and tables: a round of
  the program is a round of the standard, the three key loops fill in the key expansion, and decryption undoes encryption.  All of it
  is for any width of \<open>word\<close> from 32 bits on.
\<close>

unbundle bit_operations_syntax

section \<open>Specification\<close>

text \<open>The bytes of a word and of a round key.\<close>

definition cb :: "'l::len word \<Rightarrow> u8 list" where
  "cb w = [bval w 0, bval w 1, bval w 2, bval w 3]"

definition round_key :: "'l::len word list \<Rightarrow> nat \<Rightarrow> u8 list list" where
  "round_key k kp = [cb (k ! kp), cb (k ! (kp + 1)), cb (k ! (kp + 2)), cb (k ! (kp + 3))]"

definition keyed :: "nat \<Rightarrow> u8 list list \<Rightarrow> 'l::len word list \<Rightarrow> nat \<Rightarrow> bool" where
  "keyed nk key k n \<longleftrightarrow> length k = 64 \<and> (\<forall>i<n. cb (k ! i) = schedule_word nk key i)"

text \<open>What the decryption keys of the rounds from \<open>m\<close> on should be.\<close>

definition dkeyed :: "nat \<Rightarrow> 'l::len word list \<Rightarrow> 'l word list \<Rightarrow> nat \<Rightarrow> bool" where
  "dkeyed n e d m \<longleftrightarrow> length d = 64 \<and>
    (\<forall>r c. m \<le> r \<and> r \<le> n \<and> c < 4 \<longrightarrow> d ! (4 * r + c) = (if r = 0 \<or> r = n then e ! (4 * (n - r) + c) else inv_mcol (e ! (4 * (n - r) + c))))"

declare key_loop4.simps [simp del] key_loop6.simps [simp del] key_loop8.simps [simp del]

section \<open>Look-ups\<close>

lemma byte_bit [simp]: "\<not> bit (b :: u8) (8 + n)" "\<not> bit (b :: u8) (16 + n)" "\<not> bit (b :: u8) (24 + n)"
  by (auto dest: bit_imp_le_length)

lemma bval_hex4:
  assumes "32 \<le> LENGTH('l::len)"
  shows "bval (hex4 p q r s :: 'l word) 0 = s" "bval (hex4 p q r s :: 'l word) (Suc 0) = r"
    "bval (hex4 p q r s :: 'l word) 2 = q" "bval (hex4 p q r s :: 'l word) 3 = p"
  using assms by (auto intro!: bit_word_eqI simp: bval_def hex4_def bit_simps)

lemma bval_xor: "bval (a XOR b) n = bval a n XOR bval b n"
  by (rule bit_word_eqI) (auto simp: bval_def bit_simps)

lemmas table_defs = four_tables_def ft_tab_def it_tab_def fl_tab_def il_tab_def im_tab_def r0_def r1_def r2_def r3_def
  w0_def w1_def w2_def w3_def quad_q_def f_nth i_nth m_nth li_table_eq fwd_quad_def inv_quad_def Let_def bval_xor

section \<open>Rounds\<close>

lemma fwd_round:
  assumes wide: "32 \<le> LENGTH('l::len)"
  shows "map cb (round_of fwd_rnd k kp [x0, x1, x2, x3 :: 'l word]) =
    AddRoundKey (map MixColumn (ShiftRows (SubBytes (map cb [x0, x1, x2, x3 :: 'l word])))) (round_key k kp)"
  by (simp add: round_of_def fwd_rnd_def table_defs bval_hex4[OF wide] cb_def fwd_var_def nc_def rf1_def AddRoundKey_def ShiftRows_def
      SubBytes_def round_key_def gmul_consts) (simp add: ac_simps)

lemma fwd_last_round:
  assumes wide: "32 \<le> LENGTH('l::len)"
  shows "map cb (round_of fwd_lrnd k kp [x0, x1, x2, x3 :: 'l word]) =
    AddRoundKey (ShiftRows (SubBytes (map cb [x0, x1, x2, x3 :: 'l word]))) (round_key k kp)"
  by (simp add: round_of_def fwd_lrnd_def table_defs bval_hex4[OF wide] cb_def fwd_var_def nc_def rf1_def AddRoundKey_def ShiftRows_def
      SubBytes_def round_key_def) (simp add: ac_simps)

lemma inv_round:
  assumes wide: "32 \<le> LENGTH('l::len)"
  shows "map cb (round_of inv_rnd k kp [x0, x1, x2, x3 :: 'l word]) =
    AddRoundKey (map InvMixColumn (InvSubBytes (InvShiftRows (map cb [x0, x1, x2, x3 :: 'l word])))) (round_key k kp)"
  by (simp add: round_of_def inv_rnd_def table_defs bval_hex4[OF wide] cb_def inv_var_def nc_def rf1_def AddRoundKey_def InvShiftRows_def
      InvSubBytes_def round_key_def gmul_consts) (simp add: ac_simps)

lemma inv_last_round:
  assumes wide: "32 \<le> LENGTH('l::len)"
  shows "map cb (round_of inv_lrnd k kp [x0, x1, x2, x3 :: 'l word]) =
    AddRoundKey (InvSubBytes (InvShiftRows (map cb [x0, x1, x2, x3 :: 'l word]))) (round_key k kp)"
  by (simp add: round_of_def inv_lrnd_def table_defs bval_hex4[OF wide] cb_def inv_var_def nc_def rf1_def AddRoundKey_def InvShiftRows_def
      InvSubBytes_def round_key_def) (simp add: ac_simps)

lemma cb_inv_mcol:
  assumes wide: "32 \<le> LENGTH('l::len)"
  shows "cb (inv_mcol (x0 :: 'l word)) = InvMixColumn (cb x0)"
  by (simp add: inv_mcol_def table_defs bval_hex4[OF wide] cb_def rf1_def gmul_consts) (simp add: ac_simps)

lemma cb_ls_box:
  assumes wide: "32 \<le> LENGTH('l::len)"
  shows "cb (ls_box (x0 :: 'l word) 3) = map SubByte (rotate1 (cb x0))" "cb (ls_box x0 0) = map SubByte (cb x0)"
  by (simp_all add: ls_box_def table_defs bval_hex4[OF wide] cb_def rf2_def)

section \<open>The rounds of the program\<close>

lemma unat_small:
  assumes "32 \<le> LENGTH('l::len)" "x < 2 ^ 32"
  shows "unat (of_nat x :: 'l word) = x"
proof -
  have "(2 :: nat) ^ 32 \<le> 2 ^ LENGTH('l)" using assms(1) by (rule power_increasing) simp
  then have "x < 2 ^ LENGTH('l)" using assms(2) by linarith
  then show ?thesis by (simp add: unsigned_of_nat take_bit_nat_eq_self)
qed

lemma word_eq_small:
  assumes "32 \<le> LENGTH('l::len)" "numeral k < (2 :: nat) ^ 32"
  shows "(n :: 'l word) = numeral k \<longleftrightarrow> unat n = numeral k"
  using unat_small[OF assms] word_unat_eq_iff[of n "numeral k"] by simp

lemma all_rounds_fold:
  assumes "32 \<le> LENGTH('l::len)" "unat n = N" "N \<in> {10, 12, 14}" "length x = 4"
    and sim: "\<And>kp x. length x = 4 \<Longrightarrow> map cb (round_of rm k kp x) = G (map cb x) (round_key k kp)"
    and last: "\<And>kp x. length x = 4 \<Longrightarrow> map cb (round_of lrm k kp x) = L (map cb x) (round_key k kp)"
  shows "map cb (all_rounds rm lrm (n :: 'l word) k (nc, x)) =
    L (fold (\<lambda>r s. G s (round_key k (4 * r))) [1..<N] (map cb x)) (round_key k (4 * N))"
proof -
  have l [simp]: "length (round_of f k kp y) = 4" for f kp and y :: "'l word list" by (simp add: round_of_def)
  have d: "n = 10 \<longleftrightarrow> N = 10" "n = 12 \<longleftrightarrow> N = 12" "n = 14 \<longleftrightarrow> N = 14"
    by (subst word_eq_small[OF assms(1)], simp, simp only: assms(2))+
  have u: "[1..<10] = [1, 2, 3, 4, 5, 6, 7, 8, 9 :: nat]" "[1..<12] = [1, 2, 3, 4, 5, 6, 7, 8, 9, 10, 11 :: nat]"
    "[1..<14] = [1, 2, 3, 4, 5, 6, 7, 8, 9, 10, 11, 12, 13 :: nat]" by code_simp+
  show ?thesis using assms(3,4) unfolding all_rounds_def d
    by (auto simp: ten_rounds_def two_rounds_def Let_def nc_def sim last u simp del: One_nat_def upt_rec_numeral)
qed

section \<open>The key schedule\<close>

lemma cb_rcon:
  assumes "32 \<le> LENGTH('l::len)" "i < 29"
  shows "cb (rcon_tab ! i :: 'l word) = Rcon (Suc i)"
proof -
  show ?thesis using assms rcon_nth[OF assms(2)] by (simp add: cb_def rcon_tab_def w0_def bval_hex4 Rcon_def)
qed

lemma cb_xor: "cb (a XOR b) = map2 (XOR) (cb a) (cb b)"
  by (simp add: cb_def bval_xor)

lemma map2_xor_assoc: "map2 (XOR) (map2 (XOR) a b) c = map2 (XOR) a (map2 (XOR) b (c :: u8 list))"
proof (induction a arbitrary: b c)
  case (Cons x a)
  show ?case using Cons by (cases b; cases c) (simp_all add: ac_simps)
qed simp

lemma keyed_put: "keyed nk key k n \<Longrightarrow> n < 64 \<Longrightarrow> cb v = schedule_word nk key n \<Longrightarrow> keyed nk key (k[n := v]) (Suc n)"
  by (auto simp: keyed_def nth_list_update less_Suc_eq)

lemma keyed_nth: "keyed nk key k n \<Longrightarrow> i < n \<Longrightarrow> cb (k ! i) = schedule_word nk key i"
  by (simp add: keyed_def)

lemma keyed_plain:
  assumes "keyed nk key (k :: 'l::len word list) n" "n < 64" "0 < nk" "nk \<le> n" "n mod nk \<noteq> 0" "\<not> (nk > 6 \<and> n mod nk = 4)"
  shows "keyed nk key (k[n := k ! (n - nk) XOR k ! (n - 1)]) (Suc n)"
proof (rule keyed_put[OF assms(1,2)])
  show "cb (k ! (n - nk) XOR k ! (n - 1)) = schedule_word nk key n"
    using assms by (subst schedule_word.simps) (auto simp: cb_xor keyed_nth[OF assms(1)] Let_def)
qed

lemma keyed_rot:
  assumes "32 \<le> LENGTH('l)" "keyed nk key (k :: 'l::len word list) n" "n < 64" "0 < nk" "nk \<le> n" "n mod nk = 0" "n div nk = Suc i" "i < 29"
  shows "keyed nk key (k[n := k ! (n - nk) XOR ls_box (k ! (n - 1)) 3 XOR rcon_tab ! i]) (Suc n)"
proof (rule keyed_put[OF assms(2,3)])
  show "cb (k ! (n - nk) XOR ls_box (k ! (n - 1)) 3 XOR rcon_tab ! i) = schedule_word nk key n"
    using assms by (subst schedule_word.simps) (simp add: cb_xor keyed_nth[OF assms(2)] cb_ls_box cb_rcon Let_def map2_xor_assoc)
qed

lemma keyed_sub:
  assumes "32 \<le> LENGTH('l)" "keyed nk key (k :: 'l::len word list) n" "n < 64" "nk > 6" "nk \<le> n" "n mod nk = 4"
  shows "keyed nk key (k[n := k ! (n - nk) XOR ls_box (k ! (n - 1)) 0]) (Suc n)"
proof (rule keyed_put[OF assms(2,3)])
  show "cb (k ! (n - nk) XOR ls_box (k ! (n - 1)) 0) = schedule_word nk key n"
    using assms by (subst schedule_word.simps) (simp add: cb_xor keyed_nth[OF assms(2)] cb_ls_box Let_def)
qed

lemma keyed_step4:
  assumes w: "32 \<le> LENGTH('l)" and k: "keyed 4 key (k :: 'l::len word list) (4 * q + 4)" "4 * q + 8 \<le> 64"
  shows "keyed 4 key (key_step4 (4 * q) q k) (4 * q + 8)"
proof -
  define k1 where "k1 = k[4 * q + 4 := k ! (4 * q) XOR ls_box (k ! (4 * q + 3)) 3 XOR rcon_tab ! q]"
  define k2 where "k2 = k1[4 * q + 5 := k1 ! (4 * q + 1) XOR k1 ! (4 * q + 4)]"
  define k3 where "k3 = k2[4 * q + 6 := k2 ! (4 * q + 2) XOR k2 ! (4 * q + 5)]"
  have 1: "keyed 4 key k1 (4 * q + 5)" using keyed_rot[OF w k(1), of q] k(2) by (simp add: k1_def add.commute)
  have 2: "keyed 4 key k2 (4 * q + 6)" using keyed_plain[OF 1] k(2) by (simp add: k2_def add.commute)
  have 3: "keyed 4 key k3 (4 * q + 7)" using keyed_plain[OF 2] k(2) by (simp add: k3_def add.commute)
  show ?thesis using keyed_plain[OF 3] k(2) by (simp add: key_step4_def Let_def k1_def k2_def k3_def add.commute)
qed

lemma keyed_step6:
  assumes w: "32 \<le> LENGTH('l)" and k: "keyed 6 key (k :: 'l::len word list) (6 * q + 6)" "6 * q + 12 \<le> 64"
  shows "keyed 6 key (key_step6 (6 * q) q k) (6 * q + 12)"
proof -
  define k1 where "k1 = k[6 * q + 6 := k ! (6 * q) XOR ls_box (k ! (6 * q + 5)) 3 XOR rcon_tab ! q]"
  define k2 where "k2 = k1[6 * q + 7 := k1 ! (6 * q + 1) XOR k1 ! (6 * q + 6)]"
  define k3 where "k3 = k2[6 * q + 8 := k2 ! (6 * q + 2) XOR k2 ! (6 * q + 7)]"
  define k4 where "k4 = k3[6 * q + 9 := k3 ! (6 * q + 3) XOR k3 ! (6 * q + 8)]"
  define k5 where "k5 = k4[6 * q + 10 := k4 ! (6 * q + 4) XOR k4 ! (6 * q + 9)]"
  have 1: "keyed 6 key k1 (6 * q + 7)" using keyed_rot[OF w k(1), of q] k(2) by (simp add: k1_def add.commute)
  have 2: "keyed 6 key k2 (6 * q + 8)" using keyed_plain[OF 1] k(2) by (simp add: k2_def add.commute)
  have 3: "keyed 6 key k3 (6 * q + 9)" using keyed_plain[OF 2] k(2) by (simp add: k3_def add.commute)
  have 4: "keyed 6 key k4 (6 * q + 10)" using keyed_plain[OF 3] k(2) by (simp add: k4_def add.commute)
  have 5: "keyed 6 key k5 (6 * q + 11)" using keyed_plain[OF 4] k(2) by (simp add: k5_def add.commute)
  show ?thesis using keyed_plain[OF 5] k(2) by (simp add: key_step6_def Let_def k1_def k2_def k3_def k4_def k5_def add.commute)
qed

lemma keyed_step8:
  assumes w: "32 \<le> LENGTH('l)" and k: "keyed 8 key (k :: 'l::len word list) (8 * q + 8)" "8 * q + 16 \<le> 64"
  shows "keyed 8 key (key_step8 (8 * q) q k) (8 * q + 16)"
proof -
  define k1 where "k1 = k[8 * q + 8 := k ! (8 * q) XOR ls_box (k ! (8 * q + 7)) 3 XOR rcon_tab ! q]"
  define k2 where "k2 = k1[8 * q + 9 := k1 ! (8 * q + 1) XOR k1 ! (8 * q + 8)]"
  define k3 where "k3 = k2[8 * q + 10 := k2 ! (8 * q + 2) XOR k2 ! (8 * q + 9)]"
  define k4 where "k4 = k3[8 * q + 11 := k3 ! (8 * q + 3) XOR k3 ! (8 * q + 10)]"
  define k5 where "k5 = k4[8 * q + 12 := k4 ! (8 * q + 4) XOR ls_box (k4 ! (8 * q + 11)) 0]"
  define k6 where "k6 = k5[8 * q + 13 := k5 ! (8 * q + 5) XOR k5 ! (8 * q + 12)]"
  define k7 where "k7 = k6[8 * q + 14 := k6 ! (8 * q + 6) XOR k6 ! (8 * q + 13)]"
  have 1: "keyed 8 key k1 (8 * q + 9)" using keyed_rot[OF w k(1), of q] k(2) by (simp add: k1_def add.commute)
  have 2: "keyed 8 key k2 (8 * q + 10)" using keyed_plain[OF 1] k(2) by (simp add: k2_def add.commute)
  have 3: "keyed 8 key k3 (8 * q + 11)" using keyed_plain[OF 2] k(2) by (simp add: k3_def add.commute)
  have 4: "keyed 8 key k4 (8 * q + 12)" using keyed_plain[OF 3] k(2) by (simp add: k4_def add.commute)
  have 5: "keyed 8 key k5 (8 * q + 13)" using keyed_sub[OF w 4] k(2) by (simp add: k5_def add.commute)
  have 6: "keyed 8 key k6 (8 * q + 14)" using keyed_plain[OF 5] k(2) by (simp add: k6_def add.commute)
  have 7: "keyed 8 key k7 (8 * q + 15)" using keyed_plain[OF 6] k(2) by (simp add: k7_def add.commute)
  show ?thesis using keyed_plain[OF 7] k(2) by (simp add: key_step8_def Let_def k1_def k2_def k3_def k4_def k5_def k6_def k7_def add.commute)
qed

lemma keyed_loop4:
  assumes "32 \<le> LENGTH('l)" "keyed 4 key (k :: 'l::len word list) (4 * q + 4)" "q < 10"
  shows "keyed 4 key (key_loop4 (4 * q) 40 q k) 44"
  using assms(2,3)
proof (induction "10 - q" arbitrary: q k rule: less_induct)
  case less
  have s: "keyed 4 key (key_step4 (4 * q) q k) (4 * q + 8)" using keyed_step4[OF assms(1) less.prems(1)] less.prems(2) by simp
  show ?case
  proof (cases "q = 9")
    case True
    then show ?thesis using s by (subst key_loop4.simps) simp
  next
    case False
    then show ?thesis using less.hyps[of "q + 1" "key_step4 (4 * q) q k"] s less.prems(2) by (subst key_loop4.simps) (simp add: ac_simps)
  qed
qed

lemma keyed_loop6:
  assumes "32 \<le> LENGTH('l)" "keyed 6 key (k :: 'l::len word list) (6 * q + 6)" "q < 8"
  shows "keyed 6 key (key_loop6 (6 * q) 46 q k) 54"
  using assms(2,3)
proof (induction "8 - q" arbitrary: q k rule: less_induct)
  case less
  have s: "keyed 6 key (key_step6 (6 * q) q k) (6 * q + 12)" using keyed_step6[OF assms(1) less.prems(1)] less.prems(2) by simp
  show ?case
  proof (cases "q = 7")
    case True
    then show ?thesis using s by (subst key_loop6.simps) simp
  next
    case False
    then show ?thesis using less.hyps[of "q + 1" "key_step6 (6 * q) q k"] s less.prems(2) by (subst key_loop6.simps) (simp add: ac_simps)
  qed
qed

lemma keyed_loop8:
  assumes "32 \<le> LENGTH('l)" "keyed 8 key (k :: 'l::len word list) (8 * q + 8)" "q < 7"
  shows "keyed 8 key (key_loop8 (8 * q) 52 q k) 64"
  using assms(2,3)
proof (induction "7 - q" arbitrary: q k rule: less_induct)
  case less
  have s: "keyed 8 key (key_step8 (8 * q) q k) (8 * q + 16)" using keyed_step8[OF assms(1) less.prems(1)] less.prems(2) by simp
  show ?case
  proof (cases "q = 6")
    case True
    then show ?thesis using s by (subst key_loop8.simps) simp
  next
    case False
    then show ?thesis using less.hyps[of "q + 1" "key_step8 (8 * q) q k"] s less.prems(2) by (subst key_loop8.simps) (simp add: ac_simps)
  qed
qed

section \<open>Reading and writing words\<close>

lemma bval_cons:
  assumes "32 \<le> LENGTH('l::len)"
  shows "bval (ucast b OR push_bit 8 (w :: 'l word)) 0 = b"
    and "n < 3 \<Longrightarrow> bval (ucast b OR push_bit 8 (w :: 'l word)) (Suc n) = bval w n"
proof -
  show "bval (ucast b OR push_bit 8 (w :: 'l word)) 0 = b"
    using assms by (intro bit_word_eqI) (auto simp: bval_def bit_simps)
  assume n: "n < 3"
  show "bval (ucast b OR push_bit 8 (w :: 'l word)) (Suc n) = bval w n"
  proof (rule bit_word_eqI)
    fix m assume m: "m < LENGTH(8)"
    have e: "8 * Suc n + m - 8 = 8 * n + m" by simp
    have "\<not> bit b (8 * Suc n + m)" by (auto dest: bit_imp_le_length)
    moreover have "8 * Suc n + m < LENGTH('l)" using m n assms by simp
    ultimately show "bit (bval (ucast b OR push_bit 8 w) (Suc n)) m = bit (bval w n) m"
      using m by (simp add: bval_def bit_simps del: mult_Suc_right) (simp add: e ac_simps)
  qed
qed

lemma word_in_cb:
  assumes "32 \<le> LENGTH('l::len)" "p + sizeof_word TYPE('l) \<le> length mem"
  shows "\<exists>v :: 'l word. word_in mem p = Some v \<and> cb v = take 4 (drop p mem)"
proof -
  have "4 \<le> sizeof_word TYPE('l)" using assms(1) by (simp add: sizeof_word_def)
  moreover define ys where "ys = take (sizeof_word TYPE('l)) (drop p mem)"
  ultimately have "4 \<le> length ys" using assms(2) by simp
  then obtain a b c d bs where "ys = a # b # c # d # bs" by (auto simp: numeral_eq_Suc Suc_le_length_iff)
  then have bs: "take (sizeof_word TYPE('l)) (drop p mem) = a # b # c # d # bs" by (simp add: ys_def)
  moreover have "4 \<le> sizeof_word TYPE('l)" using assms(1) by (simp add: sizeof_word_def)
  ultimately have "take 4 (drop p mem) = [a, b, c, d]"
    using arg_cong[OF bs, of "take 4"] unfolding take_take by (simp add: min_absorb1)
  moreover have "cb (foldr (\<lambda>b w. ucast b OR push_bit 8 w) (a # b # c # d # bs) (0 :: 'l word)) = [a, b, c, d]"
    using bval_cons(2)[OF assms(1), of 0] bval_cons(2)[OF assms(1), of "Suc 0"] bval_cons(2)[OF assms(1), of "Suc (Suc 0)"]
    by (simp only: foldr_Cons o_apply cb_def numeral_2_eq_2 numeral_3_eq_3 One_nat_def bval_cons(1)[OF assms(1)] Suc_less_eq zero_less_Suc simp_thms)
  ultimately show ?thesis using assms(2) by (simp add: word_in_def bs Let_def)
qed

lemma word_out_ok:
  assumes "p + sizeof_word TYPE('l::len) \<le> length mem"
  shows "\<exists>bs. word_out mem p (v :: 'l word) = Some (write_at p bs mem) \<and> length bs = sizeof_word TYPE('l) \<and> (\<forall>j<length bs. bs ! j = bval v j)"
  using assms by (intro exI[of _ "map (\<lambda>j. ucast (drop_bit (8 * j) v)) [0..<sizeof_word TYPE('l)]"]) (simp add: word_out_def Let_def bval_def)

lemma state_out_bytes:
  assumes "32 \<le> LENGTH('l::len)" "12 + sizeof_word TYPE('l) \<le> length y" "length x = 4"
  shows "\<exists>out. state_out y (x :: 'l word list) = Some out \<and> length out = length y \<and> take 16 out = concat (map cb x)"
proof -
  let ?k = "sizeof_word TYPE('l)"
  have k4: "4 \<le> ?k" using assms(1) by (simp add: sizeof_word_def)
  obtain x0 x1 x2 x3 where x: "x = [x0, x1, x2, x3]" by (rule four_words[OF assms(3)])
  obtain b0 where b0: "word_out y 0 x0 = Some (write_at 0 b0 y)" "length b0 = ?k" "\<forall>j<length b0. b0 ! j = bval x0 j"
    using word_out_ok[of 0 y x0] assms(2) by auto
  let ?y0 = "write_at 0 b0 y"
  have l0: "length ?y0 = length y" using b0(2) assms(2) by simp
  obtain b1 where b1: "word_out ?y0 4 x1 = Some (write_at 4 b1 ?y0)" "length b1 = ?k" "\<forall>j<length b1. b1 ! j = bval x1 j"
    using word_out_ok[of 4 ?y0 x1] assms(2) l0 by auto
  let ?y1 = "write_at 4 b1 ?y0"
  have l1: "length ?y1 = length y" using b1(2) assms(2) l0 by simp
  obtain b2 where b2: "word_out ?y1 8 x2 = Some (write_at 8 b2 ?y1)" "length b2 = ?k" "\<forall>j<length b2. b2 ! j = bval x2 j"
    using word_out_ok[of 8 ?y1 x2] assms(2) l1 by auto
  let ?y2 = "write_at 8 b2 ?y1"
  have l2: "length ?y2 = length y" using b2(2) assms(2) l1 by simp
  obtain b3 where b3: "word_out ?y2 12 x3 = Some (write_at 12 b3 ?y2)" "length b3 = ?k" "\<forall>j<length b3. b3 ! j = bval x3 j"
    using word_out_ok[of 12 ?y2 x3] assms(2) l2 by auto
  let ?y3 = "write_at 12 b3 ?y2"
  have l3: "length ?y3 = length y" using b3(2) assms(2) l2 by simp
  have n: "?y3 ! i = (if 12 \<le> i then b3 ! (i - 12) else if 8 \<le> i then b2 ! (i - 8) else if 4 \<le> i then b1 ! (i - 4) else b0 ! i)"
    if "i < 16" for i
    using that k4 assms(2) l0 l1 l2 l3 b0(2) b1(2) b2(2) b3(2) by (auto simp: nth_write_at)
  have "take 16 ?y3 = concat (map cb x)"
  proof (rule nth_equalityI)
    show "length (take 16 ?y3) = length (concat (map cb x))" using l3 assms(2) k4 by (simp add: x cb_def)
    fix i assume "i < length (take 16 ?y3)"
    then have i: "i < 16" by simp
    have "i \<in> set [0..<16]" using i by simp
    moreover have "[0..<16] = [0, 1, 2, 3, 4, 5, 6, 7, 8, 9, 10, 11, 12, 13, 14, 15 :: nat]" by code_simp
    ultimately have "i \<in> {0, 1, 2, 3, 4, 5, 6, 7, 8, 9, 10, 11, 12, 13, 14, 15}" by (simp del: upt_rec_numeral)
    moreover have "take 16 ?y3 ! i = (if 12 \<le> i then bval x3 (i - 12) else if 8 \<le> i then bval x2 (i - 8) else if 4 \<le> i then bval x1 (i - 4) else bval x0 i)"
      using n[OF i] i b0(2,3) b1(2,3) b2(2,3) b3(2,3) k4 by auto
    ultimately show "take 16 ?y3 ! i = concat (map cb x) ! i" by (auto simp: x cb_def)
  qed
  then show ?thesis using b0(1) b1(1) b2(1) b3(1) l3 by (simp add: state_out_def x)
qed

section \<open>The decryption keys\<close>

lemma copy_words_fst: "copy_words f s (kt, kf, d) = (kt + 4, kf + 4, snd (snd (copy_words f s (kt, kf, d))))"
  by (simp add: copy_words_def)

lemma less4: "c < 4 \<Longrightarrow> c = 0 \<or> c = 1 \<or> c = 2 \<or> c = (3::nat)"
  by auto

lemma nth_copy_words:
  assumes "length d = 64" "4 * r + 3 < 64" "c < 4"
  shows "snd (snd (copy_words f s (4 * r, kf, d))) ! (4 * r + c) = f (s ! (kf + c))"
  using assms(1,2) less4[OF assms(3)] by (auto simp: copy_words_def nth_list_update)

lemma nth_copy_words_other:
  assumes "r' \<noteq> r" "c < 4"
  shows "snd (snd (copy_words f s (4 * r, kf, d))) ! (4 * r' + c) = d ! (4 * r' + c)"
proof -
  have "4 * r' + c \<noteq> 4 * r + j" if "j < 4" for j using assms that by presburger
  from this[of 0] this[of 1] this[of 2] this[of 3] show ?thesis by (simp add: copy_words_def)
qed

lemma dkeyed_copy:
  assumes "dkeyed n e d (Suc m)" "m \<le> n" "n \<le> 15" "f = (if m = 0 \<or> m = n then id else inv_mcol)"
  shows "dkeyed n e (snd (snd (copy_words f e (4 * m, 4 * (n - m), d)))) m"
  unfolding dkeyed_def
proof (intro conjI allI impI)
  show "length (snd (snd (copy_words f e (4 * m, 4 * (n - m), d)))) = 64" using assms(1) by (simp add: copy_words_def dkeyed_def)
  fix r c :: nat assume h: "m \<le> r \<and> r \<le> n \<and> c < 4"
  show "snd (snd (copy_words f e (4 * m, 4 * (n - m), d))) ! (4 * r + c) =
      (if r = 0 \<or> r = n then e ! (4 * (n - r) + c) else inv_mcol (e ! (4 * (n - r) + c)))"
  proof (cases "r = m")
    case True
    then show ?thesis using nth_copy_words[of d m c f e "4 * (n - m)"] assms h by (simp add: dkeyed_def)
  next
    case False
    then show ?thesis using nth_copy_words_other[of r m c f e] assms(1) h by (simp add: dkeyed_def)
  qed
qed

lemma dkeyed_decryption_key:
  assumes "length d = 64" "1 \<le> n" "n \<le> 15"
  shows "dkeyed n e (decryption_key n e d) 0"
proof -
  define step where "step = (\<lambda>(i :: nat) (kt, kf, d). let (kt, kf, d) = copy_words inv_mcol e (kt, kf, d) in (kt - 2 * nc, kf, d))"
  define d0 where "d0 = snd (snd (copy_words id e (4 * n, 0, d)))"
  have c0: "copy_words id e (nc * n, 0, d) = (4 * n + 4, 4, d0)" by (simp add: d0_def nc_def copy_words_def)
  have "dkeyed n e d (Suc n)" using assms(1) by (auto simp: dkeyed_def)
  then have d0: "dkeyed n e d0 n"
    using dkeyed_copy[of n e d n id] assms(3) unfolding d0_def by simp
  have loop: "\<exists>d'. fold step [1..<Suc m] (4 * n - 4, 4, d0) = (4 * (n - Suc m), 4 * Suc m, d') \<and> dkeyed n e d' (n - m)" if "m < n" for m
    using that
  proof (induction m)
    case 0
    then show ?case using d0 by (simp add: diff_mult_distrib2)
  next
    case (Suc m)
    then obtain d' where d': "fold step [1..<Suc m] (4 * n - 4, 4, d0) = (4 * (n - Suc m), 4 * Suc m, d')" "dkeyed n e d' (n - m)"
      using Suc_lessD by blast
    define d'' where "d'' = snd (snd (copy_words inv_mcol e (4 * (n - Suc m), 4 * (n - (n - Suc m)), d')))"
    have "n - m = Suc (n - Suc m)" "n - (n - Suc m) = Suc m" "n - Suc m \<noteq> n" "n - Suc m \<noteq> 0" using Suc.prems by simp_all
    then have "dkeyed n e d'' (n - Suc m)"
      using dkeyed_copy[of n e d' "n - Suc m" inv_mcol] d'(2) Suc.prems assms unfolding d''_def by simp
    moreover have "fold step [1..<Suc (Suc m)] (4 * n - 4, 4, d0) = (4 * (n - Suc (Suc m)), 4 * Suc (Suc m), d'')"
    proof -
      have cw: "copy_words inv_mcol e (4 * (n - Suc m), 4 * Suc m, d') = (4 * (n - Suc m) + 4, 4 * Suc m + 4, d'')"
        unfolding d''_def \<open>n - (n - Suc m) = Suc m\<close> by (rule copy_words_fst)
      have "fold step [1..<Suc (Suc m)] (4 * n - 4, 4, d0) = step (Suc m) (4 * (n - Suc m), 4 * Suc m, d')"
        using d'(1) by simp
      also have "\<dots> = (4 * (n - Suc m) + 4 - 2 * nc, 4 * Suc m + 4, d'')"
        using cw by (simp only: step_def prod.case Let_def)
      also have "\<dots> = (4 * (n - Suc (Suc m)), 4 * Suc (Suc m), d'')" by (simp add: nc_def)
      finally show ?thesis .
    qed
    ultimately show ?case by blast
  qed
  obtain m where m: "n = Suc m" using assms(2) by (cases n) auto
  obtain d' where d': "fold step [1..<n] (4 * n - 4, 4, d0) = (0, 4 * n, d')" "dkeyed n e d' 1"
    using loop[of m] by (auto simp: m)
  have k: "4 * n + 4 - 2 * nc = 4 * n - 4" by (simp add: nc_def)
  have "decryption_key n e d =
      (let (kt, kf, d) = fold step [1..<n] (4 * n + 4 - 2 * nc, 4, d0); (kt, kf, d) = copy_words id e (kt, kf, d) in d)"
    by (simp only: decryption_key_def c0 step_def Let_def prod.case)
  also have "\<dots> = snd (snd (copy_words id e (0, 4 * n, d')))"
    unfolding k d'(1) Let_def prod.case by (simp add: copy_words_def)
  finally have "decryption_key n e d = snd (snd (copy_words id e (0, 4 * n, d')))" .
  then show ?thesis using dkeyed_copy[of n e d' 0 id] d'(2) assms by simp
qed

lemma round_key_decryption:
  assumes "32 \<le> LENGTH('l::len)" "dkeyed n (e :: 'l word list) d 0" "r \<le> n"
  shows "round_key d (4 * r) = decryption_round_key n (\<lambda>r. round_key e (4 * r)) r"
proof -
  have k: "d ! (4 * r + c) = (if r = 0 \<or> r = n then e ! (4 * (n - r) + c) else inv_mcol (e ! (4 * (n - r) + c)))" if "c < 4" for c
    using assms(2,3) that unfolding dkeyed_def by blast
  show ?thesis using k[of 0] k[of 1] k[of 2] k[of 3]
    by (auto simp: round_key_def decryption_round_key_def cb_inv_mcol[OF assms(1)])
qed

lemma round_key_encryption:
  assumes "keyed nk key k (4 * n + 4)" "r \<le> n"
  shows "round_key k (4 * r) = KeyExpansion nk key r"
proof -
  have "4 * r + 3 < 4 * n + 4" using assms(2) by simp
  then show ?thesis using keyed_nth[OF assms(1)] by (simp add: round_key_def KeyExpansion_def)
qed

section \<open>Setting a key\<close>

lemma load_key_ok:
  assumes "32 \<le> LENGTH('l::len)" "n \<le> m" "m \<le> 64" "0 < m" "4 * (m - 1) + sizeof_word TYPE('l) \<le> length in_key"
    and "length (k :: 'l word list) = 64" "\<forall>i<n. cb (k ! i) = take 4 (drop (4 * i) in_key)"
  shows "\<exists>k'. load_key in_key [n..<m] k = Some k' \<and> length k' = 64 \<and> (\<forall>i<m. cb (k' ! i) = take 4 (drop (4 * i) in_key))"
  using assms(2,6,7)
proof (induction "m - n" arbitrary: n k)
  case 0
  then show ?case by auto
next
  case (Suc d)
  then have nm: "n < m" "[n..<m] = n # [Suc n..<m]" "d = m - Suc n" by (simp_all add: upt_conv_Cons)
  have "4 * n + sizeof_word TYPE('l) \<le> length in_key" using assms(5) nm(1) by linarith
  then obtain v :: "'l word" where v: "word_in in_key (4 * n) = Some v" "cb v = take 4 (drop (4 * n) in_key)"
    using word_in_cb[OF assms(1)] by blast
  have "\<forall>i<Suc n. cb (k[n := v] ! i) = take 4 (drop (4 * i) in_key)"
    using Suc.prems v(2) nm(1) assms(3) by (auto simp: nth_list_update less_Suc_eq)
  then show ?case using Suc.hyps(1)[of "Suc n" "k[n := v]"] nm Suc.prems v(1) by simp
qed

lemma keyed_loaded:
  assumes "length (k :: 'l::len word list) = 64" "\<forall>i<nk. cb (k ! i) = take 4 (drop (4 * i) in_key)" "4 * nk \<le> length in_key"
  shows "keyed nk (columns (take (4 * nk) in_key)) k nk"
  unfolding keyed_def
proof (intro conjI allI impI)
  fix i assume i: "i < nk"
  have "take 4 (drop (4 * i) (take (4 * nk) in_key)) = take 4 (drop (4 * i) in_key)"
    using i by (simp add: drop_take min_def)
  then show "cb (k ! i) = schedule_word nk (columns (take (4 * nk) in_key)) i"
    using i assms(2,3) by (subst schedule_word.simps) (simp add: columns_def min_absorb2)
qed (rule assms(1))

lemma f_and_3: "(f :: u8) AND 1 = 0 \<and> f AND 2 = 0 \<longleftrightarrow> f AND 3 = 0"
  by (auto simp: bit_eq_iff bit_simps bit_numeral_rec split: nat.splits)

lemma set_key_check:
  assumes "32 \<le> LENGTH('l::len)" "nk \<in> {4, 6, 8}"
  defines "n \<equiv> of_nat (4 * nk) :: 'l word"
  shows "n AND 7 = 0" "\<not> n < 16" "\<not> n > 32" "drop_bit 2 n = of_nat nk" "Nr (of_nat nk :: 'l word) (of_nat nc) = of_nat (nk + 6)"
proof -
  have s: "unat (of_nat x :: 'l word) = x" if "x < 2 ^ 32" for x using unat_small[OF assms(1) that] .
  have n: "unat n = 4 * nk" unfolding n_def by (rule s) (use assms(2) in auto)
  have "unat (n AND mask 3) = 0" unfolding unat_and_mask n using assms(2) by auto
  then show "n AND 7 = 0" by (simp add: mask_eq_exp_minus_1 word_unat_eq_iff)
  show "\<not> n < 16" "\<not> n > 32" using n s[of 16] s[of 32] assms(2) by (auto simp: word_less_nat_alt)
  show "drop_bit 2 n = of_nat nk" using n s[of nk] assms(2) by (auto simp: word_unat_eq_iff unat_drop_bit)
  show "Nr (of_nat nk :: 'l word) (of_nat nc) = of_nat (nk + 6)"
    using s[of nk] s[of 4] assms(2) by (auto simp: Nr_def nc_def word_less_nat_alt)
qed

lemma set_key_ok:
  fixes cx :: "'l::len word aes"
  assumes w: "32 \<le> LENGTH('l)" and nk: "nk \<in> {4, 6, 8}" and l: "length (e_key cx) = 64" "length (d_key cx) = 64"
    and r: "4 * (nk - 1) + sizeof_word TYPE('l) \<le> length in_key" and f: "f AND 3 \<noteq> 0"
  shows "\<exists>cx'. set_key in_key (of_nat (4 * nk)) f cx = Some (aes_good, cx') \<and> unat (Nrnd cx') = nk + 6 \<and>
    keyed nk (columns (take (4 * nk) in_key)) (e_key cx') (4 * (nk + 6) + 4) \<and> mode cx' AND 3 = f AND 3 \<and>
    (f AND 3 \<noteq> 1 \<longrightarrow> dkeyed (nk + 6) (e_key cx') (d_key cx') 0)"
proof -
  let ?key = "columns (take (4 * nk) in_key)"
  have k4: "4 \<le> sizeof_word TYPE('l)" using w by (simp add: sizeof_word_def)
  then have len: "4 * nk \<le> length in_key" "4 * (4 - 1) + sizeof_word TYPE('l) \<le> length in_key" using r nk by auto
  note chk = set_key_check[OF w nk]
  have sm: "nk + 6 < 2 ^ 32" "nk < 2 ^ 32" using nk by auto
  note u = unat_small[OF w sm(1)] unat_small[OF w sm(2)]
  obtain k0 :: "'l word list" where k0: "load_key in_key [0..<4] (e_key cx) = Some k0" "length k0 = 64"
    "\<forall>i<4. cb (k0 ! i) = take 4 (drop (4 * i) in_key)"
    using load_key_ok[OF w, of 0 4 in_key "e_key cx"] len(2) l(1) by auto
  have e: "(of_nat nk :: 'l word) = 4 \<longleftrightarrow> nk = 4" "(of_nat nk :: 'l word) = 6 \<longleftrightarrow> nk = 6" "(of_nat nk :: 'l word) = 8 \<longleftrightarrow> nk = 8"
    by (subst word_eq_small[OF w], simp, simp only: u)+
  define sched where "sched = (if nk = 4 then Some (key_loop4 0 40 0 k0)
     else if nk = 6 then do { k \<leftarrow> load_key in_key [4..<6] k0; Some (key_loop6 0 46 0 k) }
     else do { k \<leftarrow> load_key in_key [4..<8] k0; Some (key_loop8 0 52 0 k) })"
  have "\<exists>k. sched = Some k \<and> keyed nk ?key k (4 * (nk + 6) + 4)"
  proof -
    consider "nk = 4" | "nk = 6" | "nk = 8" using nk by auto
    then show ?thesis
    proof cases
      case 1
      then have "keyed 4 ?key k0 4" using keyed_loaded[of k0 nk in_key] k0 len(1) by simp
      then show ?thesis using keyed_loop4[OF w, of ?key k0 0] 1 by (simp add: sched_def)
    next
      case 2
      then obtain k where k: "load_key in_key [4..<6] k0 = Some k" "length k = 64" "\<forall>i<6. cb (k ! i) = take 4 (drop (4 * i) in_key)"
        using load_key_ok[OF w, of 4 6 in_key k0] r k0 by auto
      then have "keyed 6 ?key k 6" using keyed_loaded[of k nk in_key] len(1) 2 by simp
      then have "keyed 6 ?key (key_loop6 0 46 0 k) 54" using keyed_loop6[OF w, of ?key k 0] by simp
      then show ?thesis using k(1) 2 by (simp add: sched_def keyed_def)
    next
      case 3
      then obtain k where k: "load_key in_key [4..<8] k0 = Some k" "length k = 64" "\<forall>i<8. cb (k ! i) = take 4 (drop (4 * i) in_key)"
        using load_key_ok[OF w, of 4 8 in_key k0] r k0 by auto
      then have "keyed 8 ?key k 8" using keyed_loaded[of k nk in_key] len(1) 3 by simp
      then have "keyed 8 ?key (key_loop8 0 52 0 k) 64" using keyed_loop8[OF w, of ?key k 0] by simp
      then show ?thesis using k(1) 3 by (simp add: sched_def keyed_def)
    qed
  qed
  then obtain k where k: "sched = Some k" "keyed nk ?key k (4 * (nk + 6) + 4)" by blast
  define n N R where nNR: "n = (of_nat (4 * nk) :: 'l word)" "N = (of_nat nk :: 'l word)" "R = (of_nat (nk + 6) :: 'l word)"
  have nz: "\<not> (n AND 7 \<noteq> 0 \<or> n < 16 \<or> n > 32 \<or> f AND 1 = 0 \<and> f AND 2 = 0)"
    unfolding nNR f_and_3 using chk(1-3) f by simp
  have N: "drop_bit 2 n = N" "Nr N (of_nat nc) = R" "N = 4 \<longleftrightarrow> nk = 4" "N = 6 \<longleftrightarrow> nk = 6" "N = 8 \<longleftrightarrow> nk = 8" "unat N = nk" "unat R = nk + 6"
    unfolding nNR using chk(4,5) e u by simp_all
  define cx1 where "cx1 = cx\<lparr>mode := (mode cx AND NOT 3) OR (f AND 3), Nkey := N, Nrnd := R, e_key := k\<rparr>"
  have m: "mode cx1 AND 3 = f AND 3"
    by (rule bit_word_eqI) (auto simp: cx1_def bit_simps)
  have sk: "set_key in_key n f cx = Some (aes_good, if f AND 3 \<noteq> 1 then cx1\<lparr>d_key := decryption_key (nk + 6) k (d_key cx)\<rparr> else cx1)"
  proof -
    have "nk = 4 \<or> nk = 6 \<or> nk = 8" using nk by simp
    moreover have "Nr N 4 = R" using N(2) by (simp add: nc_def)
    ultimately show ?thesis using k(1) m unfolding set_key_def if_not_P[OF nz]
      by (elim disjE) (auto simp: Let_def N k0(1) nc_def sched_def cx1_def split: bind_splits simp del: upt_rec_numeral load_key.simps)
  qed
  have "dkeyed (nk + 6) k (decryption_key (nk + 6) k (d_key cx)) 0" by (rule dkeyed_decryption_key) (use l nk in auto)
  then show ?thesis using sk m k(2) N(7) unfolding nNR(1)[symmetric] by (cases "f AND 3 = 1") (simp_all add: cx1_def)
qed

section \<open>The entry points\<close>

lemma state_in_ok:
  assumes "32 \<le> LENGTH('l::len)" "12 + sizeof_word TYPE('l) \<le> length x"
  shows "\<exists>b. state_in x (k :: 'l word list) = Some b \<and> length b = 4 \<and> map cb b = AddRoundKey (columns (take 16 x)) (round_key k 0)"
proof -
  have k4: "4 \<le> sizeof_word TYPE('l)" using assms(1) by (simp add: sizeof_word_def)
  then have l: "length (take 16 x) = 16" using assms(2) by simp
  obtain v0 v1 v2 v3 :: "'l word" where v: "word_in x 0 = Some v0" "cb v0 = take 4 (drop 0 x)" "word_in x 4 = Some v1" "cb v1 = take 4 (drop 4 x)"
    "word_in x 8 = Some v2" "cb v2 = take 4 (drop 8 x)" "word_in x 12 = Some v3" "cb v3 = take 4 (drop 12 x)"
    using word_in_cb[OF assms(1), of 0 x] word_in_cb[OF assms(1), of 4 x] word_in_cb[OF assms(1), of 8 x] word_in_cb[OF assms(1), of 12 x] assms(2)
    by auto
  have "columns (take 16 x) = [cb v0, cb v1, cb v2, cb v3]"
    unfolding columns16[OF l] v by (simp add: take_drop min_def)
  then show ?thesis using v by (simp add: state_in_def AddRoundKey_def round_key_def cb_xor numeral_2_eq_2 numeral_3_eq_3)
qed

lemma fwd_round4:
  assumes "32 \<le> LENGTH('l::len)" "length (x :: 'l word list) = 4"
  shows "map cb (round_of fwd_rnd k kp x) = Round (map cb x) (round_key k kp)"
    "map cb (round_of fwd_lrnd k kp x) = FinalRound (map cb x) (round_key k kp)"
    "map cb (round_of inv_rnd k kp x) = InvRound (map cb x) (round_key k kp)"
    "map cb (round_of inv_lrnd k kp x) = InvFinalRound (map cb x) (round_key k kp)"
  by (rule four_words[OF assms(2)], simp only: Round_def FinalRound_def InvRound_def InvFinalRound_def fwd_round[OF assms(1)]
      fwd_last_round[OF assms(1)] inv_round[OF assms(1)] inv_last_round[OF assms(1)])+

lemma length_ten_rounds: "length (ten_rounds rm lrm k s) = 4"
proof -
  have "length (round_of rm k kp x) = 4" for rm kp x by (simp add: round_of_def)
  then show ?thesis by (cases s) (simp only: ten_rounds_def Let_def prod.case)
qed

lemma length_all_rounds: "length x = 4 \<Longrightarrow> length (all_rounds rm lrm n k (kp, x)) = 4"
  by (simp only: all_rounds_def length_ten_rounds snd_conv if_cancel split: if_splits) simp

lemma rounds_of_nk: "nk \<in> {4, 6, 8} \<Longrightarrow> nk + 6 \<in> {10, 12, 14 :: nat}"
  by auto

lemma fold_cong_upto: "(\<And>r. r \<in> set rs \<Longrightarrow> f r = g r) \<Longrightarrow> fold f rs s = fold g rs s"
  by (rule fold_cong) auto

lemma aes_encrypt_ok:
  fixes cx :: "'l::len word aes"
  assumes w: "32 \<le> LENGTH('l)" and nk: "nk \<in> {4, 6, 8}" and n: "unat (Nrnd cx) = nk + 6"
    and k: "keyed nk (columns key) (e_key cx) (4 * (nk + 6) + 4)" and m: "mode cx AND 1 \<noteq> 0"
    and l: "12 + sizeof_word TYPE('l) \<le> length in_blk" "12 + sizeof_word TYPE('l) \<le> length out_blk"
  shows "\<exists>out. aes_encrypt in_blk out_blk cx = Some (aes_good, out) \<and> length out = length out_blk \<and>
    take 16 out = aes_block nk key (take 16 in_blk)"
proof -
  let ?w = "KeyExpansion nk (columns key)"
  have rk: "round_key (e_key cx) (4 * r) = ?w r" if "r \<le> nk + 6" for r by (rule round_key_encryption[OF k that])
  obtain b where b: "state_in in_blk (e_key cx) = Some b" "length b = 4" "map cb b = AddRoundKey (columns (take 16 in_blk)) (round_key (e_key cx) 0)"
    using state_in_ok[OF w l(1)] by blast
  define c where "c = all_rounds fwd_rnd fwd_lrnd (Nrnd cx) (e_key cx) (nc, b)"
  have "map cb c = FinalRound (fold (\<lambda>r s. Round s (round_key (e_key cx) (4 * r))) [1..<nk + 6] (map cb b)) (round_key (e_key cx) (4 * (nk + 6)))"
    unfolding c_def by (rule all_rounds_fold[OF w n rounds_of_nk[OF nk] b(2)]) (simp_all add: fwd_round4[OF w])
  also have "fold (\<lambda>r s. Round s (round_key (e_key cx) (4 * r))) [1..<nk + 6] (map cb b) = fold (\<lambda>r s. Round s (?w r)) [1..<nk + 6] (map cb b)"
    by (rule fold_cong_upto) (simp add: rk)
  finally have c: "map cb c = Cipher (nk + 6) ?w (columns (take 16 in_blk))"
    using rk[of 0] rk[of "nk + 6"] by (simp add: Cipher_def b(3))
  have "length c = 4" unfolding c_def by (rule length_all_rounds[OF b(2)])
  then obtain out where "state_out out_blk c = Some out" "length out = length out_blk" "take 16 out = concat (map cb c)"
    using state_out_bytes[OF w l(2)] by blast
  then show ?thesis using m b(1) c by (simp add: aes_encrypt_def c_def[symmetric] aes_block_def)
qed

lemma aes_decrypt_ok:
  fixes cx :: "'l::len word aes"
  assumes w: "32 \<le> LENGTH('l)" and nk: "nk \<in> {4, 6, 8}" and n: "unat (Nrnd cx) = nk + 6"
    and k: "keyed nk (columns key) (e_key cx) (4 * (nk + 6) + 4)" and d: "dkeyed (nk + 6) (e_key cx) (d_key cx) 0"
    and m: "mode cx AND 2 \<noteq> 0"
    and l: "12 + sizeof_word TYPE('l) \<le> length in_blk" "12 + sizeof_word TYPE('l) \<le> length out_blk"
  shows "\<exists>out. aes_decrypt in_blk out_blk cx = Some (aes_good, out) \<and> length out = length out_blk \<and>
    take 16 out = aes_unblock nk key (take 16 in_blk)"
proof -
  let ?w = "decryption_round_key (nk + 6) (KeyExpansion nk (columns key))"
  have rk: "round_key (d_key cx) (4 * r) = ?w r" if "r \<le> nk + 6" for r
    unfolding round_key_decryption[OF w d that] decryption_round_key_def using round_key_encryption[OF k] by simp
  obtain b where b: "state_in in_blk (d_key cx) = Some b" "length b = 4" "map cb b = AddRoundKey (columns (take 16 in_blk)) (round_key (d_key cx) 0)"
    using state_in_ok[OF w l(1)] by blast
  define c where "c = all_rounds inv_rnd inv_lrnd (Nrnd cx) (d_key cx) (nc, b)"
  have "map cb c = InvFinalRound (fold (\<lambda>r s. InvRound s (round_key (d_key cx) (4 * r))) [1..<nk + 6] (map cb b)) (round_key (d_key cx) (4 * (nk + 6)))"
    unfolding c_def by (rule all_rounds_fold[OF w n rounds_of_nk[OF nk] b(2)]) (simp_all add: fwd_round4[OF w])
  also have "fold (\<lambda>r s. InvRound s (round_key (d_key cx) (4 * r))) [1..<nk + 6] (map cb b) = fold (\<lambda>r s. InvRound s (?w r)) [1..<nk + 6] (map cb b)"
    by (rule fold_cong_upto) (simp add: rk)
  finally have c: "map cb c = EqInvCipher (nk + 6) ?w (columns (take 16 in_blk))"
    using rk[of 0] rk[of "nk + 6"] by (simp add: EqInvCipher_def b(3))
  have "length c = 4" unfolding c_def by (rule length_all_rounds[OF b(2)])
  then obtain out where "state_out out_blk c = Some out" "length out = length out_blk" "take 16 out = concat (map cb c)"
    using state_out_bytes[OF w l(2)] by blast
  then show ?thesis using m b(1) c by (simp add: aes_decrypt_def c_def[symmetric] aes_unblock_def)
qed

section \<open>Properties\<close>

lemma legal_length:
  assumes "32 \<le> LENGTH('l::len)" "(n :: 'l word) AND 7 = 0" "\<not> n < 16" "\<not> n > 32"
  shows "unat n \<in> {16, 24, 32}"
proof -
  have s: "unat (of_nat x :: 'l word) = x" if "x < 2 ^ 32" for x using unat_small[OF assms(1) that] .
  have "unat n mod 8 = unat (n AND mask 3)" by (simp add: unat_and_mask)
  also have "\<dots> = 0" using assms(2) by (simp add: mask_eq_exp_minus_1)
  finally obtain q where q: "unat n = 8 * q" by (auto simp: mod_eq_0_iff_dvd)
  have "16 \<le> unat n" "unat n \<le> 32" using assms(3,4) s[of 16] s[of 32] by (simp_all add: word_less_nat_alt)
  then have "q = 2 \<or> q = 3 \<or> q = 4" unfolding q by presburger
  then show ?thesis using q by auto
qed

text \<open>
  A call of \<open>set_key\<close> with a key length that is not 16, 24 or 32, or for neither direction, leaves a context that can do nothing:
  \<open>encrypt\<close> and \<open>decrypt\<close> then report \<open>aes_bad\<close> and leave the output block alone.
\<close>

theorem set_key_refuses:
  fixes cx :: "'l::len word aes"
  assumes "32 \<le> LENGTH('l)" "n \<noteq> 0" "unat n \<notin> {16, 24, 32} \<or> f AND 3 = 0"
  shows "\<exists>cx'. set_key in_key n f cx = Some (aes_bad, cx') \<and>
    aes_encrypt in_blk out_blk cx' = Some (aes_bad, out_blk) \<and> aes_decrypt in_blk out_blk cx' = Some (aes_bad, out_blk)"
proof -
  have bad: "n AND 7 \<noteq> 0 \<or> n < 16 \<or> n > 32 \<or> f AND 1 = 0 \<and> f AND 2 = 0"
    unfolding f_and_3 using legal_length[OF assms(1), of n] assms(3) by blast
  have "(x AND - 4) AND 1 = (0 :: u8)" "(x AND - 4) AND 2 = (0 :: u8)" for x
    by (rule word8_eqI; simp add: bit_simps bit_numeral_rec)+
  then show ?thesis unfolding set_key_def if_P[OF bad] using assms(2) by (simp add: aes_encrypt_def aes_decrypt_def)
qed

theorem set_key_refuses_witness:
  "\<exists>cx' :: 32 word aes. set_key (replicate 20 7) 20 3 \<lparr>Nkey = 0, Nrnd = 0, e_key = replicate 64 0, d_key = replicate 64 0, mode = 0\<rparr> = Some (aes_bad, cx') \<and>
    aes_encrypt (replicate 16 1) (replicate 16 2) cx' = Some (aes_bad, replicate 16 2) \<and>
    aes_decrypt (replicate 16 1) (replicate 16 2) cx' = Some (aes_bad, replicate 16 2)"
  by (rule set_key_refuses) simp_all

text \<open>
  C12.  The cipher is that of the standard: with a key of 16, 24 or 32 bytes for both directions \<open>set_key\<close> succeeds, \<open>encrypt\<close> writes the
  FIPS 197 encryption of the input block to the output block, and \<open>decrypt\<close> turns that back into the input, whatever was in the
  context before and whatever the width of \<open>word\<close> from 32 bits on; when it is more, the arrays must be as much longer as the last
  word reaches behind the block or key.
\<close>

theorem aes_standard:
  fixes cx :: "'l::len word aes"
  assumes "32 \<le> LENGTH('l)" "nk \<in> {4, 6, 8}" "length (e_key cx) = 64" "length (d_key cx) = 64"
    and "4 * (nk - 1) + sizeof_word TYPE('l) \<le> length key" "f AND 3 = 3"
  shows "\<exists>cx'. set_key key (of_nat (4 * nk)) f cx = Some (aes_good, cx') \<and>
    (\<forall>in_blk out_blk buf. 12 + sizeof_word TYPE('l) \<le> length in_blk \<and> 12 + sizeof_word TYPE('l) \<le> length out_blk \<and>
        12 + sizeof_word TYPE('l) \<le> length buf \<longrightarrow>
      (\<exists>out res. aes_encrypt in_blk out_blk cx' = Some (aes_good, out) \<and> take 16 out = aes_block nk (take (4 * nk) key) (take 16 in_blk) \<and>
        aes_decrypt out buf cx' = Some (aes_good, res) \<and> take 16 res = take 16 in_blk))"
proof -
  have k4: "4 \<le> sizeof_word TYPE('l)" using assms(1) by (simp add: sizeof_word_def)
  then have l: "length (take (4 * nk) key) = 4 * nk" "0 < nk" using assms(2,5) by auto
  have "f AND 3 \<noteq> 0" using assms(6) by simp
  from set_key_ok[OF assms(1-5) this] obtain cx' where
    c: "set_key key (of_nat (4 * nk)) f cx = Some (aes_good, cx')" "unat (Nrnd cx') = nk + 6"
    "keyed nk (columns (take (4 * nk) key)) (e_key cx') (4 * (nk + 6) + 4)" "mode cx' AND 3 = 3" "dkeyed (nk + 6) (e_key cx') (d_key cx') 0"
    unfolding assms(6) by auto
  have "(mode cx' AND 3) AND 1 = mode cx' AND 1" "(mode cx' AND 3) AND 2 = mode cx' AND 2" by (simp_all add: and.assoc)
  then have m: "mode cx' AND 1 \<noteq> 0" "mode cx' AND 2 \<noteq> 0" unfolding c(4) by auto
  have "\<exists>out res. aes_encrypt b v cx' = Some (aes_good, out) \<and> take 16 out = aes_block nk (take (4 * nk) key) (take 16 b) \<and>
      aes_decrypt out u cx' = Some (aes_good, res) \<and> take 16 res = take 16 b"
    if b: "12 + sizeof_word TYPE('l) \<le> length b" "12 + sizeof_word TYPE('l) \<le> length v" "12 + sizeof_word TYPE('l) \<le> length u" for b v u
  proof -
    obtain out where en: "aes_encrypt b v cx' = Some (aes_good, out)" "length out = length v" "take 16 out = aes_block nk (take (4 * nk) key) (take 16 b)"
      using aes_encrypt_ok[OF assms(1,2) c(2,3) m(1) b(1,2)] by blast
    obtain res where "aes_decrypt out u cx' = Some (aes_good, res)" "take 16 res = aes_unblock nk (take (4 * nk) key) (take 16 out)"
      using aes_decrypt_ok[OF assms(1,2) c(2,3,5) m(2) _ b(3), of out] en(2) b(2) by auto
    moreover have "aes_unblock nk (take (4 * nk) key) (take 16 out) = take 16 b"
      unfolding en(3) by (rule aes_unblock_block[OF l(2,1)]) (use b(1) k4 in simp)
    ultimately show ?thesis using en(1,3) by auto
  qed
  then show ?thesis using c(1) by blast
qed

theorem aes_standard_witness:
  "\<exists>cx' :: 32 word aes. set_key (replicate 32 7) (of_nat (4 * 8)) 3 \<lparr>Nkey = 0, Nrnd = 0, e_key = replicate 64 0, d_key = replicate 64 0, mode = 0\<rparr> =
      Some (aes_good, cx') \<and>
    (\<exists>out res. aes_encrypt (replicate 16 1) (replicate 16 2) cx' = Some (aes_good, out) \<and>
      take 16 out = aes_block 8 (take (4 * 8) (replicate 32 7)) (take 16 (replicate 16 1)) \<and>
      aes_decrypt out (replicate 16 0) cx' = Some (aes_good, res) \<and> take 16 res = take 16 (replicate 16 1))"
proof -
  let ?cx = "\<lparr>Nkey = 0, Nrnd = 0, e_key = replicate 64 0, d_key = replicate 64 0, mode = 0\<rparr> :: 32 word aes"
  have s: "sizeof_word TYPE(32) = 4" by (simp add: sizeof_word_def)
  obtain cx' :: "32 word aes" where c: "set_key (replicate 32 7) (of_nat (4 * 8)) 3 ?cx = Some (aes_good, cx')"
    and "\<forall>in_blk out_blk buf. 12 + 4 \<le> length in_blk \<and> 12 + 4 \<le> length out_blk \<and> 12 + 4 \<le> length buf \<longrightarrow>
      (\<exists>out res. aes_encrypt in_blk out_blk cx' = Some (aes_good, out) \<and> take 16 out = aes_block 8 (take (4 * 8) (replicate 32 7)) (take 16 in_blk) \<and>
        aes_decrypt out buf cx' = Some (aes_good, res) \<and> take 16 res = take 16 in_blk)"
    using aes_standard[of 8 ?cx "replicate 32 7" 3] unfolding s by (auto simp del: of_nat_mult of_nat_numeral)
  from this(2)[rule_format, of "replicate 16 1" "replicate 16 2" "replicate 16 0"] c show ?thesis by (simp del: of_nat_mult of_nat_numeral)
qed

end
