(* ===== verification/Rijndael_File.thy ===== *)
theory Rijndael_File
  imports Rijndael_Cipher
begin

text \<open>
  \<^verbatim>\<open>security/rijndael/aesxam.c\<close>: the program that encrypts and decrypts files in cipher block chaining mode.  The file is chained behind a
  pseudo-random block; its first byte carries the length of the file modulo 16, the last block is filled up with zeros.  The chaining
  is proved for any block cipher (\<open>block_cipher\<close>) and used with the one of \<^verbatim>\<open>aes.c\<close>: with a \<open>word\<close> of 32 bits, as \<^verbatim>\<open>aes.h\<close> demands, a file
  comes back from encryption and decryption; with the 64 bits \<open>unsigned long\<close> has on LP64 targets the program leaves its arrays.

  A FILE is the bytes in it, an \<open>int\<close> shifted to the left wraps around, \<open>fpos_t\<close> is an integer (as the source uses it), and the input and
  the output are different files.  Messages are not modelled.
\<close>

unbundle bit_operations_syntax

section \<open>Definitions\<close>

subsection \<open>Pseudo-random bytes\<close>

text \<open>The static variables of \<open>fillrand\<close>; \<open>unsigned long\<close> is \<open>'l word\<close>.\<close>

record 'long fillrand_state =
  rand_a :: 'long
  rand_b :: 'long
  mt :: 'long
  rand_count :: 'long
  rand_r :: "u8 list"

definition fillrand_init :: "'l::len word fillrand_state" where
  "fillrand_init = \<lparr>rand_a = 0, rand_b = 0, mt = 1, rand_count = 4, rand_r = replicate 4 0\<rparr>"

definition RAND :: "'l::len word \<Rightarrow> 'l word \<Rightarrow> 'l word \<times> 'l word \<times> 'l word" where
  "RAND a b =
    (let a = 36969 * (a AND 65535) + drop_bit 16 a;
         b = 18000 * (b AND 65535) + drop_bit 16 b
     in (push_bit 16 a + b, a, b))"

fun fillrand_loop :: "nat \<Rightarrow> 'l::len word fillrand_state \<Rightarrow> (u8 list \<times> 'l word fillrand_state) option" where
  "fillrand_loop 0 s = Some ([], s)"
| "fillrand_loop (Suc len) s = do {
    s \<leftarrow> (if rand_count s = 4 then do {
            let (v, a, b) = RAND (rand_a s) (rand_b s);
            r \<leftarrow> word_out (rand_r s) 0 v;
            Some (s\<lparr>rand_a := a, rand_b := b, rand_r := r, rand_count := 0\<rparr>) }
          else Some s);
    (bs, s') \<leftarrow> fillrand_loop len (s\<lparr>rand_count := rand_count s + 1\<rparr>);
    Some (rand_r s ! unat (rand_count s) # bs, s') }"

definition fillrand :: "nat \<Rightarrow> 'l::len word fillrand_state \<Rightarrow> (u8 list \<times> 'l word fillrand_state) option" where
  "fillrand len s = fillrand_loop len (if mt s \<noteq> 0 then s\<lparr>mt := 0, rand_a := 0xeaf3, rand_b := 0x35fe\<rparr> else s)"

subsection \<open>Files\<close>

text \<open>
  A file being written is the bytes in it, \<open>cap\<close> the number of bytes the device can hold.  A file being read is the bytes from the
  current position on; \<open>feof\<close> holds only after a short read, which leaves the loops anyway.
\<close>

definition put :: "nat \<Rightarrow> u8 list \<Rightarrow> u8 list \<Rightarrow> u8 list \<times> nat" where
  "put cap fout bs = (fout @ take (cap - length fout) bs, min (length bs) (cap - length fout))"

definition xor_block :: "u8 list \<Rightarrow> u8 list \<Rightarrow> u8 list" where
  "xor_block a b = map2 (XOR) a b"

text \<open>
  The loop of \<open>encfile\<close>: the result is an error code with the output, or what the variables are after the loop.  \<open>first\<close> tells
  whether \<open>l\<close> is still 15.
\<close>

function enc_loop :: "'l::len word aes \<Rightarrow> nat \<Rightarrow> u8 list \<Rightarrow> bool \<Rightarrow> u8 list \<Rightarrow> u8 list \<Rightarrow> u8 list \<Rightarrow>
    (int \<times> u8 list + nat \<times> bool \<times> u8 list \<times> u8 list \<times> u8 list) option" where
  "enc_loop ctx cap fin first inbuf outbuf fout =
    (let l = (if first then 15 else 16);
         i = min l (length fin);
         inbuf = write_at (16 - l) (take l fin) inbuf
     in if i < l then Some (Inr (i, first, inbuf, outbuf, fout))
        else do {
          let inbuf = xor_block inbuf outbuf;
          (_, outbuf) \<leftarrow> aes_encrypt inbuf outbuf ctx;
          let (fout, n) = put cap fout outbuf;
          if n \<noteq> 16 then Some (Inl (-7, fout))
          else enc_loop ctx cap (drop l fin) False inbuf outbuf fout })"
  by pat_completeness auto
termination
  by (relation "measure (\<lambda>(ctx, cap, fin, first, inbuf, outbuf, fout). length fin)") (auto split: if_splits)

text \<open>What \<open>encfile\<close> does after the loop.\<close>

definition enc_tail :: "'l::len word aes \<Rightarrow> nat \<Rightarrow> nat \<times> bool \<times> u8 list \<times> u8 list \<times> u8 list \<Rightarrow> (int \<times> u8 list) option" where
  "enc_tail ctx cap = (\<lambda>(i, first, inbuf, outbuf, fout).
    let i = (if first then i + 1 else i)
    in if i = 0 then Some (0, fout)
       else do {
         let inbuf = take i inbuf @ replicate (16 - i) 0;
         let inbuf = xor_block inbuf outbuf;
         (_, outbuf) \<leftarrow> aes_encrypt inbuf outbuf ctx;
         let (fout, n) = put cap fout outbuf;
         if n \<noteq> 16 then Some (-8, fout) else Some (0, fout) })"

text \<open>\<open>inbuf\<close> is the contents of the local array, which is not initialised.\<close>

definition encfile :: "'l::len word aes \<Rightarrow> nat \<Rightarrow> u8 list \<Rightarrow> u8 list \<Rightarrow> 'l word fillrand_state \<Rightarrow> (int \<times> u8 list) option" where
  "encfile ctx cap fin inbuf s = do {
    (outbuf, s) \<leftarrow> fillrand 16 s;
    let flen = length fin;
    let (fout, _) = put cap [] outbuf;
    (b, s) \<leftarrow> fillrand 1 s;
    let inbuf = write_at 0 b inbuf;
    let inbuf = inbuf[0 := (of_nat flen AND 15) OR (inbuf ! 0 AND NOT 15)];
    res \<leftarrow> enc_loop ctx cap fin True inbuf outbuf fout;
    case res of Inl e \<Rightarrow> Some e | Inr v \<Rightarrow> enc_tail ctx cap v }"

text \<open>The loop of \<open>decfile\<close>; \<open>bp2\<close> is the previous block.  The other buffer is only read after it has been filled.\<close>

function dec_loop :: "'l::len word aes \<Rightarrow> nat \<Rightarrow> u8 list \<Rightarrow> nat \<Rightarrow> u8 list \<Rightarrow> u8 list \<Rightarrow> u8 list \<Rightarrow>
    (int \<times> u8 list + nat \<times> u8 list \<times> u8 list) option" where
  "dec_loop ctx cap fin l bp2 outbuf fout =
    (if length fin < 16 then Some (Inr (l, outbuf, fout))
     else do {
       let bp1 = take 16 fin;
       let (fout, n) = put cap fout (take l (drop (16 - l) outbuf));
       if n \<noteq> l then Some (Inl (-11, fout))
       else do {
         (_, outbuf) \<leftarrow> aes_decrypt bp1 outbuf ctx;
         let outbuf = xor_block outbuf bp2;
         dec_loop ctx cap (drop 16 fin) 16 bp1 outbuf fout } })"
  by pat_completeness auto
termination
  by (relation "measure (\<lambda>(ctx, cap, fin, l, bp2, outbuf, fout). length fin)") auto

text \<open>What \<open>decfile\<close> does after the loop.\<close>

definition dec_tail :: "nat \<Rightarrow> nat \<Rightarrow> nat \<times> u8 list \<times> u8 list \<Rightarrow> int \<times> u8 list" where
  "dec_tail cap flen = (\<lambda>(l, outbuf, fout).
    let l = (if l = 15 then 1 else 0);
        flen = flen + (1 - l)
    in if flen = 0 then (0, fout)
       else let (fout, n) = put cap fout (take flen (drop l outbuf))
            in if n \<noteq> flen then (-12, fout) else (0, fout))"

definition decfile :: "'l::len word aes \<Rightarrow> nat \<Rightarrow> u8 list \<Rightarrow> u8 list \<Rightarrow> u8 list \<Rightarrow> (int \<times> u8 list) option" where
  "decfile ctx cap fin inbuf2 outbuf =
    (if length fin < 16 then Some (9, [])
     else do {
       let inbuf1 = take 16 fin;
       let fin = drop 16 fin;
       let i = min 16 (length fin);
       let inbuf2 = write_at 0 (take 16 fin) inbuf2;
       let fin = drop 16 fin;
       if i \<noteq> 0 \<and> i \<noteq> 16 then Some (-10, [])
       else do {
         (_, outbuf) \<leftarrow> aes_decrypt inbuf2 outbuf ctx;
         let outbuf = xor_block outbuf inbuf1;
         let flen = unat (outbuf ! 0 AND 15);
         res \<leftarrow> dec_loop ctx cap fin 15 inbuf2 outbuf [];
         Some (case res of Inl e \<Rightarrow> e | Inr v \<Rightarrow> dec_tail cap flen v) } })"

subsection \<open>The main program\<close>

fun read_key :: "nat \<Rightarrow> 32 word \<Rightarrow> u8 list \<Rightarrow> string \<Rightarrow> int + nat \<times> u8 list \<times> string" where
  "read_key i bte key [] = Inr (i, key, [])"
| "read_key i bte key (c # cp) =
    (if i < 64 then
       (case hex_digit c of
          None \<Rightarrow> Inl (-2)
        | Some h \<Rightarrow>
            let bte = push_bit 4 bte + h
            in read_key (i + 1) bte (if odd i then key[(i + 1) div 2 - 1 := ucast (bte AND 0xff)] else key) cp)
     else Inr (i, key, c # cp))"

text \<open>
  What \<open>main\<close> finds: its uninitialised variables, those of \<open>encfile\<close> and \<open>decfile\<close>, the input file (\<open>None\<close> when it cannot be
  opened), whether the output file can be opened, and the room on its device.
\<close>

record 'word aes_env =
  env_key :: "u8 list"
  env_ctx :: "'word aes"
  env_buf1 :: "u8 list"
  env_buf2 :: "u8 list"
  env_fin :: "u8 list option"
  env_fout :: bool
  env_cap :: nat

text \<open>The result is the exit value with the output file, if one was opened.\<close>

definition aes_main :: "string list \<Rightarrow> 'l::len word aes_env \<Rightarrow> (int \<times> u8 list option) option" where
  "aes_main argv env =
    (let letter = (if length argv = 5 \<and> argv ! 3 \<noteq> [] then toupper (of_char (hd (argv ! 3))) else 0)
     in if length argv \<noteq> 5 \<or> letter \<noteq> 68 \<and> letter \<noteq> 69 then Some (-1, None)
     else case read_key 0 0 (env_key env) (argv ! 4) of
       Inl e \<Rightarrow> Some (e, None)
     | Inr (i, key, cp) \<Rightarrow>
         if cp \<noteq> [] then Some (-3, None)
         else if i < 32 \<or> i mod 16 \<noteq> 0 then Some (-4, None)
         else case env_fin env of
           None \<Rightarrow> Some (-5, None)
         | Some fin \<Rightarrow>
             if \<not> env_fout env then Some (-6, None)
             else if letter = 69 then do {
               (_, ctx) \<leftarrow> set_key key (of_nat (i div 2)) 1 (env_ctx env);
               (err, out) \<leftarrow> encfile ctx (env_cap env) fin (env_buf1 env) fillrand_init;
               Some (err, Some out) }
             else do {
               (_, ctx) \<leftarrow> set_key key (of_nat (i div 2)) 2 (env_ctx env);
               (err, out) \<leftarrow> decfile ctx (env_cap env) fin (env_buf1 env) (env_buf2 env);
               Some (err, Some out) })"

section \<open>Specification\<close>

definition pad16 :: "u8 list \<Rightarrow> u8 list" where
  "pad16 r = take 16 (r @ replicate 16 0)"

text \<open>Chaining with the last block filled up with zeros.\<close>

function cbc_pad :: "(u8 list \<Rightarrow> u8 list) \<Rightarrow> u8 list \<Rightarrow> u8 list \<Rightarrow> u8 list" where
  "cbc_pad E prev r =
    (if r = [] then []
     else let c = E (xor_block (pad16 r) prev) in c @ cbc_pad E c (drop 16 r))"
  by pat_completeness auto
termination
  by (relation "measure (\<lambda>(E, prev, r). length r)") auto

definition enc_ctx :: "'l::len word aes \<Rightarrow> (u8 list \<Rightarrow> u8 list) \<Rightarrow> bool" where
  "enc_ctx ctx E \<longleftrightarrow> (\<forall>b v. length b = 16 \<longrightarrow> length v = 16 \<longrightarrow> aes_encrypt b v ctx = Some (aes_good, E b))"

definition dec_ctx :: "'l::len word aes \<Rightarrow> (u8 list \<Rightarrow> u8 list) \<Rightarrow> bool" where
  "dec_ctx ctx D \<longleftrightarrow> (\<forall>b v. length b = 16 \<longrightarrow> length v = 16 \<longrightarrow> aes_decrypt b v ctx = Some (aes_good, D b))"

text \<open>AES on blocks, for keys that have the right length.\<close>

definition aes_E :: "nat \<Rightarrow> u8 list \<Rightarrow> u8 list \<Rightarrow> u8 list" where
  "aes_E nk key b = (if 0 < nk \<and> length key = 4 * nk then aes_block nk key b else b)"

definition aes_D :: "nat \<Rightarrow> u8 list \<Rightarrow> u8 list \<Rightarrow> u8 list" where
  "aes_D nk key b = (if 0 < nk \<and> length key = 4 * nk then aes_unblock nk key b else b)"

text \<open>Arrays of the declared sizes and an output that can be opened; a key of legal length.\<close>

definition env_ok :: "'l::len word aes_env \<Rightarrow> bool" where
  "env_ok env \<longleftrightarrow> length (env_key env) = 32 \<and> length (e_key (env_ctx env)) = 64 \<and> length (d_key (env_ctx env)) = 64 \<and>
    length (env_buf1 env) = 16 \<and> length (env_buf2 env) = 16 \<and> env_fout env"

definition hex_key :: "string \<Rightarrow> bool" where
  "hex_key k \<longleftrightarrow> list_all (\<lambda>c. hex_digit c \<noteq> None) k \<and> length k \<in> {32, 48, 64}"

section \<open>Cipher block chaining\<close>

declare enc_loop.simps [simp del] dec_loop.simps [simp del] cbc_pad.simps [simp del]

lemma length_pad16 [simp]: "length (pad16 r) = 16"
  by (simp add: pad16_def)

lemma pad16_short: "length r \<le> 16 \<Longrightarrow> pad16 r = r @ replicate (16 - length r) 0"
  by (simp add: pad16_def)

lemma pad16_long: "16 \<le> length r \<Longrightarrow> pad16 r = take 16 r"
  by (simp add: pad16_def)

lemma length_xor_block [simp]: "length (xor_block a b) = min (length a) (length b)"
  by (simp add: xor_block_def)

lemma xor_block_twice: "length a = length b \<Longrightarrow> xor_block (xor_block a b) b = a"
  by (induction a b rule: list_induct2) (simp_all add: xor_block_def)

lemma put_room: "length fout + length bs \<le> cap \<Longrightarrow> put cap fout bs = (fout @ bs, length bs)"
  by (simp add: put_def)

lemma write_at_all: "length bs = length xs \<Longrightarrow> write_at 0 bs xs = bs"
  by (simp add: write_at_def)

lemma length_byte: "unat ((of_nat n AND 15 OR (b AND NOT 15)) AND (15 :: u8)) = n mod 16"
proof -
  have "((of_nat n AND 15 OR (b AND NOT 15)) AND (15 :: u8)) = of_nat n AND mask 4"
    by (rule bit_word_eqI) (auto simp: bit_simps mask_eq_exp_minus_1)
  moreover have "unat (of_nat n :: u8) = n mod 256" by (simp add: unsigned_of_nat take_bit_eq_mod)
  ultimately show ?thesis by (simp only: unat_and_mask) (simp add: mod_mod_cancel)
qed

lemma take_pad16: "length r \<le> 16 \<Longrightarrow> take (length r) (pad16 r) = r"
  by (simp add: pad16_short)

subsection \<open>A block cipher and its inverse\<close>

locale block_cipher =
  fixes E D :: "u8 list \<Rightarrow> u8 list"
  assumes length_E: "length b = 16 \<Longrightarrow> length (E b) = 16"
    and D_E: "length b = 16 \<Longrightarrow> D (E b) = b"
begin

lemma enc_rest:
  assumes "enc_ctx ctx E" "length inbuf = 16" "length outbuf = 16" "length fout + length (cbc_pad E outbuf fin) \<le> cap"
  shows "Option.bind (enc_loop ctx cap fin False inbuf outbuf fout) (case_sum Some (enc_tail ctx cap)) = Some (0, fout @ cbc_pad E outbuf fin)"
  using assms(2-)
proof (induction "length fin" arbitrary: fin inbuf outbuf fout rule: less_induct)
  case less
  have E: "aes_encrypt b v ctx = Some (aes_good, E b)" if "length b = 16" "length v = 16" for b v
    using assms(1) that by (simp add: enc_ctx_def)
  show ?case
  proof (cases "length fin < 16")
    case True
    have t: "take (length fin) (write_at 0 fin inbuf) = fin" by (simp add: write_at_def)
    have c: "cbc_pad E outbuf fin = (if fin = [] then [] else E (xor_block (pad16 fin) outbuf))"
      using True by (subst cbc_pad.simps) (simp add: Let_def cbc_pad.simps)
    have p: "take (length fin) (write_at 0 fin inbuf) @ replicate (16 - length fin) 0 = pad16 fin"
      using True t by (simp add: pad16_short)
    show ?thesis using True less.prems p E[of "xor_block (pad16 fin) outbuf" outbuf] length_E[of "xor_block (pad16 fin) outbuf"]
      by (subst enc_loop.simps) (auto simp: enc_tail_def Let_def c put_room)
  next
    case False
    let ?b = "xor_block (take 16 fin) outbuf"
    have w: "write_at 0 (take 16 fin) inbuf = take 16 fin" using False less.prems(1) by (simp add: write_at_all)
    have l: "length ?b = 16" "length (E ?b) = 16" using False less.prems(2) length_E by simp_all
    have c: "cbc_pad E outbuf fin = E ?b @ cbc_pad E (E ?b) (drop 16 fin)"
      using False by (subst cbc_pad.simps) (auto simp: Let_def pad16_long)
    have "Option.bind (enc_loop ctx cap (drop 16 fin) False ?b (E ?b) (fout @ E ?b)) (case_sum Some (enc_tail ctx cap)) =
        Some (0, (fout @ E ?b) @ cbc_pad E (E ?b) (drop 16 fin))"
      by (rule less.hyps) (use False l less.prems(3) c in simp_all)
    then show ?thesis using False w l E[OF l(1) less.prems(2)] less.prems(3)
      by (subst enc_loop.simps) (simp add: Let_def c put_room)
  qed
qed

lemma enc_first:
  assumes "enc_ctx ctx E" "length inbuf = 16" "length outbuf = 16" "length fout + length (cbc_pad E outbuf (inbuf ! 0 # fin)) \<le> cap"
  shows "Option.bind (enc_loop ctx cap fin True inbuf outbuf fout) (case_sum Some (enc_tail ctx cap)) =
    Some (0, fout @ cbc_pad E outbuf (inbuf ! 0 # fin))"
proof -
  have E: "aes_encrypt b v ctx = Some (aes_good, E b)" if "length b = 16" "length v = 16" for b v
    using assms(1) that by (simp add: enc_ctx_def)
  have h: "take 1 inbuf = [inbuf ! 0]" using assms(2) by (cases inbuf) auto
  show ?thesis
  proof (cases "length fin < 15")
    case True
    let ?b = "xor_block (pad16 (inbuf ! 0 # fin)) outbuf"
    have c: "cbc_pad E outbuf (inbuf ! 0 # fin) = E ?b"
      using True by (subst cbc_pad.simps) (simp add: Let_def cbc_pad.simps)
    have p: "take (length fin + 1) (write_at 1 fin inbuf) @ replicate (15 - length fin) 0 = pad16 (inbuf ! 0 # fin)"
      using True assms(2) h by (simp add: pad16_short write_at_def)
    show ?thesis using True assms(3,4) p E[of ?b outbuf] length_E[of ?b]
      by (subst enc_loop.simps) (simp add: enc_tail_def Let_def c put_room)
  next
    case False
    let ?b = "xor_block (inbuf ! 0 # take 15 fin) outbuf"
    have w: "write_at 1 (take 15 fin) inbuf = inbuf ! 0 # take 15 fin" using False assms(2) h by (simp add: write_at_def)
    have l: "length ?b = 16" "length (E ?b) = 16" using False assms(3) length_E by simp_all
    have c: "cbc_pad E outbuf (inbuf ! 0 # fin) = E ?b @ cbc_pad E (E ?b) (drop 15 fin)"
      using False by (subst cbc_pad.simps) (simp add: Let_def pad16_long)
    have "Option.bind (enc_loop ctx cap (drop 15 fin) False ?b (E ?b) (fout @ E ?b)) (case_sum Some (enc_tail ctx cap)) =
        Some (0, (fout @ E ?b) @ cbc_pad E (E ?b) (drop 15 fin))"
      by (rule enc_rest[OF assms(1)]) (use l assms(4) c in simp_all)
    then show ?thesis using False w l E[OF l(1) assms(3)] assms(4)
      by (subst enc_loop.simps) (simp add: Let_def c put_room)
  qed
qed

lemma dec_rest:
  assumes "dec_ctx ctx D" "length bp2 = 16" "length outbuf = 16" "l \<le> 16" "length fout + l + length (cbc_pad E bp2 r) \<le> cap"
  defines "k \<equiv> (length r - 1) div 16 * 16"
  shows "dec_loop ctx cap (cbc_pad E bp2 r) l bp2 outbuf fout =
    Some (Inr (if r = [] then (l, outbuf, fout) else (16, pad16 (drop k r), fout @ drop (16 - l) outbuf @ take k r)))"
  using assms(2-5) unfolding k_def
proof (induction "length r" arbitrary: r bp2 outbuf l fout rule: less_induct)
  case less
  show ?case
  proof (cases "r = []")
    case True
    then show ?thesis by (simp add: cbc_pad.simps dec_loop.simps)
  next
    case False
    let ?b = "xor_block (pad16 r) bp2"
    have l: "length ?b = 16" "length (E ?b) = 16" using less.prems(1) length_E by simp_all
    have c: "cbc_pad E bp2 r = E ?b @ cbc_pad E (E ?b) (drop 16 r)"
      using False by (subst cbc_pad.simps) (simp add: Let_def)
    have d: "aes_decrypt (E ?b) outbuf ctx = Some (aes_good, ?b)" using assms(1) l less.prems(2) D_E by (simp add: dec_ctx_def)
    have x: "xor_block ?b bp2 = pad16 r" using less.prems(1) by (simp add: xor_block_twice)
    have pl: "length (drop (16 - l) outbuf) = l" using less.prems(2,3) by simp
    let ?f = "fout @ drop (16 - l) outbuf"
    have dl: "dec_loop ctx cap (cbc_pad E bp2 r) l bp2 outbuf fout = dec_loop ctx cap (cbc_pad E (E ?b) (drop 16 r)) 16 (E ?b) (pad16 r) ?f"
      using l pl d less.prems(4) by (subst dec_loop.simps) (simp add: c Let_def put_room x)
    let ?r = "drop 16 r"
    have IH: "dec_loop ctx cap (cbc_pad E (E ?b) ?r) 16 (E ?b) (pad16 r) ?f =
      Some (Inr (if ?r = [] then (16, pad16 r, ?f) else
        (16, pad16 (drop ((length ?r - 1) div 16 * 16) ?r), ?f @ drop (16 - 16) (pad16 r) @ take ((length ?r - 1) div 16 * 16) ?r)))"
      by (rule less.hyps) (use False l pl less.prems(4) c in auto)
    show ?thesis
    proof (cases "length r \<le> 16")
      case True
      then have "(length r - 1) div 16 * 16 = 0" using False by (cases r) auto
      then show ?thesis using dl IH True False by simp
    next
      case gt: False
      then have k: "(length r - 1) div 16 * 16 = (length ?r - 1) div 16 * 16 + 16"
      proof -
        obtain m where "length r = 17 + m" using gt le_Suc_ex[of 17 "length r"] by auto
        moreover have "(16 + m) div 16 = m div 16 + 1" by simp
        ultimately show ?thesis by simp
      qed
      have "take ((length ?r - 1) div 16 * 16 + 16) r = take 16 r @ take ((length ?r - 1) div 16 * 16) ?r"
        by (simp add: take_add add.commute)
      then show ?thesis using dl IH gt False unfolding k by (simp add: pad16_long)
    qed
  qed
qed

lemma length_cbc_pad: "length prev = 16 \<Longrightarrow> length r \<le> length (cbc_pad E prev r)"
proof (induction "length r" arbitrary: prev r rule: less_induct)
  case less
  show ?case
  proof (cases "r = []")
    case False
    let ?c = "E (xor_block (pad16 r) prev)"
    have c: "length ?c = 16" using less.prems length_E by simp
    then have "length (drop 16 r) \<le> length (cbc_pad E ?c (drop 16 r))" using less.hyps[of "drop 16 r" ?c] False by simp
    then show ?thesis using c False by (subst cbc_pad.simps) (simp add: Let_def)
  qed simp
qed

lemma encfile_cbc:
  assumes "enc_ctx ctx E" "length inbuf = 16" "fillrand 16 s = Some (iv, s1)" "length iv = 16" "fillrand 1 s1 = Some ([b], s2)"
    and "16 + length (cbc_pad E iv (((of_nat (length fin) AND 15) OR (b AND NOT 15)) # fin)) \<le> cap"
  shows "encfile ctx cap fin inbuf s = Some (0, iv @ cbc_pad E iv (((of_nat (length fin) AND 15) OR (b AND NOT 15)) # fin))"
proof -
  let ?c = "(of_nat (length fin) AND 15) OR (b AND NOT 15)"
  have w: "write_at 0 [b] inbuf ! 0 = b" "length (write_at 0 [b] inbuf) = 16" using assms(2) by (simp_all add: write_at_def)
  define ib where "ib = (write_at 0 [b] inbuf)[0 := ?c]"
  have ib: "length ib = 16" "ib ! 0 = ?c" using w by (simp_all add: ib_def)
  have p: "put cap [] iv = (iv, 16)" using put_room[of "[]" iv cap] assms(4,6) by simp
  have "Option.bind (enc_loop ctx cap fin True ib iv iv) (case_sum Some (enc_tail ctx cap)) = Some (0, iv @ cbc_pad E iv (?c # fin))"
    using enc_first[OF assms(1) ib(1) assms(4), of iv fin cap] ib(2) assms(4,6) by simp
  then show ?thesis unfolding encfile_def using assms(3,5) p w(1) by (simp add: ib_def)
qed

lemma decfile_cbc:
  assumes "dec_ctx ctx D" "length buf1 = 16" "length buf2 = 16" "length iv = 16"
    and c: "unat (c AND 15) = length f mod 16" and cap: "length (cbc_pad E iv (c # f)) \<le> cap"
  shows "decfile ctx cap (iv @ cbc_pad E iv (c # f)) buf1 buf2 = Some (0, f)"
proof -
  let ?b = "xor_block (pad16 (c # f)) iv" let ?r = "drop 15 f"
  have l: "length ?b = 16" "length (E ?b) = 16" using assms(4) length_E by simp_all
  have e: "cbc_pad E iv (c # f) = E ?b @ cbc_pad E (E ?b) ?r" by (subst cbc_pad.simps) (simp add: Let_def)
  have d: "aes_decrypt (E ?b) buf2 ctx = Some (aes_good, ?b)" using assms(1,3) l D_E by (simp add: dec_ctx_def)
  have x: "xor_block ?b iv = pad16 (c # f)" using assms(4) by (simp add: xor_block_twice)
  have h: "pad16 (c # f) ! 0 = c" "drop 1 (pad16 (c # f)) = take 15 (f @ replicate 16 0)" by (simp_all add: pad16_def)
  let ?k = "(length ?r - 1) div 16 * 16"
  have loop: "dec_loop ctx cap (cbc_pad E (E ?b) ?r) 15 (E ?b) (pad16 (c # f)) [] =
      Some (Inr (if ?r = [] then (15, pad16 (c # f), []) else (16, pad16 (drop ?k ?r), [] @ drop (16 - 15) (pad16 (c # f)) @ take ?k ?r)))"
    by (rule dec_rest[OF assms(1)]) (use l cap e in simp_all)
  have df: "decfile ctx cap (iv @ cbc_pad E iv (c # f)) buf1 buf2 =
      Some (dec_tail cap (length f mod 16) (if ?r = [] then (15, pad16 (c # f), [])
        else (16, pad16 (drop ?k ?r), drop 1 (pad16 (c # f)) @ take ?k ?r)))"
    unfolding decfile_def using assms(2,4) l d loop by (simp add: e write_at_all x h(1) c Let_def)
  show ?thesis
  proof (cases "length f \<le> 15")
    case True
    have m: "length f mod 16 = length f" using True by simp
    have "take (length f) (drop 1 (pad16 (c # f))) = f" unfolding h(2) using True by simp
    then show ?thesis unfolding df m using True put_room[of "[]" f cap] cap e l by (simp add: dec_tail_def Let_def)
  next
    case False
    have r: "?r \<noteq> []" using False by simp
    define q where "q = (length ?r - 1) div 16"
    have q: "16 * q \<le> length ?r - 1" "length ?r - 1 < 16 * q + 16" "length f = 15 + length ?r" "0 < length ?r"
      using False by (simp_all add: q_def)
    have n: "length f mod 16 + 1 = length ?r - 16 * q"
    proof -
      have "length f = 16 * q + 15 + (length ?r - 16 * q)" "1 \<le> length ?r - 16 * q" "length ?r - 16 * q \<le> 16" using q by linarith+
      then have "length f = (length ?r - 16 * q - 1) + 16 * (q + 1)" by simp
      then have "length f mod 16 = (length ?r - 16 * q - 1) mod 16" by (metis mod_mult_self2)
      then show ?thesis using \<open>length ?r - 16 * q \<le> 16\<close> \<open>1 \<le> length ?r - 16 * q\<close> by simp
    qed
    have h2: "drop 1 (pad16 (c # f)) = take 15 f" unfolding h(2) using False by simp
    have ln: "length (drop (q * 16) ?r) = length f mod 16 + 1" using n by (simp add: mult.commute)
    have t: "take (length f mod 16 + 1) (pad16 (drop (q * 16) ?r)) = drop (q * 16) ?r"
      using take_pad16[of "drop (q * 16) ?r"] unfolding ln by simp
    have all: "take 15 f @ take (q * 16) ?r @ drop (q * 16) ?r = f" by (simp only: append_take_drop_id)
    have "length f \<le> cap" using cap length_cbc_pad[of iv "c # f"] assms(4) by simp
    then have "put cap (take 15 f @ take (q * 16) ?r) (drop (q * 16) ?r) = (f, length (drop (q * 16) ?r))"
      using put_room[of "take 15 f @ take (q * 16) ?r" "drop (q * 16) ?r" cap] all arg_cong[OF all, of length] by simp
    then have "dec_tail cap (length f mod 16) (16, pad16 (drop (q * 16) ?r), take 15 f @ take (q * 16) ?r) = (0, f)"
      unfolding dec_tail_def Let_def ln using t by simp
    then show ?thesis unfolding df q_def[symmetric] h2 if_not_P[OF r] by simp
  qed
qed

end

interpretation aes: block_cipher "aes_E nk key" "aes_D nk key" for nk key
  by unfold_locales (simp_all add: aes_E_def aes_D_def length_aes_block aes_unblock_block)

lemma sizeof_word32_64 [simp]: "sizeof_word TYPE(32) = 4" "sizeof_word TYPE(64) = 8"
  by (simp_all add: sizeof_word_def)

lemma cbc_pad_le: "(\<And>b. length b = 16 \<Longrightarrow> length (E b) = 16) \<Longrightarrow> length prev = 16 \<Longrightarrow> length (cbc_pad E prev r) \<le> length r + 15"
proof (induction "length r" arbitrary: prev r rule: less_induct)
  case less
  show ?case
  proof (cases "r = []")
    case True
    then show ?thesis by (simp add: cbc_pad.simps)
  next
    case False
    let ?c = "E (xor_block (pad16 r) prev)"
    have c: "length ?c = 16" using less.prems by simp
    have "length (cbc_pad E ?c (drop 16 r)) \<le> length (drop 16 r) + 15" by (rule less.hyps) (use False less.prems c in simp_all)
    moreover have "length (cbc_pad E ?c (drop 16 r)) = 0" if "length r \<le> 16" using that by (simp add: cbc_pad.simps)
    ultimately have "16 + length (cbc_pad E ?c (drop 16 r)) \<le> length r + 15" using False by (cases "length r \<le> 16") (cases r; auto)+
    then show ?thesis using c False by (subst cbc_pad.simps) (simp add: Let_def)
  qed
qed

lemma fillrand_loop_ok:
  "length (rand_r (s :: 32 word fillrand_state)) = 4 \<Longrightarrow> unat (rand_count s) \<le> 4 \<Longrightarrow>
   \<exists>bs s'. fillrand_loop n s = Some (bs, s') \<and> length bs = n \<and> length (rand_r s') = 4 \<and> unat (rand_count s') \<le> 4 \<and> mt s' = mt s"
proof (induction n arbitrary: s)
  case (Suc n)
  define t where "t = (if rand_count s = 4 then (let (v, a, b) = RAND (rand_a s) (rand_b s)
    in s\<lparr>rand_a := a, rand_b := b, rand_r := map (\<lambda>j. ucast (drop_bit (8 * j) v)) [0..<4], rand_count := 0\<rparr>) else s)"
  have w: "word_out (rand_r s) 0 v = Some (map (\<lambda>j. ucast (drop_bit (8 * j) v)) [0..<4])" for v :: "32 word"
    using Suc.prems(1) by (simp add: word_out_def Let_def write_at_def)
  have t: "length (rand_r t) = 4" "unat (rand_count t) \<le> 3" "mt t = mt s"
    using Suc.prems by (auto simp: t_def split_def Let_def le_less word_unat_eq_iff)
  have "unat (rand_count t + 1) \<le> 4" using t(2) by (simp add: unat_plus_if' unat_word_ariths)
  then obtain bs s' where "fillrand_loop n (t\<lparr>rand_count := rand_count t + 1\<rparr>) = Some (bs, s')" "length bs = n" "length (rand_r s') = 4"
    "unat (rand_count s') \<le> 4" "mt s' = mt t"
    using Suc.IH[of "t\<lparr>rand_count := rand_count t + 1\<rparr>"] t by auto
  moreover have "fillrand_loop (Suc n) s = do {
    (bs, s') \<leftarrow> fillrand_loop n (t\<lparr>rand_count := rand_count t + 1\<rparr>);
    Some (rand_r t ! unat (rand_count t) # bs, s') }"
    by (simp add: w t_def split_def Let_def)
  ultimately show ?case using t(3) by auto
qed auto

section \<open>The program\<close>

lemma fillrand_init_ok:
  obtains iv b s1 s2 where "fillrand 16 (fillrand_init :: 32 word fillrand_state) = Some (iv, s1)" "length iv = 16" "fillrand 1 s1 = Some ([b], s2)"
proof -
  let ?s = "fillrand_init\<lparr>mt := 0, rand_a := 0xeaf3, rand_b := 0x35fe\<rparr> :: 32 word fillrand_state"
  have u: "unat (4 :: 32 word) = 4" by simp
  obtain iv s1 where 1: "fillrand_loop 16 ?s = Some (iv, s1)" "length iv = 16" "length (rand_r s1) = 4" "unat (rand_count s1) \<le> 4" "mt s1 = 0"
    using fillrand_loop_ok[of ?s 16] u by (auto simp: fillrand_init_def)
  obtain bs s2 where 2: "fillrand_loop 1 s1 = Some (bs, s2)" "length bs = 1" using fillrand_loop_ok[OF 1(3,4), of 1] by auto
  then obtain b where "bs = [b]" by (auto simp: length_Suc_conv)
  then show thesis using that[of iv s1 b s2] 1 2 by (simp add: fillrand_def fillrand_init_def)
qed

lemma read_key_ok:
  assumes "list_all (\<lambda>c. hex_digit c \<noteq> None) k" "i + length k \<le> 64"
  shows "\<exists>key'. read_key i b key k = Inr (i + length k, key', []) \<and> length key' = length key"
  using assms
proof (induction i b key k rule: read_key.induct)
  case (2 i bte key c cp)
  then show ?case by (auto simp: Let_def split: option.splits)
qed simp

lemma read_key_same:
  assumes "read_key i b key k = Inr (n, u, [])" "read_key i b key2 k = Inr (n', u', [])" "length key = length key2"
    and "take (i div 2) key = take (i div 2) key2" "(i + length k) div 2 \<le> length key"
  shows "n' = n \<and> take (n div 2) u = take (n div 2) u'"
  using assms
proof (induction k arbitrary: i b key key2)
  case (Cons c k)
  have 64: "i < 64" using Cons.prems(1) by (simp split: if_splits)
  then obtain h where h: "hex_digit c = Some h" using Cons.prems(1) by (auto split: option.splits)
  let ?b = "push_bit 4 b + h"
  let ?up = "\<lambda>key. if odd i then key[(i + 1) div 2 - 1 := ucast (?b AND 0xff)] else key"
  have "take ((i + 1) div 2) (?up key) = take ((i + 1) div 2) (?up key2)"
  proof (cases "odd i")
    case True
    then have e: "(i + 1) div 2 = Suc (i div 2)" by presburger
    moreover have "i div 2 < length key" using Cons.prems(5) True by simp presburger
    ultimately show ?thesis using True Cons.prems(3,4) by (simp add: take_Suc_conv_app_nth)
  next
    case False
    then have "(i + 1) div 2 = i div 2" by presburger
    then show ?thesis using False Cons.prems(4) by simp
  qed
  then show ?case
    using Cons.IH[of "i + 1" ?b "?up key" "?up key2"] Cons.prems 64 h by (simp add: Let_def)
qed simp

lemma set_key_enc:
  fixes cx :: "32 word aes"
  assumes "nk \<in> {4, 6, 8}" "length (e_key cx) = 64" "length (d_key cx) = 64" "length key = 32"
  shows "\<exists>cx'. set_key key (of_nat (4 * nk)) 1 cx = Some (aes_good, cx') \<and> enc_ctx cx' (aes_E nk (take (4 * nk) key))"
proof -
  have r: "4 * (nk - 1) + sizeof_word TYPE(32) \<le> length key" using assms(1,4) by auto
  obtain cx' where c: "set_key key (of_nat (4 * nk)) 1 cx = Some (aes_good, cx')" "unat (Nrnd cx') = nk + 6"
    "keyed nk (columns (take (4 * nk) key)) (e_key cx') (4 * (nk + 6) + 4)" "mode cx' AND 3 = 1 AND 3"
    using set_key_ok[OF _ assms(1-3) r, of 1] by auto
  have "(mode cx' AND 3) AND 1 = mode cx' AND 1" by (simp add: and.assoc)
  then have m: "mode cx' AND 1 \<noteq> 0" unfolding c(4) by simp
  have "aes_encrypt b v cx' = Some (aes_good, aes_E nk (take (4 * nk) key) b)" if "length b = 16" "length v = 16" for b v
    using aes_encrypt_ok[OF _ assms(1) c(2,3) m, of b v] that assms(1,4) by (auto simp: aes_E_def)
  then show ?thesis using c(1) by (auto simp: enc_ctx_def)
qed

lemma set_key_dec:
  fixes cx :: "32 word aes"
  assumes "nk \<in> {4, 6, 8}" "length (e_key cx) = 64" "length (d_key cx) = 64" "length key = 32"
  shows "\<exists>cx'. set_key key (of_nat (4 * nk)) 2 cx = Some (aes_good, cx') \<and> dec_ctx cx' (aes_D nk (take (4 * nk) key))"
proof -
  have r: "4 * (nk - 1) + sizeof_word TYPE(32) \<le> length key" using assms(1,4) by auto
  obtain cx' where c: "set_key key (of_nat (4 * nk)) 2 cx = Some (aes_good, cx')" "unat (Nrnd cx') = nk + 6"
    "keyed nk (columns (take (4 * nk) key)) (e_key cx') (4 * (nk + 6) + 4)" "mode cx' AND 3 = 2 AND 3"
    "dkeyed (nk + 6) (e_key cx') (d_key cx') 0"
    using set_key_ok[OF _ assms(1-3) r, of 2] by auto
  have "(mode cx' AND 3) AND 2 = mode cx' AND 2" by (simp add: and.assoc)
  then have m: "mode cx' AND 2 \<noteq> 0" unfolding c(4) by simp
  have "aes_decrypt b v cx' = Some (aes_good, aes_D nk (take (4 * nk) key) b)" if "length b = 16" "length v = 16" for b v
    using aes_decrypt_ok[OF _ assms(1) c(2,3,5) m, of b v] that assms(1,4) by (auto simp: aes_D_def)
  then show ?thesis using c(1) by (auto simp: dec_ctx_def)
qed

lemma aes_main_key:
  assumes "hex_key k" "env_ok (env :: 'l::len word aes_env)" "env_fin env = Some fin"
  obtains nk key where "nk = length k div 8" "nk \<in> {4, 6, 8}" "length key = 32" "read_key 0 0 (env_key env) k = Inr (length k, key, [])"
    "aes_main [p, a, b, ''e'', k] env = do {
       (_, ctx) \<leftarrow> set_key key (of_nat (4 * nk)) 1 (env_ctx env);
       (err, out) \<leftarrow> encfile ctx (env_cap env) fin (env_buf1 env) fillrand_init;
       Some (err, Some out) }"
    "aes_main [p, a, b, ''d'', k] env = do {
       (_, ctx) \<leftarrow> set_key key (of_nat (4 * nk)) 2 (env_ctx env);
       (err, out) \<leftarrow> decfile ctx (env_cap env) fin (env_buf1 env) (env_buf2 env);
       Some (err, Some out) }"
proof -
  have k: "list_all (\<lambda>c. hex_digit c \<noteq> None) k" "length k \<in> {32, 48, 64}" using assms(1) by (auto simp: hex_key_def)
  obtain key where key: "read_key 0 0 (env_key env) k = Inr (length k, key, [])" "length key = 32"
    using read_key_ok[OF k(1), of 0 0 "env_key env"] k(2) assms(2) by (auto simp: env_ok_def)
  have n: "length k div 2 = 4 * (length k div 8)" "\<not> length k < 32" "length k mod 16 = 0" "length k div 8 \<in> {4, 6, 8}" using k(2) by auto
  have u: "toupper 101 = 69" "toupper 100 = 68" by (simp_all add: toupper_def)
  show thesis
  proof (rule that[OF refl n(4) key(2,1)])
  qed (use key(1) assms(2,3) n(2,3) in \<open>simp_all add: aes_main_def u env_ok_def n(1) Let_def del: of_nat_mult\<close>)
qed

lemma fillrand64: "fillrand 16 (fillrand_init :: 64 word fillrand_state) = None"
proof -
  have "word_out (replicate 4 0) 0 v = None" for v :: "64 word" by (simp add: word_out_def)
  then have "fillrand_loop (Suc 15) s = None" if "rand_count s = 4" "rand_r s = replicate 4 0" for s :: "64 word fillrand_state"
    using that by (simp only: fillrand_loop.simps) (simp add: split_def)
  then show ?thesis by (simp add: fillrand_def fillrand_init_def)
qed

lemma aes_decrypt64:
  assumes "mode (cx :: 64 word aes) AND 2 \<noteq> 0" "length in_blk = 16"
  shows "aes_decrypt in_blk out_blk cx = None"
proof -
  have "word_in in_blk 12 = (None :: 64 word option)" using assms(2) by (simp add: word_in_def)
  then have "state_in in_blk (d_key cx) = None" by (simp add: state_in_def)
  then show ?thesis using assms(1) by (simp add: aes_decrypt_def)
qed

lemma set_key_mode:
  assumes "set_key key (of_nat (4 * nk)) 2 (cx :: 64 word aes) = Some (r, cx')" "nk \<in> {4, 6, 8}"
  shows "mode cx' AND 2 \<noteq> 0"
proof -
  have nz: "\<not> ((of_nat (4 * nk) :: 64 word) AND 7 \<noteq> 0 \<or> (of_nat (4 * nk) :: 64 word) < 16 \<or> (of_nat (4 * nk) :: 64 word) > 32 \<or>
      (2 :: u8) AND 1 = 0 \<and> (2 :: u8) AND 2 = 0)"
    using set_key_check[OF _ assms(2), where 'l = 64] by simp
  have "((x AND NOT 3) OR (2 AND 3)) AND 2 = (2 :: u8)" for x by (rule word8_eqI) (simp_all add: bit_simps bit_numeral_rec)
  then show ?thesis using assms(1) unfolding set_key_def if_not_P[OF nz]
    by (auto simp: Let_def split: bind_splits if_splits)
qed

section \<open>Properties\<close>

lemma hex_key_example: "hex_key ''1234567890abcdeffedcba0987654321''"
  unfolding hex_key_def
proof
  show "list_all (\<lambda>c. hex_digit c \<noteq> None) ''1234567890abcdeffedcba0987654321''" by code_simp
qed simp

text \<open>
  C19.  With a \<open>word\<close> of 32 bits and a hexadecimal key of 32, 48 or 64 digits the program encrypts any file, and decrypting what it wrote
  with the same key gives the file back, byte for byte and of the same length; none of the uninitialised variables matters.
\<close>

theorem rijndael_roundtrip:
  fixes env :: "32 word aes_env"
  assumes "hex_key k" "env_ok env" "env_fin env = Some f" "length f + 32 \<le> env_cap env"
  shows "\<exists>c. aes_main [p, a, b, ''e'', k] env = Some (0, Some c) \<and>
    (\<forall>env' :: 32 word aes_env. env_ok env' \<and> env_fin env' = Some c \<and> length f + 32 \<le> env_cap env' \<longrightarrow>
      aes_main [p, b, a, ''d'', k] env' = Some (0, Some f))"
proof -
  obtain nk key where nk: "nk = length k div 8" "nk \<in> {4, 6, 8}" "length key = 32" "read_key 0 0 (env_key env) k = Inr (length k, key, [])"
    and e: "aes_main [p, a, b, ''e'', k] env = do {
       (_, ctx) \<leftarrow> set_key key (of_nat (4 * nk)) 1 (env_ctx env);
       (err, out) \<leftarrow> encfile ctx (env_cap env) f (env_buf1 env) fillrand_init;
       Some (err, Some out) }"
    by (rule aes_main_key[OF assms(1-3)])
  let ?key = "take (4 * nk) key" let ?E = "aes_E nk ?key"
  obtain iv x s1 s2 where r: "fillrand 16 (fillrand_init :: 32 word fillrand_state) = Some (iv, s1)" "length iv = 16" "fillrand 1 s1 = Some ([x], s2)"
    by (rule fillrand_init_ok)
  obtain ctx where c: "set_key key (of_nat (4 * nk)) 1 (env_ctx env) = Some (aes_good, ctx)" "enc_ctx ctx ?E"
    using set_key_enc[OF nk(2) _ _ nk(3), of "env_ctx env"] assms(2) by (auto simp: env_ok_def)
  let ?c0 = "(of_nat (length f) AND 15) OR (x AND NOT 15)"
  have len: "length (cbc_pad ?E iv (?c0 # f)) \<le> length f + 16" using cbc_pad_le[of ?E iv "?c0 # f"] aes.length_E r(2) by simp
  have enc: "encfile ctx (env_cap env) f (env_buf1 env) fillrand_init = Some (0, iv @ cbc_pad ?E iv (?c0 # f))"
    by (rule aes.encfile_cbc[OF c(2) _ r]) (use assms(2,4) len in \<open>auto simp: env_ok_def\<close>)
  have "aes_main [p, b, a, ''d'', k] env' = Some (0, Some f)"
    if env': "env_ok env'" "env_fin env' = Some (iv @ cbc_pad ?E iv (?c0 # f))" "length f + 32 \<le> env_cap env'" for env' :: "32 word aes_env"
  proof -
    obtain nk' key' where nk': "nk' = length k div 8" "length key' = 32" "read_key 0 0 (env_key env') k = Inr (length k, key', [])"
      and d: "aes_main [p, b, a, ''d'', k] env' = do {
         (_, ctx) \<leftarrow> set_key key' (of_nat (4 * nk')) 2 (env_ctx env');
         (err, out) \<leftarrow> decfile ctx (env_cap env') (iv @ cbc_pad ?E iv (?c0 # f)) (env_buf1 env') (env_buf2 env');
         Some (err, Some out) }"
      by (rule aes_main_key[OF assms(1) env'(1,2)])
    have "take (length k div 2) key = take (length k div 2) key'"
      using read_key_same[OF nk(4) nk'(3)] assms(1,2) env'(1) by (auto simp: env_ok_def hex_key_def)
    moreover have "length k div 2 = 4 * nk" using assms(1) nk(1) by (auto simp: hex_key_def)
    ultimately have same: "take (4 * nk) key' = ?key" "nk' = nk" using nk(1) nk'(1) by simp_all
    obtain ctx' where c': "set_key key' (of_nat (4 * nk)) 2 (env_ctx env') = Some (aes_good, ctx')" "dec_ctx ctx' (aes_D nk ?key)"
      using set_key_dec[OF nk(2) _ _ nk'(2), of "env_ctx env'"] env'(1) unfolding same by (auto simp: env_ok_def)
    have "decfile ctx' (env_cap env') (iv @ cbc_pad ?E iv (?c0 # f)) (env_buf1 env') (env_buf2 env') = Some (0, f)"
      by (rule aes.decfile_cbc[OF c'(2) _ _ r(2) length_byte]) (use env'(1,3) len in \<open>auto simp: env_ok_def\<close>)
    then show ?thesis unfolding d same(2) using c'(1) by (simp del: of_nat_mult)
  qed
  moreover have "aes_main [p, a, b, ''e'', k] env = Some (0, Some (iv @ cbc_pad ?E iv (?c0 # f)))"
    unfolding e using c(1) enc by (simp del: of_nat_mult)
  ultimately show ?thesis by blast
qed

theorem rijndael_roundtrip_witness:
  "\<exists>c. aes_main [''rijndael'', ''a'', ''b'', ''e'', ''1234567890abcdeffedcba0987654321'']
      (\<lparr>env_key = replicate 32 5, env_ctx = \<lparr>Nkey = 0, Nrnd = 0, e_key = replicate 64 0, d_key = replicate 64 0, mode = 9\<rparr>,
        env_buf1 = replicate 16 1, env_buf2 = replicate 16 2, env_fin = Some [104, 105], env_fout = True, env_cap = 100\<rparr> :: 32 word aes_env) =
      Some (0, Some c) \<and>
    aes_main [''rijndael'', ''b'', ''a'', ''d'', ''1234567890abcdeffedcba0987654321'']
      (\<lparr>env_key = replicate 32 0, env_ctx = \<lparr>Nkey = 7, Nrnd = 7, e_key = replicate 64 3, d_key = replicate 64 4, mode = 0\<rparr>,
        env_buf1 = replicate 16 3, env_buf2 = replicate 16 4, env_fin = Some c, env_fout = True, env_cap = 100\<rparr> :: 32 word aes_env) =
      Some (0, Some [104, 105])"
proof -
  let ?env = "\<lparr>env_key = replicate 32 5, env_ctx = \<lparr>Nkey = 0, Nrnd = 0, e_key = replicate 64 0, d_key = replicate 64 0, mode = 9\<rparr>,
        env_buf1 = replicate 16 1, env_buf2 = replicate 16 2, env_fin = Some [104, 105], env_fout = True, env_cap = 100\<rparr> :: 32 word aes_env"
  have "env_ok ?env" "env_fin ?env = Some [104, 105]" "length [104, 105 :: u8] + 32 \<le> env_cap ?env" by (simp_all add: env_ok_def)
  from rijndael_roundtrip[OF hex_key_example this, of "''rijndael''" "''a''" "''b''"] show ?thesis
    by (elim exE conjE) (rule exI, rule conjI, assumption, erule allE, erule mp, simp add: env_ok_def)
qed

text \<open>
  C33.  With the 64-bit \<open>unsigned long\<close> of the LP64 targets and a key of 32, 48 or 64 hexadecimal digits the program has undefined
  behaviour on every file it encrypts, and on every file of at least 32 bytes (the initial block and one more) that it decrypts: it stores eight bytes into the four of \<open>r\<close> in \<open>fillrand\<close> and reads the last word of a
  block beyond its end.
\<close>

theorem rijndael64_undefined:
  fixes env :: "64 word aes_env"
  assumes "hex_key k" "env_ok env" "env_fin env = Some f"
  shows "aes_main [p, a, b, ''e'', k] env = None \<and> (32 \<le> length f \<longrightarrow> aes_main [p, a, b, ''d'', k] env = None)"
proof -
  obtain nk key where nk: "nk = length k div 8" "nk \<in> {4, 6, 8}"
    and e: "aes_main [p, a, b, ''e'', k] env = do {
       (_, ctx) \<leftarrow> set_key key (of_nat (4 * nk)) 1 (env_ctx env);
       (err, out) \<leftarrow> encfile ctx (env_cap env) f (env_buf1 env) fillrand_init;
       Some (err, Some out) }"
    and d: "aes_main [p, a, b, ''d'', k] env = do {
       (_, ctx) \<leftarrow> set_key key (of_nat (4 * nk)) 2 (env_ctx env);
       (err, out) \<leftarrow> decfile ctx (env_cap env) f (env_buf1 env) (env_buf2 env);
       Some (err, Some out) }"
    by (rule aes_main_key[OF assms])
  have "encfile ctx (env_cap env) f (env_buf1 env) fillrand_init = None" for ctx :: "64 word aes"
    by (simp add: encfile_def fillrand64)
  then have enc: "aes_main [p, a, b, ''e'', k] env = None" unfolding e by (auto split: bind_splits)
  have dec: "decfile ctx (env_cap env) f (env_buf1 env) (env_buf2 env) = None"
    if f: "32 \<le> length f" and m: "mode ctx AND 2 \<noteq> 0" for ctx :: "64 word aes"
  proof -
    have "length (write_at 0 (take 16 (drop 16 f)) (env_buf1 env)) = 16" using f assms(2) by (simp add: env_ok_def)
    then show ?thesis using f aes_decrypt64[OF m] by (simp add: decfile_def)
  qed
  have "aes_main [p, a, b, ''d'', k] env = None" if "32 \<le> length f"
    unfolding d using set_key_mode[OF _ nk(2)] dec[OF that] by (auto split: bind_splits)
  then show ?thesis using enc by blast
qed

theorem rijndael64_undefined_witness:
  "aes_main [''rijndael'', ''a'', ''b'', ''e'', ''1234567890abcdeffedcba0987654321'']
      (\<lparr>env_key = replicate 32 5, env_ctx = \<lparr>Nkey = 0, Nrnd = 0, e_key = replicate 64 0, d_key = replicate 64 0, mode = 9\<rparr>,
        env_buf1 = replicate 16 1, env_buf2 = replicate 16 2, env_fin = Some (replicate 32 9), env_fout = True, env_cap = 100\<rparr> :: 64 word aes_env) = None \<and>
    aes_main [''rijndael'', ''a'', ''b'', ''d'', ''1234567890abcdeffedcba0987654321'']
      (\<lparr>env_key = replicate 32 5, env_ctx = \<lparr>Nkey = 0, Nrnd = 0, e_key = replicate 64 0, d_key = replicate 64 0, mode = 9\<rparr>,
        env_buf1 = replicate 16 1, env_buf2 = replicate 16 2, env_fin = Some (replicate 32 9), env_fout = True, env_cap = 100\<rparr> :: 64 word aes_env) = None"
proof -
  let ?env = "\<lparr>env_key = replicate 32 5, env_ctx = \<lparr>Nkey = 0, Nrnd = 0, e_key = replicate 64 0, d_key = replicate 64 0, mode = 9\<rparr>,
        env_buf1 = replicate 16 1, env_buf2 = replicate 16 2, env_fin = Some (replicate 32 9), env_fout = True, env_cap = 100\<rparr> :: 64 word aes_env"
  have "env_ok ?env" "env_fin ?env = Some (replicate 32 9)" by (simp_all add: env_ok_def)
  from rijndael64_undefined[OF hex_key_example this, of "''rijndael''" "''a''" "''b''"] show ?thesis by simp
qed

end
