(* ===== verification/Susan.thy ===== *)
theory Susan
  imports Prelude "HOL-Library.Monad_Syntax"
begin

text \<open>
  \<^verbatim>\<open>automotive/susan/susan.c\<close>: reading and writing of images, the SUSAN principle, smoothing, and the quick corner detector with the
  drawing of corners.

  An image is the list of its bytes, row by row; sizes and positions are never negative here and are natural numbers.  A pointer into
  an image is an index, and reading or writing outside the array is undefined behaviour, \<open>None\<close>, as is an overflow of \<open>int\<close> and a
  division by zero.  The brightness table and the distance table of the smoothing are filled with floating-point exponentials; they
  are arguments of the model.
\<close>

unbundle bit_operations_syntax

section \<open>Definitions\<close>

subsection \<open>Images in files\<close>

datatype susan_exit = Exit nat | Undefined

definition fits_int :: "nat \<Rightarrow> bool" where
  "fits_int n \<longleftrightarrow> int n \<le> 2147483647"

definition is_digit :: "u8 \<Rightarrow> bool" where
  "is_digit c \<longleftrightarrow> 48 \<le> c \<and> c \<le> 57"

text \<open>What is left of a file after \<open>fgets(dummy, n, fd)\<close>: at most \<open>n - 1\<close> characters are read, up to the end of the line.\<close>

definition after_fgets :: "nat \<Rightarrow> u8 list \<Rightarrow> u8 list" where
  "after_fgets n cs = drop (min (length (takeWhile (\<lambda>c. c \<noteq> 10) (take (n - 1) cs)) + 1) (n - 1)) cs"

text \<open>The two loops of \<open>getint\<close>; the first leaves the file at the digit it has found.\<close>

function find_digit :: "u8 list \<Rightarrow> susan_exit + u8 list" where
  "find_digit [] = Inl (Exit 0)"
| "find_digit (c # cs) =
    (let cs' = (if c = 35 then after_fgets 9000 cs else cs)
     in if is_digit c then Inr (c # cs') else find_digit cs')"
  by pat_completeness auto
termination
  by (relation "measure length") (auto simp: after_fgets_def)

fun read_digits :: "nat \<Rightarrow> u8 list \<Rightarrow> susan_exit + nat \<times> u8 list" where
  "read_digits i [] = Inr (i, [])"
| "read_digits i (c # cs) =
    (if is_digit c then
       (let i = i * 10 + (unat c - 48) in if fits_int i then read_digits i cs else Inl Undefined)
     else Inr (i, cs))"

definition getint :: "u8 list \<Rightarrow> susan_exit + nat \<times> u8 list" where
  "getint fd = (case find_digit fd of Inl e \<Rightarrow> Inl e | Inr cs \<Rightarrow> read_digits 0 cs)"

text \<open>\<open>junk\<close> is what \<open>malloc\<close> finds in the memory.  The third number is read and not used.\<close>

definition get_image :: "u8 list option \<Rightarrow> (nat \<Rightarrow> u8) \<Rightarrow> susan_exit + u8 list \<times> nat \<times> nat" where
  "get_image file junk =
    (case file of
       None \<Rightarrow> Inl (Exit 0)
     | Some fd \<Rightarrow>
         if take 2 fd \<noteq> [80, 53] then Inl (Exit 0)
         else case getint (drop 2 fd) of
           Inl e \<Rightarrow> Inl e
         | Inr (x_size, fd) \<Rightarrow> (case getint fd of
             Inl e \<Rightarrow> Inl e
           | Inr (y_size, fd) \<Rightarrow> (case getint fd of
               Inl e \<Rightarrow> Inl e
             | Inr (tmp, fd) \<Rightarrow>
                 if \<not> fits_int (x_size * y_size) then Inl Undefined
                 else let n = min (x_size * y_size) (length fd)
                      in if n = 0 then Inl (Exit 0)
                         else Inr (take n fd @ map junk [n..<x_size * y_size], x_size, y_size))))"

text \<open>\<open>%d\<close> of a number that is not negative.\<close>

fun print_d :: "nat \<Rightarrow> u8 list" where
  "print_d n = (if n < 10 then [] else print_d (n div 10)) @ [of_nat (48 + n mod 10)]"

text \<open>The content of the file written.  \<open>fwrite\<close> of nothing returns 0.\<close>

definition put_image :: "bool \<Rightarrow> u8 list \<Rightarrow> nat \<Rightarrow> nat \<Rightarrow> susan_exit + u8 list" where
  "put_image can_open img x_size y_size =
    (if \<not> can_open then Inl (Exit 0)
     else if \<not> fits_int (x_size * y_size) \<or> length img < x_size * y_size then Inl Undefined
     else if x_size * y_size = 0 then Inl (Exit 0)
     else Inr ([80, 53, 10] @ print_d x_size @ [32] @ print_d y_size @ [10] @ [50, 53, 53, 10] @ take (x_size * y_size) img))"

subsection \<open>Reading memory\<close>

definition at :: "'a list \<Rightarrow> nat \<Rightarrow> 'a option" where
  "at mem p = (if p < length mem then Some (mem ! p) else None)"

definition store :: "'a list \<Rightarrow> nat \<Rightarrow> 'a \<Rightarrow> 'a list option" where
  "store mem p v = (if p < length mem then Some (mem[p := v]) else None)"

text \<open>\<open>*(cp - b)\<close> where \<open>cp = bp + c\<close> and \<open>bp\<close> points to element 258 of its 516.\<close>

definition lut :: "u8 list \<Rightarrow> u8 \<Rightarrow> u8 \<Rightarrow> nat option" where
  "lut bp c b = map_option unat (at bp (258 + unat c - unat b))"

subsection \<open>The principle\<close>

text \<open>A row of statements \<open>n+=*(cp-*p)\<close>, each followed by a move of \<open>p\<close>; \<open>ds\<close> lists the moves.\<close>

fun usan_walk :: "u8 list \<Rightarrow> u8 list \<Rightarrow> u8 \<Rightarrow> nat \<Rightarrow> nat list \<Rightarrow> nat \<Rightarrow> nat option" where
  "usan_walk img bp c p [] n = Some n"
| "usan_walk img bp c p (d # ds) n = do {
    b \<leftarrow> at img p;
    t \<leftarrow> lut bp c b;
    usan_walk img bp c (p + d) ds (n + t) }"

definition usan_moves :: "nat \<Rightarrow> nat list" where
  "usan_moves x_size = [
    1, 1, x_size - 3,
    1, 1, 1, 1, x_size - 5,
    1, 1, 1, 1, 1, 1, x_size - 6,
    1, 1, 2, 1, 1, x_size - 6,
    1, 1, 1, 1, 1, 1, x_size - 5,
    1, 1, 1, 1, x_size - 3,
    1, 1, 0]"

definition usan_small_moves :: "nat \<Rightarrow> nat list" where
  "usan_small_moves x_size = [
    1, 1, x_size - 2,
    2, x_size - 2,
    1, 1, 0]"

text \<open>The positions of the two nested loops that leave out a border of \<open>m\<close> pixels.\<close>

definition inner_pixels :: "nat \<Rightarrow> nat \<Rightarrow> nat \<Rightarrow> (nat \<times> nat) list" where
  "inner_pixels m x_size y_size = List.product [m..<y_size - m] [m..<x_size - m]"

definition usan_response :: "u8 list \<Rightarrow> u8 list \<Rightarrow> nat \<Rightarrow> nat \<Rightarrow> nat \<Rightarrow> nat list \<Rightarrow> nat \<times> nat \<Rightarrow> nat list option \<Rightarrow> nat list option" where
  "usan_response img bp max_no x_size m moves = (\<lambda>(i, j) r. do {
    r \<leftarrow> r;
    c \<leftarrow> at img (i * x_size + j);
    n \<leftarrow> usan_walk img bp c ((i - m) * x_size + j - 1) moves 100;
    if n \<le> max_no then store r (i * x_size + j) (max_no - n) else Some r })"

definition susan_principle :: "u8 list \<Rightarrow> u8 list \<Rightarrow> nat \<Rightarrow> nat \<Rightarrow> nat \<Rightarrow> nat list option" where
  "susan_principle img bp max_no x_size y_size =
    fold (usan_response img bp max_no x_size 3 (usan_moves x_size)) (inner_pixels 3 x_size y_size)
      (Some (replicate (x_size * y_size) 0))"

definition susan_principle_small :: "u8 list \<Rightarrow> u8 list \<Rightarrow> nat \<Rightarrow> nat \<Rightarrow> nat \<Rightarrow> nat list option" where
  "susan_principle_small img bp max_no x_size y_size =
    (let max_no = 730 in
     fold (usan_response img bp max_no x_size 1 (usan_small_moves x_size)) (inner_pixels 1 x_size y_size)
       (Some (replicate (x_size * y_size) 0)))"

text \<open>\<open>r\<close> holds no negative numbers; the result is stored over the image.\<close>

definition int_to_uchar :: "nat list \<Rightarrow> u8 list option" where
  "int_to_uchar r =
    (let max_r = fold max r (r ! 0);
         min_r = fold min r (r ! 0);
         max_r = max_r - min_r
     in if r = [] \<or> max_r = 0 then None
        else if list_all (\<lambda>v. fits_int ((v - min_r) * 255)) r then Some (map (\<lambda>v. of_nat ((v - min_r) * 255 div max_r)) r)
        else None)"

subsection \<open>Smoothing\<close>

text \<open>One comparison of the bubble sort, and the sort.\<close>

definition swap_step :: "nat \<Rightarrow> nat list \<Rightarrow> nat list" where
  "swap_step l p = (if p ! l > p ! (l + 1) then p[l := p ! (l + 1), l + 1 := p ! l] else p)"

definition bubble :: "nat list \<Rightarrow> nat list" where
  "bubble p = fold (\<lambda>k p. fold swap_step [0..<7 - k] p) [0..<7] p"

definition median :: "u8 list \<Rightarrow> nat \<Rightarrow> nat \<Rightarrow> nat \<Rightarrow> u8 option" where
  "median img i j x_size = do {
    p0 \<leftarrow> at img ((i - 1) * x_size + j - 1);
    p1 \<leftarrow> at img ((i - 1) * x_size + j);
    p2 \<leftarrow> at img ((i - 1) * x_size + j + 1);
    p3 \<leftarrow> at img (i * x_size + j - 1);
    p4 \<leftarrow> at img (i * x_size + j + 1);
    p5 \<leftarrow> at img ((i + 1) * x_size + j - 1);
    p6 \<leftarrow> at img ((i + 1) * x_size + j);
    p7 \<leftarrow> at img ((i + 1) * x_size + j + 1);
    let p = bubble (map unat [p0, p1, p2, p3, p4, p5, p6, p7]);
    Some (of_nat ((p ! 3 + p ! 4) div 2)) }"

text \<open>\<open>memcpy\<close> of \<open>n\<close> bytes from \<open>src\<close> at \<open>q\<close> to \<open>dst\<close> at \<open>p\<close>.\<close>

definition memcpy :: "u8 list \<Rightarrow> nat \<Rightarrow> u8 list \<Rightarrow> nat \<Rightarrow> nat \<Rightarrow> u8 list option" where
  "memcpy dst p src q n =
    (if p + n \<le> length dst \<and> q + n \<le> length src then Some (write_at p (take n (drop q src)) dst) else None)"

text \<open>
  The three loops of \<open>enlarge\<close>, \<open>w\<close> is the new width \<open>*x_size+2*border\<close>.  \<open>tmp\<close> is the memory found in \<open>tmp_image\<close>.
\<close>

definition copy_row :: "u8 list \<Rightarrow> nat \<Rightarrow> nat \<Rightarrow> nat \<Rightarrow> u8 list option \<Rightarrow> u8 list option" where
  "copy_row img x_size border i tmp = do {
    tmp \<leftarrow> tmp;
    memcpy tmp ((i + border) * (x_size + 2 * border) + border) img (i * x_size) x_size }"

definition mirror_row :: "u8 list \<Rightarrow> nat \<Rightarrow> nat \<Rightarrow> nat \<Rightarrow> nat \<Rightarrow> u8 list option \<Rightarrow> u8 list option" where
  "mirror_row img x_size y_size border i tmp = do {
    tmp \<leftarrow> tmp;
    tmp \<leftarrow> memcpy tmp ((border - 1 - i) * (x_size + 2 * border) + border) img (i * x_size) x_size;
    memcpy tmp ((y_size + border + i) * (x_size + 2 * border) + border) img ((y_size - i - 1) * x_size) x_size }"

definition mirror_column :: "nat \<Rightarrow> nat \<Rightarrow> nat \<times> nat \<Rightarrow> u8 list option \<Rightarrow> u8 list option" where
  "mirror_column x_size border = (\<lambda>(i, j) tmp. do {
    tmp \<leftarrow> tmp;
    v \<leftarrow> at tmp (j * (x_size + 2 * border) + border + i);
    tmp \<leftarrow> store tmp (j * (x_size + 2 * border) + border - 1 - i) v;
    v \<leftarrow> at tmp (j * (x_size + 2 * border) + x_size + border - 1 - i);
    store tmp (j * (x_size + 2 * border) + x_size + border + i) v })"

definition enlarge :: "u8 list \<Rightarrow> u8 list \<Rightarrow> nat \<Rightarrow> nat \<Rightarrow> nat \<Rightarrow> (u8 list \<times> nat \<times> nat) option" where
  "enlarge img tmp x_size y_size border = do {
    let tmp = fold (copy_row img x_size border) [0..<y_size] (Some tmp);
    let tmp = fold (mirror_row img x_size y_size border) [0..<border] tmp;
    tmp \<leftarrow> fold (mirror_column x_size border) (List.product [0..<border] [0..<y_size + 2 * border]) tmp;
    Some (tmp, x_size + 2 * border, y_size + 2 * border) }"

text \<open>
  The sums over a mask: the walk of \<open>ip\<close> through the image (the moves \<open>ds\<close>) beside the weights \<open>ws\<close> of the distance table.  The
  flat 3x3 mask is the case where every weight is one.
\<close>

fun smooth_walk :: "u8 list \<Rightarrow> u8 list \<Rightarrow> u8 \<Rightarrow> nat \<Rightarrow> nat list \<Rightarrow> nat list \<Rightarrow> nat \<times> nat \<Rightarrow> (nat \<times> nat) option" where
  "smooth_walk img bp c p (d # ds) (w # ws) (area, tot) = do {
    b \<leftarrow> at img p;
    t \<leftarrow> lut bp c b;
    let tmp = w * t;
    let area = area + tmp;
    let tot = tot + tmp * unat b;
    if fits_int area \<and> fits_int tot then smooth_walk img bp c (p + d) ds ws (area, tot) else None }"
| "smooth_walk img bp c p _ _ s = Some s"

definition gauss_moves :: "nat \<Rightarrow> nat \<Rightarrow> nat list" where
  "gauss_moves mask_size x_size =
    concat (replicate (2 * mask_size + 1) (replicate (2 * mask_size) 1 @ [1 + (x_size - (2 * mask_size + 1))]))"

definition flat_moves :: "nat \<Rightarrow> nat list" where
  "flat_moves x_size = [1, 1, x_size - 2, 1, 1, x_size - 2, 1, 1, 0]"

text \<open>The output byte of one pixel; \<open>full\<close> is the weight of the centre (10000 or 100), and the quotient is rounded towards zero.\<close>

definition smooth_pixel :: "u8 list \<Rightarrow> u8 list \<Rightarrow> nat \<Rightarrow> nat list \<Rightarrow> nat list \<Rightarrow> nat \<Rightarrow> nat \<Rightarrow> nat \<times> nat \<Rightarrow> u8 option" where
  "smooth_pixel img bp x_size moves ws m full = (\<lambda>(i, j). do {
    centre \<leftarrow> at img (i * x_size + j);
    (area, tot) \<leftarrow> smooth_walk img bp centre ((i - m) * x_size + j - m) moves ws (0, 0);
    let tmp = int area - int full;
    if tmp = 0 then median img i j x_size
    else let q = int tot - int (unat centre) * int full
         in Some (word_of_int (sgn q * sgn tmp * (\<bar>q\<bar> div \<bar>tmp\<bar>))) })"

text \<open>
  \<open>dt\<close> is a floating-point number; what becomes of it are the arguments: whether it is greater than 15, \<open>(int)(1.5 * dt)\<close>, and the
  distance table \<open>dp\<close>.  The result is the image written through \<open>out\<close>.
\<close>

definition susan_smoothing :: "bool \<Rightarrow> u8 list \<Rightarrow> bool \<Rightarrow> nat \<Rightarrow> u8 list \<Rightarrow> nat \<Rightarrow> nat \<Rightarrow> u8 list \<Rightarrow> u8 list \<Rightarrow> susan_exit + u8 list" where
  "susan_smoothing three_by_three img dt_big dt_mask dp x_size y_size bp tmp =
    (let mask_size = (if three_by_three then 1 else dt_mask + 1)
     in if dt_big then Inl (Exit 0)
        else if 2 * mask_size + 1 > x_size \<or> 2 * mask_size + 1 > y_size then Inl (Exit 0)
        else if \<not> fits_int ((x_size + mask_size * 2) * (y_size + mask_size * 2)) then Inl Undefined
        else case (do {
            (big, w, h) \<leftarrow> enlarge img tmp x_size y_size mask_size;
            out \<leftarrow> those (map
              (if three_by_three then smooth_pixel big bp w (flat_moves w) (replicate 9 1) 1 100
               else smooth_pixel big bp w (gauss_moves mask_size w) (map unat dp) mask_size 10000)
              (inner_pixels mask_size w h));
            Some (write_at 0 out img) }) of
          None \<Rightarrow> Inl Undefined
        | Some out \<Rightarrow> Inr out)"

subsection \<open>Corners\<close>

text \<open>The second half of the mask in \<open>susan_corners_quick\<close>: a move of \<open>p\<close> and a read, as long as \<open>n\<close> stays below \<open>max_no\<close>.\<close>

fun quick_walk :: "u8 list \<Rightarrow> u8 list \<Rightarrow> nat \<Rightarrow> u8 \<Rightarrow> nat \<Rightarrow> nat list \<Rightarrow> nat \<Rightarrow> nat option" where
  "quick_walk img bp max_no c p [] n = Some n"
| "quick_walk img bp max_no c p (d # ds) n =
    (if n < max_no then do {
       b \<leftarrow> at img (p + d);
       t \<leftarrow> lut bp c b;
       quick_walk img bp max_no c (p + d) ds (n + t) }
     else Some n)"

definition first_half :: "nat \<Rightarrow> nat list" where
  "first_half x_size = [
    1, 1, x_size - 3,
    1, 1, 1, 1, x_size - 5,
    1, 1, 1, 1, 1, 1, x_size - 6,
    1, 1, 0]"

definition second_half :: "nat \<Rightarrow> nat list" where
  "second_half x_size = [
    2, 1, 1, x_size - 6,
    1, 1, 1, 1, 1, 1, x_size - 5,
    1, 1, 1, 1, x_size - 3,
    1, 1]"

definition quick_response :: "u8 list \<Rightarrow> u8 list \<Rightarrow> nat \<Rightarrow> nat \<Rightarrow> nat \<times> nat \<Rightarrow> nat list option \<Rightarrow> nat list option" where
  "quick_response img bp max_no x_size = (\<lambda>(i, j) r. do {
    r \<leftarrow> r;
    c \<leftarrow> at img (i * x_size + j);
    let p = (i - 3) * x_size + j - 1;
    n \<leftarrow> usan_walk img bp c p (first_half x_size) 100;
    n \<leftarrow> quick_walk img bp max_no c (p + sum_list (first_half x_size)) (second_half x_size) n;
    if n < max_no then store r (i * x_size + j) (max_no - n) else Some r })"

text \<open>The element type of \<open>CORNER_LIST\<close>.  A list of corners stands for the entries before the one whose \<open>info\<close> is 7.\<close>

record corner =
  cx :: nat
  cy :: nat
  cinfo :: int
  cdx :: int
  cdy :: int
  cI :: int

definition MAX_CORNERS :: nat where
  "MAX_CORNERS = 15000"

text \<open>The comparisons of \<open>SEVEN_SUPP\<close>: greater than what comes before in the window, not less than what comes behind.\<close>

definition before_window :: "(int \<times> int) list" where
  "before_window =
    [(-3, -3), (-3, -2), (-3, -1), (-3, 0), (-3, 1), (-3, 2), (-3, 3),
     (-2, -3), (-2, -2), (-2, -1), (-2, 0), (-2, 1), (-2, 2), (-2, 3),
     (-1, -3), (-1, -2), (-1, -1), (-1, 0), (-1, 1), (-1, 2), (-1, 3),
     (0, -3), (0, -2), (0, -1)]"

definition behind_window :: "(int \<times> int) list" where
  "behind_window =
    [(0, 1), (0, 2), (0, 3),
     (1, -3), (1, -2), (1, -1), (1, 0), (1, 1), (1, 2), (1, 3),
     (2, -3), (2, -2), (2, -1), (2, 0), (2, 1), (2, 2), (2, 3),
     (3, -3), (3, -2), (3, -1), (3, 0), (3, 1), (3, 2), (3, 3)]"

definition pixel :: "nat \<Rightarrow> nat \<Rightarrow> nat \<Rightarrow> int \<times> int \<Rightarrow> nat" where
  "pixel x_size i j = (\<lambda>(di, dj). nat ((int i + di) * int x_size + (int j + dj)))"

definition local_max :: "nat list \<Rightarrow> nat \<Rightarrow> nat \<Rightarrow> nat \<Rightarrow> bool" where
  "local_max r x_size i j =
    (let x = r ! (i * x_size + j)
     in x > 0 \<and> list_all (\<lambda>d. x > r ! pixel x_size i j d) before_window \<and> list_all (\<lambda>d. x \<ge> r ! pixel x_size i j d) behind_window)"

text \<open>Division of \<open>int\<close>, which rounds towards zero.\<close>

definition c_div :: "int \<Rightarrow> int \<Rightarrow> int" where
  "c_div a b = sgn a * sgn b * (\<bar>a\<bar> div \<bar>b\<bar>)"

text \<open>The sum of the pixels at the given offsets, and the entry of a corner.\<close>

definition pixel_sum :: "u8 list \<Rightarrow> nat \<Rightarrow> nat \<Rightarrow> nat \<Rightarrow> (int \<times> int) list \<Rightarrow> int" where
  "pixel_sum img x_size i j ds = sum_list (map (\<lambda>d. int (unat (img ! pixel x_size i j d))) ds)"

definition window_column :: "int \<Rightarrow> (int \<times> int) list" where
  "window_column dj = [(-2, dj), (-1, dj), (0, dj), (1, dj), (2, dj)]"

definition window_row :: "int \<Rightarrow> (int \<times> int) list" where
  "window_row di = [(di, -2), (di, -1), (di, 0), (di, 1), (di, 2)]"

definition make_corner :: "u8 list \<Rightarrow> nat \<Rightarrow> nat \<Rightarrow> nat \<Rightarrow> corner" where
  "make_corner img x_size i j =
    (let S = pixel_sum img x_size i j;
         I = S (window_row (-2)) + S (window_row (-1)) + S (window_row 0) + S (window_row 1) + S (window_row 2);
         x = S (window_column 2) - S (window_column (-2));
         x = x + (x + S (window_column 1) - S (window_column (-1)));
         y = S (window_row 2) - S (window_row (-2));
         y = y + (y + S (window_row 1) - S (window_row (-1)))
     in \<lparr>cx = j, cy = i, cinfo = 0, cdx = c_div x 15, cdy = c_div y 15, cI = c_div I 25\<rparr>)"

fun collect_corners :: "u8 list \<Rightarrow> nat list \<Rightarrow> nat \<Rightarrow> (nat \<times> nat) list \<Rightarrow> corner list \<Rightarrow> susan_exit + corner list" where
  "collect_corners img r x_size [] cs = Inr cs"
| "collect_corners img r x_size ((i, j) # ps) cs =
    (if local_max r x_size i j then
       (let cs = cs @ [make_corner img x_size i j]
        in if length cs = MAX_CORNERS then Inl (Exit 1) else collect_corners img r x_size ps cs)
     else collect_corners img r x_size ps cs)"

definition susan_corners_quick :: "u8 list \<Rightarrow> u8 list \<Rightarrow> nat \<Rightarrow> nat \<Rightarrow> nat \<Rightarrow> susan_exit + nat list \<times> corner list" where
  "susan_corners_quick img bp max_no x_size y_size =
    (case fold (quick_response img bp max_no x_size) (inner_pixels 7 x_size y_size) (Some (replicate (x_size * y_size) 0)) of
       None \<Rightarrow> Inl Undefined
     | Some r \<Rightarrow> (case collect_corners img r x_size (inner_pixels 7 x_size y_size) [] of
         Inl e \<Rightarrow> Inl e
       | Inr cs \<Rightarrow> Inr (r, cs)))"

text \<open>Assignments through a moving pointer: the value and the move behind it.\<close>

fun store_walk :: "u8 list \<Rightarrow> nat \<Rightarrow> (u8 \<times> nat) list \<Rightarrow> u8 list option" where
  "store_walk img p [] = Some img"
| "store_walk img p ((v, d) # vs) = do {
    img \<leftarrow> store img p v;
    store_walk img (p + d) vs }"

definition corner_block :: "nat \<Rightarrow> (u8 \<times> nat) list" where
  "corner_block x_size = [
    (255, 1), (255, 1), (255, x_size - 2),
    (255, 1), (0, 1), (255, x_size - 2),
    (255, 1), (255, 1), (255, 0)]"

definition corner_draw :: "u8 list \<Rightarrow> corner list \<Rightarrow> nat \<Rightarrow> bool \<Rightarrow> u8 list option" where
  "corner_draw img cs x_size simple =
    fold (\<lambda>c img. do {
      img \<leftarrow> img;
      if simple then store img (cy c * x_size + cx c) 0
      else store_walk img ((cy c - 1) * x_size + cx c - 1) (corner_block x_size) }) cs (Some img)"

end
