(* ===== verification/Susan_Principle.thy ===== *)
theory Susan_Principle
  imports Susan
begin

text \<open>
  \<^verbatim>\<open>automotive/susan/susan.c\<close>: images come back from their files, the unrolled masks compute the USAN area of a pixel (interface
  \<open>susan_mask\<close>, provided by the circle of 37 pixels and by the 3x3 square), and the quick detector finds and marks the corners.
\<close>

unbundle bit_operations_syntax

section \<open>Specification\<close>

text \<open>The offsets of the circular mask, without its centre, and of the 3x3 mask.\<close>

definition disc :: "(int \<times> int) list" where
  "disc = [(di, dj). di \<leftarrow> [-3, -2, -1, 0, 1, 2, 3], dj \<leftarrow> [-3, -2, -1, 0, 1, 2, 3], 0 < di * di + dj * dj \<and> di * di + dj * dj \<le> 10]"

definition square :: "(int \<times> int) list" where
  "square = [(di, dj). di \<leftarrow> [-1, 0, 1], dj \<leftarrow> [-1, 0, 1], di \<noteq> 0 \<or> dj \<noteq> 0]"

text \<open>The entry of the brightness table for two pixels, and the USAN area of a pixel: 100 for the pixel itself.\<close>

definition similar :: "u8 list \<Rightarrow> u8 \<Rightarrow> u8 \<Rightarrow> nat" where
  "similar bp c b = unat (bp ! (258 + unat c - unat b))"

definition usan :: "(int \<times> int) list \<Rightarrow> u8 list \<Rightarrow> u8 list \<Rightarrow> nat \<Rightarrow> nat \<Rightarrow> nat \<Rightarrow> nat" where
  "usan offs img bp x_size i j =
    100 + sum_list (map (\<lambda>d. similar bp (img ! (i * x_size + j)) (img ! pixel x_size i j d)) offs)"

text \<open>The addresses a walk reads, when it moves after a read and when it moves before it.\<close>

fun visited :: "nat \<Rightarrow> nat list \<Rightarrow> nat list" where
  "visited p [] = []"
| "visited p (d # ds) = p # visited (p + d) ds"

fun moved :: "nat \<Rightarrow> nat list \<Rightarrow> nat list" where
  "moved p [] = []"
| "moved p (d # ds) = (p + d) # moved (p + d) ds"

definition inside :: "nat \<Rightarrow> nat \<Rightarrow> nat \<Rightarrow> nat \<Rightarrow> nat \<Rightarrow> bool" where
  "inside m x_size y_size i j \<longleftrightarrow> m \<le> i \<and> i < y_size - m \<and> m \<le> j \<and> j < x_size - m"

text \<open>Two positions at most three rows and three columns apart.\<close>

definition same_window :: "nat \<times> nat \<Rightarrow> nat \<times> nat \<Rightarrow> bool" where
  "same_window p q \<longleftrightarrow> \<bar>int (fst p) - int (fst q)\<bar> \<le> 3 \<and> \<bar>int (snd p) - int (snd q)\<bar> \<le> 3"

text \<open>The response of the quick corner detector, and what a corner is: the first largest response among its neighbours.\<close>

definition response :: "u8 list \<Rightarrow> u8 list \<Rightarrow> nat \<Rightarrow> nat \<Rightarrow> nat \<Rightarrow> nat \<times> nat \<Rightarrow> nat" where
  "response img bp max_no x y = (\<lambda>(i, j). if inside 7 x y i j then max_no - usan disc img bp x i j else 0)"

definition before :: "nat \<times> nat \<Rightarrow> nat \<times> nat \<Rightarrow> bool" where
  "before p q \<longleftrightarrow> fst p < fst q \<or> fst p = fst q \<and> snd p < snd q"

definition is_corner :: "(nat \<times> nat \<Rightarrow> nat) \<Rightarrow> nat \<Rightarrow> nat \<Rightarrow> nat \<times> nat \<Rightarrow> bool" where
  "is_corner R x y p \<longleftrightarrow> inside 7 x y (fst p) (snd p) \<and> R p > 0 \<and>
    (\<forall>q. same_window p q \<longrightarrow> (before q p \<longrightarrow> R q < R p) \<and> (before p q \<longrightarrow> R q \<le> R p))"

definition adjacent :: "nat \<times> nat \<Rightarrow> nat \<times> nat \<Rightarrow> bool" where
  "adjacent p q \<longleftrightarrow> \<bar>int (fst p) - int (fst q)\<bar> \<le> 1 \<and> \<bar>int (snd p) - int (snd q)\<bar> \<le> 1"

definition block_offsets :: "(int \<times> int) list" where
  "block_offsets = [(-1, -1), (-1, 0), (-1, 1), (0, -1), (0, 0), (0, 1), (1, -1), (1, 0), (1, 1)]"

definition draw_corner :: "nat \<Rightarrow> corner \<Rightarrow> u8 list option \<Rightarrow> u8 list option" where
  "draw_corner x c img = do { img \<leftarrow> img; store_walk img ((cy c - 1) * x + cx c - 1) (corner_block x) }"

section \<open>Images in files\<close>

declare print_d.simps [simp del]

lemma is_digit_print: "is_digit (of_nat (48 + n mod 10))" "unat (of_nat (48 + n mod 10) :: u8) - 48 = n mod 10"
proof -
  have "unat (of_nat (48 + n mod 10) :: u8) = 48 + n mod 10"
    using mod_less_divisor[of 10 n] by (simp add: unsigned_of_nat take_bit_nat_eq_self del: mod_less_divisor of_nat_add)
  then show "is_digit (of_nat (48 + n mod 10))" "unat (of_nat (48 + n mod 10) :: u8) - 48 = n mod 10"
    by (simp_all add: is_digit_def word_le_nat_alt)
qed

lemma print_d_Cons: "\<exists>c cs. print_d n = c # cs \<and> is_digit c"
proof (induction n rule: print_d.induct)
  case (1 n)
  then show ?case using is_digit_print(1)[of n] by (subst print_d.simps) (cases "n < 10", auto)
qed

lemma fits_int_mono: "fits_int n \<Longrightarrow> m \<le> n \<Longrightarrow> fits_int m"
  by (simp add: fits_int_def)

lemma read_print: "fits_int n \<Longrightarrow> read_digits 0 (print_d n @ cs) = read_digits n cs"
proof (induction n arbitrary: cs rule: print_d.induct)
  case (1 n)
  have d: "read_digits m ([of_nat (48 + n mod 10)] @ cs) = read_digits (m * 10 + n mod 10) cs" if "fits_int (m * 10 + n mod 10)" for m
    using that is_digit_print[of n] by (simp add: Let_def)
  have "fits_int (n div 10)" using "1.prems" by (rule fits_int_mono) simp
  then have "read_digits 0 (print_d (n div 10) @ [of_nat (48 + n mod 10)] @ cs) = read_digits n cs" if "\<not> n < 10"
    using "1.IH"[OF that] d[of "n div 10"] "1.prems" by simp
  moreover have "read_digits 0 ([of_nat (48 + n mod 10)] @ cs) = read_digits n cs" if "n < 10"
    using d[of 0] that "1.prems" by simp
  ultimately show ?case by (subst print_d.simps) (simp del: of_nat_add)
qed

lemma getint_print:
  assumes "fits_int n" "\<not> is_digit c"
  shows "getint (print_d n @ c # cs) = Inr (n, cs)"
proof -
  obtain d ds where d: "print_d n = d # ds" "is_digit d" using print_d_Cons by blast
  then have "d \<noteq> 35" by (auto simp: is_digit_def)
  then have "find_digit (print_d n @ c # cs) = Inr (print_d n @ c # cs)" using d by simp
  then show ?thesis using assms by (simp add: getint_def read_print)
qed

lemma pgm_read:
  assumes "length img = x_size * y_size" "img \<noteq> []" "fits_int (x_size * y_size)"
  shows "\<exists>fd. put_image True img x_size y_size = Inr fd \<and> get_image (Some fd) junk = Inr (img, x_size, y_size)"
proof -
  have p: "0 < x_size" "0 < y_size" using assms(1,2) by (auto intro: gr0I)
  then have f: "fits_int x_size" "fits_int y_size" using assms(3) by (auto elim!: fits_int_mono)
  have nl: "\<not> is_digit 10" "\<not> is_digit 32" "(10 :: u8) \<noteq> 35" by (simp_all add: is_digit_def)
  have 1: "getint (10 # fd) = getint fd" for fd using nl by (simp add: getint_def)
  have 3: "getint (50 # 53 # 53 # 10 # fd) = Inr (255, fd)" for fd by (simp add: getint_def is_digit_def fits_int_def)
  have g: "getint (10 # print_d x_size @ 32 # cs) = Inr (x_size, cs)" "getint (print_d y_size @ 10 # cs) = Inr (y_size, cs)" for cs
    unfolding 1 using getint_print[OF f(1) nl(2)] getint_print[OF f(2) nl(1)] by auto
  show ?thesis unfolding get_image_def put_image_def using assms g 3 p by (simp add: numeral_2_eq_2 Let_def)
qed

section \<open>Walks\<close>

lemma lut_similar: "length bp = 516 \<Longrightarrow> lut bp c b = Some (similar bp c b)"
proof -
  assume "length bp = 516"
  moreover have "unat c < 256" using unsigned_less[of c] by simp
  ultimately show ?thesis by (simp add: lut_def at_def similar_def)
qed

lemma usan_walk_sum:
  assumes "length bp = 516" "list_all (\<lambda>q. q < length img) (visited p ds)"
  shows "usan_walk img bp c p ds n = Some (n + sum_list (map (\<lambda>q. similar bp c (img ! q)) (visited p ds)))"
  using assms(2) by (induction ds arbitrary: p n) (simp_all add: at_def lut_similar[OF assms(1)])

lemma pixel_3:
  assumes "-3 \<le> di" "-3 \<le> dj"
  shows "pixel x (a + 3) (b + 3) (di, dj) = (a + nat (3 + di)) * x + (b + nat (3 + dj))"
proof -
  have "int (a + 3) + di = int (a + nat (3 + di))" "int (b + 3) + dj = int (b + nat (3 + dj))" using assms by simp_all
  then have "pixel x (a + 3) (b + 3) (di, dj) = nat (int ((a + nat (3 + di)) * x + (b + nat (3 + dj))))"
    unfolding pixel_def prod.case by (simp only: of_nat_mult of_nat_add)
  then show ?thesis by (simp only: nat_int)
qed

lemma pixel_1:
  assumes "-1 \<le> di" "-1 \<le> dj"
  shows "pixel x (Suc a) (Suc b) (di, dj) = (a + nat (1 + di)) * x + (b + nat (1 + dj))"
proof -
  have "int (Suc a) + di = int (a + nat (1 + di))" "int (Suc b) + dj = int (b + nat (1 + dj))" using assms by simp_all
  then have "pixel x (Suc a) (Suc b) (di, dj) = nat (int ((a + nat (1 + di)) * x + (b + nat (1 + dj))))"
    unfolding pixel_def prod.case by (simp only: of_nat_mult of_nat_add)
  then show ?thesis by (simp only: nat_int)
qed

lemma disc_list: "disc = [(-3, -1), (-3, 0), (-3, 1), (-2, -2), (-2, -1), (-2, 0), (-2, 1), (-2, 2),
    (-1, -3), (-1, -2), (-1, -1), (-1, 0), (-1, 1), (-1, 2), (-1, 3), (0, -3), (0, -2), (0, -1), (0, 1), (0, 2), (0, 3),
    (1, -3), (1, -2), (1, -1), (1, 0), (1, 1), (1, 2), (1, 3), (2, -2), (2, -1), (2, 0), (2, 1), (2, 2), (3, -1), (3, 0), (3, 1)]"
  by code_simp

lemma square_list: "square = [(-1, -1), (-1, 0), (-1, 1), (0, -1), (0, 1), (1, -1), (1, 0), (1, 1)]"
  by code_simp

lemma visited_disc:
  assumes "3 \<le> i" "3 \<le> j" "j < x - 3"
  shows "visited ((i - 3) * x + j - 1) (usan_moves x) = map (pixel x i j) disc"
proof -
  define a b z where "a = i - 3" "b = j - 3" "z = x - 7"
  then have e: "i = a + 3" "j = b + 3" "x = z + 7" using assms by simp_all
  show ?thesis unfolding e disc_list usan_moves_def by (simp add: pixel_3 algebra_simps)
qed

lemma visited_square:
  assumes "1 \<le> i" "1 \<le> j" "j < x - 1"
  shows "visited ((i - 1) * x + j - 1) (usan_small_moves x) = map (pixel x i j) square"
proof -
  define a b z where "a = i - 1" "b = j - 1" "z = x - 3"
  then have e: "i = a + 1" "j = b + 1" "x = z + 3" using assms by simp_all
  show ?thesis unfolding e square_list usan_small_moves_def by (simp add: pixel_1 algebra_simps)
qed

lemma pixel_bounds:
  assumes "inside m x y i j" "\<bar>di\<bar> \<le> int m" "\<bar>dj\<bar> \<le> int m"
  shows "pixel x i j (di, dj) = nat (int i + di) * x + nat (int j + dj)" "nat (int i + di) < y" "nat (int j + dj) < x"
proof -
  have b: "0 \<le> int i + di" "0 \<le> int j + dj" "int i + di < int y" "int j + dj < int x" using assms by (auto simp: inside_def)
  show "nat (int i + di) < y" "nat (int j + dj) < x" using b by simp_all
  have "int (pixel x i j (di, dj)) = int (nat (int i + di) * x + nat (int j + dj))" using b by (simp add: pixel_def)
  then show "pixel x i j (di, dj) = nat (int i + di) * x + nat (int j + dj)" by (simp only: of_nat_eq_iff)
qed

lemma address_less: "i < y \<Longrightarrow> j < x \<Longrightarrow> i * x + j < x * (y :: nat)"
proof -
  assume "i < y" "j < x"
  then have "i * x + j < Suc i * x" "Suc i * x \<le> y * x" by (simp_all only: mult_le_mono1 Suc_leI) simp
  then show ?thesis by (simp add: mult.commute)
qed

lemma pixel_less:
  assumes "inside m x y i j" "\<bar>di\<bar> \<le> int m" "\<bar>dj\<bar> \<le> int m"
  shows "pixel x i j (di, dj) < x * y"
  unfolding pixel_bounds(1)[OF assms] by (rule address_less) (use pixel_bounds(2,3)[OF assms] in auto)

lemma address_inj: "j < x \<Longrightarrow> j' < x \<Longrightarrow> i * x + j = i' * x + j' \<longleftrightarrow> i = i' \<and> j = (j' :: nat)"
proof -
  assume l: "j < x" "j' < x"
  have "(i * x + j) div x = i" "(i' * x + j') div x = i'" "(i * x + j) mod x = j" "(i' * x + j') mod x = j'" using l by simp_all
  then show ?thesis by metis
qed

lemma inside_mono: "inside n x y i j \<Longrightarrow> m \<le> n \<Longrightarrow> inside m x y i j"
  by (auto simp: inside_def)

lemma inside_less: "inside m x y i j \<Longrightarrow> i < y \<and> j < x"
  by (auto simp: inside_def)

section \<open>Storing over all inside pixels\<close>

lemma set_inner_pixels: "(i, j) \<in> set (inner_pixels m x y) \<longleftrightarrow> inside m x y i j"
  by (auto simp: inner_pixels_def inside_def set_product)

lemma distinct_inner_pixels: "distinct (inner_pixels m x y)"
  unfolding inner_pixels_def by (rule distinct_product) simp_all

lemma fold_stores:
  assumes step: "\<And>p r. p \<in> set ps \<Longrightarrow> length r = L \<Longrightarrow> step p (Some r) = Some (case G p of None \<Rightarrow> r | Some v \<Rightarrow> r[addr p := v])"
    and "distinct ps" "inj_on addr (set ps)" "\<And>p. p \<in> set ps \<Longrightarrow> addr p < L" "length r0 = L"
  shows "\<exists>r. fold step ps (Some r0) = Some r \<and> length r = L \<and>
    (\<forall>p\<in>set ps. r ! addr p = (case G p of None \<Rightarrow> r0 ! addr p | Some v \<Rightarrow> v)) \<and> (\<forall>q. q \<notin> addr ` set ps \<longrightarrow> r ! q = r0 ! q)"
  using assms
proof (induction ps arbitrary: r0)
  case (Cons p ps)
  define r1 where "r1 = (case G p of None \<Rightarrow> r0 | Some v \<Rightarrow> r0[addr p := v])"
  have l1: "length r1 = L" using Cons.prems(5) by (simp add: r1_def split: option.split)
  have "\<exists>r. fold step ps (Some r1) = Some r \<and> length r = L \<and>
    (\<forall>p\<in>set ps. r ! addr p = (case G p of None \<Rightarrow> r1 ! addr p | Some v \<Rightarrow> v)) \<and> (\<forall>q. q \<notin> addr ` set ps \<longrightarrow> r ! q = r1 ! q)"
    by (rule Cons.IH) (use Cons.prems l1 in \<open>auto simp: inj_on_def\<close>)
  then obtain r where r: "fold step ps (Some r1) = Some r" "length r = L"
    "\<And>p. p \<in> set ps \<Longrightarrow> r ! addr p = (case G p of None \<Rightarrow> r1 ! addr p | Some v \<Rightarrow> v)" "\<And>q. q \<notin> addr ` set ps \<Longrightarrow> r ! q = r1 ! q"
    by blast
  have np: "addr p \<notin> addr ` set ps" using Cons.prems(2,3) by (auto simp: inj_on_def)
  have o: "r1 ! q = r0 ! q" if "q \<noteq> addr p" for q using that by (simp add: r1_def split: option.split)
  have p: "r1 ! addr p = (case G p of None \<Rightarrow> r0 ! addr p | Some v \<Rightarrow> v)"
    using Cons.prems(4,5) by (simp add: r1_def split: option.split)
  have "step p (Some r0) = Some r1" unfolding r1_def using Cons.prems(1,5) by simp
  then have "fold step (p # ps) (Some r0) = Some r" using r(1) by simp
  moreover have "r ! addr q = (case G q of None \<Rightarrow> r0 ! addr q | Some v \<Rightarrow> v)" if "q \<in> set (p # ps)" for q
  proof (cases "q = p")
    case True
    show ?thesis unfolding True using r(4)[OF np] p by (rule trans)
  next
    case False
    then have q: "q \<in> set ps" using that by simp
    then have "addr q \<noteq> addr p" using np by (metis imageI)
    then show ?thesis using r(3)[OF q] o by (simp split: option.split)
  qed
  moreover have "r ! q = r0 ! q" if "q \<notin> addr ` set (p # ps)" for q using that r(4) o by auto
  ultimately show ?case using r(2) by blast
qed simp

section \<open>The principle\<close>

lemma disc_small: "(di, dj) \<in> set disc \<Longrightarrow> \<bar>di\<bar> \<le> 3 \<and> \<bar>dj\<bar> \<le> 3"
  unfolding disc_list by auto

lemma square_small: "(di, dj) \<in> set square \<Longrightarrow> \<bar>di\<bar> \<le> 1 \<and> \<bar>dj\<bar> \<le> 1"
  unfolding square_list by auto

lemma fold_inner:
  fixes step :: "nat \<times> nat \<Rightarrow> nat list option \<Rightarrow> nat list option"
  assumes step: "\<And>i j r. inside m x y i j \<Longrightarrow> length r = x * y \<Longrightarrow>
    step (i, j) (Some r) = Some (case G i j of None \<Rightarrow> r | Some v \<Rightarrow> r[i * x + j := v])"
  shows "\<exists>r. fold step (inner_pixels m x y) (Some (replicate (x * y) 0)) = Some r \<and> length r = x * y \<and>
    (\<forall>i j. i < y \<and> j < x \<longrightarrow> r ! (i * x + j) = (if inside m x y i j then case G i j of None \<Rightarrow> 0 | Some v \<Rightarrow> v else 0))"
proof -
  define addr where "addr p = fst p * x + snd p" for p :: "nat \<times> nat"
  let ?P = "set (inner_pixels m x y)"
  have inj: "inj_on addr ?P"
    using address_inj by (auto simp: inj_on_def addr_def set_inner_pixels dest!: inside_less)
  have less: "addr p < x * y" if "p \<in> ?P" for p
  proof -
    obtain i j where p: "p = (i, j)" by (cases p)
    then show ?thesis using that address_less[of i y j x] inside_less[of m x y i j] by (auto simp: set_inner_pixels addr_def)
  qed
  have st: "step p (Some r) = Some (case case_prod G p of None \<Rightarrow> r | Some v \<Rightarrow> r[addr p := v])" if "p \<in> ?P" "length r = x * y" for p r
  proof -
    obtain i j where p: "p = (i, j)" by (cases p)
    show ?thesis using that step unfolding p by (simp add: set_inner_pixels addr_def split: option.split)
  qed
  obtain r where r: "fold step (inner_pixels m x y) (Some (replicate (x * y) 0)) = Some r" "length r = x * y"
    "\<And>p. p \<in> ?P \<Longrightarrow> r ! addr p = (case case_prod G p of None \<Rightarrow> replicate (x * y) 0 ! addr p | Some v \<Rightarrow> v)"
    "\<And>q. q \<notin> addr ` ?P \<Longrightarrow> r ! q = replicate (x * y) 0 ! q"
    using fold_stores[OF st distinct_inner_pixels inj less, of "replicate (x * y) 0"] by auto
  have "r ! (i * x + j) = (if inside m x y i j then case G i j of None \<Rightarrow> 0 | Some v \<Rightarrow> v else 0)" if ij: "i < y" "j < x" for i j
  proof (cases "inside m x y i j")
    case True
    then show ?thesis using r(3)[of "(i, j)"] address_less[OF ij] by (simp add: set_inner_pixels addr_def split: option.split)
  next
    case False
    have "i * x + j \<notin> addr ` ?P"
    proof
      assume "i * x + j \<in> addr ` ?P"
      then obtain a b where "inside m x y a b" "i * x + j = a * x + b" by (auto simp: set_inner_pixels addr_def)
      then show False using address_inj[OF ij(2), of b i a] False inside_less[of m x y a b] by auto
    qed
    then show ?thesis using r(4) address_less[OF ij] False by simp
  qed
  then show ?thesis using r(1,2) by blast
qed

text \<open>What a mask needs: its walk reads the offsets it stands for, and these are small.\<close>

locale susan_mask =
  fixes m :: nat and moves :: "nat \<Rightarrow> nat list" and offs :: "(int \<times> int) list"
  assumes walk: "inside m x y i j \<Longrightarrow> visited ((i - m) * x + j - 1) (moves x) = map (pixel x i j) offs"
    and small: "(di, dj) \<in> set offs \<Longrightarrow> \<bar>di\<bar> \<le> int m \<and> \<bar>dj\<bar> \<le> int m"
begin

lemma walk_usan:
  assumes "length img = x * y" "length bp = 516" "inside m x y i j"
  shows "usan_walk img bp (img ! (i * x + j)) ((i - m) * x + j - 1) (moves x) 100 = Some (usan offs img bp x i j)"
proof -
  have "list_all (\<lambda>q. q < length img) (visited ((i - m) * x + j - 1) (moves x))"
    unfolding walk[OF assms(3)] assms(1) using pixel_less[OF assms(3)] small by (auto simp: list_all_iff)
  from usan_walk_sum[OF assms(2) this] show ?thesis unfolding walk[OF assms(3)] by (simp add: usan_def o_def)
qed

lemma response_step:
  assumes "length img = x * y" "length bp = 516" "inside m x y i j" "length r = x * y"
  shows "usan_response img bp max_no x m (moves x) (i, j) (Some r) =
    Some (case (if usan offs img bp x i j \<le> max_no then Some (max_no - usan offs img bp x i j) else None) of
      None \<Rightarrow> r | Some v \<Rightarrow> r[i * x + j := v])"
proof -
  have a: "i * x + j < x * y" using inside_less[OF assms(3)] by (simp add: address_less)
  then have "at img (i * x + j) = Some (img ! (i * x + j))" using assms(1) by (simp add: at_def)
  then show ?thesis using walk_usan[OF assms(1-3)] a assms(4) by (simp add: usan_response_def store_def)
qed

lemma all_responses:
  assumes "length img = x * y" "length bp = 516"
  shows "\<exists>r. fold (usan_response img bp max_no x m (moves x)) (inner_pixels m x y) (Some (replicate (x * y) 0)) = Some r \<and>
    length r = x * y \<and> (\<forall>i j. i < y \<and> j < x \<longrightarrow> r ! (i * x + j) = (if inside m x y i j then max_no - usan offs img bp x i j else 0))"
proof -
  define G where "G i j = (if usan offs img bp x i j \<le> max_no then Some (max_no - usan offs img bp x i j) else None)" for i j
  have g: "(case G i j of None \<Rightarrow> 0 | Some v \<Rightarrow> v) = max_no - usan offs img bp x i j" for i j by (simp add: G_def)
  have "\<exists>r. fold (usan_response img bp max_no x m (moves x)) (inner_pixels m x y) (Some (replicate (x * y) 0)) = Some r \<and> length r = x * y \<and>
    (\<forall>i j. i < y \<and> j < x \<longrightarrow> r ! (i * x + j) = (if inside m x y i j then case G i j of None \<Rightarrow> 0 | Some v \<Rightarrow> v else 0))"
    by (rule fold_inner) (unfold G_def, rule response_step[OF assms])
  then show ?thesis unfolding g .
qed

end

interpretation circle: susan_mask 3 usan_moves disc
  by unfold_locales (use visited_disc disc_small in \<open>auto simp: inside_def\<close>)

interpretation neighbours: susan_mask 1 usan_small_moves square
  by unfold_locales (use visited_square square_small in \<open>auto simp: inside_def\<close>)

lemma principle_response:
  assumes "length img = x * y" "length bp = 516"
  shows "\<exists>r. susan_principle img bp max_no x y = Some r \<and> length r = x * y \<and>
    (\<forall>i j. i < y \<and> j < x \<longrightarrow> r ! (i * x + j) = (if inside 3 x y i j then max_no - usan disc img bp x i j else 0))"
  unfolding susan_principle_def by (rule circle.all_responses[OF assms])

lemma principle_small_response:
  assumes "length img = x * y" "length bp = 516"
  shows "\<exists>r. susan_principle_small img bp max_no x y = Some r \<and> length r = x * y \<and>
    (\<forall>i j. i < y \<and> j < x \<longrightarrow> r ! (i * x + j) = (if inside 1 x y i j then 730 - usan square img bp x i j else 0))"
  unfolding susan_principle_small_def Let_def by (rule neighbours.all_responses[OF assms])

section \<open>The quick corners\<close>

lemma quick_walk_sum:
  assumes "length bp = 516" "list_all (\<lambda>q. q < length img) (moved p ds)"
  shows "\<exists>n'. quick_walk img bp max_no c p ds n = Some n' \<and>
    max_no - n' = max_no - (n + sum_list (map (\<lambda>q. similar bp c (img ! q)) (moved p ds)))"
  using assms(2)
proof (induction ds arbitrary: p n)
  case (Cons d ds)
  show ?case
  proof (cases "n < max_no")
    case True
    then show ?thesis using Cons.IH[of "p + d" "n + similar bp c (img ! (p + d))"] Cons.prems
      by (simp add: at_def lut_similar[OF assms(1)] add.assoc)
  qed simp
qed simp

lemma halves:
  assumes "6 \<le> x"
  shows "visited p (first_half x) @ moved (p + sum_list (first_half x)) (second_half x) = visited p (usan_moves x)"
proof -
  define z where "z = x - 6"
  then have x: "x = z + 6" using assms by simp
  show ?thesis unfolding x first_half_def second_half_def usan_moves_def by simp
qed

lemma quick_response_step:
  assumes "length img = x * y" "length bp = 516" "inside 7 x y i j" "length r = x * y"
  shows "quick_response img bp max_no x (i, j) (Some r) =
    Some (case (if usan disc img bp x i j < max_no then Some (max_no - usan disc img bp x i j) else None) of
      None \<Rightarrow> r | Some v \<Rightarrow> r[i * x + j := v])"
proof -
  let ?p = "(i - 3) * x + j - 1" and ?c = "img ! (i * x + j)"
  let ?q = "?p + sum_list (first_half x)" and ?S = "\<lambda>qs. sum_list (map (\<lambda>q. similar bp ?c (img ! q)) qs)"
  have a: "i * x + j < x * y" using inside_less[OF assms(3)] by (simp add: address_less)
  have in3: "inside 3 x y i j" using inside_mono[OF assms(3)] by simp
  have h: "visited ?p (first_half x) @ moved ?q (second_half x) = map (pixel x i j) disc"
    unfolding circle.walk[OF in3, symmetric] by (rule halves) (use assms(3) in \<open>auto simp: inside_def\<close>)
  have "list_all (\<lambda>q. q < length img) (visited ?p (first_half x) @ moved ?q (second_half x))"
    unfolding h assms(1) using pixel_less[OF in3] circle.small by (auto simp: list_all_iff)
  then have l: "list_all (\<lambda>q. q < length img) (visited ?p (first_half x))" "list_all (\<lambda>q. q < length img) (moved ?q (second_half x))"
    by simp_all
  have u: "100 + ?S (visited ?p (first_half x)) + ?S (moved ?q (second_half x)) = usan disc img bp x i j"
    using arg_cong[OF h, of ?S] by (simp add: usan_def o_def)
  obtain n where n: "quick_walk img bp max_no ?c ?q (second_half x) (100 + ?S (visited ?p (first_half x))) = Some n"
    "max_no - n = max_no - usan disc img bp x i j"
    using quick_walk_sum[OF assms(2) l(2), of max_no ?c "100 + ?S (visited ?p (first_half x))"] unfolding u by blast
  then have "n < max_no \<longleftrightarrow> usan disc img bp x i j < max_no" by linarith
  moreover have "at img (i * x + j) = Some ?c" using assms(1) a by (simp add: at_def)
  ultimately show ?thesis using usan_walk_sum[OF assms(2) l(1)] n a assms(4) by (simp add: quick_response_def store_def)
qed

lemma quick_responses:
  assumes "length img = x * y" "length bp = 516"
  shows "\<exists>r. fold (quick_response img bp max_no x) (inner_pixels 7 x y) (Some (replicate (x * y) 0)) = Some r \<and>
    length r = x * y \<and> (\<forall>i j. i < y \<and> j < x \<longrightarrow> r ! (i * x + j) = (if inside 7 x y i j then max_no - usan disc img bp x i j else 0))"
proof -
  define G where "G i j = (if usan disc img bp x i j < max_no then Some (max_no - usan disc img bp x i j) else None)" for i j
  have g: "(case G i j of None \<Rightarrow> 0 | Some v \<Rightarrow> v) = max_no - usan disc img bp x i j" for i j by (simp add: G_def)
  have "\<exists>r. fold (quick_response img bp max_no x) (inner_pixels 7 x y) (Some (replicate (x * y) 0)) = Some r \<and> length r = x * y \<and>
    (\<forall>i j. i < y \<and> j < x \<longrightarrow> r ! (i * x + j) = (if inside 7 x y i j then case G i j of None \<Rightarrow> 0 | Some v \<Rightarrow> v else 0))"
    by (rule fold_inner) (unfold G_def, rule quick_response_step[OF assms])
  then show ?thesis unfolding g .
qed

section \<open>The list of corners\<close>

lemma window_check:
  "list_all (\<lambda>(di, dj). (di < 0 \<or> di = 0 \<and> dj < 0 \<longrightarrow> (di, dj) \<in> set before_window) \<and>
      (di > 0 \<or> di = 0 \<and> dj > 0 \<longrightarrow> (di, dj) \<in> set behind_window))
    (List.product [-3, -2, -1, 0, 1, 2, 3 :: int] [-3, -2, -1, 0, 1, 2, 3 :: int])"
  by code_simp

lemma windows:
  assumes "\<bar>di\<bar> \<le> 3" "\<bar>dj\<bar> \<le> 3"
  shows "di < 0 \<or> di = 0 \<and> dj < 0 \<Longrightarrow> (di, dj) \<in> set before_window" "di > 0 \<or> di = 0 \<and> dj > 0 \<Longrightarrow> (di, dj) \<in> set behind_window"
proof -
  have "di \<in> set [-3, -2, -1, 0, 1, 2, 3]" "dj \<in> set [-3, -2, -1, 0, 1, 2, 3]" using assms by auto
  then have "(di, dj) \<in> set (List.product [-3, -2, -1, 0, 1, 2, 3] [-3, -2, -1, 0, 1, 2, 3])" by (simp only: set_product mem_Times_iff fst_conv snd_conv)
  with window_check have "(\<lambda>(di, dj). (di < 0 \<or> di = 0 \<and> dj < 0 \<longrightarrow> (di, dj) \<in> set before_window) \<and>
      (di > 0 \<or> di = 0 \<and> dj > 0 \<longrightarrow> (di, dj) \<in> set behind_window)) (di, dj)"
    unfolding list_all_iff by (rule bspec)
  then show "di < 0 \<or> di = 0 \<and> dj < 0 \<Longrightarrow> (di, dj) \<in> set before_window" "di > 0 \<or> di = 0 \<and> dj > 0 \<Longrightarrow> (di, dj) \<in> set behind_window"
    by (simp_all only: prod.case)
qed

lemma collect_corners_filter:
  "collect_corners img r x ps cs =
    (let qs = filter (\<lambda>(i, j). local_max r x i j) ps
     in if length cs < MAX_CORNERS \<and> MAX_CORNERS \<le> length cs + length qs then Inl (Exit 1)
        else Inr (cs @ map (\<lambda>(i, j). make_corner img x i j) qs))"
  if "length cs < MAX_CORNERS"
  using that by (induction img r x ps cs rule: collect_corners.induct) (auto simp: Let_def)

lemma window_small:
  "(di, dj) \<in> set before_window \<Longrightarrow> \<bar>di\<bar> \<le> 3 \<and> \<bar>dj\<bar> \<le> 3 \<and> (di < 0 \<or> di = 0 \<and> dj < 0)"
  "(di, dj) \<in> set behind_window \<Longrightarrow> \<bar>di\<bar> \<le> 3 \<and> \<bar>dj\<bar> \<le> 3 \<and> (di > 0 \<or> di = 0 \<and> dj > 0)"
proof -
  have "list_all (\<lambda>(di, dj). \<bar>di\<bar> \<le> 3 \<and> \<bar>dj\<bar> \<le> 3 \<and> (di < 0 \<or> di = 0 \<and> dj < 0)) before_window"
    "list_all (\<lambda>(di, dj). \<bar>di\<bar> \<le> 3 \<and> \<bar>dj\<bar> \<le> 3 \<and> (di > 0 \<or> di = 0 \<and> dj > 0)) behind_window" by code_simp+
  then show "(di, dj) \<in> set before_window \<Longrightarrow> \<bar>di\<bar> \<le> 3 \<and> \<bar>dj\<bar> \<le> 3 \<and> (di < 0 \<or> di = 0 \<and> dj < 0)"
    "(di, dj) \<in> set behind_window \<Longrightarrow> \<bar>di\<bar> \<le> 3 \<and> \<bar>dj\<bar> \<le> 3 \<and> (di > 0 \<or> di = 0 \<and> dj > 0)"
    by (auto simp: list_all_iff)
qed

lemma local_max_corner:
  assumes r: "\<And>i j. i < y \<Longrightarrow> j < x \<Longrightarrow> r ! (i * x + j) = R (i, j)" and n: "inside 7 x y i j"
  shows "local_max r x i j \<longleftrightarrow> is_corner R x y (i, j)"
proof -
  have c: "r ! (i * x + j) = R (i, j)" using r inside_less[OF n] by simp
  have off: "r ! pixel x i j (di, dj) = R (nat (int i + di), nat (int j + dj))" if "\<bar>di\<bar> \<le> 3" "\<bar>dj\<bar> \<le> 3" for di dj
    using pixel_bounds[OF n, of di dj] r that by simp
  have to: "r ! pixel x i j (int a - int i, int b - int j) = R (a, b)" if "same_window (i, j) (a, b)" for a b
    using off[of "int a - int i" "int b - int j"] that by (simp add: same_window_def abs_minus_commute)
  show ?thesis
  proof
    assume m: "local_max r x i j"
    then have m1: "r ! pixel x i j d < R (i, j)" if "d \<in> set before_window" for d using that c by (simp add: local_max_def Let_def list_all_iff)
    have m2: "r ! pixel x i j d \<le> R (i, j)" if "d \<in> set behind_window" for d using m that c by (simp add: local_max_def Let_def list_all_iff)
    have "R (a, b) < R (i, j)" if "same_window (i, j) (a, b)" "before (a, b) (i, j)" for a b
    proof -
      have "(int a - int i, int b - int j) \<in> set before_window" using that by (intro windows(1)) (auto simp: same_window_def before_def)
      from m1[OF this] show ?thesis using to[OF that(1)] by simp
    qed
    moreover have "R (a, b) \<le> R (i, j)" if "same_window (i, j) (a, b)" "before (i, j) (a, b)" for a b
    proof -
      have "(int a - int i, int b - int j) \<in> set behind_window" using that by (intro windows(2)) (auto simp: same_window_def before_def)
      from m2[OF this] show ?thesis using to[OF that(1)] by simp
    qed
    ultimately show "is_corner R x y (i, j)" using m c n by (simp add: is_corner_def local_max_def Let_def)
  next
    assume k: "is_corner R x y (i, j)"
    have same_window: "same_window (i, j) (nat (int i + di), nat (int j + dj))" if "\<bar>di\<bar> \<le> 3" "\<bar>dj\<bar> \<le> 3" for di dj
    proof -
      have "0 \<le> int i + di" "0 \<le> int j + dj" using that n by (auto simp: inside_def)
      then show ?thesis using that by (simp add: same_window_def)
    qed
    have "r ! pixel x i j d < R (i, j)" if d: "d \<in> set before_window" for d
    proof -
      obtain di dj where e: "d = (di, dj)" by (cases d)
      have s: "\<bar>di\<bar> \<le> 3" "\<bar>dj\<bar> \<le> 3" "di < 0 \<or> di = 0 \<and> dj < 0" using window_small(1) d e by auto
      have "before (nat (int i + di), nat (int j + dj)) (i, j)" using s n by (auto simp: before_def inside_def)
      then show ?thesis using k same_window[OF s(1,2)] off[OF s(1,2)] e by (simp add: is_corner_def)
    qed
    moreover have "r ! pixel x i j d \<le> R (i, j)" if d: "d \<in> set behind_window" for d
    proof -
      obtain di dj where e: "d = (di, dj)" by (cases d)
      have s: "\<bar>di\<bar> \<le> 3" "\<bar>dj\<bar> \<le> 3" "di > 0 \<or> di = 0 \<and> dj > 0" using window_small(2) d e by auto
      have "before (i, j) (nat (int i + di), nat (int j + dj))" using s n by (auto simp: before_def inside_def)
      then show ?thesis using k same_window[OF s(1,2)] off[OF s(1,2)] e by (simp add: is_corner_def)
    qed
    ultimately show "local_max r x i j" using k c by (simp add: local_max_def Let_def list_all_iff is_corner_def)
  qed
qed

lemma corners_apart:
  assumes "is_corner R x y p" "is_corner R x y q" "p \<noteq> q"
  shows "\<not> same_window p q"
proof
  assume n: "same_window p q"
  then have n': "same_window q p" by (simp add: same_window_def abs_minus_commute)
  have "before p q \<or> before q p" using assms(3) by (cases p; cases q) (auto simp: before_def)
  then show False using assms(1,2) n n' unfolding is_corner_def by (meson not_le)
qed

section \<open>Drawing\<close>

lemma store_walk_updates:
  assumes "list_all (\<lambda>q. q < length img) (visited p (map snd vs))"
  shows "store_walk img p vs = Some (fold (\<lambda>(q, v) img. img[q := v]) (zip (visited p (map snd vs)) (map fst vs)) img)"
  using assms
proof (induction vs arbitrary: img p)
  case (Cons v vs)
  then show ?case by (cases v) (simp add: store_def)
qed simp

lemma visited_block:
  assumes "inside 1 x y i j"
  shows "visited ((i - 1) * x + j - 1) (map snd (corner_block x)) =
    map (pixel x i j) [(-1, -1), (-1, 0), (-1, 1), (0, -1), (0, 0), (0, 1), (1, -1), (1, 0), (1, 1)]"
proof -
  define a b z where "a = i - 1" "b = j - 1" "z = x - 3"
  then have e: "i = Suc a" "j = Suc b" "x = z + 3" using assms by (auto simp: inside_def)
  show ?thesis unfolding e corner_block_def by (simp add: pixel_1 algebra_simps)
qed

lemma nth_fold_updates:
  assumes "distinct (map fst qvs)" "q < length img"
  shows "fold (\<lambda>(q, v) img. img[q := v]) qvs img ! q = (case map_of qvs q of None \<Rightarrow> img ! q | Some v \<Rightarrow> v)"
  using assms
proof (induction qvs arbitrary: img)
  case (Cons a qvs)
  obtain p v where a: "a = (p, v)" by (cases a)
  have "map_of qvs p = None" using Cons.prems(1) a by (simp add: map_of_eq_None_iff)
  then show ?case using Cons.IH[of "img[p := v]"] Cons.prems a by (auto split: option.split)
qed simp

lemma block_offsets_iff: "(di, dj) \<in> set block_offsets \<longleftrightarrow> \<bar>di\<bar> \<le> 1 \<and> \<bar>dj\<bar> \<le> 1"
proof
  assume "\<bar>di\<bar> \<le> 1 \<and> \<bar>dj\<bar> \<le> 1"
  then have "di \<in> {-1, 0, 1}" "dj \<in> {-1, 0, 1}" by auto
  then show "(di, dj) \<in> set block_offsets" by (auto simp: block_offsets_def)
qed (auto simp: block_offsets_def)

lemma block_updates:
  assumes "inside 1 x y i j"
  shows "zip (visited ((i - 1) * x + j - 1) (map snd (corner_block x))) (map fst (corner_block x)) =
    map (\<lambda>d. (pixel x i j d, if d = (0, 0) then 0 else 255)) block_offsets"
  unfolding visited_block[OF assms] by (simp add: corner_block_def block_offsets_def)

lemma nth_block:
  fixes img :: "u8 list"
  assumes n: "inside 1 x y i j" and l: "length img = x * y" and ab: "a < y" "b < x"
  shows "fold (\<lambda>(q, v) img. img[q := v]) (zip (visited ((i - 1) * x + j - 1) (map snd (corner_block x))) (map fst (corner_block x))) img ! (a * x + b) =
    (if (a, b) = (i, j) then 0 else if adjacent (i, j) (a, b) then 255 else img ! (a * x + b))"
proof -
  let ?qvs = "map (\<lambda>d. (pixel x i j d, if d = (0, 0) then 0 else 255 :: u8)) block_offsets"
  have eq: "pixel x i j (di, dj) = c * x + e \<longleftrightarrow> int c = int i + di \<and> int e = int j + dj" if "\<bar>di\<bar> \<le> 1" "\<bar>dj\<bar> \<le> 1" "c < y" "e < x" for di dj c e
  proof -
    have "0 \<le> int i + di" "0 \<le> int j + dj" using that n by (auto simp: inside_def)
    then show ?thesis using pixel_bounds[OF n, of di dj] address_inj[of "nat (int j + dj)" x e "nat (int i + di)" c] that by auto
  qed
  have "inj_on (pixel x i j) (set block_offsets)"
  proof (rule inj_onI)
    fix d d' assume d: "d \<in> set block_offsets" "d' \<in> set block_offsets" "pixel x i j d = pixel x i j d'"
    obtain di dj ei ej where dd: "d = (di, dj)" "d' = (ei, ej)" by (cases d; cases d')
    have s: "\<bar>di\<bar> \<le> 1" "\<bar>dj\<bar> \<le> 1" "\<bar>ei\<bar> \<le> 1" "\<bar>ej\<bar> \<le> 1" using d dd by (auto simp: block_offsets_iff)
    have "0 \<le> int i + ei" "0 \<le> int j + ej" using s n by (auto simp: inside_def)
    then show "d = d'" using d(3) dd eq[OF s(1,2), of "nat (int i + ei)" "nat (int j + ej)"] pixel_bounds[OF n, of ei ej] s by auto
  qed
  moreover have "distinct block_offsets" by (simp add: block_offsets_def)
  ultimately have dist: "distinct (map fst ?qvs)" by (simp add: distinct_map o_def)
  have q: "a * x + b < length img" using address_less[OF ab] l by simp
  show ?thesis
  proof (cases "adjacent (i, j) (a, b)")
    case True
    let ?d = "(int a - int i, int b - int j)"
    have d: "?d \<in> set block_offsets" using True by (auto simp: block_offsets_iff adjacent_def)
    then have p: "pixel x i j ?d = a * x + b" using eq[of "int a - int i" "int b - int j" a b] ab by (auto simp: block_offsets_iff)
    have "(pixel x i j ?d, if ?d = (0, 0) then 0 else 255) \<in> set ?qvs" unfolding set_map by (rule image_eqI[OF refl d])
    then have "(a * x + b, if ?d = (0, 0) then 0 else 255) \<in> set ?qvs" unfolding p .
    then have "map_of ?qvs (a * x + b) = Some (if ?d = (0, 0) then 0 else 255)" by (rule map_of_is_SomeI[OF dist])
    then show ?thesis unfolding block_updates[OF n] nth_fold_updates[OF dist q] using True by auto
  next
    case False
    have "pixel x i j d \<noteq> a * x + b" if "d \<in> set block_offsets" for d
    proof -
      obtain di dj where "d = (di, dj)" by (cases d)
      then show ?thesis using that False eq[OF _ _ ab, of di dj] by (auto simp: block_offsets_iff adjacent_def)
    qed
    then have "a * x + b \<notin> pixel x i j ` set block_offsets" by (metis imageE)
    then have "map_of ?qvs (a * x + b) = None" by (simp add: map_of_eq_None_iff image_image)
    then show ?thesis unfolding block_updates[OF n] nth_fold_updates[OF dist q] using False by (auto simp: adjacent_def)
  qed
qed

lemma draw_block:
  fixes img :: "u8 list"
  assumes n: "inside 1 x y i j" and l: "length img = x * y"
  shows "\<exists>img'. store_walk img ((i - 1) * x + j - 1) (corner_block x) = Some img' \<and> length img' = x * y \<and>
    (\<forall>a b. a < y \<and> b < x \<longrightarrow> img' ! (a * x + b) = (if (a, b) = (i, j) then 0 else if adjacent (i, j) (a, b) then 255 else img ! (a * x + b)))"
proof -
  have "list_all (\<lambda>q. q < length img) (visited ((i - 1) * x + j - 1) (map snd (corner_block x)))"
    unfolding visited_block[OF n] l by (simp add: pixel_less[OF n])
  note s = store_walk_updates[OF this]
  have "length (fold (\<lambda>(q, v) img. img[q := v]) qvs img) = length img" for qvs and img :: "u8 list"
    by (induction qvs arbitrary: img) auto
  then show ?thesis using s nth_block[OF n l] l by auto
qed

lemma draw_all:
  fixes img :: "u8 list"
  assumes "distinct ps" "\<And>p. p \<in> set ps \<Longrightarrow> inside 1 x y (fst p) (snd p)" "\<And>p q. p \<in> set ps \<Longrightarrow> q \<in> set ps \<Longrightarrow> p \<noteq> q \<Longrightarrow> \<not> same_window p q"
    and "length img = x * y" "\<And>p. p \<in> set ps \<Longrightarrow> cy (f p) = fst p \<and> cx (f p) = snd p"
  shows "\<exists>img'. fold (draw_corner x) (map f ps) (Some img) = Some img' \<and> length img' = x * y \<and>
    (\<forall>a b. a < y \<and> b < x \<longrightarrow> img' ! (a * x + b) =
      (if (a, b) \<in> set ps then 0 else if \<exists>p\<in>set ps. adjacent p (a, b) then 255 else img ! (a * x + b)))"
  using assms
proof (induction ps arbitrary: img)
  case (Cons p ps)
  obtain i j where p: "p = (i, j)" by (cases p)
  obtain img1 where 1: "store_walk img ((i - 1) * x + j - 1) (corner_block x) = Some img1" "length img1 = x * y"
    "\<And>a b. a < y \<Longrightarrow> b < x \<Longrightarrow> img1 ! (a * x + b) = (if (a, b) = (i, j) then 0 else if adjacent (i, j) (a, b) then 255 else img ! (a * x + b))"
    using draw_block[of x y i j img] Cons.prems(2)[of p] Cons.prems(4) p by auto
  have "\<exists>img'. fold (draw_corner x) (map f ps) (Some img1) = Some img' \<and> length img' = x * y \<and>
    (\<forall>a b. a < y \<and> b < x \<longrightarrow> img' ! (a * x + b) =
      (if (a, b) \<in> set ps then 0 else if \<exists>p\<in>set ps. adjacent p (a, b) then 255 else img1 ! (a * x + b)))"
    by (rule Cons.IH) (use Cons.prems 1(2) in auto)
  then obtain img' where 2: "fold (draw_corner x) (map f ps) (Some img1) = Some img'" "length img' = x * y"
    "\<And>a b. a < y \<Longrightarrow> b < x \<Longrightarrow> img' ! (a * x + b) =
      (if (a, b) \<in> set ps then 0 else if \<exists>p\<in>set ps. adjacent p (a, b) then 255 else img1 ! (a * x + b))" by blast
  have "draw_corner x (f p) (Some img) = Some img1" using 1(1) Cons.prems(5)[of p] p by (simp add: draw_corner_def)
  then have "fold (draw_corner x) (map f (p # ps)) (Some img) = Some img'" using 2(1) by simp
  moreover have "\<not> adjacent q p" if "q \<in> set ps" for q
  proof -
    have "\<not> same_window q p" using Cons.prems(1) Cons.prems(3)[of q p] that by auto
    then show ?thesis by (auto simp: same_window_def adjacent_def)
  qed
  then have "img' ! (a * x + b) = (if (a, b) \<in> set (p # ps) then 0 else if \<exists>p\<in>set (p # ps). adjacent p (a, b) then 255 else img ! (a * x + b))"
    if "a < y" "b < x" for a b
    using 1(3)[OF that] 2(3)[OF that] p by auto
  ultimately show ?case using 2(2) by blast
qed simp

lemma corner_positions:
  assumes "\<And>i j. i < y \<Longrightarrow> j < x \<Longrightarrow> r ! (i * x + j) = R (i, j)"
  shows "set (filter (\<lambda>(i, j). local_max r x i j) (inner_pixels 7 x y)) = {p. is_corner R x y p}"
proof (rule set_eqI)
  fix p :: "nat \<times> nat"
  obtain i j where p: "p = (i, j)" by (cases p)
  have "is_corner R x y (i, j) \<Longrightarrow> inside 7 x y i j" by (simp add: is_corner_def)
  then show "p \<in> set (filter (\<lambda>(i, j). local_max r x i j) (inner_pixels 7 x y)) \<longleftrightarrow> p \<in> {p. is_corner R x y p}"
    unfolding p using local_max_corner[OF assms] by (auto simp: set_inner_pixels)
qed

lemma corner_draw_fold: "corner_draw img cs x False = fold (draw_corner x) cs (Some img)"
  by (simp add: corner_draw_def draw_corner_def[abs_def])

lemma usan_blank:
  assumes n: "inside 3 x y i j" and b: "bp ! 258 = 100"
  shows "usan disc (replicate (x * y) v) bp x i j = 3700"
proof -
  let ?img = "replicate (x * y) v"
  have "?img ! pixel x i j d = v" if "d \<in> set disc" for d
  proof -
    obtain di dj where d: "d = (di, dj)" by (cases d)
    have "pixel x i j (di, dj) < x * y" using pixel_less[OF n, of di dj] disc_small[of di dj] that d by simp
    then show ?thesis using d by simp
  qed
  moreover have "?img ! (i * x + j) = v" using address_less inside_less[OF n] by simp
  ultimately have "usan disc ?img bp x i j = 100 + sum_list (map (\<lambda>d. 100) disc)"
    using b by (simp add: usan_def similar_def cong: map_cong)
  then show ?thesis by (simp add: disc_list)
qed

lemma int_to_uchar_constant: "int_to_uchar (replicate n v) = None"
proof -
  have "fold max (replicate n v) v = v" "fold min (replicate n v) v = v" by (induction n) simp_all
  then show ?thesis by (cases n) (simp_all add: int_to_uchar_def Let_def)
qed

section \<open>Properties\<close>

text \<open>
  C16.  Quick corners.  The corner detector stays within its arrays and finds exactly the corners: pixels at least seven from the border
  with a positive response (what is missing from the USAN area to the threshold) that is greater than the responses before it and not
  less than those behind it in the 7x7 window.  It gives up only when there are 15000 of them or more.  No two of them are in one
  window, so that drawing marks each with a black pixel inside a white square and changes nothing else.
\<close>

theorem susan_corners_quick_marks:
  assumes "length img = x * y" "length bp = 516"
  shows "if MAX_CORNERS \<le> card {p. is_corner (response img bp max_no x y) x y p}
    then susan_corners_quick img bp max_no x y = Inl (Exit 1)
    else \<exists>r cs out. susan_corners_quick img bp max_no x y = Inr (r, cs) \<and> corner_draw img cs x False = Some out \<and> length out = x * y \<and>
      (\<forall>i j. i < y \<and> j < x \<longrightarrow> out ! (i * x + j) =
        (if is_corner (response img bp max_no x y) x y (i, j) then 0
         else if \<exists>p. is_corner (response img bp max_no x y) x y p \<and> adjacent p (i, j) then 255 else img ! (i * x + j)))"
proof -
  let ?R = "response img bp max_no x y"
  obtain r where r: "fold (quick_response img bp max_no x) (inner_pixels 7 x y) (Some (replicate (x * y) 0)) = Some r"
    "\<And>i j. i < y \<Longrightarrow> j < x \<Longrightarrow> r ! (i * x + j) = ?R (i, j)"
    using quick_responses[OF assms, of max_no] by (auto simp: response_def)
  define ps where "ps = filter (\<lambda>(i, j). local_max r x i j) (inner_pixels 7 x y)"
  have C: "set ps = {p. is_corner ?R x y p}" unfolding ps_def by (rule corner_positions[OF r(2)])
  have d: "distinct ps" unfolding ps_def by (intro distinct_filter distinct_inner_pixels)
  then have len: "length ps = card {p. is_corner ?R x y p}" unfolding C[symmetric] by (rule distinct_card[symmetric])
  have col: "collect_corners img r x (inner_pixels 7 x y) [] =
    (if MAX_CORNERS \<le> length ps then Inl (Exit 1) else Inr (map (\<lambda>(i, j). make_corner img x i j) ps))"
    using collect_corners_filter[of "[]" img r x "inner_pixels 7 x y"] by (simp add: ps_def MAX_CORNERS_def)
  have "\<exists>out. fold (draw_corner x) (map (\<lambda>(i, j). make_corner img x i j) ps) (Some img) = Some out \<and> length out = x * y \<and>
    (\<forall>a b. a < y \<and> b < x \<longrightarrow> out ! (a * x + b) =
      (if (a, b) \<in> set ps then 0 else if \<exists>p\<in>set ps. adjacent p (a, b) then 255 else img ! (a * x + b)))"
  proof (rule draw_all[OF d _ _ assms(1)])
    fix p assume "p \<in> set ps"
    then show "inside 1 x y (fst p) (snd p)" unfolding C is_corner_def by (auto intro: inside_mono)
    show "cy (case p of (i, j) \<Rightarrow> make_corner img x i j) = fst p \<and> cx (case p of (i, j) \<Rightarrow> make_corner img x i j) = snd p"
      by (simp add: make_corner_def Let_def split_def)
    fix q assume "q \<in> set ps" "p \<noteq> q"
    then show "\<not> same_window p q" using \<open>p \<in> set ps\<close> corners_apart unfolding C by blast
  qed
  from this[unfolded C Bex_def mem_Collect_eq] obtain out where out:
    "corner_draw img (map (\<lambda>(i, j). make_corner img x i j) ps) x False = Some out" "length out = x * y"
    "\<forall>a b. a < y \<and> b < x \<longrightarrow> out ! (a * x + b) =
      (if is_corner ?R x y (a, b) then 0 else if \<exists>p. is_corner ?R x y p \<and> adjacent p (a, b) then 255 else img ! (a * x + b))"
    unfolding corner_draw_fold by blast
  show ?thesis
  proof (cases "MAX_CORNERS \<le> length ps")
    case True
    then show ?thesis unfolding len[symmetric] by (simp add: susan_corners_quick_def r(1) col)
  next
    case False
    then have "susan_corners_quick img bp max_no x y = Inr (r, map (\<lambda>(i, j). make_corner img x i j) ps)"
      by (simp add: susan_corners_quick_def r(1) col)
    then show ?thesis unfolding len[symmetric] if_not_P[OF False] using out by blast
  qed
qed

theorem susan_corners_quick_marks_witness:
  "if MAX_CORNERS \<le> card {p. is_corner (response (replicate 400 7) (replicate 516 9) 1850 20 20) 20 20 p}
    then susan_corners_quick (replicate 400 7) (replicate 516 9) 1850 20 20 = Inl (Exit 1)
    else \<exists>r cs out. susan_corners_quick (replicate 400 7) (replicate 516 9) 1850 20 20 = Inr (r, cs) \<and>
      corner_draw (replicate 400 7) cs 20 False = Some out \<and> length out = 20 * 20 \<and>
      (\<forall>i j. i < 20 \<and> j < 20 \<longrightarrow> out ! (i * 20 + j) =
        (if is_corner (response (replicate 400 7) (replicate 516 9) 1850 20 20) 20 20 (i, j) then 0
         else if \<exists>p. is_corner (response (replicate 400 7) (replicate 516 9) 1850 20 20) 20 20 p \<and> adjacent p (i, j) then 255 else replicate 400 7 ! (i * 20 + j)))"
  by (rule susan_corners_quick_marks) simp_all

text \<open>
  C25.  The USAN principle.  On any image and with any brightness table \<open>susan_principle\<close> stays within its arrays, and the response of every
  pixel that is at least three pixels from the border is what is missing from its USAN area to the threshold (nothing when the area is
  larger): 100 plus the table's values for the 36 other pixels whose distance is at most the root of 10.  The other pixels get 0.  The
  small variant does the same with the eight neighbours and the threshold 730.
\<close>

theorem susan_principle_usan:
  assumes "length img = x * y" "length bp = 516"
  shows "(\<exists>r. susan_principle img bp max_no x y = Some r \<and> length r = x * y \<and>
      (\<forall>i j. i < y \<and> j < x \<longrightarrow> r ! (i * x + j) = (if inside 3 x y i j then max_no - usan disc img bp x i j else 0))) \<and>
    (\<exists>r. susan_principle_small img bp max_no x y = Some r \<and> length r = x * y \<and>
      (\<forall>i j. i < y \<and> j < x \<longrightarrow> r ! (i * x + j) = (if inside 1 x y i j then 730 - usan square img bp x i j else 0)))"
  using principle_response[OF assms] principle_small_response[OF assms] by blast

theorem susan_principle_usan_witness:
  "(\<exists>r. susan_principle (replicate 100 7) (replicate 516 9) 2650 10 10 = Some r \<and> length r = 10 * 10 \<and>
      (\<forall>i j. i < 10 \<and> j < 10 \<longrightarrow> r ! (i * 10 + j) = (if inside 3 10 10 i j then 2650 - usan disc (replicate 100 7) (replicate 516 9) 10 i j else 0))) \<and>
    (\<exists>r. susan_principle_small (replicate 100 7) (replicate 516 9) 2650 10 10 = Some r \<and> length r = 10 * 10 \<and>
      (\<forall>i j. i < 10 \<and> j < 10 \<longrightarrow> r ! (i * 10 + j) = (if inside 1 10 10 i j then 730 - usan square (replicate 100 7) (replicate 516 9) 10 i j else 0)))"
  by (rule susan_principle_usan) simp_all

text \<open>
  C35.  With option \<open>-p\<close> the program divides by zero on every image of one brightness: the response is zero everywhere, for either of
  its thresholds, and \<open>int_to_uchar\<close> divides by the difference of the largest and the smallest response.
\<close>

theorem susan_blank_image:
  assumes "0 < x * y" "length bp = 516" "bp ! 258 = 100" "max_no < 3700"
  shows "\<exists>r. susan_principle (replicate (x * y) v) bp max_no x y = Some r \<and> int_to_uchar r = None"
proof -
  obtain r where r: "susan_principle (replicate (x * y) v) bp max_no x y = Some r" "length r = x * y"
    "\<And>i j. i < y \<Longrightarrow> j < x \<Longrightarrow> r ! (i * x + j) = (if inside 3 x y i j then max_no - usan disc (replicate (x * y) v) bp x i j else 0)"
    using principle_response[of "replicate (x * y) v" x y bp max_no] assms(2) by auto
  have "r = replicate (x * y) 0"
  proof (rule nth_equalityI)
    fix k assume "k < length r"
    then have k: "k < x * y" using r(2) by simp
    then have "k div x < y" "k mod x < x" using assms(1) by (simp_all add: less_mult_imp_div_less mult.commute)
    from r(3)[OF this] have "r ! k = 0" using usan_blank[of x y "k div x" "k mod x" bp v] assms(3,4) by auto
    then show "r ! k = replicate (x * y) 0 ! k" using k by simp
  qed (simp add: r(2))
  then show ?thesis using r(1) int_to_uchar_constant by blast
qed

theorem susan_blank_image_witness:
  "\<exists>r. susan_principle (replicate (10 * 10) 7) (replicate 516 100) 2650 10 10 = Some r \<and> int_to_uchar r = None"
  by (rule susan_blank_image) simp_all

text \<open>
  C39.  An image that is written is read back the same, with its sizes.
\<close>

theorem pgm_roundtrip:
  assumes "length img = x_size * y_size" "img \<noteq> []" "fits_int (x_size * y_size)"
  shows "\<exists>fd. put_image True img x_size y_size = Inr fd \<and> get_image (Some fd) junk = Inr (img, x_size, y_size)"
  using assms by (rule pgm_read)

theorem pgm_roundtrip_witness:
  "\<exists>fd. put_image True [1, 2, 3, 4, 5, 6] 3 2 = Inr fd \<and> get_image (Some fd) (\<lambda>_. 0) = Inr ([1, 2, 3, 4, 5, 6], 3, 2)"
  by (rule pgm_roundtrip) (simp_all add: fits_int_def)

end
