(* ===== verification/Susan_Smoothing.thy ===== *)
theory Susan_Smoothing
  imports Susan_Principle "HOL-Library.Multiset"
begin

text \<open>
  \<^verbatim>\<open>automotive/susan/susan.c\<close>, smoothing: \<open>enlarge\<close> reflects the image at its borders, the bubble sort of \<open>median\<close> sorts, and a weighted
  mean without its centre stays between the smallest and the largest brightness it is made of.
\<close>

unbundle bit_operations_syntax

section \<open>Specification\<close>

text \<open>Where a coordinate of the enlarged image comes from: borders are reflected.\<close>

definition mirror :: "nat \<Rightarrow> nat \<Rightarrow> nat \<Rightarrow> nat" where
  "mirror border n k = (if k < border then border - 1 - k else if k < border + n then k - border else 2 * n + border - 1 - k)"

definition rows_ok :: "u8 list \<Rightarrow> nat \<Rightarrow> nat \<Rightarrow> nat \<Rightarrow> nat set \<Rightarrow> u8 list \<Rightarrow> bool" where
  "rows_ok img X Y B S tmp \<longleftrightarrow> length tmp = (X + 2 * B) * (Y + 2 * B) \<and>
    (\<forall>k\<in>S. \<forall>l<X. tmp ! (k * (X + 2 * B) + (B + l)) = img ! (mirror B Y k * X + l))"

definition columns_ok :: "u8 list \<Rightarrow> nat \<Rightarrow> nat \<Rightarrow> nat \<Rightarrow> (nat \<times> nat) set \<Rightarrow> u8 list \<Rightarrow> bool" where
  "columns_ok img X Y B T tmp \<longleftrightarrow> rows_ok img X Y B {0..<Y + 2 * B} tmp \<and>
    (\<forall>(i, j)\<in>T. tmp ! (j * (X + 2 * B) + (B - 1 - i)) = img ! (mirror B Y j * X + i) \<and>
      tmp ! (j * (X + 2 * B) + (X + B + i)) = img ! (mirror B Y j * X + (X - 1 - i)))"

definition area_sum :: "u8 list \<Rightarrow> u8 list \<Rightarrow> u8 \<Rightarrow> nat list \<Rightarrow> nat list \<Rightarrow> nat" where
  "area_sum img bp c qs ws = sum_list (map2 (\<lambda>q w. w * similar bp c (img ! q)) qs ws)"

definition total_sum :: "u8 list \<Rightarrow> u8 list \<Rightarrow> u8 \<Rightarrow> nat list \<Rightarrow> nat list \<Rightarrow> nat" where
  "total_sum img bp c qs ws = sum_list (map2 (\<lambda>q w. w * similar bp c (img ! q) * unat (img ! q)) qs ws)"

definition window :: "nat \<Rightarrow> nat \<Rightarrow> nat \<Rightarrow> (nat \<times> nat) list" where
  "window m i j = List.product [i - m..<i + m + 1] [j - m..<j + m + 1]"

definition smooth_mask :: "bool \<Rightarrow> nat \<Rightarrow> nat" where
  "smooth_mask three_by_three dt_mask = (if three_by_three then 1 else dt_mask + 1)"

text \<open>What the two floating-point tables are relied on for.\<close>

definition brightness_ok :: "u8 list \<Rightarrow> bool" where
  "brightness_ok bp \<longleftrightarrow> length bp = 516 \<and> bp ! 258 = 100 \<and> (\<forall>i\<in>{2..514}. bp ! i \<le> 100)"

definition distances_ok :: "nat \<Rightarrow> u8 list \<Rightarrow> bool" where
  "distances_ok m dp \<longleftrightarrow> length dp = (2 * m + 1) * (2 * m + 1) \<and> dp ! (m * (2 * m + 1) + m) = 100 \<and> sum_list (map unat dp) \<le> 84215"

section \<open>Enlarging an image\<close>

lemma mirror_less: "b \<le> n \<Longrightarrow> k < n + 2 * b \<Longrightarrow> mirror b n k < n"
  by (auto simp: mirror_def)

lemma fold_invariant_set:
  assumes "\<And>p T s. p \<in> set ps \<Longrightarrow> I T s \<Longrightarrow> \<exists>s'. step p (Some s) = Some s' \<and> I (insert p T) s'" "I T s"
  shows "\<exists>s'. fold step ps (Some s) = Some s' \<and> I (T \<union> set ps) s'"
  using assms
proof (induction ps arbitrary: T s)
  case (Cons p ps)
  obtain s1 where 1: "step p (Some s) = Some s1" "I (insert p T) s1" using Cons.prems(1)[of p T s] Cons.prems(2) by auto
  have "\<exists>s'. fold step ps (Some s1) = Some s' \<and> I (insert p T \<union> set ps) s'"
    by (rule Cons.IH[OF Cons.prems(1) 1(2)]) auto
  then show ?case using 1(1) by simp
qed simp

lemma memcpy_row:
  assumes "k < H" "m < Y" "length tmp = W * H" "length img = X * Y" "B + X \<le> W"
  shows "\<exists>tmp'. memcpy tmp (k * W + B) img (m * X) X = Some tmp' \<and> length tmp' = W * H \<and>
    (\<forall>k' l. k' < H \<and> l < W \<longrightarrow> tmp' ! (k' * W + l) = (if k' = k \<and> B \<le> l \<and> l < B + X then img ! (m * X + (l - B)) else tmp ! (k' * W + l)))"
proof -
  have r: "k * W + B + X \<le> W * H" "m * X + X \<le> X * Y"
  proof -
    have "Suc k * W \<le> H * W" "Suc m * X \<le> Y * X" using assms(1,2) by (simp_all only: mult_le_mono1 Suc_leI)
    then show "k * W + B + X \<le> W * H" "m * X + X \<le> X * Y" using assms(5) by (simp_all add: mult.commute)
  qed
  let ?t = "write_at (k * W + B) (take X (drop (m * X) img)) tmp"
  have l: "length (take X (drop (m * X) img)) = X" using r(2) assms(4) by simp
  have "?t ! (k' * W + q) = (if k' = k \<and> B \<le> q \<and> q < B + X then img ! (m * X + (q - B)) else tmp ! (k' * W + q))" if kq: "k' < H" "q < W" for k' q
  proof (cases "k' = k")
    case True
    have "m * X \<le> length img" using r(2) assms(4) by linarith
    then have nd: "drop (m * X) img ! n = img ! (m * X + n)" for n by simp
    show ?thesis unfolding True using l r assms(3,4) address_less[OF kq, unfolded True] nd[of "q - B"] by (auto simp: nth_write_at)
  next
    case False
    have "\<not> (k * W + B \<le> k' * W + q \<and> k' * W + q < k * W + B + X)"
    proof
      assume a: "k * W + B \<le> k' * W + q \<and> k' * W + q < k * W + B + X"
      define d where "d = k' * W + q - k * W"
      have "k' * W + q = k * W + d" "d < W" using conjunct1[OF a] conjunct2[OF a] assms(5) unfolding d_def by linarith+
      then show False using address_inj[OF kq(2), of d k' k] False by simp
    qed
    then show ?thesis using False l r assms(3) address_less[OF kq] by (auto simp: nth_write_at)
  qed
  then show ?thesis using r l assms(3,4) by (simp add: memcpy_def)
qed

lemma rows_ok_insert:
  assumes "rows_ok img X Y B S tmp" "k < Y + 2 * B" "S \<subseteq> {0..<Y + 2 * B}" "length img = X * Y" "mirror B Y k < Y"
  shows "\<exists>tmp'. memcpy tmp (k * (X + 2 * B) + B) img (mirror B Y k * X) X = Some tmp' \<and> rows_ok img X Y B (insert k S) tmp'"
proof -
  have W: "B + X \<le> X + 2 * B" by simp
  obtain tmp' where t: "memcpy tmp (k * (X + 2 * B) + B) img (mirror B Y k * X) X = Some tmp'" "length tmp' = (X + 2 * B) * (Y + 2 * B)"
    "\<And>k' l. k' < Y + 2 * B \<Longrightarrow> l < X + 2 * B \<Longrightarrow> tmp' ! (k' * (X + 2 * B) + l) =
      (if k' = k \<and> B \<le> l \<and> l < B + X then img ! (mirror B Y k * X + (l - B)) else tmp ! (k' * (X + 2 * B) + l))"
    using memcpy_row[OF assms(2,5) _ assms(4) W, of tmp] assms(1) unfolding rows_ok_def by blast
  have "tmp' ! (k' * (X + 2 * B) + (B + l)) = img ! (mirror B Y k' * X + l)" if "k' \<in> insert k S" "l < X" for k' l
  proof -
    have "k' < Y + 2 * B" "B + l < X + 2 * B" using that assms(2,3) by auto
    from t(3)[OF this] show ?thesis using that assms(1) by (auto simp: rows_ok_def)
  qed
  then show ?thesis using t(1,2) by (auto simp: rows_ok_def)
qed

lemma copy_rows:
  assumes "length tmp = (X + 2 * B) * (Y + 2 * B)" "length img = X * Y"
  shows "\<exists>tmp'. fold (copy_row img X B) [0..<Y] (Some tmp) = Some tmp' \<and> rows_ok img X Y B ((\<lambda>i. i + B) ` {0..<Y}) tmp'"
proof -
  define I where "I T t \<longleftrightarrow> rows_ok img X Y B ((\<lambda>i. i + B) ` T) t \<and> T \<subseteq> {0..<Y}" for T t
  have "\<exists>tmp'. fold (copy_row img X B) [0..<Y] (Some tmp) = Some tmp' \<and> I ({} \<union> set [0..<Y]) tmp'"
  proof (rule fold_invariant_set)
    fix i T t assume i: "i \<in> set [0..<Y]" and I: "I T t"
    have m: "mirror B Y (i + B) = i" using i by (auto simp: mirror_def)
    have "\<exists>t'. memcpy t ((i + B) * (X + 2 * B) + B) img (mirror B Y (i + B) * X) X = Some t' \<and> rows_ok img X Y B (insert (i + B) ((\<lambda>i. i + B) ` T)) t'"
      by (rule rows_ok_insert) (use I i m assms(2) in \<open>auto simp: I_def\<close>)
    then show "\<exists>t'. copy_row img X B i (Some t) = Some t' \<and> I (insert i T) t'" using I i by (simp add: copy_row_def I_def m)
  next
    show "I {} tmp" using assms(1) by (simp add: I_def rows_ok_def)
  qed
  then show ?thesis by (simp add: I_def)
qed

lemma mirror_rows:
  assumes "rows_ok img X Y B ((\<lambda>i. i + B) ` {0..<Y}) tmp" "length img = X * Y" "B \<le> Y"
  shows "\<exists>tmp'. fold (mirror_row img X Y B) [0..<B] (Some tmp) = Some tmp' \<and> rows_ok img X Y B {0..<Y + 2 * B} tmp'"
proof -
  define S where "S T = (\<lambda>i. i + B) ` {0..<Y} \<union> (\<lambda>i. B - 1 - i) ` T \<union> (\<lambda>i. Y + B + i) ` T" for T
  define I where "I T t \<longleftrightarrow> rows_ok img X Y B (S T) t \<and> T \<subseteq> {0..<B}" for T t
  have sub: "S T \<subseteq> {0..<Y + 2 * B}" if "T \<subseteq> {0..<B}" for T using that by (auto simp: S_def)
  have "\<exists>tmp'. fold (mirror_row img X Y B) [0..<B] (Some tmp) = Some tmp' \<and> I ({} \<union> set [0..<B]) tmp'"
  proof (rule fold_invariant_set)
    fix i T t assume i: "i \<in> set [0..<B]" and I: "I T t"
    have m: "mirror B Y (B - 1 - i) = i" "mirror B Y (Y + B + i) = Y - i - 1" using i assms(3) by (auto simp: mirror_def)
    have "\<exists>t'. memcpy t ((B - 1 - i) * (X + 2 * B) + B) img (mirror B Y (B - 1 - i) * X) X = Some t' \<and> rows_ok img X Y B (insert (B - 1 - i) (S T)) t'"
      by (rule rows_ok_insert) (use I i m sub[of T] assms(2,3) in \<open>auto simp: I_def\<close>)
    then obtain t1 where 1: "memcpy t ((B - 1 - i) * (X + 2 * B) + B) img (i * X) X = Some t1" "rows_ok img X Y B (insert (B - 1 - i) (S T)) t1"
      unfolding m by blast
    have "\<exists>t'. memcpy t1 ((Y + B + i) * (X + 2 * B) + B) img (mirror B Y (Y + B + i) * X) X = Some t' \<and>
        rows_ok img X Y B (insert (Y + B + i) (insert (B - 1 - i) (S T))) t'"
      by (rule rows_ok_insert[OF 1(2)]) (use I i m sub[of T] assms(2,3) in \<open>auto simp: I_def\<close>)
    then obtain t2 where 2: "memcpy t1 ((Y + B + i) * (X + 2 * B) + B) img ((Y - i - 1) * X) X = Some t2"
      "rows_ok img X Y B (insert (Y + B + i) (insert (B - 1 - i) (S T))) t2" unfolding m by blast
    have "S (insert i T) = insert (Y + B + i) (insert (B - 1 - i) (S T))" by (auto simp: S_def)
    then show "\<exists>t'. mirror_row img X Y B i (Some t) = Some t' \<and> I (insert i T) t'" using 1 2 I i by (simp add: mirror_row_def I_def)
  next
    show "I {} tmp" using assms(1) by (simp add: I_def S_def)
  qed
  moreover have "S {0..<B} = {0..<Y + 2 * B}"
  proof (rule subset_antisym[OF sub subsetI])
    fix k assume k: "k \<in> {0..<Y + 2 * B}"
    consider "k < B" | "B \<le> k" "k < Y + B" | "Y + B \<le> k" by linarith
    then show "k \<in> S {0..<B}"
    proof cases
      case 1
      then have "k = B - 1 - (B - 1 - k)" "B - 1 - k < B" by auto
      then show ?thesis unfolding S_def by (metis UnI1 UnI2 atLeastLessThan_iff imageI zero_le)
    next
      case 2
      then have "k = (k - B) + B" "k - B < Y" by auto
      then show ?thesis unfolding S_def by (metis UnI1 atLeastLessThan_iff imageI zero_le)
    next
      case 3
      then have "k = Y + B + (k - Y - B)" "k - Y - B < B" using k by auto
      then show ?thesis unfolding S_def by (metis UnI2 atLeastLessThan_iff imageI zero_le)
    qed
  qed simp
  ultimately show ?thesis by (simp add: I_def)
qed

lemma nth_update: "q < length xs \<Longrightarrow> xs[p := v] ! q = (if p = q then v else xs ! q)"
  by (simp add: nth_list_update)

lemma store_two:
  assumes "q1 < length t" "q2 < length t" "p1 < length t" "p2 < length t" "q2 \<noteq> p1"
  shows "(do { v \<leftarrow> at t q1; t \<leftarrow> store t p1 v; v \<leftarrow> at t q2; store t p2 v }) = Some (t[p1 := t ! q1, p2 := t ! q2])"
  using assms by (simp add: at_def store_def)

lemma mirror_column_step:
  assumes I: "columns_ok img X Y B T t" and ij: "i < B" "j < Y + 2 * B" and "B \<le> X" and T: "T \<subseteq> {0..<B} \<times> {0..<Y + 2 * B}"
  shows "\<exists>t'. mirror_column X B (i, j) (Some t) = Some t' \<and> columns_ok img X Y B (insert (i, j) T) t'"
proof -
  let ?W = "X + 2 * B"
  have l: "length t = ?W * (Y + 2 * B)" and mid: "\<And>k q. k < Y + 2 * B \<Longrightarrow> q < X \<Longrightarrow> t ! (k * ?W + (B + q)) = img ! (mirror B Y k * X + q)"
    and old: "\<And>a b. (a, b) \<in> T \<Longrightarrow> t ! (b * ?W + (B - 1 - a)) = img ! (mirror B Y b * X + a) \<and>
      t ! (b * ?W + (X + B + a)) = img ! (mirror B Y b * X + (X - 1 - a))"
    using I by (auto simp: columns_ok_def rows_ok_def)
  have less: "b * ?W + c < length t" if "b < Y + 2 * B" "c < ?W" for b c using address_less[OF that] l by simp
  have e: "j * ?W + B + i = j * ?W + (B + i)" "j * ?W + B - 1 - i = j * ?W + (B - 1 - i)" "j * ?W + X + B - 1 - i = j * ?W + (B + (X - 1 - i))"
    "j * ?W + X + B + i = j * ?W + (X + B + i)" using ij(1) assms(4) by auto
  define t' where "t' = t[j * ?W + (B - 1 - i) := img ! (mirror B Y j * X + i), j * ?W + (X + B + i) := img ! (mirror B Y j * X + (X - 1 - i))]"
  have "mirror_column X B (i, j) (Some t) = (do { v \<leftarrow> at t (j * ?W + (B + i)); t \<leftarrow> store t (j * ?W + (B - 1 - i)) v;
      v \<leftarrow> at t (j * ?W + (B + (X - 1 - i))); store t (j * ?W + (X + B + i)) v })"
    by (simp only: mirror_column_def prod.case Option.bind.simps e)
  also have "\<dots> = Some (t[j * ?W + (B - 1 - i) := t ! (j * ?W + (B + i)), j * ?W + (X + B + i) := t ! (j * ?W + (B + (X - 1 - i)))])"
  proof (rule store_two)
    show "j * ?W + (B + i) < length t" "j * ?W + (B + (X - 1 - i)) < length t" "j * ?W + (B - 1 - i) < length t" "j * ?W + (X + B + i) < length t"
      by (rule less[OF ij(2)], use ij(1) assms(4) in simp)+
    have "j * ?W + (B + (X - 1 - i)) = j * ?W + (B - 1 - i) \<longleftrightarrow> j = j \<and> B + (X - 1 - i) = B - 1 - i"
      by (rule address_inj, use ij(1) assms(4) in simp_all)
    then show "j * ?W + (B + (X - 1 - i)) \<noteq> j * ?W + (B - 1 - i)" using ij(1) assms(4) by linarith
  qed
  also have "t ! (j * ?W + (B + i)) = img ! (mirror B Y j * X + i)" by (rule mid[OF ij(2)]) (use ij(1) assms(4) in simp)
  also have "t ! (j * ?W + (B + (X - 1 - i))) = img ! (mirror B Y j * X + (X - 1 - i))" by (rule mid[OF ij(2)]) (use ij(1) assms(4) in simp)
  finally have s: "mirror_column X B (i, j) (Some t) = Some t'" unfolding t'_def .
  have nth: "t' ! (b * ?W + c) = (if b = j \<and> c = X + B + i then img ! (mirror B Y j * X + (X - 1 - i))
      else if b = j \<and> c = B - 1 - i then img ! (mirror B Y j * X + i) else t ! (b * ?W + c))" if "b < Y + 2 * B" "c < ?W" for b c
  proof -
    have q: "(j * ?W + (B - 1 - i) = b * ?W + c) = (b = j \<and> c = B - 1 - i)" "(j * ?W + (X + B + i) = b * ?W + c) = (b = j \<and> c = X + B + i)"
      by (subst eq_commute, rule address_inj, use that ij in simp_all)+
    show ?thesis unfolding t'_def using less[OF that] by (simp only: nth_update length_list_update q)
  qed
  have "columns_ok img X Y B (insert (i, j) T) t'"
    unfolding columns_ok_def rows_ok_def
  proof (intro conjI ballI allI impI)
    show "length t' = ?W * (Y + 2 * B)" using l by (simp add: t'_def)
    fix k q assume kq: "k \<in> {0..<Y + 2 * B}" "q < X"
    then show "t' ! (k * ?W + (B + q)) = img ! (mirror B Y k * X + q)" using nth[of k "B + q"] mid[of k q] ij(1) by auto
  next
    fix p assume p: "p \<in> insert (i, j) T"
    obtain a b where ab: "p = (a, b)" by (cases p)
    then have "a < B" "b < Y + 2 * B" using p ij T by auto
    then show "case p of (i, j) \<Rightarrow> t' ! (j * ?W + (B - 1 - i)) = img ! (mirror B Y j * X + i) \<and>
        t' ! (j * ?W + (X + B + i)) = img ! (mirror B Y j * X + (X - 1 - i))"
      using p ab nth[of b "B - 1 - a"] nth[of b "X + B + a"] old[of a b] ij(1) assms(4) by auto
  qed
  then show ?thesis using s by blast
qed

lemma enlarge_mirrors:
  assumes "length img = X * Y" "length tmp = (X + 2 * B) * (Y + 2 * B)" "B \<le> X" "B \<le> Y"
  shows "\<exists>big. enlarge img tmp X Y B = Some (big, X + 2 * B, Y + 2 * B) \<and> length big = (X + 2 * B) * (Y + 2 * B) \<and>
    (\<forall>k l. k < Y + 2 * B \<and> l < X + 2 * B \<longrightarrow> big ! (k * (X + 2 * B) + l) = img ! (mirror B Y k * X + mirror B X l))"
proof -
  let ?W = "X + 2 * B"
  obtain t1 where 1: "fold (copy_row img X B) [0..<Y] (Some tmp) = Some t1" "rows_ok img X Y B ((\<lambda>i. i + B) ` {0..<Y}) t1"
    using copy_rows[OF assms(2,1)] by blast
  obtain t2 where 2: "fold (mirror_row img X Y B) [0..<B] (Some t1) = Some t2" "rows_ok img X Y B {0..<Y + 2 * B} t2"
    using mirror_rows[OF 1(2) assms(1,4)] by blast
  define I where "I T t \<longleftrightarrow> columns_ok img X Y B T t \<and> T \<subseteq> {0..<B} \<times> {0..<Y + 2 * B}" for T t
  have "\<exists>t3. fold (mirror_column X B) (List.product [0..<B] [0..<Y + 2 * B]) (Some t2) = Some t3 \<and>
      I ({} \<union> set (List.product [0..<B] [0..<Y + 2 * B])) t3"
  proof (rule fold_invariant_set)
    fix p T t assume p: "p \<in> set (List.product [0..<B] [0..<Y + 2 * B])" and t: "I T t"
    obtain i j where ij: "p = (i, j)" by (cases p)
    then have "i < B" "j < Y + 2 * B" using p by auto
    then show "\<exists>t'. mirror_column X B p (Some t) = Some t' \<and> I (insert p T) t'"
      using mirror_column_step[of img X Y B T t i j] t assms(3) ij by (auto simp: I_def)
  next
    show "I {} t2" using 2(2) by (simp add: I_def columns_ok_def)
  qed
  then obtain t3 where 3: "fold (mirror_column X B) (List.product [0..<B] [0..<Y + 2 * B]) (Some t2) = Some t3"
    "columns_ok img X Y B ({0..<B} \<times> {0..<Y + 2 * B}) t3" by (auto simp: I_def set_product)
  have mid: "t3 ! (k * ?W + (B + l)) = img ! (mirror B Y k * X + l)" if "k < Y + 2 * B" "l < X" for k l
    using 3(2) that by (simp add: columns_ok_def rows_ok_def)
  have side: "t3 ! (j * ?W + (B - 1 - i)) = img ! (mirror B Y j * X + i)" "t3 ! (j * ?W + (X + B + i)) = img ! (mirror B Y j * X + (X - 1 - i))"
    if "i < B" "j < Y + 2 * B" for i j
    using bspec[OF conjunct2[OF 3(2)[unfolded columns_ok_def]], of "(i, j)"] that by auto
  have "t3 ! (k * ?W + l) = img ! (mirror B Y k * X + mirror B X l)" if kl: "k < Y + 2 * B" "l < ?W" for k l
  proof -
    consider (left) "l < B" | (middle) "B \<le> l" "l < B + X" | (right) "B + X \<le> l" by linarith
    then show ?thesis
    proof cases
      case left
      then have "B - 1 - l < B" "B - 1 - (B - 1 - l) = l" "mirror B X l = B - 1 - l" by (auto simp: mirror_def)
      then show ?thesis using side(1)[of "B - 1 - l" k] kl(1) by simp
    next
      case middle
      then have "mirror B X l = l - B" "B + (l - B) = l" "l - B < X" by (auto simp: mirror_def)
      then show ?thesis using mid[OF kl(1), of "l - B"] by simp
    next
      case right
      then have "l - B - X < B" "X + B + (l - B - X) = l" "mirror B X l = X - 1 - (l - B - X)" using kl(2) by (auto simp: mirror_def)
      then show ?thesis using side(2)[of "l - B - X" k] kl(1) by simp
    qed
  qed
  moreover have "length t3 = ?W * (Y + 2 * B)" using 3(2) by (simp add: columns_ok_def rows_ok_def)
  moreover have "enlarge img tmp X Y B = Some (t3, ?W, Y + 2 * B)" by (simp add: enlarge_def 1(1) 2(1) 3(1))
  ultimately show ?thesis by blast
qed

section \<open>The median\<close>

lemma length_swap_step [simp]: "length (swap_step l p) = length p"
  by (simp add: swap_step_def)

lemma mset_swap_step: "l + 1 < length p \<Longrightarrow> mset (swap_step l p) = mset p"
  by (simp add: swap_step_def mset_swap)

lemma pass_moves_max:
  assumes "n < length p"
  defines "q \<equiv> fold swap_step [0..<n] p"
  shows "length q = length p \<and> mset q = mset p \<and> drop (n + 1) q = drop (n + 1) p \<and> (\<forall>k\<le>n. q ! k \<le> q ! n)"
  using assms(1) unfolding q_def
proof (induction n)
  case (Suc n)
  define q where "q = fold swap_step [0..<n] p"
  have q: "length q = length p" "mset q = mset p" "drop (n + 1) q = drop (n + 1) p" "\<And>k. k \<le> n \<Longrightarrow> q ! k \<le> q ! n"
    using Suc by (simp_all add: q_def)
  have f: "fold swap_step [0..<Suc n] p = swap_step n q" by (simp add: q_def)
  have "drop (Suc n + 1) (swap_step n q) = drop (Suc n + 1) q" by (simp add: swap_step_def)
  also have "\<dots> = drop 1 (drop (n + 1) q)" by simp
  also have "\<dots> = drop (Suc n + 1) p" unfolding q(3) by simp
  finally have d: "drop (Suc n + 1) (swap_step n q) = drop (Suc n + 1) p" .
  have "swap_step n q ! k \<le> swap_step n q ! Suc n" if "k \<le> Suc n" for k
    using that q(1) q(4)[of k] Suc.prems by (auto simp: swap_step_def nth_list_update le_Suc_eq)
  then show ?case unfolding f using q(1,2) d mset_swap_step[of n q] Suc.prems by auto
qed simp

lemma set_take_pass:
  assumes "n < length p"
  shows "set (take (n + 1) (fold swap_step [0..<n] p)) = set (take (n + 1) p)"
proof -
  let ?q = "fold swap_step [0..<n] p"
  have "mset (take (n + 1) ?q) + mset (drop (n + 1) ?q) = mset (take (n + 1) p) + mset (drop (n + 1) p)"
    unfolding mset_append[symmetric] append_take_drop_id using pass_moves_max[OF assms] by simp
  then have "mset (take (n + 1) ?q) = mset (take (n + 1) p)" using pass_moves_max[OF assms] by simp
  then show ?thesis by (metis set_mset_mset)
qed

lemma bubble_passes:
  assumes "length p = 8" "m \<le> 7"
  defines "q \<equiv> fold (\<lambda>k p. fold swap_step [0..<7 - k] p) [0..<m] p"
  shows "length q = 8 \<and> mset q = mset p \<and> (\<forall>a b. a < b \<and> b < 8 \<and> 8 - m \<le> b \<longrightarrow> q ! a \<le> q ! b)"
  using assms(2) unfolding q_def
proof (induction m)
  case (Suc m)
  define r where "r = fold (\<lambda>k p. fold swap_step [0..<7 - k] p) [0..<m] p"
  have r: "length r = 8" "mset r = mset p" "\<And>a b. a < b \<Longrightarrow> b < 8 \<Longrightarrow> 8 - m \<le> b \<Longrightarrow> r ! a \<le> r ! b" using Suc by (simp_all add: r_def)
  define q where "q = fold swap_step [0..<7 - m] r"
  have n: "7 - m < length r" using r(1) by simp
  have q: "length q = 8" "mset q = mset p" "drop (7 - m + 1) q = drop (7 - m + 1) r" "\<And>k. k \<le> 7 - m \<Longrightarrow> q ! k \<le> q ! (7 - m)"
    using pass_moves_max[OF n] r(1,2) unfolding q_def by auto
  have same: "q ! b = r ! b" if "7 - m < b" "b < 8" for b
    using arg_cong[OF q(3), of "\<lambda>xs. xs ! (b - (7 - m + 1))"] that q(1) r(1) by simp
  have "q ! a \<le> q ! b" if ab: "a < b" "b < 8" "8 - Suc m \<le> b" for a b
  proof (cases "b = 7 - m")
    case True
    then show ?thesis using q(4) ab(1) by simp
  next
    case False
    then have b: "7 - m < b" "8 - m \<le> b" using ab(3) by auto
    show ?thesis
    proof (cases "7 - m < a")
      case True
      then show ?thesis using same ab b r(3)[of a b] by simp
    next
      case False
      then have "q ! a \<in> set (take (7 - m + 1) q)" using q(1) by (auto simp: in_set_conv_nth intro!: exI[of _ a])
      then obtain c where "c < 7 - m + 1" "r ! c = q ! a"
        unfolding q_def set_take_pass[OF n] by (auto simp: in_set_conv_nth)
      then show ?thesis using same[OF b(1) ab(2)] r(3)[of c b] b ab(2) by auto
    qed
  qed
  moreover have "fold (\<lambda>k p. fold swap_step [0..<7 - k] p) [0..<Suc m] p = q" by (simp add: q_def r_def)
  ultimately show ?case using q(1,2) by auto
qed (use assms(1) in simp)

lemma bubble_sort: "length p = 8 \<Longrightarrow> bubble p = sort p"
proof -
  assume l: "length p = 8"
  have b: "length (bubble p) = 8" "mset (bubble p) = mset p" "\<And>a b. a < b \<Longrightarrow> b < 8 \<Longrightarrow> 1 \<le> b \<Longrightarrow> bubble p ! a \<le> bubble p ! b"
    using bubble_passes[OF l, of 7] by (auto simp: bubble_def)
  have "sorted (bubble p)" unfolding sorted_iff_nth_mono_less using b(1,3) by auto
  then show ?thesis using b(2) by (metis properties_for_sort)
qed

section \<open>Sums over a mask\<close>

lemma smooth_walk_sums:
  assumes "length bp = 516" "length ds = length ws" "list_all (\<lambda>q. q < length img) (visited p ds)"
    and "fits_int (A + area_sum img bp c (visited p ds) ws)" "fits_int (T + total_sum img bp c (visited p ds) ws)"
  shows "smooth_walk img bp c p ds ws (A, T) = Some (A + area_sum img bp c (visited p ds) ws, T + total_sum img bp c (visited p ds) ws)"
  using assms(2-)
proof (induction ds ws arbitrary: p A T rule: list_induct2)
  case (Cons d ds w ws)
  let ?t = "w * similar bp c (img ! p)"
  have s: "area_sum img bp c (visited p (d # ds)) (w # ws) = ?t + area_sum img bp c (visited (p + d) ds) ws"
    "total_sum img bp c (visited p (d # ds)) (w # ws) = ?t * unat (img ! p) + total_sum img bp c (visited (p + d) ds) ws"
    by (simp_all add: area_sum_def total_sum_def)
  have "fits_int (A + ?t)" using Cons.prems(2) unfolding s by (rule fits_int_mono) simp
  moreover have "fits_int (T + ?t * unat (img ! p))" using Cons.prems(3) unfolding s by (rule fits_int_mono) simp
  moreover have "smooth_walk img bp c (p + d) ds ws (A + ?t, T + ?t * unat (img ! p)) =
      Some (A + ?t + area_sum img bp c (visited (p + d) ds) ws, T + ?t * unat (img ! p) + total_sum img bp c (visited (p + d) ds) ws)"
    by (rule Cons.IH) (use Cons.prems s in \<open>simp_all add: add.assoc\<close>)
  ultimately show ?case using Cons.prems(1) unfolding s by (simp add: at_def lut_similar[OF assms(1)] add.assoc Let_def)
qed (simp add: area_sum_def total_sum_def)

lemma sums_nth:
  assumes "length qs = length ws"
  shows "area_sum img bp c qs ws = (\<Sum>k<length ws. ws ! k * similar bp c (img ! (qs ! k)))"
    and "total_sum img bp c qs ws = (\<Sum>k<length ws. ws ! k * similar bp c (img ! (qs ! k)) * unat (img ! (qs ! k)))"
  using assms by (simp_all add: area_sum_def total_sum_def sum_list_sum_nth atLeast0LessThan)

text \<open>The sums without the centre, at place \<open>z\<close>: their quotient lies between the least and the greatest brightness.\<close>

lemma weighted_mean:
  assumes l: "length qs = length ws" and z: "z < length ws" "img ! (qs ! z) = c" "similar bp c c = 100" "ws ! z * 100 = full"
    and b: "\<And>k. k < length ws \<Longrightarrow> lo \<le> unat (img ! (qs ! k)) \<and> unat (img ! (qs ! k)) \<le> hi"
  obtains A T where "area_sum img bp c qs ws = full + A" "total_sum img bp c qs ws = unat c * full + T" "lo * A \<le> T" "T \<le> hi * A"
proof -
  let ?K = "{..<length ws} - {z}" and ?f = "\<lambda>k. ws ! k * similar bp c (img ! (qs ! k))" and ?b = "\<lambda>k. unat (img ! (qs ! k))"
  have "area_sum img bp c qs ws = ?f z + (\<Sum>k\<in>?K. ?f k)" unfolding sums_nth[OF l] using z(1) by (simp add: sum.remove)
  then have "area_sum img bp c qs ws = full + (\<Sum>k\<in>?K. ?f k)" using z by simp
  moreover have "total_sum img bp c qs ws = ?f z * ?b z + (\<Sum>k\<in>?K. ?f k * ?b k)" unfolding sums_nth[OF l] using z(1) by (simp add: sum.remove)
  then have "total_sum img bp c qs ws = unat c * full + (\<Sum>k\<in>?K. ?f k * ?b k)" using z by (simp add: mult.commute)
  moreover have "lo * (\<Sum>k\<in>?K. ?f k) \<le> (\<Sum>k\<in>?K. ?f k * ?b k)"
    unfolding sum_distrib_left by (rule sum_mono) (use b in \<open>simp add: mult.commute[of lo]\<close>)
  moreover have "(\<Sum>k\<in>?K. ?f k * ?b k) \<le> hi * (\<Sum>k\<in>?K. ?f k)"
    unfolding sum_distrib_left by (rule sum_mono) (use b in \<open>simp add: mult.commute[of hi]\<close>)
  ultimately show thesis by (rule that)
qed

lemma quotient_between:
  fixes A T :: nat
  assumes "0 < A" "lo * A \<le> T" "T \<le> hi * A" "hi < 256"
  shows "lo \<le> unat (word_of_int (sgn (int T) * sgn (int A) * (\<bar>int T\<bar> div \<bar>int A\<bar>)) :: u8)"
    and "unat (word_of_int (sgn (int T) * sgn (int A) * (\<bar>int T\<bar> div \<bar>int A\<bar>)) :: u8) \<le> hi"
proof -
  have q: "lo \<le> T div A" "T div A \<le> hi"
    using assms by (simp_all add: less_eq_div_iff_mult_less_eq) (metis assms(1) div_le_mono nonzero_mult_div_cancel_right less_not_refl)
  have "sgn (int T) * sgn (int A) * (\<bar>int T\<bar> div \<bar>int A\<bar>) = int (T div A)" using assms(1) by (cases "T = 0") (simp_all add: zdiv_int)
  then have "word_of_int (sgn (int T) * sgn (int A) * (\<bar>int T\<bar> div \<bar>int A\<bar>)) = (of_nat (T div A) :: u8)" by simp
  moreover have "unat (of_nat (T div A) :: u8) = T div A" using q(2) assms(4) by (simp add: unsigned_of_nat take_bit_nat_eq_self)
  ultimately show "lo \<le> unat (word_of_int (sgn (int T) * sgn (int A) * (\<bar>int T\<bar> div \<bar>int A\<bar>)) :: u8)"
    "unat (word_of_int (sgn (int T) * sgn (int A) * (\<bar>int T\<bar> div \<bar>int A\<bar>)) :: u8) \<le> hi" using q by simp_all
qed

lemma median_between:
  assumes n: "inside 1 x y i j" and l: "length img = x * y"
    and b: "\<And>a c. a < y \<Longrightarrow> c < x \<Longrightarrow> adjacent (i, j) (a, c) \<Longrightarrow> lo \<le> unat (img ! (a * x + c)) \<and> unat (img ! (a * x + c)) \<le> hi" and "hi < 256"
  shows "\<exists>v. median img i j x = Some v \<and> lo \<le> unat v \<and> unat v \<le> hi"
proof -
  have nb: "at img (a * x + c) = Some (img ! (a * x + c))" "lo \<le> unat (img ! (a * x + c))" "unat (img ! (a * x + c)) \<le> hi"
    if "a \<in> {i - 1, i, i + 1}" "c \<in> {j - 1, j, j + 1}" for a c
  proof -
    have ac: "a < y" "c < x" using n that by (auto simp: inside_def)
    then show "at img (a * x + c) = Some (img ! (a * x + c))" using address_less[OF ac] l by (simp add: at_def)
    have "adjacent (i, j) (a, c)" using that n by (auto simp: adjacent_def inside_def)
    then show "lo \<le> unat (img ! (a * x + c))" "unat (img ! (a * x + c)) \<le> hi" using b[OF ac] by auto
  qed
  have e: "(i - 1) * x + j - 1 = (i - 1) * x + (j - 1)" "i * x + j - 1 = i * x + (j - 1)" "(i + 1) * x + j - 1 = (i + 1) * x + (j - 1)"
    "(i - 1) * x + j + 1 = (i - 1) * x + (j + 1)" "i * x + j + 1 = i * x + (j + 1)" "(i + 1) * x + j + 1 = (i + 1) * x + (j + 1)"
    using n by (auto simp: inside_def)
  define p where "p = map unat [img ! ((i - 1) * x + (j - 1)), img ! ((i - 1) * x + j), img ! ((i - 1) * x + (j + 1)), img ! (i * x + (j - 1)),
    img ! (i * x + (j + 1)), img ! ((i + 1) * x + (j - 1)), img ! ((i + 1) * x + j), img ! ((i + 1) * x + (j + 1))]"
  have m: "median img i j x = Some (of_nat ((bubble p ! 3 + bubble p ! 4) div 2))"
    unfolding median_def e p_def by (simp only: nb(1) insertI1 insertI2 Option.bind.simps Let_def)
  have "length p = 8" by (simp add: p_def)
  then have s: "length (bubble p) = 8" "set (bubble p) = set p" using bubble_sort[of p] by simp_all
  have "\<forall>v\<in>set p. lo \<le> v \<and> v \<le> hi" unfolding p_def list.map list.set
    by (simp only: ball_simps nb insert_iff simp_thms)
  then have "lo \<le> bubble p ! 3" "bubble p ! 3 \<le> hi" "lo \<le> bubble p ! 4" "bubble p ! 4 \<le> hi" using s nth_mem[of _ "bubble p"] by auto
  then have "lo \<le> (bubble p ! 3 + bubble p ! 4) div 2" "(bubble p ! 3 + bubble p ! 4) div 2 \<le> hi" by linarith+
  moreover have "unat (of_nat ((bubble p ! 3 + bubble p ! 4) div 2) :: u8) = (bubble p ! 3 + bubble p ! 4) div 2"
    using calculation(2) assms(4) by (simp add: unsigned_of_nat take_bit_nat_eq_self)
  ultimately show ?thesis using m by simp
qed

section \<open>Walks over square masks\<close>

lemma visited_append: "visited p (ds @ es) = visited p ds @ visited (p + sum_list ds) es"
  by (induction ds arbitrary: p) (simp_all add: add.assoc)

lemma visited_run: "visited p (replicate n 1 @ [d]) = [p..<p + n + 1]"
proof (induction n arbitrary: p)
  case (Suc n)
  then show ?case using upt_conv_Cons[of p "Suc (p + Suc n)"] by simp
qed simp

lemma visited_rows:
  "visited p (concat (replicate r (replicate n 1 @ [d]))) = concat (map (\<lambda>k. [p + k * (n + d)..<p + k * (n + d) + n + 1]) [0..<r])"
proof (induction r arbitrary: p)
  case (Suc r)
  have "visited p (concat (replicate (Suc r) (replicate n 1 @ [d]))) = [p..<p + n + 1] @ visited (p + (n + d)) (concat (replicate r (replicate n 1 @ [d])))"
    by (simp add: visited_append[of _ "replicate n 1 @ [d]", simplified] visited_run[simplified] sum_list_replicate)
  also have "\<dots> = [p..<p + n + 1] @ concat (map (\<lambda>k. [p + (n + d) + k * (n + d)..<p + (n + d) + k * (n + d) + n + 1]) [0..<r])"
    unfolding Suc.IH ..
  also have "\<dots> = concat (map (\<lambda>k. [p + k * (n + d)..<p + k * (n + d) + n + 1]) [0..<Suc r])"
    unfolding map_upt_Suc by (simp add: add.assoc)
  finally show ?case .
qed simp

lemma shift_upt: "map (\<lambda>b. c + b) [a..<n] = [c + a..<c + n]"
  by (induction n) auto

lemma visited_gauss:
  assumes "inside m w h i j"
  shows "visited ((i - m) * w + j - m) (gauss_moves m w) = map (\<lambda>(a, b). a * w + b) (window m i j)"
proof -
  have b: "m \<le> i" "m \<le> j" "2 * m + 1 \<le> w" using assms by (auto simp: inside_def)
  have w: "2 * m + (1 + (w - (2 * m + 1))) = w" using b(3) by simp
  have row: "[(i - m) * w + j - m + k * w..<(i - m) * w + j - m + k * w + 2 * m + 1] = map (\<lambda>b. (i - m + k) * w + b) [j - m..<j + m + 1]" for k
  proof -
    have "map (\<lambda>b. (i - m + k) * w + b) [j - m..<j + m + 1] = [(i - m + k) * w + (j - m)..<(i - m + k) * w + (j + m + 1)]"
      by (rule shift_upt)
    moreover have "(i - m + k) * w + (j - m) = (i - m) * w + j - m + k * w" using b(2) by (simp add: add_mult_distrib)
    moreover have "(i - m + k) * w + (j + m + 1) = (i - m) * w + j - m + k * w + 2 * m + 1" using b(2) by (simp add: add_mult_distrib)
    ultimately show ?thesis by (simp only:)
  qed
  have e: "i - m + (2 * m + 1) = i + m + 1" using b(1) by simp
  have up: "[i - m..<i + m + 1] = map (\<lambda>k. i - m + k) [0..<2 * m + 1]"
    unfolding shift_upt e add_0_right ..
  have "visited ((i - m) * w + j - m) (gauss_moves m w) =
      concat (map (\<lambda>k. map (\<lambda>b. (i - m + k) * w + b) [j - m..<j + m + 1]) [0..<2 * m + 1])"
    unfolding gauss_moves_def visited_rows w row ..
  also have "\<dots> = map (\<lambda>(a, b). a * w + b) (window m i j)"
    unfolding window_def product_concat_map up by (simp add: map_concat o_def)
  finally show ?thesis .
qed

lemma visited_flat:
  assumes "inside 1 w h i j"
  shows "visited ((i - 1) * w + j - 1) (flat_moves w) = map (\<lambda>(a, b). a * w + b) (window 1 i j)"
proof -
  have "gauss_moves 1 w = [1, 1, 1 + (w - 3), 1, 1, 1 + (w - 3), 1, 1, 1 + (w - 3)]"
    by (simp add: gauss_moves_def numeral_eq_Suc)
  moreover have "1 + (w - 3) = w - 2" using assms by (auto simp: inside_def)
  ultimately have "visited p (flat_moves w) = visited p (gauss_moves 1 w)" for p by (simp add: flat_moves_def)
  then show ?thesis using visited_gauss[OF assms] by simp
qed

lemma window_near:
  assumes "inside m w h i j" "(a, b) \<in> set (window m i j)"
  shows "a < h" "b < w" "\<bar>int a - int i\<bar> \<le> int m" "\<bar>int b - int j\<bar> \<le> int m"
  using assms by (auto simp: window_def inside_def)

lemma length_window: "m \<le> i \<Longrightarrow> m \<le> j \<Longrightarrow> length (window m i j) = (2 * m + 1) * (2 * m + 1)"
proof -
  assume "m \<le> i" "m \<le> j"
  then have "length [i - m..<i + m + 1] = 2 * m + 1" "length [j - m..<j + m + 1] = 2 * m + 1" by simp_all
  then show ?thesis by (simp only: window_def length_product)
qed

lemma window_centre:
  assumes "m \<le> i" "m \<le> j"
  shows "window m i j ! (m * (2 * m + 1) + m) = (i, j)"
proof -
  have l: "length [j - m..<j + m + 1] = 2 * m + 1" "length [i - m..<i + m + 1] = 2 * m + 1" using assms by simp_all
  have "m * (2 * m + 1) + m < (2 * m + 1) * (2 * m + 1)" by (rule address_less) simp_all
  then have "window m i j ! (m * (2 * m + 1) + m) =
      ([i - m..<i + m + 1] ! ((m * (2 * m + 1) + m) div (2 * m + 1)), [j - m..<j + m + 1] ! ((m * (2 * m + 1) + m) mod (2 * m + 1)))"
    unfolding window_def using product_nth[of "m * (2 * m + 1) + m" "[i - m..<i + m + 1]" "[j - m..<j + m + 1]"] unfolding l by simp
  moreover have "(m * z + m) div z = m" "(m * z + m) mod z = m" if "m < z" for z using that by simp_all
  from this[of "2 * m + 1"] have "(m * (2 * m + 1) + m) div (2 * m + 1) = m" "(m * (2 * m + 1) + m) mod (2 * m + 1) = m" by simp_all
  moreover have "[i - m..<i + m + 1] ! m = i" "[j - m..<j + m + 1] ! m = j" using assms by (simp_all add: nth_upt del: upt_Suc)
  ultimately show ?thesis by simp
qed

section \<open>One pixel\<close>

lemma smooth_pixel_between:
  assumes n: "inside m w h i j" "1 \<le> m" and l: "length img = w * h" "length bp = 516" "bp ! 258 = 100"
    and v: "visited ((i - m) * w + j - m) moves = map (\<lambda>(a, b). a * w + b) (window m i j)" "length moves = length ws"
    and ws: "length ws = (2 * m + 1) * (2 * m + 1)" "ws ! (m * (2 * m + 1) + m) * 100 = full"
    and fit: "\<And>c. fits_int (area_sum img bp c (map (\<lambda>(a, b). a * w + b) (window m i j)) ws)"
      "\<And>c. fits_int (total_sum img bp c (map (\<lambda>(a, b). a * w + b) (window m i j)) ws)"
    and b: "\<And>a c. a < h \<Longrightarrow> c < w \<Longrightarrow> \<bar>int a - int i\<bar> \<le> int m \<Longrightarrow> \<bar>int c - int j\<bar> \<le> int m \<Longrightarrow>
      lo \<le> unat (img ! (a * w + c)) \<and> unat (img ! (a * w + c)) \<le> hi" and "hi < 256"
  shows "\<exists>v. smooth_pixel img bp w moves ws m full (i, j) = Some v \<and> lo \<le> unat v \<and> unat v \<le> hi"
proof -
  let ?qs = "map (\<lambda>(a, b). a * w + b) (window m i j)" and ?c = "img ! (i * w + j)" and ?z = "m * (2 * m + 1) + m"
  have mij: "m \<le> i" "m \<le> j" using n by (auto simp: inside_def)
  have ij: "i < h" "j < w" using inside_less[OF n(1)] by auto
  have at: "at img (i * w + j) = Some ?c" using address_less[OF ij] l(1) by (simp add: at_def)
  have lq: "length ?qs = length ws" using ws(1) length_window[OF mij] by simp
  have q: "\<exists>a c. ?qs ! k = a * w + c \<and> a < h \<and> c < w \<and> \<bar>int a - int i\<bar> \<le> int m \<and> \<bar>int c - int j\<bar> \<le> int m" if "k < length ws" for k
  proof -
    have "k < length (window m i j)" using that lq by simp
    then have "window m i j ! k \<in> set (window m i j)" "?qs ! k = (\<lambda>(a, b). a * w + b) (window m i j ! k)" by simp_all
    moreover obtain a c where "window m i j ! k = (a, c)" by (cases "window m i j ! k")
    ultimately show ?thesis using window_near[OF n(1), of a c] by auto
  qed
  have "list_all (\<lambda>q. q < length img) ?qs" using q address_less l(1) lq by (fastforce simp: list_all_length)
  then have walk: "smooth_walk img bp ?c ((i - m) * w + j - m) moves ws (0, 0) = Some (area_sum img bp ?c ?qs ws, total_sum img bp ?c ?qs ws)"
    using smooth_walk_sums[OF l(2) v(2), of img "(i - m) * w + j - m" 0 ?c 0] fit unfolding v(1) by simp
  have z: "?z < length ws" unfolding ws(1) by (rule address_less) simp_all
  then have cz: "img ! (?qs ! ?z) = ?c" using lq window_centre[OF mij] by simp
  have s: "similar bp ?c ?c = 100" using l(3) by (simp add: similar_def)
  have bk: "lo \<le> unat (img ! (?qs ! k)) \<and> unat (img ! (?qs ! k)) \<le> hi" if "k < length ws" for k using q[OF that] b by fastforce
  obtain A T where AT: "area_sum img bp ?c ?qs ws = full + A" "total_sum img bp ?c ?qs ws = unat ?c * full + T" "lo * A \<le> T" "T \<le> hi * A"
    by (rule weighted_mean[OF lq z cz s ws(2) bk])
  have sp: "smooth_pixel img bp w moves ws m full (i, j) =
      (if A = 0 then median img i j w else Some (word_of_int (sgn (int T) * sgn (int A) * (\<bar>int T\<bar> div \<bar>int A\<bar>))))"
    unfolding smooth_pixel_def prod.case by (simp add: at walk AT)
  show ?thesis
  proof (cases "A = 0")
    case True
    have n1: "inside 1 w h i j" using inside_mono[OF n] .
    have "\<exists>v. median img i j w = Some v \<and> lo \<le> unat v \<and> unat v \<le> hi"
      by (rule median_between[OF n1 l(1) _ \<open>hi < 256\<close>], rule b) (use n(2) in \<open>auto simp: adjacent_def\<close>)
    then show ?thesis using sp True by simp
  next
    case False
    then have "0 < A" by simp
    from quotient_between[OF this AT(3,4) \<open>hi < 256\<close>] show ?thesis using sp False by simp
  qed
qed

section \<open>The whole image\<close>

lemma mirror_near:
  assumes "i < n" "m \<le> n" "a < n + 2 * m" "\<bar>int a - int (i + m)\<bar> \<le> int m"
  shows "\<bar>int (mirror m n a) - int i\<bar> \<le> int m"
  using assms by (auto simp: mirror_def)

lemma those_map: "(\<And>x. x \<in> set xs \<Longrightarrow> \<exists>y. f x = Some y) \<Longrightarrow> those (map f xs) = Some (map (\<lambda>x. the (f x)) xs)"
  by (induction xs) fastforce+

lemma brightness_le: "unat (b :: u8) \<le> 255"
proof -
  have "unat b < 256" using unsigned_less[of b] by simp
  then show ?thesis by simp
qed

lemma area_le_sum:
  assumes "length qs = length ws" "\<And>b. similar bp c b \<le> s"
  shows "area_sum img bp c qs ws \<le> sum_list ws * s" "total_sum img bp c qs ws \<le> sum_list ws * s * 255"
proof -
  show "area_sum img bp c qs ws \<le> sum_list ws * s" using assms(1)
  proof (induction qs ws rule: list_induct2)
    case (Cons q qs w ws)
    have "w * similar bp c (img ! q) \<le> w * s" using assms(2) by simp
    from add_mono[OF this Cons.IH] show ?case by (simp add: area_sum_def add_mult_distrib)
  qed (simp add: area_sum_def)
  show "total_sum img bp c qs ws \<le> sum_list ws * s * 255" using assms(1)
  proof (induction qs ws rule: list_induct2)
    case (Cons q qs w ws)
    have "w * similar bp c (img ! q) * unat (img ! q) \<le> w * s * 255" using assms(2) brightness_le by (simp add: mult_le_mono)
    from add_mono[OF this Cons.IH] show ?case by (simp add: total_sum_def add_mult_distrib)
  qed (simp add: total_sum_def)
qed

lemma smooth_image:
  assumes l: "length img = x * y" "length bp = 516" "bp ! 258 = 100" "length tmp = (x + 2 * m) * (y + 2 * m)" and m: "1 \<le> m" "2 * m + 1 \<le> x" "2 * m + 1 \<le> y"
    and v: "\<And>i j. inside m (x + 2 * m) (y + 2 * m) i j \<Longrightarrow>
        visited ((i - m) * (x + 2 * m) + j - m) moves = map (\<lambda>(a, b). a * (x + 2 * m) + b) (window m i j)" "length moves = length ws"
    and ws: "length ws = (2 * m + 1) * (2 * m + 1)" "ws ! (m * (2 * m + 1) + m) * 100 = full" "\<And>b c. similar bp c b \<le> s" "fits_int (sum_list ws * s * 255)"
  shows "\<exists>big out. enlarge img tmp x y m = Some (big, x + 2 * m, y + 2 * m) \<and>
    those (map (smooth_pixel big bp (x + 2 * m) moves ws m full) (inner_pixels m (x + 2 * m) (y + 2 * m))) = Some out \<and> length out = x * y \<and>
    (\<forall>i j lo hi. i < y \<and> j < x \<and> hi < 256 \<and>
       (\<forall>a b. a < y \<and> b < x \<and> \<bar>int a - int i\<bar> \<le> int m \<and> \<bar>int b - int j\<bar> \<le> int m \<longrightarrow>
          lo \<le> unat (img ! (a * x + b)) \<and> unat (img ! (a * x + b)) \<le> hi) \<longrightarrow>
       lo \<le> unat (out ! (i * x + j)) \<and> unat (out ! (i * x + j)) \<le> hi)"
proof -
  let ?w = "x + 2 * m" and ?h = "y + 2 * m"
  obtain big where e: "enlarge img tmp x y m = Some (big, ?w, ?h)" "length big = ?w * ?h"
    "\<And>k l. k < ?h \<Longrightarrow> l < ?w \<Longrightarrow> big ! (k * ?w + l) = img ! (mirror m y k * x + mirror m x l)"
    using enlarge_mirrors[OF l(1,4)] m by auto
  let ?f = "smooth_pixel big bp ?w moves ws m full"
  have fit: "fits_int (area_sum big bp c (map (\<lambda>(a, b). a * ?w + b) (window m i j)) ws)"
    "fits_int (total_sum big bp c (map (\<lambda>(a, b). a * ?w + b) (window m i j)) ws)" if "inside m ?w ?h i j" for c i j
  proof -
    have "length (map (\<lambda>(a, b). a * ?w + b) (window m i j)) = length ws" using that ws(1) length_window[of m i j] by (simp add: inside_def)
    note le = area_le_sum[OF this ws(3), of big c]
    have "sum_list ws * s \<le> sum_list ws * s * 255" by simp
    from fits_int_mono[OF ws(4) le_trans[OF le(1) this]] fits_int_mono[OF ws(4) le(2)]
    show "fits_int (area_sum big bp c (map (\<lambda>(a, b). a * ?w + b) (window m i j)) ws)"
      "fits_int (total_sum big bp c (map (\<lambda>(a, b). a * ?w + b) (window m i j)) ws)" .
  qed
  have px: "\<exists>v. ?f (i, j) = Some v \<and> lo \<le> unat v \<and> unat v \<le> hi" if "inside m ?w ?h i j" "hi < 256"
    "\<And>a c. a < ?h \<Longrightarrow> c < ?w \<Longrightarrow> \<bar>int a - int i\<bar> \<le> int m \<Longrightarrow> \<bar>int c - int j\<bar> \<le> int m \<Longrightarrow>
      lo \<le> unat (big ! (a * ?w + c)) \<and> unat (big ! (a * ?w + c)) \<le> hi" for i j lo hi
    by (rule smooth_pixel_between[OF that(1) m(1) e(2) l(2,3) v(1)[OF that(1)] v(2) ws(1,2) fit[OF that(1)] that(3,2)])
  have all: "\<exists>v. ?f p = Some v" if "p \<in> set (inner_pixels m ?w ?h)" for p
  proof -
    obtain i j where p: "p = (i, j)" by (cases p)
    show ?thesis using brightness_le px[of i j 255 0] that unfolding p by (auto simp: set_inner_pixels)
  qed
  define out where "out = map (\<lambda>p. the (?f p)) (inner_pixels m ?w ?h)"
  have th: "those (map ?f (inner_pixels m ?w ?h)) = Some out" unfolding out_def by (rule those_map[OF all])
  have up: "[m..<?h - m] = map (\<lambda>i. m + i) [0..<y]" "[m..<?w - m] = map (\<lambda>i. m + i) [0..<x]" unfolding shift_upt by (simp_all add: add.commute)
  have lens: "length [m..<?h - m] = y" "length [m..<?w - m] = x" by simp_all
  have lo: "length out = x * y" unfolding out_def inner_pixels_def length_map length_product lens by (simp add: mult.commute)
  have nth: "out ! (i * x + j) = the (?f (i + m, j + m))" if "i < y" "j < x" for i j
  proof -
    have k: "i * x + j < length [m..<?h - m] * length [m..<?w - m]" unfolding lens using address_less[OF that] by (simp add: mult.commute)
    have "inner_pixels m ?w ?h ! (i * x + j) = ([m..<?h - m] ! i, [m..<?w - m] ! j)"
      unfolding inner_pixels_def product_nth[OF k] lens using that by simp
    also have "\<dots> = (i + m, j + m)" using that by (simp add: nth_upt)
    finally show ?thesis using k unfolding out_def inner_pixels_def by (simp add: length_product del: product_nth)
  qed
  have "lo \<le> unat (out ! (i * x + j)) \<and> unat (out ! (i * x + j)) \<le> hi" if ij: "i < y" "j < x" "hi < 256"
    and b: "\<And>a b. a < y \<Longrightarrow> b < x \<Longrightarrow> \<bar>int a - int i\<bar> \<le> int m \<Longrightarrow> \<bar>int b - int j\<bar> \<le> int m \<Longrightarrow>
      lo \<le> unat (img ! (a * x + b)) \<and> unat (img ! (a * x + b)) \<le> hi" for i j lo hi
  proof -
    have n: "inside m ?w ?h (i + m) (j + m)" using ij by (simp add: inside_def)
    have "\<exists>v. ?f (i + m, j + m) = Some v \<and> lo \<le> unat v \<and> unat v \<le> hi"
    proof (rule px[OF n ij(3)])
      fix a c assume ac: "a < ?h" "c < ?w" "\<bar>int a - int (i + m)\<bar> \<le> int m" "\<bar>int c - int (j + m)\<bar> \<le> int m"
      have "mirror m y a < y" "mirror m x c < x" using mirror_less ac(1,2) m by simp_all
      then show "lo \<le> unat (big ! (a * ?w + c)) \<and> unat (big ! (a * ?w + c)) \<le> hi"
        unfolding e(3)[OF ac(1,2)] by (rule b) (rule mirror_near, use ij ac m in simp_all)+
    qed
    then show ?thesis using nth[OF ij(1,2)] by auto
  qed
  then show ?thesis using e(1) th lo by blast
qed

lemma similar_le: "brightness_ok bp \<Longrightarrow> similar bp c b \<le> 100"
proof -
  assume ok: "brightness_ok bp"
  have "258 + unat c - unat b \<in> {2..514}" using brightness_le[of c] brightness_le[of b] by auto
  then have "bp ! (258 + unat c - unat b) \<le> 100" using ok unfolding brightness_ok_def by blast
  then show ?thesis by (simp add: similar_def word_le_nat_alt)
qed

section \<open>Properties\<close>

text \<open>
  C22.  Smoothing.  With the flat mask, or with a distance table whose sum is at most 84215 (distance thresholds up to 15 have it),
  smoothing stays within its arrays and within \<open>int\<close>, writes every pixel of the image once, and each new brightness lies between the
  smallest and the largest brightness of the input within the mask around the pixel: noise is averaged, nothing overshoots.
\<close>

theorem smoothing_local_range:
  assumes "length img = x * y" "brightness_ok bp" "three_by_three \<or> distances_ok (smooth_mask three_by_three dt_mask) dp"
    and "2 * smooth_mask three_by_three dt_mask + 1 \<le> x" "2 * smooth_mask three_by_three dt_mask + 1 \<le> y"
    and "length tmp = (x + 2 * smooth_mask three_by_three dt_mask) * (y + 2 * smooth_mask three_by_three dt_mask)"
    and "fits_int ((x + 2 * smooth_mask three_by_three dt_mask) * (y + 2 * smooth_mask three_by_three dt_mask))"
  shows "\<exists>out. susan_smoothing three_by_three img False dt_mask dp x y bp tmp = Inr out \<and> length out = x * y \<and>
    (\<forall>i j lo hi. i < y \<and> j < x \<and> hi < 256 \<and>
       (\<forall>a b. a < y \<and> b < x \<and> \<bar>int a - int i\<bar> \<le> int (smooth_mask three_by_three dt_mask) \<and> \<bar>int b - int j\<bar> \<le> int (smooth_mask three_by_three dt_mask) \<longrightarrow>
          lo \<le> unat (img ! (a * x + b)) \<and> unat (img ! (a * x + b)) \<le> hi) \<longrightarrow>
       lo \<le> unat (out ! (i * x + j)) \<and> unat (out ! (i * x + j)) \<le> hi)"
proof -
  define m where "m = smooth_mask three_by_three dt_mask"
  have m: "1 \<le> m" by (simp add: m_def smooth_mask_def)
  let ?w = "x + 2 * m" and ?h = "y + 2 * m"
  define moves ws full where "moves = (if three_by_three then flat_moves ?w else gauss_moves m ?w)"
    "ws = (if three_by_three then replicate 9 1 else map unat dp)" "full = (if three_by_three then 100 else 10000 :: nat)"
  have bp: "length bp = 516" "bp ! 258 = 100" using assms(2) by (simp_all add: brightness_ok_def)
  have v: "visited ((i - m) * ?w + j - m) moves = map (\<lambda>(a, b). a * ?w + b) (window m i j)" if "inside m ?w ?h i j" for i j
    using that visited_flat[of ?w ?h i j] visited_gauss[of m ?w ?h i j] by (auto simp: moves_ws_full_def m_def smooth_mask_def)
  have ws: "length moves = length ws" "length ws = (2 * m + 1) * (2 * m + 1)" "ws ! (m * (2 * m + 1) + m) * 100 = full" "fits_int (sum_list ws * 100 * 255)"
  proof -
    show "length ws = (2 * m + 1) * (2 * m + 1)" using assms(3) by (auto simp: moves_ws_full_def m_def smooth_mask_def distances_ok_def)
    show "length moves = length ws" using assms(3)
      by (auto simp: moves_ws_full_def m_def smooth_mask_def distances_ok_def flat_moves_def gauss_moves_def length_concat sum_list_replicate)
    show "ws ! (m * (2 * m + 1) + m) * 100 = full"
    proof (cases three_by_three)
      case True
      then have "m = 1" by (simp add: m_def smooth_mask_def)
      then show ?thesis using True by (simp add: moves_ws_full_def numeral_eq_Suc)
    next
      case False
      then have d: "distances_ok m dp" using assms(3) by (simp add: m_def)
      have "m * (2 * m + 1) + m < length dp" using d address_less[of m "2 * m + 1" m "2 * m + 1"] by (simp add: distances_ok_def)
      then show ?thesis using False d by (simp add: moves_ws_full_def distances_ok_def)
    qed
    show "fits_int (sum_list ws * 100 * 255)" using assms(3)
      by (auto simp: moves_ws_full_def fits_int_def distances_ok_def sum_list_replicate)
  qed
  obtain big out where o: "enlarge img tmp x y m = Some (big, ?w, ?h)"
    "those (map (smooth_pixel big bp ?w moves ws m full) (inner_pixels m ?w ?h)) = Some out" "length out = x * y"
    "\<forall>i j lo hi. i < y \<and> j < x \<and> hi < 256 \<and>
       (\<forall>a b. a < y \<and> b < x \<and> \<bar>int a - int i\<bar> \<le> int m \<and> \<bar>int b - int j\<bar> \<le> int m \<longrightarrow>
          lo \<le> unat (img ! (a * x + b)) \<and> unat (img ! (a * x + b)) \<le> hi) \<longrightarrow>
       lo \<le> unat (out ! (i * x + j)) \<and> unat (out ! (i * x + j)) \<le> hi"
    using smooth_image[OF assms(1) bp assms(6)[folded m_def] m assms(4,5)[folded m_def] v ws(1-3) similar_le[OF assms(2)] ws(4)] by blast
  have "(if three_by_three then smooth_pixel big bp ?w (flat_moves ?w) (replicate 9 1) 1 100
         else smooth_pixel big bp ?w (gauss_moves m ?w) (map unat dp) m 10000) = smooth_pixel big bp ?w moves ws m full"
    by (simp add: moves_ws_full_def m_def smooth_mask_def)
  moreover have "(if three_by_three then 1 else dt_mask + 1) = m" by (simp add: m_def smooth_mask_def)
  moreover have "write_at 0 out img = out" using o(3) assms(1) by (simp add: write_at_def)
  ultimately have "susan_smoothing three_by_three img False dt_mask dp x y bp tmp = Inr out"
    using o(1,2) assms(4,5,7)[folded m_def] unfolding susan_smoothing_def by (simp add: Let_def mult.commute[of _ 2])
  then show ?thesis using o(3,4) unfolding m_def[symmetric] by blast
qed

theorem smoothing_local_range_witness:
  "\<exists>out. susan_smoothing False (replicate 100 7) False 0 [20, 60, 20, 60, 100, 60, 20, 60, 20] 10 10 (replicate 516 100) (replicate 144 0) = Inr out \<and> length out = 10 * 10 \<and>
    (\<forall>i j. i < 10 \<and> j < 10 \<longrightarrow> unat (out ! (i * 10 + j)) = 7)"
proof -
  have s: "smooth_mask False 0 = 1" by (simp add: smooth_mask_def)
  have b: "brightness_ok (replicate 516 100)" by (simp add: brightness_ok_def)
  have f: "fits_int ((10 + 2 * 1) * (10 + 2 * 1))" by (simp add: fits_int_def)
  have "distances_ok 1 [20, 60, 20, 60, 100, 60, 20, 60, 20]" by (simp add: distances_ok_def)
  then have d: "False \<or> distances_ok 1 [20, 60, 20, 60, 100, 60, 20, 60, 20]" ..
  from smoothing_local_range[of "replicate 100 7" 10 10 "replicate 516 100" False 0 "[20, 60, 20, 60, 100, 60, 20, 60, 20]" "replicate 144 0", unfolded s, OF _ b d _ _ _ f]
  obtain out where o: "susan_smoothing False (replicate 100 7) False 0 [20, 60, 20, 60, 100, 60, 20, 60, 20] 10 10 (replicate 516 100) (replicate 144 0) = Inr out" "length out = 10 * 10"
    "\<And>i j lo hi. i < 10 \<and> j < 10 \<and> hi < 256 \<and>
       (\<forall>a b. a < 10 \<and> b < 10 \<and> \<bar>int a - int i\<bar> \<le> int 1 \<and> \<bar>int b - int j\<bar> \<le> int 1 \<longrightarrow>
          lo \<le> unat (replicate 100 (7 :: u8) ! (a * 10 + b)) \<and> unat (replicate 100 (7 :: u8) ! (a * 10 + b)) \<le> hi) \<Longrightarrow>
       lo \<le> unat (out ! (i * 10 + j)) \<and> unat (out ! (i * 10 + j)) \<le> hi" by auto
  have "unat (out ! (i * 10 + j)) = 7" if "i < 10" "j < 10" for i j
    using o(3)[of i j 7 7] that by (simp add: nth_replicate)
  then show ?thesis using o(1,2) by blast
qed

end
