(* ===== verification/Spec2Isabelle.thy ===== *)
theory Spec2Isabelle
  imports Bitcount Basicmath Crc32 Adpcm_Driver Toast_File Blowfish_Modes Stringsearch Dijkstra Sha Patricia_Trie
    Rijndael_File Susan_Smoothing
begin

text \<open>
  \<^bold>\<open>The program.\<close>  The repository studies how soft errors change the results of programs.  It holds the
  workloads (\<^verbatim>\<open>src/mibench\<close>, C), a fork of the gem5 simulator that injects the faults (\<^verbatim>\<open>src/gemfi-dsn2015\<close>)
  and scripts that learn from the outcomes.  A fault study takes the fault-free result of a workload
  as the reference, so the library states what the workloads compute: which results are exact,
  which inverse functions really are inverse, which assertions can never fail, and where a
  workload does not do what it means to.  The telephony workloads are at its centre.

  \<^bold>\<open>Machine model.\<close>  Two's complement, little endian, \<open>char\<close> signed of 8 bits, \<open>short\<close> 16, \<open>int\<close> 32 and
  \<open>long\<close> 64 bits.  Integers whose wrap-around matters are words; the GSM code computes in \<open>long\<close> and stores to
  \<open>word\<close> (\<open>short\<close>), so its values are integers and each store to a \<open>word\<close> is an explicit \<open>s16\<close>.  Assertions
  are compiled in: a function with assertions returns an option, and \<open>None\<close> is a failed assertion.

  \<^bold>\<open>Theories, parts and sources.\<close>

  \<^item> \<^verbatim>\<open>Prelude\<close>: hexadecimal digits, population counts, block writes into arrays, words read as numbers, signed truncation.
  \<^item> \<^verbatim>\<open>Bitcount\<close>: \<^verbatim>\<open>automotive/bitcount\<close>, the seven bit counters, the benchmark loop, bit arrays and bit files.
    All counters are compared with one population count; bit files are shown to read back what was written
    up to the bits that closing drops.
  \<^item> \<^verbatim>\<open>Basicmath\<close>: \<^verbatim>\<open>automotive/basicmath/isqrt.c\<close>, the integer square root, exact.
  \<^item> \<^verbatim>\<open>Crc32\<close>: \<^verbatim>\<open>telecomm/CRC32\<close>, the table-driven checksum against the bit-serial shift register, and
    the detection of bursts.
  \<^item> \<^verbatim>\<open>Adpcm\<close>, \<^verbatim>\<open>Adpcm_Driver\<close>: \<^verbatim>\<open>telecomm/adpcm\<close>, coder and decoder with their states and the two filter programs; the decoder
    reproduces the coder's predictions, however the streams are cut into reads.
  \<^item> \<^verbatim>\<open>Gsm_Arith\<close>: \<^verbatim>\<open>add.c\<close>, the macros and the state of \<^verbatim>\<open>private.h\<close>, \<^verbatim>\<open>table.c\<close>, \<^verbatim>\<open>gsm_create.c\<close>, \<^verbatim>\<open>gsm_option.c\<close>.
    Saturating arithmetic, normalisation and division, with their ranges.
  \<^item> \<^verbatim>\<open>Gsm_Preprocess\<close>, \<^verbatim>\<open>Gsm_Lpc\<close>, \<^verbatim>\<open>Gsm_Short_Term\<close>, \<^verbatim>\<open>Gsm_Rpe\<close>, \<^verbatim>\<open>Gsm_Long_Term\<close>: the stages of the codec, one per
    source file.  Each stage is total on 16-bit data; preprocessing refines an exact filter, the lattice synthesis
    inverts the lattice analysis, the pulse coder's decoder gives what the coder reconstructs, the lag is optimal.
  \<^item> \<^verbatim>\<open>Gsm_Frame\<close>: the bit layout of \<^verbatim>\<open>gsm_encode.c\<close>, \<^verbatim>\<open>gsm_decode.c\<close>, \<^verbatim>\<open>gsm_implode.c\<close>, \<^verbatim>\<open>gsm_explode.c\<close>, a bijection.
  \<^item> \<^verbatim>\<open>Lockstep\<close>: the contract of a coder and a decoder that keep corresponding states, for streams of any length.
  \<^item> \<^verbatim>\<open>Gsm_Codec\<close>: \<^verbatim>\<open>code.c\<close>, \<^verbatim>\<open>decode.c\<close> and the entry points, on the whole state.  Coder and decoder stay in step,
    no call sequence can abort (a step relation over all handles and the shared static array of the coder), and
    the decoder survives any 33 bytes.
  \<^item> \<^verbatim>\<open>Toast_Law\<close>: the tables of \<^verbatim>\<open>toast_ulaw.c\<close> and \<^verbatim>\<open>toast_alaw.c\<close>, as an interface of a coding table beside its
    decoding table; u-law is inverse with a bounded error, A-law is not.
  \<^item> \<^verbatim>\<open>Toast\<close>: the sample formats, the Sun audio header and the conversion loops of \<^verbatim>\<open>toast.c\<close> over byte streams with
    end of file, read errors and a full device.
  \<^item> \<^verbatim>\<open>Toast_File\<close>: file names, format choice, options, \<open>process\<close> and \<open>main\<close> over a map of files; the answers of the
    operating system are an argument.  A source file is deleted only after a complete conversion of what could be read of it.
  \<^item> \<^verbatim>\<open>Blowfish_Tables\<close>, \<^verbatim>\<open>Blowfish\<close>: \<^verbatim>\<open>security/blowfish\<close>, the cipher and its key schedule on 64-bit words; they refine the
    published cipher on 32-bit words, and decryption undoes encryption under every key.
  \<^item> \<^verbatim>\<open>Blowfish_Modes\<close>: the four modes and the program \<open>bf\<close>.  Chaining and feedback are undone however a stream is cut into
    calls; the program itself appends bytes and overruns its key buffer.
  \<^item> \<^verbatim>\<open>Rijndael_Tables\<close>, \<^verbatim>\<open>Rijndael\<close>, \<^verbatim>\<open>Rijndael_Standard\<close>, \<^verbatim>\<open>Rijndael_Cipher\<close>: \<^verbatim>\<open>security/rijndael\<close>, the cipher with its tables and key schedules
    for any width of \<open>word\<close>; it is the cipher of FIPS 197, and decryption undoes encryption.
  \<^item> \<^verbatim>\<open>Rijndael_File\<close>: \<^verbatim>\<open>aesxam.c\<close>, files in chaining mode: with 32-bit words a file comes back unchanged, with 64-bit words the
    program leaves its arrays.
  \<^item> \<^verbatim>\<open>Sha\<close>: \<^verbatim>\<open>security/sha\<close> for any width of \<open>LONG\<close>: with 32 bits the standard's digest, with 64 bits a hash of
    uninitialised memory.
  \<^item> \<^verbatim>\<open>Stringsearch\<close>: \<^verbatim>\<open>office/stringsearch\<close>, three Horspool searches and the Pratt-Boyer-Moore search; all return the first
    occurrence.
  \<^item> \<^verbatim>\<open>Dijkstra\<close>: \<^verbatim>\<open>network/dijkstra\<close>, label correction with a queue; every call returns and prints a cheapest path.
  \<^item> \<^verbatim>\<open>Patricia\<close>, \<^verbatim>\<open>Patricia_Trie\<close>: \<^verbatim>\<open>network/patricia\<close> over a heap of nodes with links back up.  The structure represents a
    binary trie, search and insertion follow and extend it, and the test program recognises exactly the addresses seen before.
  \<^item> \<^verbatim>\<open>Susan\<close>, \<^verbatim>\<open>Susan_Principle\<close>, \<^verbatim>\<open>Susan_Smoothing\<close>: \<^verbatim>\<open>automotive/susan\<close>, image files, enhancement, quick corners and smoothing; the
    tables filled by floating-point exponentials are arguments.  The unrolled masks compute the USAN area, the quick detector
    finds and marks exactly the first largest responses of their windows, and smoothing stays in the range of its input.

  \<^bold>\<open>Interfaces.\<close>  \<open>inverse_filters\<close> (a filter and its inverse over the four segments of a frame) is interpreted on the
  two lattice filters; \<open>lockstep\<close> on the frame coder and decoder and on the cipher and output feedback modes; \<open>compander\<close> on
  both table pairs; \<open>horspool\<close> (what the tables of a search promise) on the three ways of filling them;
  \<open>block_cipher\<close> (a cipher on blocks and its inverse, all that chaining needs) on AES;
  \<open>susan_mask\<close> (a walk of a pointer that visits the offsets of a mask) on the circular mask and on the 3x3 mask.

  \<^bold>\<open>Loops.\<close>  Every loop of the source is a terminating recursion or a fold, with the number of
  passes the source has; the recursive bit counters, which do not return on negative arguments, and the searches and the
  queue loop, which depend on tables and a matrix, and the walks through the Patricia structure, which is cyclic, are partial functions that are
  proved to return.  No fuel is used where the code has no bound of its own.

  \<^bold>\<open>Not modelled.\<close>  Floating-point code (cubic solver, FFT, edges and full corners of \<open>susan\<close>, whose decisions are floating-point
  quotients and square roots, the compiled-out float variants of the codec), printing and
  argument handling of the drivers, file times and owners, links between files and signal handlers of \<open>toast\<close>, negative lengths in calls of Blowfish, the vendored applications, the
  simulator and the scripts.
\<close>

end
